(* ===== verification/Prelude.thy ===== *)
theory Prelude
  imports Main "HOL-Library.Word" "HOL-Library.Monad_Syntax"
begin

text \<open>
  Shared vocabulary of the development: the machine types of the C++ code, the collections
  of rewrite rules the components fill, byte buffers, and the generic lemmas on words, lists
  and options that more than one component needs.

  Conventions. An unsigned C++ integer of width \<open>w\<close> is a \<open>w word\<close>: its arithmetic wraps
  as the code's does. A \<open>size_t\<close> that only indexes or measures an existing vector is a
  \<open>nat\<close>, since it is bounded by the length of that vector; where the code lets a
  \<open>size_t\<close> wrap, the model uses a 64-bit word or writes the wrap-around out. Undefined
  behaviour of C++ (a null or dangling dereference, a read or write outside a buffer, a
  failed \<open>assert\<close>) is the value \<^term>\<open>None\<close>; a theorem that an operation returns
  \<^term>\<open>Some\<close> says that it has none.
\<close>

unbundle bit_operations_syntax

type_synonym u8 = "8 word"
type_synonym u16 = "16 word"
type_synonym u32 = "32 word"
type_synonym u64 = "64 word"
type_synonym bytes = "u8 list"

named_theorems codec_simps \<open>reads of a buffer after writes to it\<close>
named_theorems codec_defs \<open>definitions of the message encoders and decoders\<close>
named_theorems inv_defs \<open>definitions of the component invariants\<close>

section \<open>Options\<close>

lemma bind_Some_iff:
  "Option.bind m f = Some y \<longleftrightarrow> (\<exists>x. m = Some x \<and> f x = Some y)"
  by (cases m) auto

lemma option_eqI: "(\<And>y. a = Some y \<longleftrightarrow> b = Some y) \<Longrightarrow> a = b"
  by (metis not_None_eq)

text \<open>\<open>Value{}\<close> of a pointer type is \<open>nullptr\<close>.\<close>

instantiation option :: (type) default
begin

definition "default_option = (None :: 'a option)"

instance ..

end

section \<open>Words and naturals\<close>

lemma unat_word64_of_nat [simp]: "n < 2 ^ 64 \<Longrightarrow> unat (word_of_nat n :: u64) = n"
  by (simp add: unat_of_nat take_bit_eq_mod)

lemma unat_u8_less: "unat (x :: u8) < 256"
  using unsigned_less [of x] by simp

lemma unat_u16_less: "unat (x :: u16) < 65536"
  using unsigned_less [of x] by simp

lemma unat_u32_less: "unat (x :: u32) < 4294967296"
  using unsigned_less [of x] by simp

lemma unat_u64_less: "unat (x :: u64) < 18446744073709551616"
  using unsigned_less [of x] by simp

section \<open>Indices in a ring of a power of two\<close>

lemma and_pow2_mask: "(i::nat) AND (2 ^ k - 1) = i mod 2 ^ k"
proof -
  have "(2::nat) ^ k - 1 = mask k" by (simp add: mask_eq_exp_minus_1)
  then show ?thesis by (simp add: take_bit_eq_mod flip: take_bit_eq_mask)
qed

lemma and_pow2_mask_Suc [simp]: "(i::nat) AND (2 ^ k - Suc 0) = i mod 2 ^ k"
  using and_pow2_mask [of i k] by simp

section \<open>Byte buffers\<close>

text \<open>
  A buffer is a list of bytes. \<open>byte_at\<close> and \<open>put_byte\<close> are \<open>p[i]\<close> as a read and as a
  write; \<open>rd\<close> and \<open>wr\<close> are the two sides of a \<open>memcpy\<close>. All four are \<^term>\<open>None\<close>
  outside the buffer.
\<close>

definition byte_at :: "bytes \<Rightarrow> nat \<Rightarrow> u8 option" where
  "byte_at m i = (if i < length m then Some (m ! i) else None)"

definition put_byte :: "bytes \<Rightarrow> nat \<Rightarrow> u8 \<Rightarrow> bytes option" where
  "put_byte m i b = (if i < length m then Some (m[i := b]) else None)"

definition rd :: "bytes \<Rightarrow> nat \<Rightarrow> nat \<Rightarrow> bytes option" where
  "rd m i n = (if i + n \<le> length m then Some (take n (drop i m)) else None)"

definition blit :: "bytes \<Rightarrow> nat \<Rightarrow> bytes \<Rightarrow> bytes" where
  "blit m i bs = take i m @ take (length m - i) bs @ drop (i + length bs) m"

definition wr :: "bytes \<Rightarrow> nat \<Rightarrow> bytes \<Rightarrow> bytes option" where
  "wr m i bs = (if i + length bs \<le> length m then Some (blit m i bs) else None)"

lemma blit_in_range:
  "i + length bs \<le> length m \<Longrightarrow> blit m i bs = take i m @ bs @ drop (i + length bs) m"
proof -
  assume "i + length bs \<le> length m"
  then have "length bs \<le> length m - i" by arith
  then show ?thesis by (simp add: blit_def)
qed

lemma wr_Some [codec_simps]: "i + length bs \<le> length m \<Longrightarrow> wr m i bs = Some (blit m i bs)"
  by (simp add: wr_def)

lemma length_blit [codec_simps]: "length (blit m i bs) = length m"
  by (cases "i + length bs \<le> length m") (auto simp: blit_def)

lemma rd_Some_iff: "rd m i n = Some bs \<longleftrightarrow> i + n \<le> length m \<and> bs = take n (drop i m)"
  by (auto simp: rd_def)

lemma rd_blit_same [codec_simps]:
  "n = length bs \<Longrightarrow> i + length bs \<le> length m \<Longrightarrow> rd (blit m i bs) i n = Some bs"
  by (simp add: rd_def blit_in_range)

lemma rd_blit_before [codec_simps]:
  "j + n \<le> i \<Longrightarrow> i + length bs \<le> length m \<Longrightarrow> rd (blit m i bs) j n = rd m j n"
proof -
  assume a: "j + n \<le> i" "i + length bs \<le> length m"
  then have "drop j (take i m @ bs @ drop (i + length bs) m)
      = take (i - j) (drop j m) @ bs @ drop (i + length bs) m"
    by (simp add: drop_take)
  moreover have "take n (take (i - j) (drop j m) @ bs @ drop (i + length bs) m) = take n (drop j m)"
  proof -
    have "n \<le> i - j" "n \<le> length m - j" using a by arith+
    then show ?thesis by (simp add: min_absorb1)
  qed
  ultimately show ?thesis using a by (simp add: rd_def blit_in_range)
qed

lemma rd_blit_after [codec_simps]:
  "i + length bs \<le> j \<Longrightarrow> i + length bs \<le> length m \<Longrightarrow> rd (blit m i bs) j n = rd m j n"
  by (auto simp: rd_def blit_in_range)

lemma rd_take [codec_simps]: "i + n \<le> k \<Longrightarrow> k \<le> length m \<Longrightarrow> rd (take k m) i n = rd m i n"
  by (auto simp: rd_def drop_take min_def)

lemma take_blit [codec_simps]:
  "i + length bs \<le> k \<Longrightarrow> k \<le> length m \<Longrightarrow> take k (blit m i bs) = blit (take k m) i bs"
proof -
  assume a: "i + length bs \<le> k" "k \<le> length m"
  then have "length bs \<le> k - i" and "i \<le> k" and "i \<le> length m" by arith+
  with a show ?thesis
    by (simp add: blit_in_range drop_take min_absorb1 min_absorb2 diff_diff_left)
qed

lemma drop_blit [codec_simps]:
  "i + length bs \<le> k \<Longrightarrow> k \<le> length m \<Longrightarrow> drop k (blit m i bs) = drop k m"
  by (simp add: blit_in_range)

lemma byte_at_rd: "byte_at m i = map_option (\<lambda>bs. bs ! 0) (rd m i 1)"
  by (auto simp: byte_at_def rd_def)

lemma put_byte_wr: "put_byte m i b = wr m i [b]"
  by (auto simp: put_byte_def wr_def blit_in_range upd_conv_take_nth_drop)

lemma wr_append:
  "Option.bind (wr m i bs) (\<lambda>m'. wr m' (i + length bs) cs) = wr m i (bs @ cs)"
proof (cases "i + length bs + length cs \<le> length m")
  case True
  let ?m = "blit m i bs"
  have "i \<le> length m" and b: "i + length bs \<le> length m" using True by simp_all
  then have "take (i + length bs) ?m = take i m @ bs"
    by (simp add: blit_in_range min_absorb2)
  moreover have "drop (i + length bs + length cs) ?m = drop (i + length (bs @ cs)) m"
    using True b by (simp add: drop_blit add.assoc)
  moreover have "blit ?m (i + length bs) cs
      = take (i + length bs) ?m @ cs @ drop (i + length bs + length cs) ?m"
    using True by (intro blit_in_range) (simp add: length_blit)
  moreover have "blit m i (bs @ cs) = take i m @ (bs @ cs) @ drop (i + length (bs @ cs)) m"
    using True by (intro blit_in_range) simp
  ultimately show ?thesis
    using True b by (simp add: wr_def length_blit)
next
  case False
  then show ?thesis by (simp add: wr_def length_blit)
qed

end
