(* ===== verification/BigEndian.thy ===== *)
theory BigEndian
  imports Prelude
begin

text \<open>
  The big-endian helpers of \<open>include/ItchMessages.hpp\<close> (\<open>be16\<close> to \<open>be64\<close> and
  \<open>putBe16\<close> to \<open>putBe64\<close>), used by the ITCH codec and by MoldUDP64. A pointer
  \<open>p + i\<close> into a buffer is the pair of the buffer and the offset \<open>i\<close>.

  The locale \<open>be_codec\<close> is the contract of a fixed-width field: reading is a decoder of
  the bytes at the offset, writing stores the encoder's bytes, and the two are inverse. It is
  interpreted on all four widths; its lemmas \<open>get_put\<close> and the frame lemmas carry the
  round trips of the message layouts.
\<close>

section \<open>The helpers\<close>

definition be16 :: "bytes \<Rightarrow> nat \<Rightarrow> u16 option" where
  "be16 p i = do {
     a \<leftarrow> byte_at p i;
     b \<leftarrow> byte_at p (i + 1);
     Some (push_bit 8 (ucast a) OR ucast b)
   }"

definition be32 :: "bytes \<Rightarrow> nat \<Rightarrow> u32 option" where
  "be32 p i = do {
     a \<leftarrow> byte_at p i;
     b \<leftarrow> byte_at p (i + 1);
     c \<leftarrow> byte_at p (i + 2);
     d \<leftarrow> byte_at p (i + 3);
     Some (push_bit 24 (ucast a) OR push_bit 16 (ucast b) OR push_bit 8 (ucast c) OR ucast d)
   }"

definition be48 :: "bytes \<Rightarrow> nat \<Rightarrow> u64 option" where
  "be48 p i = do {
     hi \<leftarrow> be16 p i;
     lo \<leftarrow> be32 p (i + 2);
     Some (push_bit 32 (ucast hi) OR ucast lo)
   }"

definition be64 :: "bytes \<Rightarrow> nat \<Rightarrow> u64 option" where
  "be64 p i = do {
     hi \<leftarrow> be32 p i;
     lo \<leftarrow> be32 p (i + 4);
     Some (push_bit 32 (ucast hi) OR ucast lo)
   }"

definition putBe16 :: "bytes \<Rightarrow> nat \<Rightarrow> u16 \<Rightarrow> bytes option" where
  "putBe16 p i v = do {
     p \<leftarrow> put_byte p i (ucast (drop_bit 8 v));
     put_byte p (i + 1) (ucast v)
   }"

definition putBe32 :: "bytes \<Rightarrow> nat \<Rightarrow> u32 \<Rightarrow> bytes option" where
  "putBe32 p i v = do {
     p \<leftarrow> putBe16 p i (ucast (drop_bit 16 v));
     putBe16 p (i + 2) (ucast v)
   }"

definition putBe48 :: "bytes \<Rightarrow> nat \<Rightarrow> u64 \<Rightarrow> bytes option" where
  "putBe48 p i v = do {
     p \<leftarrow> putBe16 p i (ucast (drop_bit 32 v));
     putBe32 p (i + 2) (ucast v)
   }"

definition putBe64 :: "bytes \<Rightarrow> nat \<Rightarrow> u64 \<Rightarrow> bytes option" where
  "putBe64 p i v = do {
     p \<leftarrow> putBe32 p i (ucast (drop_bit 32 v));
     putBe32 p (i + 4) (ucast v)
   }"

section \<open>The bytes of a field\<close>

definition bytes16 :: "u16 \<Rightarrow> bytes" where
  "bytes16 v = [ucast (drop_bit 8 v), ucast v]"

definition bytes32 :: "u32 \<Rightarrow> bytes" where
  "bytes32 v = bytes16 (ucast (drop_bit 16 v)) @ bytes16 (ucast v)"

definition bytes48 :: "u64 \<Rightarrow> bytes" where
  "bytes48 v = bytes16 (ucast (drop_bit 32 v)) @ bytes32 (ucast v)"

definition bytes64 :: "u64 \<Rightarrow> bytes" where
  "bytes64 v = bytes32 (ucast (drop_bit 32 v)) @ bytes32 (ucast v)"

lemma length_bytes [simp]:
  "length (bytes16 a) = 2" "length (bytes32 b) = 4"
  "length (bytes48 c) = 6" "length (bytes64 d) = 8"
  by (simp_all add: bytes16_def bytes32_def bytes48_def bytes64_def)

lemma putBe16_wr: "putBe16 p i v = wr p i (bytes16 v)"
  using wr_append [of p i "[ucast (drop_bit 8 v)]" "[ucast v]"]
  by (simp add: putBe16_def put_byte_wr bytes16_def)

lemma putBe32_wr: "putBe32 p i v = wr p i (bytes32 v)"
  using wr_append [of p i "bytes16 (ucast (drop_bit 16 v))" "bytes16 (ucast v)"]
  by (simp add: putBe32_def putBe16_wr bytes32_def)

lemma putBe48_wr: "putBe48 p i v = wr p i (bytes48 v)"
  using wr_append [of p i "bytes16 (ucast (drop_bit 32 v))" "bytes32 (ucast v)"]
  by (simp add: putBe48_def putBe16_wr putBe32_wr bytes48_def)

lemma putBe64_wr: "putBe64 p i v = wr p i (bytes64 v)"
  using wr_append [of p i "bytes32 (ucast (drop_bit 32 v))" "bytes32 (ucast v)"]
  by (simp add: putBe64_def putBe32_wr bytes64_def)

section \<open>Decoding the bytes\<close>

definition dec16 :: "bytes \<Rightarrow> u16" where
  "dec16 bs = push_bit 8 (ucast (bs ! 0)) OR ucast (bs ! 1)"

definition dec32 :: "bytes \<Rightarrow> u32" where
  "dec32 bs = push_bit 24 (ucast (bs ! 0)) OR push_bit 16 (ucast (bs ! 1))
     OR push_bit 8 (ucast (bs ! 2)) OR ucast (bs ! 3)"

definition dec48 :: "bytes \<Rightarrow> u64" where
  "dec48 bs = push_bit 32 (ucast (dec16 (take 2 bs))) OR ucast (dec32 (drop 2 bs))"

definition dec64 :: "bytes \<Rightarrow> u64" where
  "dec64 bs = push_bit 32 (ucast (dec32 (take 4 bs))) OR ucast (dec32 (drop 4 bs))"

lemma be16_rd: "be16 p i = map_option dec16 (rd p i 2)"
  by (auto simp: be16_def dec16_def byte_at_def rd_def)

lemma be32_rd: "be32 p i = map_option dec32 (rd p i 4)"
  by (auto simp: be32_def dec32_def byte_at_def rd_def)

lemma be48_rd: "be48 p i = map_option dec48 (rd p i 6)"
  by (auto simp: be48_def dec48_def be16_rd be32_rd rd_def take_drop add.commute min_def)

lemma be64_rd: "be64 p i = map_option dec64 (rd p i 8)"
  by (auto simp: be64_def dec64_def be32_rd rd_def take_drop add.commute min_def)

lemma dec16_bytes16 [simp]: "dec16 (bytes16 v) = v"
  by (rule bit_word_eqI) (auto simp: dec16_def bytes16_def bit_simps not_less)

lemma dec32_bytes32 [simp]: "dec32 (bytes32 v) = v"
  by (rule bit_word_eqI) (auto simp: dec32_def bytes32_def bytes16_def bit_simps not_less)

lemma dec64_bytes64 [simp]: "dec64 (bytes64 v) = v"
  by (rule bit_word_eqI) (auto simp: dec64_def bytes64_def bit_simps not_less)

text \<open>And back: the bytes of a decoded number.\<close>

lemma bytes16_dec16: "length bs = 2 \<Longrightarrow> bytes16 (dec16 bs) = bs"
proof -
  assume "length bs = 2"
  then obtain a b where bs: "bs = [a, b]" by (auto simp: length_Suc_conv numeral_2_eq_2)
  have "ucast (drop_bit 8 (push_bit 8 (ucast a) OR ucast b :: u16)) = a" "ucast (push_bit 8 (ucast a) OR ucast b :: u16) = b"
    by (rule bit_word_eqI; auto simp: bit_simps dest: bit_imp_le_length)+
  then show ?thesis by (simp add: bs bytes16_def dec16_def)
qed

lemma bytes32_dec32: "length bs = 4 \<Longrightarrow> bytes32 (dec32 bs) = bs"
proof -
  assume "length bs = 4"
  then obtain a b c d where bs: "bs = [a, b, c, d]" by (auto simp: length_Suc_conv eval_nat_numeral)
  have "ucast (drop_bit 16 (dec32 [a, b, c, d])) = dec16 [a, b]" "ucast (dec32 [a, b, c, d]) = dec16 [c, d]"
    by (rule bit_word_eqI; auto simp: dec32_def dec16_def bit_simps not_less dest: bit_imp_le_length)+
  then show ?thesis using bytes16_dec16 [of "[a, b]"] bytes16_dec16 [of "[c, d]"] by (simp add: bs bytes32_def)
qed

lemma bytes48_dec48: "length bs = 6 \<Longrightarrow> bytes48 (dec48 bs) = bs"
proof -
  assume len: "length bs = 6"
  have "ucast (drop_bit 32 (dec48 bs)) = dec16 (take 2 bs)" "ucast (dec48 bs) = dec32 (drop 2 bs)"
    by (rule bit_word_eqI; auto simp: dec48_def bit_simps dest: bit_imp_le_length)+
  then show ?thesis using len bytes16_dec16 [of "take 2 bs"] bytes32_dec32 [of "drop 2 bs"] by (simp add: bytes48_def)
qed

lemma bytes64_dec64: "length bs = 8 \<Longrightarrow> bytes64 (dec64 bs) = bs"
proof -
  assume len: "length bs = 8"
  have "ucast (drop_bit 32 (dec64 bs)) = dec32 (take 4 bs)" "ucast (dec64 bs) = dec32 (drop 4 bs)"
    by (rule bit_word_eqI; auto simp: dec64_def bit_simps dest: bit_imp_le_length)+
  then show ?thesis using len bytes32_dec32 [of "take 4 bs"] bytes32_dec32 [of "drop 4 bs"] by (simp add: bytes64_def)
qed

definition fits48 :: "u64 \<Rightarrow> bool" where
  "fits48 v \<longleftrightarrow> v < 2 ^ 48"

lemma fits48_bit: "fits48 v \<Longrightarrow> bit v n \<Longrightarrow> n < 48"
proof (rule ccontr)
  assume v: "fits48 v" "bit v n" "\<not> n < 48"
  then have "unat (drop_bit 48 v) = 0"
    by (simp add: fits48_def word_less_nat_alt drop_bit_eq_div unat_div)
  then have "drop_bit 48 v = 0" by (simp only: unat_eq_zero)
  then have "\<not> bit (drop_bit 48 v) (n - 48)" by simp
  then show False using v by (simp add: bit_simps)
qed

lemma dec48_bytes48: "fits48 v \<Longrightarrow> dec48 (bytes48 v) = v"
  by (rule bit_word_eqI)
    (auto simp: dec48_def bytes48_def bit_simps not_less dest: fits48_bit)

text \<open>Two buffers with the same bytes at the offsets \<open>S\<close>; copying a field makes them agree there.\<close>

definition same_on :: "nat set \<Rightarrow> bytes \<Rightarrow> bytes \<Rightarrow> bool" where
  "same_on S p m \<longleftrightarrow> length p = length m \<and> (\<forall>i\<in>S. i < length m \<longrightarrow> p ! i = m ! i)"

lemma same_blit:
  assumes "same_on S p m" "i + w \<le> length m" "bs = take w (drop i m)"
  shows "same_on (S \<union> {i ..< i + w}) (blit p i bs) m"
proof -
  have len: "length p = length m" "length bs = w" using assms by (simp_all add: same_on_def)
  have "blit p i bs = take i p @ bs @ drop (i + w) p" using assms(2) len by (simp add: blit_in_range)
  then have "blit p i bs ! k = (if i \<le> k \<and> k < i + w then m ! k else p ! k)" if "k < length m" for k
    using that assms(2,3) len by (auto simp: nth_append)
  then show ?thesis using assms(1) len by (auto simp: same_on_def length_blit)
qed

lemma same_more: "same_on T p m \<Longrightarrow> S \<subseteq> T \<Longrightarrow> same_on S p m"
  by (auto simp: same_on_def)

lemma same_len: "same_on S p m \<Longrightarrow> length p = length m"
  by (simp add: same_on_def)

section \<open>The contract of a fixed-width field\<close>

locale be_codec =
  fixes width :: nat
    and get :: "bytes \<Rightarrow> nat \<Rightarrow> 'v option"
    and put :: "bytes \<Rightarrow> nat \<Rightarrow> 'v \<Rightarrow> bytes option"
    and enc :: "'v \<Rightarrow> bytes"
    and dec :: "bytes \<Rightarrow> 'v"
    and fits :: "'v \<Rightarrow> bool"
  assumes length_enc: "length (enc v) = width"
    and put_eq: "put p i v = wr p i (enc v)"
    and get_eq: "get p i = map_option dec (rd p i width)"
    and dec_enc: "fits v \<Longrightarrow> dec (enc v) = v"
    and enc_dec: "length bs = width \<Longrightarrow> enc (dec bs) = bs"
begin

text \<open>Reads and writes inside the buffer are defined; reads and writes outside are not.\<close>

lemma get_in_range: "i + width \<le> length p \<Longrightarrow> get p i = Some (dec (take width (drop i p)))"
  by (simp add: get_eq rd_def)

lemma get_out_of_range: "\<not> i + width \<le> length p \<Longrightarrow> get p i = None"
  by (simp add: get_eq rd_def)

lemma put_in_range: "i + width \<le> length p \<Longrightarrow> put p i v = Some (blit p i (enc v))"
  by (simp add: put_eq wr_def length_enc)

lemma put_out_of_range: "\<not> i + width \<le> length p \<Longrightarrow> put p i v = None"
  by (simp add: put_eq wr_def length_enc)

text \<open>What was written is read back, and other writes do not disturb it.\<close>

lemma get_blit_same:
  "i + width \<le> length p \<Longrightarrow> fits v \<Longrightarrow> get (blit p i (enc v)) i = Some v"
  by (simp add: get_eq rd_blit_same length_enc dec_enc)

lemma get_blit_before:
  "i + width \<le> j \<Longrightarrow> j + length bs \<le> length p \<Longrightarrow> get (blit p j bs) i = get p i"
  by (simp add: get_eq rd_blit_before)

lemma get_blit_after:
  "j + length bs \<le> i \<Longrightarrow> j + length bs \<le> length p \<Longrightarrow> get (blit p j bs) i = get p i"
  by (simp add: get_eq rd_blit_after)

lemma get_take: "i + width \<le> k \<Longrightarrow> k \<le> length p \<Longrightarrow> get (take k p) i = get p i"
  by (simp add: get_eq rd_take)

lemma get_put: "put p i v = Some p' \<Longrightarrow> fits v \<Longrightarrow> get p' i = Some v"
  by (cases "i + width \<le> length p") (auto simp: put_in_range put_out_of_range get_blit_same)

lemma length_put: "put p i v = Some p' \<Longrightarrow> length p' = length p"
  by (cases "i + width \<le> length p")
    (auto simp: put_in_range put_out_of_range length_blit length_enc)

text \<open>A field read from \<open>m\<close> and put where it was read makes a buffer agree with \<open>m\<close> there.\<close>

lemma put_back:
  assumes "same_on S p m" "i + width \<le> length m"
  shows "\<exists>v p'. get m i = Some v \<and> put p i v = Some p' \<and> same_on (S \<union> {i ..< i + width}) p' m"
  using same_blit [OF assms] assms same_len [OF assms(1)] by (simp add: get_in_range put_in_range enc_dec)

end

interpretation be8: be_codec 1 byte_at put_byte "\<lambda>v. [v]" "\<lambda>bs. bs ! 0" "\<lambda>_. True"
  by unfold_locales (auto simp: put_byte_wr byte_at_rd length_Suc_conv)

interpretation be16: be_codec 2 be16 putBe16 bytes16 dec16 "\<lambda>_. True"
  by unfold_locales (simp_all add: putBe16_wr be16_rd bytes16_dec16)

interpretation be32: be_codec 4 be32 putBe32 bytes32 dec32 "\<lambda>_. True"
  by unfold_locales (simp_all add: putBe32_wr be32_rd bytes32_dec32)

interpretation be48: be_codec 6 be48 putBe48 bytes48 dec48 fits48
  by unfold_locales (simp_all add: putBe48_wr be48_rd dec48_bytes48 bytes48_dec48)

interpretation be64: be_codec 8 be64 putBe64 bytes64 dec64 "\<lambda>_. True"
  by unfold_locales (simp_all add: putBe64_wr be64_rd bytes64_dec64)

lemmas codec_reads [codec_simps] =
  be8.get_blit_same be8.get_blit_before be8.get_blit_after be8.get_take
  be16.get_blit_same be16.get_blit_before be16.get_blit_after be16.get_take
  be32.get_blit_same be32.get_blit_before be32.get_blit_after be32.get_take
  be48.get_blit_same be48.get_blit_before be48.get_blit_after be48.get_take
  be64.get_blit_same be64.get_blit_before be64.get_blit_after be64.get_take

lemmas codec_writes [codec_simps] =
  be8.put_in_range be16.put_in_range be32.put_in_range be48.put_in_range be64.put_in_range

end
