(* ===== verification/ItchMessages.thy ===== *)
theory ItchMessages
  imports BigEndian
begin

text \<open>
  NASDAQ TotalView-ITCH 5.0 messages: \<open>include/ItchMessages.hpp\<close>.

  The message lengths, the decoded structs (one record each, fields in the source's order),
  the decoders at their specified offsets, the encoders, and \<open>dispatch\<close>. A message is the
  byte list a \<open>std::span\<close> covers, so a decoder that read past its end would be
  \<^term>\<open>None\<close>. The encoders write into a caller's buffer and return the message length
  with the buffer. A handler (the \<open>ItchHandler\<close> concept) is a record of its ten methods on
  a state type \<open>'h\<close>; a method may have undefined behaviour, hence the option. The round trip goes both ways: from
  the fields of a call to bytes and back, and from the bytes of a message to the call and back.

  The locale \<open>itch_client\<close> is what \<open>dispatch\<close> may assume of a handler and what its callers
  get from it.
\<close>

section \<open>Characters\<close>

definition char_of_byte :: "u8 \<Rightarrow> char" where
  "char_of_byte b = char_of (unat b)"

definition byte_of_char :: "char \<Rightarrow> u8" where
  "byte_of_char c = word_of_nat (of_char c)"

lemma char_byte_inverse [simp]: "char_of_byte (byte_of_char c) = c"
proof -
  have "of_char c < (256::nat)" by simp
  then show ?thesis by (simp add: char_of_byte_def byte_of_char_def unat_of_nat take_bit_eq_mod)
qed

lemma map_char_byte_inverse [simp]: "map char_of_byte (map byte_of_char s) = s"
  by (simp add: comp_def)

text \<open>\<open>memcpy\<close> of \<open>n\<close> bytes out of a message into a char array, and of a char array into
  a message.\<close>

definition chars_at :: "bytes \<Rightarrow> nat \<Rightarrow> nat \<Rightarrow> string option" where
  "chars_at m i n = map_option (map char_of_byte) (rd m i n)"

definition put_chars :: "bytes \<Rightarrow> nat \<Rightarrow> nat \<Rightarrow> string \<Rightarrow> bytes option" where
  "put_chars m i n s =
     (if n \<le> length s then wr m i (map byte_of_char (take n s)) else None)"

lemma chars_at_in_range: "i + n \<le> length m \<Longrightarrow> \<exists>s. chars_at m i n = Some s"
  by (simp add: chars_at_def rd_def)

lemma chars_codec [codec_simps]:
  "n = length s \<Longrightarrow> i + n \<le> length m \<Longrightarrow> put_chars m i n s = Some (blit m i (map byte_of_char s))"
  "n = length s \<Longrightarrow> i + n \<le> length m \<Longrightarrow> chars_at (blit m i (map byte_of_char s)) i n = Some s"
  "i + n \<le> j \<Longrightarrow> j + length bs \<le> length m \<Longrightarrow> chars_at (blit m j bs) i n = chars_at m i n"
  "j + length bs \<le> i \<Longrightarrow> j + length bs \<le> length m \<Longrightarrow> chars_at (blit m j bs) i n = chars_at m i n"
  "i + n \<le> k \<Longrightarrow> k \<le> length m \<Longrightarrow> chars_at (take k m) i n = chars_at m i n"
  by (simp_all add: put_chars_def chars_at_def codec_simps comp_def)

section \<open>Message lengths\<close>

definition messageLength :: "char \<Rightarrow> nat" where
  "messageLength t =
    (if t = CHR ''S'' then 12
     else if t = CHR ''R'' then 39
     else if t = CHR ''H'' then 25
     else if t = CHR ''Y'' then 20
     else if t = CHR ''L'' then 26
     else if t = CHR ''V'' then 35
     else if t = CHR ''W'' then 12
     else if t = CHR ''K'' then 28
     else if t = CHR ''J'' then 35
     else if t = CHR ''h'' then 21
     else if t = CHR ''A'' then 36
     else if t = CHR ''F'' then 40
     else if t = CHR ''E'' then 31
     else if t = CHR ''C'' then 36
     else if t = CHR ''X'' then 23
     else if t = CHR ''D'' then 19
     else if t = CHR ''U'' then 35
     else if t = CHR ''P'' then 44
     else if t = CHR ''Q'' then 40
     else if t = CHR ''B'' then 19
     else if t = CHR ''I'' then 50
     else if t = CHR ''N'' then 20
     else if t = CHR ''O'' then 48
     else 0)"

section \<open>Decoded messages\<close>

record itch_header =
  h_type :: char
  h_locate :: u16
  h_tracking :: u16
  h_timestamp :: u64

record add_order =
  ao_ref :: u64
  ao_side :: char
  ao_shares :: u32
  ao_stock :: string
  ao_price :: u32

record order_executed =
  oe_ref :: u64
  oe_shares :: u32
  oe_match :: u64

record order_executed_with_price =
  oewp_ref :: u64
  oewp_shares :: u32
  oewp_match :: u64
  oewp_printable :: char
  oewp_price :: u32

record order_cancel =
  oc_ref :: u64
  oc_shares :: u32

record order_delete =
  od_ref :: u64

record order_replace =
  or_oldRef :: u64
  or_newRef :: u64
  or_shares :: u32
  or_price :: u32

record itch_trade =
  tr_ref :: u64
  tr_side :: char
  tr_shares :: u32
  tr_stock :: string
  tr_price :: u32
  tr_match :: u64

record stock_directory =
  sd_stock :: string

record system_event =
  se_code :: char

record trading_action =
  ta_stock :: string
  ta_state :: char
  ta_reason :: string

section \<open>Decoders\<close>

definition decodeHeader :: "bytes \<Rightarrow> itch_header option" where
  "decodeHeader m = do {
     t \<leftarrow> byte_at m 0; l \<leftarrow> be16 m 1; k \<leftarrow> be16 m 3; ts \<leftarrow> be48 m 5;
     Some \<lparr>h_type = char_of_byte t, h_locate = l, h_tracking = k, h_timestamp = ts\<rparr>
   }"

definition decodeAddOrder :: "bytes \<Rightarrow> add_order option" where
  "decodeAddOrder m = do {
     r \<leftarrow> be64 m 11; s \<leftarrow> byte_at m 19; n \<leftarrow> be32 m 20; p \<leftarrow> be32 m 32;
     stock \<leftarrow> chars_at m 24 8;
     Some \<lparr>ao_ref = r, ao_side = char_of_byte s, ao_shares = n, ao_stock = stock, ao_price = p\<rparr>
   }"

definition decodeOrderExecuted :: "bytes \<Rightarrow> order_executed option" where
  "decodeOrderExecuted m = do {
     r \<leftarrow> be64 m 11; n \<leftarrow> be32 m 19; k \<leftarrow> be64 m 23;
     Some \<lparr>oe_ref = r, oe_shares = n, oe_match = k\<rparr>
   }"

definition decodeOrderExecutedWithPrice :: "bytes \<Rightarrow> order_executed_with_price option" where
  "decodeOrderExecutedWithPrice m = do {
     r \<leftarrow> be64 m 11; n \<leftarrow> be32 m 19; k \<leftarrow> be64 m 23; c \<leftarrow> byte_at m 31; p \<leftarrow> be32 m 32;
     Some \<lparr>oewp_ref = r, oewp_shares = n, oewp_match = k, oewp_printable = char_of_byte c,
           oewp_price = p\<rparr>
   }"

definition decodeOrderCancel :: "bytes \<Rightarrow> order_cancel option" where
  "decodeOrderCancel m = do {
     r \<leftarrow> be64 m 11; n \<leftarrow> be32 m 19;
     Some \<lparr>oc_ref = r, oc_shares = n\<rparr>
   }"

definition decodeOrderDelete :: "bytes \<Rightarrow> order_delete option" where
  "decodeOrderDelete m = do { r \<leftarrow> be64 m 11; Some \<lparr>od_ref = r\<rparr> }"

definition decodeOrderReplace :: "bytes \<Rightarrow> order_replace option" where
  "decodeOrderReplace m = do {
     r \<leftarrow> be64 m 11; r' \<leftarrow> be64 m 19; n \<leftarrow> be32 m 27; p \<leftarrow> be32 m 31;
     Some \<lparr>or_oldRef = r, or_newRef = r', or_shares = n, or_price = p\<rparr>
   }"

definition decodeTrade :: "bytes \<Rightarrow> itch_trade option" where
  "decodeTrade m = do {
     r \<leftarrow> be64 m 11; s \<leftarrow> byte_at m 19; n \<leftarrow> be32 m 20; p \<leftarrow> be32 m 32; k \<leftarrow> be64 m 36;
     stock \<leftarrow> chars_at m 24 8;
     Some \<lparr>tr_ref = r, tr_side = char_of_byte s, tr_shares = n, tr_stock = stock, tr_price = p,
           tr_match = k\<rparr>
   }"

definition decodeStockDirectory :: "bytes \<Rightarrow> stock_directory option" where
  "decodeStockDirectory m = do { s \<leftarrow> chars_at m 11 8; Some \<lparr>sd_stock = s\<rparr> }"

definition decodeSystemEvent :: "bytes \<Rightarrow> system_event option" where
  "decodeSystemEvent m = do { c \<leftarrow> byte_at m 11; Some \<lparr>se_code = char_of_byte c\<rparr> }"

definition decodeTradingAction :: "bytes \<Rightarrow> trading_action option" where
  "decodeTradingAction m = do {
     s \<leftarrow> chars_at m 11 8; c \<leftarrow> byte_at m 19; r \<leftarrow> chars_at m 21 4;
     Some \<lparr>ta_stock = s, ta_state = char_of_byte c, ta_reason = r\<rparr>
   }"

lemmas decoder_defs [codec_defs] =
  decodeHeader_def decodeAddOrder_def decodeOrderExecuted_def decodeOrderExecutedWithPrice_def
  decodeOrderCancel_def decodeOrderDelete_def decodeOrderReplace_def decodeTrade_def
  decodeStockDirectory_def decodeSystemEvent_def decodeTradingAction_def

section \<open>Encoders\<close>

definition encodeHeader :: "bytes \<Rightarrow> char \<Rightarrow> u16 \<Rightarrow> u64 \<Rightarrow> u16 \<Rightarrow> (nat \<times> bytes) option" where
  "encodeHeader out t locate timestamp tracking = do {
     out \<leftarrow> wr out 0 (replicate (messageLength t) 0);
     out \<leftarrow> put_byte out 0 (byte_of_char t);
     out \<leftarrow> putBe16 out 1 locate;
     out \<leftarrow> putBe16 out 3 tracking;
     out \<leftarrow> putBe48 out 5 timestamp;
     Some (messageLength t, out)
   }"

definition encodeAddOrder ::
    "bytes \<Rightarrow> u16 \<Rightarrow> u64 \<Rightarrow> u64 \<Rightarrow> char \<Rightarrow> u32 \<Rightarrow> string \<Rightarrow> u32 \<Rightarrow> (nat \<times> bytes) option" where
  "encodeAddOrder out locate ts r side shares stock8 price = do {
     (n, out) \<leftarrow> encodeHeader out CHR ''A'' locate ts 0;
     out \<leftarrow> putBe64 out 11 r;
     out \<leftarrow> put_byte out 19 (byte_of_char side);
     out \<leftarrow> putBe32 out 20 shares;
     out \<leftarrow> put_chars out 24 8 stock8;
     out \<leftarrow> putBe32 out 32 price;
     Some (n, out)
   }"

definition encodeOrderExecuted ::
    "bytes \<Rightarrow> u16 \<Rightarrow> u64 \<Rightarrow> u64 \<Rightarrow> u32 \<Rightarrow> u64 \<Rightarrow> (nat \<times> bytes) option" where
  "encodeOrderExecuted out locate ts r shares mtch = do {
     (n, out) \<leftarrow> encodeHeader out CHR ''E'' locate ts 0;
     out \<leftarrow> putBe64 out 11 r;
     out \<leftarrow> putBe32 out 19 shares;
     out \<leftarrow> putBe64 out 23 mtch;
     Some (n, out)
   }"

definition encodeOrderExecutedWithPrice ::
    "bytes \<Rightarrow> u16 \<Rightarrow> u64 \<Rightarrow> u64 \<Rightarrow> u32 \<Rightarrow> u64 \<Rightarrow> char \<Rightarrow> u32 \<Rightarrow> (nat \<times> bytes) option" where
  "encodeOrderExecutedWithPrice out locate ts r shares mtch printable price = do {
     (n, out) \<leftarrow> encodeHeader out CHR ''C'' locate ts 0;
     out \<leftarrow> putBe64 out 11 r;
     out \<leftarrow> putBe32 out 19 shares;
     out \<leftarrow> putBe64 out 23 mtch;
     out \<leftarrow> put_byte out 31 (byte_of_char printable);
     out \<leftarrow> putBe32 out 32 price;
     Some (n, out)
   }"

definition encodeOrderCancel ::
    "bytes \<Rightarrow> u16 \<Rightarrow> u64 \<Rightarrow> u64 \<Rightarrow> u32 \<Rightarrow> (nat \<times> bytes) option" where
  "encodeOrderCancel out locate ts r shares = do {
     (n, out) \<leftarrow> encodeHeader out CHR ''X'' locate ts 0;
     out \<leftarrow> putBe64 out 11 r;
     out \<leftarrow> putBe32 out 19 shares;
     Some (n, out)
   }"

definition encodeOrderDelete :: "bytes \<Rightarrow> u16 \<Rightarrow> u64 \<Rightarrow> u64 \<Rightarrow> (nat \<times> bytes) option" where
  "encodeOrderDelete out locate ts r = do {
     (n, out) \<leftarrow> encodeHeader out CHR ''D'' locate ts 0;
     out \<leftarrow> putBe64 out 11 r;
     Some (n, out)
   }"

definition encodeOrderReplace ::
    "bytes \<Rightarrow> u16 \<Rightarrow> u64 \<Rightarrow> u64 \<Rightarrow> u64 \<Rightarrow> u32 \<Rightarrow> u32 \<Rightarrow> (nat \<times> bytes) option" where
  "encodeOrderReplace out locate ts oldRef newRef shares price = do {
     (n, out) \<leftarrow> encodeHeader out CHR ''U'' locate ts 0;
     out \<leftarrow> putBe64 out 11 oldRef;
     out \<leftarrow> putBe64 out 19 newRef;
     out \<leftarrow> putBe32 out 27 shares;
     out \<leftarrow> putBe32 out 31 price;
     Some (n, out)
   }"

definition encodeTrade ::
    "bytes \<Rightarrow> u16 \<Rightarrow> u64 \<Rightarrow> u64 \<Rightarrow> char \<Rightarrow> u32 \<Rightarrow> string \<Rightarrow> u32 \<Rightarrow> u64 \<Rightarrow> (nat \<times> bytes) option" where
  "encodeTrade out locate ts r side shares stock8 price mtch = do {
     (n, out) \<leftarrow> encodeHeader out CHR ''P'' locate ts 0;
     out \<leftarrow> putBe64 out 11 r;
     out \<leftarrow> put_byte out 19 (byte_of_char side);
     out \<leftarrow> putBe32 out 20 shares;
     out \<leftarrow> put_chars out 24 8 stock8;
     out \<leftarrow> putBe32 out 32 price;
     out \<leftarrow> putBe64 out 36 mtch;
     Some (n, out)
   }"

definition encodeStockDirectory :: "bytes \<Rightarrow> u16 \<Rightarrow> u64 \<Rightarrow> string \<Rightarrow> (nat \<times> bytes) option" where
  "encodeStockDirectory out locate ts stock8 = do {
     (n, out) \<leftarrow> encodeHeader out CHR ''R'' locate ts 0;
     out \<leftarrow> put_chars out 11 8 stock8;
     Some (n, out)
   }"

definition encodeSystemEvent :: "bytes \<Rightarrow> u64 \<Rightarrow> char \<Rightarrow> (nat \<times> bytes) option" where
  "encodeSystemEvent out ts code = do {
     (n, out) \<leftarrow> encodeHeader out CHR ''S'' 0 ts 0;
     out \<leftarrow> put_byte out 11 (byte_of_char code);
     Some (n, out)
   }"

definition encodeTradingAction ::
    "bytes \<Rightarrow> u16 \<Rightarrow> u64 \<Rightarrow> string \<Rightarrow> char \<Rightarrow> string \<Rightarrow> (nat \<times> bytes) option" where
  "encodeTradingAction out locate ts stock8 state reason4 = do {
     (n, out) \<leftarrow> encodeHeader out CHR ''H'' locate ts 0;
     out \<leftarrow> put_chars out 11 8 stock8;
     out \<leftarrow> put_byte out 19 (byte_of_char state);
     out \<leftarrow> put_chars out 21 4 reason4;
     Some (n, out)
   }"

lemmas encoder_defs [codec_defs] =
  encodeHeader_def encodeAddOrder_def encodeOrderExecuted_def encodeOrderExecutedWithPrice_def
  encodeOrderCancel_def encodeOrderDelete_def encodeOrderReplace_def encodeTrade_def
  encodeStockDirectory_def encodeSystemEvent_def encodeTradingAction_def

section \<open>Handlers and dispatch\<close>

record 'h itch_handler =
  onAdd :: "u16 \<Rightarrow> u64 \<Rightarrow> add_order \<Rightarrow> 'h \<Rightarrow> 'h option"
  onExecuted :: "u16 \<Rightarrow> u64 \<Rightarrow> order_executed \<Rightarrow> 'h \<Rightarrow> 'h option"
  onExecutedWithPrice :: "u16 \<Rightarrow> u64 \<Rightarrow> order_executed_with_price \<Rightarrow> 'h \<Rightarrow> 'h option"
  onCancel :: "u16 \<Rightarrow> u64 \<Rightarrow> order_cancel \<Rightarrow> 'h \<Rightarrow> 'h option"
  onDelete :: "u16 \<Rightarrow> u64 \<Rightarrow> order_delete \<Rightarrow> 'h \<Rightarrow> 'h option"
  onReplace :: "u16 \<Rightarrow> u64 \<Rightarrow> order_replace \<Rightarrow> 'h \<Rightarrow> 'h option"
  onTrade :: "u16 \<Rightarrow> u64 \<Rightarrow> itch_trade \<Rightarrow> 'h \<Rightarrow> 'h option"
  onStockDirectory :: "u16 \<Rightarrow> u64 \<Rightarrow> stock_directory \<Rightarrow> 'h \<Rightarrow> 'h option"
  onSystemEvent :: "u16 \<Rightarrow> u64 \<Rightarrow> system_event \<Rightarrow> 'h \<Rightarrow> 'h option"
  onTradingAction :: "u16 \<Rightarrow> u64 \<Rightarrow> trading_action \<Rightarrow> 'h \<Rightarrow> 'h option"

definition dispatch_switch ::
    "'h itch_handler \<Rightarrow> char \<Rightarrow> u16 \<Rightarrow> u64 \<Rightarrow> bytes \<Rightarrow> 'h \<Rightarrow> 'h option" where
  "dispatch_switch H t locate ts m h =
    (if t = CHR ''A'' \<or> t = CHR ''F'' then do { d \<leftarrow> decodeAddOrder m; onAdd H locate ts d h }
     else if t = CHR ''E'' then do { d \<leftarrow> decodeOrderExecuted m; onExecuted H locate ts d h }
     else if t = CHR ''C'' then
       do { d \<leftarrow> decodeOrderExecutedWithPrice m; onExecutedWithPrice H locate ts d h }
     else if t = CHR ''X'' then do { d \<leftarrow> decodeOrderCancel m; onCancel H locate ts d h }
     else if t = CHR ''D'' then do { d \<leftarrow> decodeOrderDelete m; onDelete H locate ts d h }
     else if t = CHR ''U'' then do { d \<leftarrow> decodeOrderReplace m; onReplace H locate ts d h }
     else if t = CHR ''P'' then do { d \<leftarrow> decodeTrade m; onTrade H locate ts d h }
     else if t = CHR ''R'' then do { d \<leftarrow> decodeStockDirectory m; onStockDirectory H locate ts d h }
     else if t = CHR ''S'' then do { d \<leftarrow> decodeSystemEvent m; onSystemEvent H locate ts d h }
     else if t = CHR ''H'' then do { d \<leftarrow> decodeTradingAction m; onTradingAction H locate ts d h }
     else Some h)"

definition dispatch :: "'h itch_handler \<Rightarrow> bytes \<Rightarrow> 'h \<Rightarrow> (bool \<times> 'h) option" where
  "dispatch H message h =
    (if message = [] then Some (False, h)
     else do {
       t \<leftarrow> byte_at message 0;
       if length message \<noteq> messageLength (char_of_byte t) then Some (False, h)
       else do {
         locate \<leftarrow> be16 message 1;
         ts \<leftarrow> be48 message 5;
         h' \<leftarrow> dispatch_switch H (char_of_byte t) locate ts message h;
         Some (True, h')
       }
     })"

section \<open>Round trip\<close>

datatype itch_event =
    EvAdd u16 u64 add_order
  | EvExecuted u16 u64 order_executed
  | EvExecutedWithPrice u16 u64 order_executed_with_price
  | EvCancel u16 u64 order_cancel
  | EvDelete u16 u64 order_delete
  | EvReplace u16 u64 order_replace
  | EvTrade u16 u64 itch_trade
  | EvStockDirectory u16 u64 stock_directory
  | EvSystemEvent u16 u64 system_event
  | EvTradingAction u16 u64 trading_action

fun handle :: "'h itch_handler \<Rightarrow> itch_event \<Rightarrow> 'h \<Rightarrow> 'h option" where
  "handle H (EvAdd l ts d) h = onAdd H l ts d h"
| "handle H (EvExecuted l ts d) h = onExecuted H l ts d h"
| "handle H (EvExecutedWithPrice l ts d) h = onExecutedWithPrice H l ts d h"
| "handle H (EvCancel l ts d) h = onCancel H l ts d h"
| "handle H (EvDelete l ts d) h = onDelete H l ts d h"
| "handle H (EvReplace l ts d) h = onReplace H l ts d h"
| "handle H (EvTrade l ts d) h = onTrade H l ts d h"
| "handle H (EvStockDirectory l ts d) h = onStockDirectory H l ts d h"
| "handle H (EvSystemEvent l ts d) h = onSystemEvent H l ts d h"
| "handle H (EvTradingAction l ts d) h = onTradingAction H l ts d h"

fun encode :: "bytes \<Rightarrow> itch_event \<Rightarrow> (nat \<times> bytes) option" where
  "encode out (EvAdd l ts d) =
     encodeAddOrder out l ts (ao_ref d) (ao_side d) (ao_shares d) (ao_stock d) (ao_price d)"
| "encode out (EvExecuted l ts d) =
     encodeOrderExecuted out l ts (oe_ref d) (oe_shares d) (oe_match d)"
| "encode out (EvExecutedWithPrice l ts d) =
     encodeOrderExecutedWithPrice out l ts (oewp_ref d) (oewp_shares d) (oewp_match d)
       (oewp_printable d) (oewp_price d)"
| "encode out (EvCancel l ts d) = encodeOrderCancel out l ts (oc_ref d) (oc_shares d)"
| "encode out (EvDelete l ts d) = encodeOrderDelete out l ts (od_ref d)"
| "encode out (EvReplace l ts d) =
     encodeOrderReplace out l ts (or_oldRef d) (or_newRef d) (or_shares d) (or_price d)"
| "encode out (EvTrade l ts d) =
     encodeTrade out l ts (tr_ref d) (tr_side d) (tr_shares d) (tr_stock d) (tr_price d) (tr_match d)"
| "encode out (EvStockDirectory l ts d) = encodeStockDirectory out l ts (sd_stock d)"
| "encode out (EvSystemEvent l ts d) = encodeSystemEvent out ts (se_code d)"
| "encode out (EvTradingAction l ts d) =
     encodeTradingAction out l ts (ta_stock d) (ta_state d) (ta_reason d)"

text \<open>What a caller may pass: a 48-bit timestamp, char arrays of their declared size, and a
  locate of 0 for the system event, whose encoder takes none.\<close>

fun encodable :: "itch_event \<Rightarrow> bool" where
  "encodable (EvAdd l ts d) \<longleftrightarrow> fits48 ts \<and> length (ao_stock d) = 8"
| "encodable (EvTrade l ts d) \<longleftrightarrow> fits48 ts \<and> length (tr_stock d) = 8"
| "encodable (EvStockDirectory l ts d) \<longleftrightarrow> fits48 ts \<and> length (sd_stock d) = 8"
| "encodable (EvSystemEvent l ts d) \<longleftrightarrow> fits48 ts \<and> l = 0"
| "encodable (EvTradingAction l ts d) \<longleftrightarrow>
     fits48 ts \<and> length (ta_stock d) = 8 \<and> length (ta_reason d) = 4"
| "encodable (EvExecuted l ts d) \<longleftrightarrow> fits48 ts"
| "encodable (EvExecutedWithPrice l ts d) \<longleftrightarrow> fits48 ts"
| "encodable (EvCancel l ts d) \<longleftrightarrow> fits48 ts"
| "encodable (EvDelete l ts d) \<longleftrightarrow> fits48 ts"
| "encodable (EvReplace l ts d) \<longleftrightarrow> fits48 ts"

fun typeOf :: "itch_event \<Rightarrow> char" where
  "typeOf (EvAdd l ts d) = CHR ''A''"
| "typeOf (EvExecuted l ts d) = CHR ''E''"
| "typeOf (EvExecutedWithPrice l ts d) = CHR ''C''"
| "typeOf (EvCancel l ts d) = CHR ''X''"
| "typeOf (EvDelete l ts d) = CHR ''D''"
| "typeOf (EvReplace l ts d) = CHR ''U''"
| "typeOf (EvTrade l ts d) = CHR ''P''"
| "typeOf (EvStockDirectory l ts d) = CHR ''R''"
| "typeOf (EvSystemEvent l ts d) = CHR ''S''"
| "typeOf (EvTradingAction l ts d) = CHR ''H''"

lemma messageLength_simps [simp]:
  "messageLength CHR ''A'' = 36" "messageLength CHR ''F'' = 40" "messageLength CHR ''E'' = 31"
  "messageLength CHR ''C'' = 36" "messageLength CHR ''X'' = 23" "messageLength CHR ''D'' = 19"
  "messageLength CHR ''U'' = 35" "messageLength CHR ''P'' = 44" "messageLength CHR ''R'' = 39"
  "messageLength CHR ''S'' = 12" "messageLength CHR ''H'' = 25"
  by (simp_all add: messageLength_def)

lemma dispatch_well_formed:
  assumes "byte_at m 0 = Some b" and "length m = messageLength (char_of_byte b)"
    and "be16 m 1 = Some l" and "be48 m 5 = Some ts"
  shows "dispatch H m h = map_option (Pair True) (dispatch_switch H (char_of_byte b) l ts m h)"
proof -
  have "m \<noteq> []" using assms(1) by (auto simp: byte_at_def)
  with assms show ?thesis
    by (simp add: dispatch_def map_option_case split: option.split)
qed

text \<open>A handler that writes down the calls it gets.\<close>

definition recorder :: "itch_event list itch_handler" where
  "recorder = \<lparr>
     onAdd = (\<lambda>l ts d h. Some (h @ [EvAdd l ts d])),
     onExecuted = (\<lambda>l ts d h. Some (h @ [EvExecuted l ts d])),
     onExecutedWithPrice = (\<lambda>l ts d h. Some (h @ [EvExecutedWithPrice l ts d])),
     onCancel = (\<lambda>l ts d h. Some (h @ [EvCancel l ts d])),
     onDelete = (\<lambda>l ts d h. Some (h @ [EvDelete l ts d])),
     onReplace = (\<lambda>l ts d h. Some (h @ [EvReplace l ts d])),
     onTrade = (\<lambda>l ts d h. Some (h @ [EvTrade l ts d])),
     onStockDirectory = (\<lambda>l ts d h. Some (h @ [EvStockDirectory l ts d])),
     onSystemEvent = (\<lambda>l ts d h. Some (h @ [EvSystemEvent l ts d])),
     onTradingAction = (\<lambda>l ts d h. Some (h @ [EvTradingAction l ts d]))\<rparr>"

lemma handle_recorder: "handle recorder e h = Some (h @ [e])"
  by (cases e) (simp_all add: recorder_def)

text \<open>The bytes an encoder leaves in its buffer.\<close>

definition encoded :: "bytes \<Rightarrow> itch_event \<Rightarrow> bytes" where
  "encoded out e = snd (the (encode out e))"

lemma encode_defined:
  assumes "messageLength (typeOf e) \<le> length out" and "encodable e"
  shows "encode out e = Some (messageLength (typeOf e), encoded out e)
    \<and> length (encoded out e) = length out"
  using assms by (cases e) (simp_all add: encoded_def codec_defs codec_simps)

lemma encoded_type:
  assumes "messageLength (typeOf e) \<le> length out" and "encodable e"
  shows "byte_at (take (messageLength (typeOf e)) (encoded out e)) 0 = Some (byte_of_char (typeOf e))"
  using assms by (cases e) (simp_all add: encoded_def codec_defs codec_simps)


fun locateOf_event :: "itch_event \<Rightarrow> u16 \<times> u64" where
  "locateOf_event (EvAdd l ts d) = (l, ts)"
| "locateOf_event (EvExecuted l ts d) = (l, ts)"
| "locateOf_event (EvExecutedWithPrice l ts d) = (l, ts)"
| "locateOf_event (EvCancel l ts d) = (l, ts)"
| "locateOf_event (EvDelete l ts d) = (l, ts)"
| "locateOf_event (EvReplace l ts d) = (l, ts)"
| "locateOf_event (EvTrade l ts d) = (l, ts)"
| "locateOf_event (EvStockDirectory l ts d) = (l, ts)"
| "locateOf_event (EvSystemEvent l ts d) = (l, ts)"
| "locateOf_event (EvTradingAction l ts d) = (l, ts)"

lemma encoded_header:
  assumes "messageLength (typeOf e) \<le> length out" and "encodable e"
  shows "be16 (take (messageLength (typeOf e)) (encoded out e)) 1 = Some (fst (locateOf_event e))"
    and "be48 (take (messageLength (typeOf e)) (encoded out e)) 5 = Some (snd (locateOf_event e))"
  using assms by (cases e; simp add: encoded_def codec_defs codec_simps)+

lemma record_eta:
  "\<lparr>ao_ref = ao_ref a, ao_side = ao_side a, ao_shares = ao_shares a, ao_stock = ao_stock a,
    ao_price = ao_price a\<rparr> = a"
  "\<lparr>oe_ref = oe_ref b, oe_shares = oe_shares b, oe_match = oe_match b\<rparr> = b"
  "\<lparr>oewp_ref = oewp_ref c, oewp_shares = oewp_shares c, oewp_match = oewp_match c,
    oewp_printable = oewp_printable c, oewp_price = oewp_price c\<rparr> = c"
  "\<lparr>oc_ref = oc_ref d, oc_shares = oc_shares d\<rparr> = d"
  "\<lparr>od_ref = od_ref e\<rparr> = e"
  "\<lparr>or_oldRef = or_oldRef f, or_newRef = or_newRef f, or_shares = or_shares f,
    or_price = or_price f\<rparr> = f"
  "\<lparr>tr_ref = tr_ref g, tr_side = tr_side g, tr_shares = tr_shares g, tr_stock = tr_stock g,
    tr_price = tr_price g, tr_match = tr_match g\<rparr> = g"
  "\<lparr>sd_stock = sd_stock h\<rparr> = h"
  "\<lparr>se_code = se_code i\<rparr> = i"
  "\<lparr>ta_stock = ta_stock j, ta_state = ta_state j, ta_reason = ta_reason j\<rparr> = j"
  by simp_all

lemma encoded_body:
  assumes "messageLength (typeOf e) \<le> length out" and "encodable e"
  shows "dispatch_switch H (typeOf e) (fst (locateOf_event e)) (snd (locateOf_event e))
           (take (messageLength (typeOf e)) (encoded out e)) h = handle H e h"
  using assms
  by (cases e) (simp_all add: encoded_def dispatch_switch_def codec_defs codec_simps record_eta)

text \<open>C19. What an encoder writes, \<open>dispatch\<close> decodes: for each of the ten messages the code
  encodes, with field values the message can hold and a buffer of at least \<open>messageLength\<close>
  bytes, the encoder succeeds, leaves the buffer's length alone and reports the type's length;
  and \<open>dispatch\<close> of exactly those bytes makes exactly one call, of the method for that type
  with the same locate, timestamp and fields.\<close>

theorem dispatch_encode:
  assumes "messageLength (typeOf e) \<le> length out" and "encodable e"
  shows "\<exists>out'. encode out e = Some (messageLength (typeOf e), out')
    \<and> length out' = length out
    \<and> dispatch H (take (messageLength (typeOf e)) out') h = map_option (Pair True) (handle H e h)"
proof -
  let ?m = "take (messageLength (typeOf e)) (encoded out e)"
  have "length ?m = messageLength (char_of_byte (byte_of_char (typeOf e)))"
    using encode_defined [OF assms] assms(1) by simp
  then have "dispatch H ?m h = map_option (Pair True) (handle H e h)"
    using dispatch_well_formed [OF encoded_type [OF assms] _ encoded_header [OF assms], of H h]
      encoded_body [OF assms, of H h] by simp
  then show ?thesis using encode_defined [OF assms] by blast
qed

theorem dispatch_encode_witness:
  "\<exists>out'. encodeAddOrder (replicate 64 7) 1 1000 5 CHR ''B'' 100 ''GOOGL   '' 1499900 = Some (36, out')
     \<and> length out' = 64
     \<and> dispatch recorder (take 36 out') []
       = Some (True, [EvAdd 1 1000 \<lparr>ao_ref = 5, ao_side = CHR ''B'', ao_shares = 100,
           ao_stock = ''GOOGL   '', ao_price = 1499900\<rparr>])"
  using dispatch_encode [of "EvAdd 1 1000 \<lparr>ao_ref = 5, ao_side = CHR ''B'', ao_shares = 100,
        ao_stock = ''GOOGL   '', ao_price = 1499900\<rparr>" "replicate 64 7" recorder "[]"]
  by (simp add: fits48_def recorder_def)

section \<open>Messages of any content\<close>

text \<open>A message as long as its type requires is decoded without reading past its end.\<close>

lemma decoders_in_range [codec_simps]:
  "19 \<le> length m \<Longrightarrow> \<exists>d. decodeOrderDelete m = Some d"
  "23 \<le> length m \<Longrightarrow> \<exists>d. decodeOrderCancel m = Some d"
  "31 \<le> length m \<Longrightarrow> \<exists>d. decodeOrderExecuted m = Some d"
  "36 \<le> length m \<Longrightarrow> \<exists>d. decodeOrderExecutedWithPrice m = Some d"
  "36 \<le> length m \<Longrightarrow> \<exists>d. decodeAddOrder m = Some d"
  "35 \<le> length m \<Longrightarrow> \<exists>d. decodeOrderReplace m = Some d"
  "44 \<le> length m \<Longrightarrow> \<exists>d. decodeTrade m = Some d"
  "39 \<le> length m \<Longrightarrow> \<exists>d. decodeStockDirectory m = Some d"
  "12 \<le> length m \<Longrightarrow> \<exists>d. decodeSystemEvent m = Some d"
  "25 \<le> length m \<Longrightarrow> \<exists>d. decodeTradingAction m = Some d"
  by (simp_all add: decoder_defs be8.get_in_range be16.get_in_range be32.get_in_range
      be64.get_in_range chars_at_def rd_def)

lemma dispatch_switch_handles:
  assumes "length m = messageLength t"
  shows "(\<exists>e. dispatch_switch H t l ts m h = handle H e h) \<or> dispatch_switch H t l ts m h = Some h"
proof -
  have ev: "\<exists>e. onAdd H l ts a h = handle H e h" "\<exists>e. onExecuted H l ts b h = handle H e h"
    "\<exists>e. onExecutedWithPrice H l ts c h = handle H e h" "\<exists>e. onCancel H l ts d h = handle H e h"
    "\<exists>e. onDelete H l ts f h = handle H e h" "\<exists>e. onReplace H l ts g h = handle H e h"
    "\<exists>e. onTrade H l ts i h = handle H e h" "\<exists>e. onStockDirectory H l ts j h = handle H e h"
    "\<exists>e. onSystemEvent H l ts k h = handle H e h" "\<exists>e. onTradingAction H l ts q h = handle H e h"
    for a b c d f g i j k q
    by (metis handle.simps)+
  show ?thesis
    using assms decoders_in_range [of m] ev
    by (auto simp: dispatch_switch_def messageLength_def split: if_splits)
qed

lemma dispatch_cases:
  "dispatch H m h = Some (False, h) \<or> dispatch H m h = Some (True, h)
   \<or> (\<exists>e. dispatch H m h = map_option (Pair True) (handle H e h))"
proof (cases "m = [] \<or> length m \<noteq> messageLength (char_of_byte (m ! 0))")
  case True
  then show ?thesis by (auto simp: dispatch_def byte_at_def)
next
  case False
  then have m: "m \<noteq> []" and len: "length m = messageLength (char_of_byte (m ! 0))" by auto
  from m len have "11 \<le> length m" by (auto simp: messageLength_def split: if_splits)
  then obtain l ts where lts: "be16 m 1 = Some l" "be48 m 5 = Some ts"
    using be16.get_in_range [of 1 m] be48.get_in_range [of 5 m] by simp
  have "byte_at m 0 = Some (m ! 0)" using m by (cases m) (simp_all add: byte_at_def)
  then have "dispatch H m h
      = map_option (Pair True) (dispatch_switch H (char_of_byte (m ! 0)) l ts m h)"
    using len lts by (rule dispatch_well_formed)
  then show ?thesis using dispatch_switch_handles [OF len, of H l ts h] by auto
qed

text \<open>A message is framed as its type requires when it is not empty and exactly as long.\<close>

definition well_framed :: "bytes \<Rightarrow> bool" where
  "well_framed m \<longleftrightarrow> m \<noteq> [] \<and> length m = messageLength (char_of_byte (hd m))"

text \<open>What \<open>dispatch\<close> refuses.\<close>

lemma dispatch_refuses:
  "dispatch H m h = Some (False, h') \<longleftrightarrow> (\<not> well_framed m \<and> h' = h)"
  by (cases m) (auto simp: dispatch_def well_framed_def byte_at_def bind_Some_iff)

text \<open>A run of messages through \<open>dispatch\<close>, as the replay programs do it.\<close>

fun dispatch_all :: "'h itch_handler \<Rightarrow> bytes list \<Rightarrow> 'h \<Rightarrow> 'h option" where
  "dispatch_all H [] h = Some h"
| "dispatch_all H (m # ms) h = do { (_, h') \<leftarrow> dispatch H m h; dispatch_all H ms h' }"

section \<open>Nothing is lost\<close>

text \<open>The ten messages with an encoder, with the lengths that the specification gives them; and the bytes of
  each that no decoder reads: the tracking number, the locate of a system event, what follows the symbol in
  a stock directory message, and the reserved byte of a trading action.\<close>

definition unread :: "char \<Rightarrow> nat set" where
  "unread t = {3, 4} \<union> (if t = CHR ''S'' then {1, 2} else if t = CHR ''R'' then {19 ..< 39}
     else if t = CHR ''H'' then {20} else {})"

definition layout :: "(char \<times> nat) list" where
  "layout = [(CHR ''A'', 36), (CHR ''E'', 31), (CHR ''C'', 36), (CHR ''X'', 23), (CHR ''D'', 19), (CHR ''U'', 35),
     (CHR ''P'', 44), (CHR ''R'', 39), (CHR ''S'', 12), (CHR ''H'', 25)]"

lemma byte_char_inverse [simp]: "byte_of_char (char_of_byte b) = b"
proof -
  have "unat b < 256" using unsigned_less [of b, where ?'a = nat] by simp
  then show ?thesis by (simp add: char_of_byte_def byte_of_char_def)
qed

lemma chars_back [simp]: "map (byte_of_char \<circ> char_of_byte) bs = bs"
  by (simp add: comp_def)

text \<open>Field by field: reading a field and putting it where it was read.\<close>

lemma chars_put_back:
  assumes "same_on S p m" "i + n \<le> length m"
  shows "\<exists>v p'. chars_at m i n = Some v \<and> put_chars p i n v = Some p' \<and> same_on (S \<union> {i ..< i + n}) p' m"
  using same_blit [OF assms] assms same_len [OF assms(1)] by (simp add: chars_at_def put_chars_def rd_def wr_Some)

lemma header_back:
  assumes "length out = length m" "11 \<le> length m" "messageLength t = length m" "byte_at m 0 = Some (byte_of_char t)" "be16 m 1 = Some l" "be48 m 5 = Some ts"
  shows "\<exists>p. encodeHeader out t l ts 0 = Some (length m, p) \<and> same_on ({0} \<union> {1 ..< 3} \<union> {5 ..< 11}) p m"
    "\<exists>p. encodeHeader out t 0 ts 0 = Some (length m, p) \<and> same_on ({0} \<union> {5 ..< 11}) p m"
proof -
  let ?z = "replicate (length m) 0"
  have z: "wr out 0 ?z = Some ?z" using assms(1) by (simp add: wr_def blit_def)
  have "same_on {} ?z m" by (simp add: same_on_def)
  from be8.put_back [OF this, of 0] assms obtain p1 where p1: "put_byte ?z 0 (byte_of_char t) = Some p1" "same_on {0} p1 m" by auto
  have keep: "\<exists>p'. putBe16 p i v = Some p' \<and> same_on S p' m" if "same_on S p m" "i + 2 \<le> length m" "S \<inter> {i ..< i + 2} = {}" for S p i v
  proof -
    have len: "length p = length m" using that by (simp add: same_on_def)
    have "same_on S (blit p i (bytes16 v)) m"
      unfolding same_on_def
    proof (intro conjI ballI impI)
      fix k assume k: "k \<in> S" "k < length m"
      then have "k < i \<or> i + 2 \<le> k" using that(3) by fastforce
      then have "k < i \<or> (\<exists>j. k = i + 2 + j)" using le_Suc_ex by blast
      then have "blit p i (bytes16 v) ! k = p ! k" using that(2) len k(2) by (auto simp: blit_in_range nth_append)
      then show "blit p i (bytes16 v) ! k = m ! k" using that(1) k by (simp add: same_on_def)
    qed (simp add: length_blit len)
    then show ?thesis using that(2) len by (simp add: be16.put_in_range)
  qed
  have rest: "\<exists>p. encodeHeader out t l' ts 0 = Some (length m, p) \<and> same_on (S \<union> {5 ..< 11}) p m"
    if p2: "putBe16 p1 1 l' = Some p2" "same_on S p2 m" "S \<inter> {3 ..< 5} = {}" for l' p2 S
  proof -
    from keep [OF p2(2), of 3 0] p2(3) assms(2) obtain p3 where p3: "putBe16 p2 3 0 = Some p3" "same_on S p3 m" by auto
    from be48.put_back [OF p3(2), of 5] assms(2,6) obtain p4 where "putBe48 p3 5 ts = Some p4" "same_on (S \<union> {5 ..< 11}) p4 m" by auto
    then show ?thesis using z p1(1) p2(1) p3(1) assms(3) by (simp add: encodeHeader_def)
  qed
  from be16.put_back [OF p1(2), of 1] assms(2,5) obtain p2 where "putBe16 p1 1 l = Some p2" "same_on ({0} \<union> {1 ..< 3}) p2 m"
    by (auto simp del: One_nat_def)
  from rest [OF this] show "\<exists>p. encodeHeader out t l ts 0 = Some (length m, p) \<and> same_on ({0} \<union> {1 ..< 3} \<union> {5 ..< 11}) p m" by auto
  from keep [OF p1(2), of 1 0] assms(2) obtain p2' where "putBe16 p1 1 0 = Some p2'" "same_on {0} p2' m" by auto
  from rest [OF this] show "\<exists>p. encodeHeader out t 0 ts 0 = Some (length m, p) \<and> same_on ({0} \<union> {5 ..< 11}) p m" by auto
qed

lemma same_fields:
  "same_on S p m \<Longrightarrow> i + w \<le> length m \<Longrightarrow> same_on (S \<union> {i ..< i + w}) (blit p i (take w (drop i m))) m"
  "same_on S p m \<Longrightarrow> i + 1 \<le> length m \<Longrightarrow> same_on (S \<union> {i ..< i + 1}) (blit p i [m ! i]) m"
proof -
  show "same_on S p m \<Longrightarrow> i + w \<le> length m \<Longrightarrow> same_on (S \<union> {i ..< i + w}) (blit p i (take w (drop i m))) m"
    by (rule same_blit) simp_all
  show "same_on S p m \<Longrightarrow> i + 1 \<le> length m \<Longrightarrow> same_on (S \<union> {i ..< i + 1}) (blit p i [m ! i]) m"
    by (rule same_blit) (simp_all add: take_Suc hd_drop_conv_nth)
qed

lemmas field_reads = be8.get_in_range be16.get_in_range be32.get_in_range be48.get_in_range be64.get_in_range
  be8.put_in_range be16.put_in_range be32.put_in_range be48.put_in_range be64.put_in_range
  bytes16_dec16 bytes32_dec32 bytes48_dec48 bytes64_dec64 length_blit chars_at_def put_chars_def rd_def wr_Some

lemma body_back:
  assumes p: "same_on S p m" and enc: "encodeHeader out t l ts 0 = Some (length m, p)"
  shows "t = CHR ''A'' \<Longrightarrow> 36 \<le> length m \<Longrightarrow> \<exists>d p'. decodeAddOrder m = Some d
    \<and> encode out (EvAdd l ts d) = Some (length m, p') \<and> same_on (S \<union> {11 ..< 36}) p' m"
    "t = CHR ''E'' \<Longrightarrow> 31 \<le> length m \<Longrightarrow> \<exists>d p'. decodeOrderExecuted m = Some d
    \<and> encode out (EvExecuted l ts d) = Some (length m, p') \<and> same_on (S \<union> {11 ..< 31}) p' m"
    "t = CHR ''C'' \<Longrightarrow> 36 \<le> length m \<Longrightarrow> \<exists>d p'. decodeOrderExecutedWithPrice m = Some d
    \<and> encode out (EvExecutedWithPrice l ts d) = Some (length m, p') \<and> same_on (S \<union> {11 ..< 36}) p' m"
    "t = CHR ''X'' \<Longrightarrow> 23 \<le> length m \<Longrightarrow> \<exists>d p'. decodeOrderCancel m = Some d
    \<and> encode out (EvCancel l ts d) = Some (length m, p') \<and> same_on (S \<union> {11 ..< 23}) p' m"
    "t = CHR ''D'' \<Longrightarrow> 19 \<le> length m \<Longrightarrow> \<exists>d p'. decodeOrderDelete m = Some d
    \<and> encode out (EvDelete l ts d) = Some (length m, p') \<and> same_on (S \<union> {11 ..< 19}) p' m"
    "t = CHR ''U'' \<Longrightarrow> 35 \<le> length m \<Longrightarrow> \<exists>d p'. decodeOrderReplace m = Some d
    \<and> encode out (EvReplace l ts d) = Some (length m, p') \<and> same_on (S \<union> {11 ..< 35}) p' m"
    "t = CHR ''P'' \<Longrightarrow> 44 \<le> length m \<Longrightarrow> \<exists>d p'. decodeTrade m = Some d
    \<and> encode out (EvTrade l ts d) = Some (length m, p') \<and> same_on (S \<union> {11 ..< 44}) p' m"
    "t = CHR ''R'' \<Longrightarrow> 39 \<le> length m \<Longrightarrow> \<exists>d p'. decodeStockDirectory m = Some d
    \<and> encode out (EvStockDirectory l ts d) = Some (length m, p') \<and> same_on (S \<union> {11 ..< 19}) p' m"
    "t = CHR ''H'' \<Longrightarrow> 25 \<le> length m \<Longrightarrow> \<exists>d p'. decodeTradingAction m = Some d
    \<and> encode out (EvTradingAction l ts d) = Some (length m, p') \<and> same_on (S \<union> {11 ..< 20} \<union> {21 ..< 25}) p' m"
    "t = CHR ''S'' \<Longrightarrow> l = 0 \<Longrightarrow> 12 \<le> length m \<Longrightarrow> \<exists>d p'. decodeSystemEvent m = Some d
    \<and> (\<forall>lc. encode out (EvSystemEvent lc ts d) = Some (length m, p')) \<and> same_on (S \<union> {11 ..< 12}) p' m"
proof -
  note enc_len = same_len [OF p] enc
  show "t = CHR ''A'' \<Longrightarrow> 36 \<le> length m \<Longrightarrow> \<exists>d p'. decodeAddOrder m = Some d
    \<and> encode out (EvAdd l ts d) = Some (length m, p') \<and> same_on (S \<union> {11 ..< 36}) p' m"
    using enc_len by (simp add: decoder_defs encoder_defs(2-) field_reads) (rule same_more, (rule same_fields p)+, auto)
  show "t = CHR ''E'' \<Longrightarrow> 31 \<le> length m \<Longrightarrow> \<exists>d p'. decodeOrderExecuted m = Some d
    \<and> encode out (EvExecuted l ts d) = Some (length m, p') \<and> same_on (S \<union> {11 ..< 31}) p' m"
    using enc_len by (simp add: decoder_defs encoder_defs(2-) field_reads) (rule same_more, (rule same_fields p)+, auto)
  show "t = CHR ''C'' \<Longrightarrow> 36 \<le> length m \<Longrightarrow> \<exists>d p'. decodeOrderExecutedWithPrice m = Some d
    \<and> encode out (EvExecutedWithPrice l ts d) = Some (length m, p') \<and> same_on (S \<union> {11 ..< 36}) p' m"
    using enc_len by (simp add: decoder_defs encoder_defs(2-) field_reads) (rule same_more, (rule same_fields p)+, auto)
  show "t = CHR ''X'' \<Longrightarrow> 23 \<le> length m \<Longrightarrow> \<exists>d p'. decodeOrderCancel m = Some d
    \<and> encode out (EvCancel l ts d) = Some (length m, p') \<and> same_on (S \<union> {11 ..< 23}) p' m"
    using enc_len by (simp add: decoder_defs encoder_defs(2-) field_reads) (rule same_more, (rule same_fields p)+, auto)
  show "t = CHR ''D'' \<Longrightarrow> 19 \<le> length m \<Longrightarrow> \<exists>d p'. decodeOrderDelete m = Some d
    \<and> encode out (EvDelete l ts d) = Some (length m, p') \<and> same_on (S \<union> {11 ..< 19}) p' m"
    using enc_len by (simp add: decoder_defs encoder_defs(2-) field_reads) (rule same_more, (rule same_fields p)+, auto)
  show "t = CHR ''U'' \<Longrightarrow> 35 \<le> length m \<Longrightarrow> \<exists>d p'. decodeOrderReplace m = Some d
    \<and> encode out (EvReplace l ts d) = Some (length m, p') \<and> same_on (S \<union> {11 ..< 35}) p' m"
    using enc_len by (simp add: decoder_defs encoder_defs(2-) field_reads) (rule same_more, (rule same_fields p)+, auto)
  show "t = CHR ''P'' \<Longrightarrow> 44 \<le> length m \<Longrightarrow> \<exists>d p'. decodeTrade m = Some d
    \<and> encode out (EvTrade l ts d) = Some (length m, p') \<and> same_on (S \<union> {11 ..< 44}) p' m"
    using enc_len by (simp add: decoder_defs encoder_defs(2-) field_reads) (rule same_more, (rule same_fields p)+, auto)
  show "t = CHR ''R'' \<Longrightarrow> 39 \<le> length m \<Longrightarrow> \<exists>d p'. decodeStockDirectory m = Some d
    \<and> encode out (EvStockDirectory l ts d) = Some (length m, p') \<and> same_on (S \<union> {11 ..< 19}) p' m"
    using enc_len by (simp add: decoder_defs encoder_defs(2-) field_reads) (rule same_more, (rule same_fields p)+, auto)
  show "t = CHR ''H'' \<Longrightarrow> 25 \<le> length m \<Longrightarrow> \<exists>d p'. decodeTradingAction m = Some d
    \<and> encode out (EvTradingAction l ts d) = Some (length m, p') \<and> same_on (S \<union> {11 ..< 20} \<union> {21 ..< 25}) p' m"
    using enc_len by (simp add: decoder_defs encoder_defs(2-) field_reads) (rule same_more, (rule same_fields p)+, auto)
  show "t = CHR ''S'' \<Longrightarrow> l = 0 \<Longrightarrow> 12 \<le> length m \<Longrightarrow> \<exists>d p'. decodeSystemEvent m = Some d
    \<and> (\<forall>lc. encode out (EvSystemEvent lc ts d) = Some (length m, p')) \<and> same_on (S \<union> {11 ..< 12}) p' m"
    using enc_len by (simp add: decoder_defs encoder_defs(2-) field_reads) (rule same_more, (rule same_fields p)+, auto)
qed

lemma dispatch_event:
  assumes "char_of_byte (hd m) = t" "length m = messageLength t" "m \<noteq> []" "be16 m 1 = Some l" "be48 m 5 = Some ts"
    and "\<And>h. dispatch_switch H t l ts m h = handle H e h"
  shows "dispatch H m h = map_option (Pair True) (handle H e h)"
  using dispatch_well_formed [of m "hd m" l ts H h] assms by (cases m) (simp_all add: byte_at_def)

lemma event_back:
  assumes t: "(t, n) \<in> set layout" "length m = n" "char_of_byte (hd m) = t" and out: "length out = n"
  shows "\<exists>e m'. typeOf e = t \<and> (\<forall>(H :: 'h itch_handler) h. dispatch H m h = map_option (Pair True) (handle H e h))
    \<and> encode out e = Some (n, m') \<and> same_on ({..< n} - unread t) m' m"
proof -
  have n: "messageLength t = n" "11 \<le> n" "m \<noteq> []" using t by (auto simp: layout_def)
  obtain l ts where lts: "be16 m 1 = Some l" "be48 m 5 = Some ts"
    using be16.get_in_range [of 1 m] be48.get_in_range [of 5 m] n(2) t(2) by simp
  have b: "byte_at m 0 = Some (byte_of_char t)" using t(3) n(3) by (cases m) (auto simp: byte_at_def)
  have h: "length out = length m" "11 \<le> length m" "messageLength t = length m" using t(2) out n by simp_all
  obtain p p0 where p: "encodeHeader out t l ts 0 = Some (length m, p)" "same_on ({0} \<union> {1 ..< 3} \<union> {5 ..< 11}) p m"
    and p0: "encodeHeader out t 0 ts 0 = Some (length m, p0)" "same_on ({0} \<union> {5 ..< 11}) p0 m"
    using header_back [OF h b lts] by blast
  let ?S = "{0} \<union> {1 ..< 3} \<union> {5 ..< 11}"
  note body = body_back [OF p(2,1)] and system = body_back(10) [OF p0(2,1)]
  have found: ?thesis if "\<And>(H :: 'h itch_handler) h. dispatch_switch H t l ts m h = handle H e h" "typeOf e = t"
    "encode out e = Some (length m, p')" "same_on S p' m" "{..< n} - unread t \<subseteq> S" for e p' S
  proof -
    have "dispatch H m h = map_option (Pair True) (handle H e h)" for H :: "'h itch_handler" and h
      by (rule dispatch_event [OF t(3) _ n(3) lts]) (simp_all add: t(2) n(1) that(1))
    then show ?thesis using that(2,3) t(2) same_more [OF that(4,5)] by (intro exI [of _ e] exI [of _ p']) simp
  qed
  consider "t = CHR ''A''" | "t = CHR ''E''" | "t = CHR ''C''" | "t = CHR ''X''" | "t = CHR ''D''" | "t = CHR ''U''"
    | "t = CHR ''P''" | "t = CHR ''R''" | "t = CHR ''S''" | "t = CHR ''H''"
    using t(1) by (auto simp: layout_def)
  then show ?thesis
  proof cases
    case 1
    with body(1) t obtain d p' where "decodeAddOrder m = Some d" "encode out (EvAdd l ts d) = Some (length m, p')"
      "same_on (?S \<union> {11 ..< 36}) p' m" by (auto simp: layout_def)
    with 1 t(1) show ?thesis by (intro found [of "EvAdd l ts d"]) (auto simp: dispatch_switch_def layout_def unread_def)
  next
    case 2
    with body(2) t obtain d p' where "decodeOrderExecuted m = Some d" "encode out (EvExecuted l ts d) = Some (length m, p')"
      "same_on (?S \<union> {11 ..< 31}) p' m" by (auto simp: layout_def)
    with 2 t(1) show ?thesis by (intro found [of "EvExecuted l ts d"]) (auto simp: dispatch_switch_def layout_def unread_def)
  next
    case 3
    with body(3) t obtain d p' where "decodeOrderExecutedWithPrice m = Some d" "encode out (EvExecutedWithPrice l ts d) = Some (length m, p')"
      "same_on (?S \<union> {11 ..< 36}) p' m" by (auto simp: layout_def)
    with 3 t(1) show ?thesis by (intro found [of "EvExecutedWithPrice l ts d"]) (auto simp: dispatch_switch_def layout_def unread_def)
  next
    case 4
    with body(4) t obtain d p' where "decodeOrderCancel m = Some d" "encode out (EvCancel l ts d) = Some (length m, p')"
      "same_on (?S \<union> {11 ..< 23}) p' m" by (auto simp: layout_def)
    with 4 t(1) show ?thesis by (intro found [of "EvCancel l ts d"]) (auto simp: dispatch_switch_def layout_def unread_def)
  next
    case 5
    with body(5) t obtain d p' where "decodeOrderDelete m = Some d" "encode out (EvDelete l ts d) = Some (length m, p')"
      "same_on (?S \<union> {11 ..< 19}) p' m" by (auto simp: layout_def)
    with 5 t(1) show ?thesis by (intro found [of "EvDelete l ts d"]) (auto simp: dispatch_switch_def layout_def unread_def)
  next
    case 6
    with body(6) t obtain d p' where "decodeOrderReplace m = Some d" "encode out (EvReplace l ts d) = Some (length m, p')"
      "same_on (?S \<union> {11 ..< 35}) p' m" by (auto simp: layout_def)
    with 6 t(1) show ?thesis by (intro found [of "EvReplace l ts d"]) (auto simp: dispatch_switch_def layout_def unread_def)
  next
    case 7
    with body(7) t obtain d p' where "decodeTrade m = Some d" "encode out (EvTrade l ts d) = Some (length m, p')"
      "same_on (?S \<union> {11 ..< 44}) p' m" by (auto simp: layout_def)
    with 7 t(1) show ?thesis by (intro found [of "EvTrade l ts d"]) (auto simp: dispatch_switch_def layout_def unread_def)
  next
    case 8
    with body(8) t obtain d p' where "decodeStockDirectory m = Some d" "encode out (EvStockDirectory l ts d) = Some (length m, p')"
      "same_on (?S \<union> {11 ..< 19}) p' m" by (auto simp: layout_def)
    with 8 t(1) show ?thesis by (intro found [of "EvStockDirectory l ts d"]) (auto simp: dispatch_switch_def layout_def unread_def)
  next
    case 9
    with system t obtain d p' where "decodeSystemEvent m = Some d" "encode out (EvSystemEvent l ts d) = Some (length m, p')"
      "same_on ({0} \<union> {5 ..< 11} \<union> {11 ..< 12}) p' m" by (auto simp: layout_def)
    with 9 t(1) show ?thesis by (intro found [of "EvSystemEvent l ts d"]) (auto simp: dispatch_switch_def layout_def unread_def)
  next
    case 10
    with body(9) t obtain d p' where "decodeTradingAction m = Some d" "encode out (EvTradingAction l ts d) = Some (length m, p')"
      "same_on (?S \<union> {11 ..< 20} \<union> {21 ..< 25}) p' m" by (auto simp: layout_def)
    with 10 t(1) show ?thesis by (intro found [of "EvTradingAction l ts d"]) (auto simp: dispatch_switch_def layout_def unread_def)
  qed
qed

text \<open>C32. \<open>dispatch\<close> is exact on the ten messages that the code decodes in full. Take any bytes of one of these types, of
  the length that the ITCH 5.0 specification gives it. \<open>dispatch\<close> makes exactly one call, of the method for that
  type, and the call carries all of the message: the encoder of the type, given the fields of the call and any
  buffer of that length, writes back every byte of the message except those that are not decoded (the tracking
  number; the locate of a system event; bytes 19 to 38 of a stock directory; byte 20 of a trading action).
  And a message cut short anywhere, or with bytes left over, is refused: false, and no call.\<close>

theorem dispatch_loses_nothing:
  assumes "(t, n) \<in> set [(CHR ''A'', 36), (CHR ''E'', 31), (CHR ''C'', 36), (CHR ''X'', 23), (CHR ''D'', 19),
      (CHR ''U'', 35), (CHR ''P'', 44), (CHR ''R'', 39), (CHR ''S'', 12), (CHR ''H'', 25)]"
    and "length m = n" "char_of_byte (hd m) = t" "length out = n"
  shows "(\<exists>e m'. typeOf e = t \<and> (\<forall>(H :: 'h itch_handler) h. dispatch H m h = map_option (Pair True) (handle H e h))
      \<and> encode out e = Some (n, m') \<and> length m' = n
      \<and> (\<forall>i<n. i \<in> {3, 4} \<or> t = CHR ''S'' \<and> i \<in> {1, 2} \<or> t = CHR ''R'' \<and> 19 \<le> i \<or> t = CHR ''H'' \<and> i = 20 \<or> m' ! i = m ! i))
    \<and> (\<forall>k<n. \<forall>(H :: 'h itch_handler) h. dispatch H (take k m) h = Some (False, h))
    \<and> (\<forall>x xs (H :: 'h itch_handler) h. dispatch H (m @ x # xs) h = Some (False, h))"
proof -
  have t: "(t, n) \<in> set layout" using assms(1) by (simp add: layout_def)
  then have n: "messageLength t = n" "m \<noteq> []" using assms(2) by (auto simp: layout_def)
  obtain e m' where e: "typeOf e = t" "\<forall>(H :: 'h itch_handler) h. dispatch H m h = map_option (Pair True) (handle H e h)"
    "encode out e = Some (n, m')" "same_on ({..< n} - unread t) m' m"
    using event_back [OF t assms(2-4)] by blast
  have "i \<in> {3, 4} \<or> t = CHR ''S'' \<and> i \<in> {1, 2} \<or> t = CHR ''R'' \<and> 19 \<le> i \<or> t = CHR ''H'' \<and> i = 20 \<or> m' ! i = m ! i"
    if "i < n" for i
    using e(4) that assms(2) by (auto simp: same_on_def unread_def split: if_splits)
  moreover have "length m' = n" using same_len [OF e(4)] assms(2) by simp
  moreover have "\<not> well_framed (take k m)" if "k < n" for k
    using that assms(2,3) n by (cases k; cases m) (auto simp: well_framed_def)
  moreover have "\<not> well_framed (m @ x # xs)" for x xs
    using assms(2,3) n by (cases m) (auto simp: well_framed_def)
  ultimately show ?thesis using e(1-3) by (simp add: dispatch_refuses) blast
qed

lemma dispatch_loses_nothing_witness:
  "\<exists>e m'. typeOf e = CHR ''D'' \<and> dispatch recorder (68 # replicate 17 1 @ [5]) [] = Some (True, [e])
    \<and> encode (replicate 19 7) e = Some (19, m') \<and> m' ! 18 = 5
    \<and> dispatch recorder (take 18 (68 # replicate 17 1 @ [5])) [] = Some (False, [])"
proof -
  let ?m = "68 # replicate 17 1 @ [5] :: bytes"
  have a: "(CHR ''D'', 19 :: nat) \<in> set [(CHR ''A'', 36), (CHR ''E'', 31), (CHR ''C'', 36), (CHR ''X'', 23), (CHR ''D'', 19),
      (CHR ''U'', 35), (CHR ''P'', 44), (CHR ''R'', 39), (CHR ''S'', 12), (CHR ''H'', 25)]" by simp
  have m: "length ?m = 19" "char_of_byte (hd ?m) = CHR ''D''" "length (replicate 19 7 :: bytes) = 19" "?m ! 18 = 5"
    by (simp_all add: char_of_byte_def nth_append char_of_eq_iff)
  note all = dispatch_loses_nothing [OF a m(1-3)]
  have cut: "\<forall>k<19. \<forall>(H :: itch_event list itch_handler) h. dispatch H (take k ?m) h = Some (False, h)"
    by (rule conjunct1 [OF conjunct2 [OF all]])
  from conjunct1 [OF all] obtain e m' where e: "typeOf e = CHR ''D''"
    "\<forall>(H :: itch_event list itch_handler) h. dispatch H ?m h = map_option (Pair True) (handle H e h)"
    "encode (replicate 19 7) e = Some (19, m')"
    "\<forall>i<19. i \<in> {3, 4} \<or> CHR ''D'' = CHR ''S'' \<and> i \<in> {1, 2} \<or> CHR ''D'' = CHR ''R'' \<and> 19 \<le> i \<or> CHR ''D'' = CHR ''H'' \<and> i = 20
       \<or> m' ! i = ?m ! i" by (elim exE conjE)
  have "dispatch recorder ?m [] = Some (True, [e])" using e(2) by (simp add: handle_recorder)
  moreover have "m' ! 18 = 5" using spec [OF e(4), of 18] m(4) by simp
  moreover have "dispatch recorder (take 18 ?m) [] = Some (False, [])"
  proof -
    have "(18 :: nat) < 19" by simp
    with cut show ?thesis by blast
  qed
  ultimately show ?thesis using e(1,3) by blast
qed

section \<open>The contract of a handler\<close>

text \<open>
  A handler whose methods are all defined on the states \<open>ok n\<close>, where \<open>n\<close> is how many more
  messages the state can take (an order book can hold finitely many orders), is defined on
  every sequence of \<open>n\<close> byte strings, well formed or not.
\<close>

locale itch_client =
  fixes H :: "'h itch_handler"
    and ok :: "nat \<Rightarrow> 'h \<Rightarrow> bool"
  assumes handle_ok: "ok (Suc n) h \<Longrightarrow> \<exists>h'. handle H e h = Some h' \<and> ok n h'"
    and ok_mono: "ok (Suc n) h \<Longrightarrow> ok n h"
begin

lemma dispatch_ok: "ok (Suc n) h \<Longrightarrow> \<exists>b h'. dispatch H m h = Some (b, h') \<and> ok n h'"
  using dispatch_cases [of H m h] handle_ok [of n h] ok_mono [of n h]
  by (metis option.simps(9))

lemma dispatch_all_ok: "ok (length ms + n) h \<Longrightarrow> \<exists>h'. dispatch_all H ms h = Some h' \<and> ok n h'"
proof (induction ms arbitrary: h)
  case Nil
  then show ?case by simp
next
  case (Cons m ms)
  then obtain b h' where "dispatch H m h = Some (b, h')" "ok (length ms + n) h'"
    using dispatch_ok [of "length ms + n" h m] by auto
  with Cons.IH show ?case by auto
qed

end

end
