(* ===== verification/OrderIndex.thy ===== *)
theory OrderIndex
  imports Prelude
begin

text \<open>
  The order index: \<open>include/OrderIndex.hpp\<close>, an open-addressing hash table from order
  reference numbers to values, with linear probing, a load factor of at most one half and
  backward-shift deletion.

  A slot index is a natural number below the capacity; the increments \<open>(i + 1) & mask_\<close> and
  the hash, a 64-bit multiplication and shift, are written as the code has them. The probe
  loops have no bound in the code, so they are \<^theory_text>\<open>partial_function\<close>s: a loop that
  never ends is \<^term>\<open>None\<close>. The \<open>Value{}\<close> of an unused slot is \<^const>\<open>default\<close>.

  The invariant \<open>index_inv\<close> says that every entry is reachable from its home slot. Under it
  \<open>oi_find\<close>, \<open>oi_tryInsert\<close> and \<open>oi_erase\<close> terminate and are lookup, insertion of
  a new key and deletion on the map \<open>index_map\<close>. The locale \<open>ref_map\<close> states that
  contract for the book builder.
\<close>

section \<open>State\<close>

record 'v slot =
  s_key :: u64
  s_value :: 'v

record 'v order_index =
  oi_slots :: "'v slot list"
  oi_mask :: nat
  oi_shift :: nat
  oi_size :: nat

definition kEmpty :: u64 where
  "kEmpty = NOT 0"

definition emptySlot :: "('v::default) slot" where
  "emptySlot = \<lparr>s_key = kEmpty, s_value = default\<rparr>"

section \<open>Operations\<close>

definition home :: "'v order_index \<Rightarrow> u64 \<Rightarrow> nat" where
  "home t key = unat (drop_bit (oi_shift t) (key * 0x9E3779B97F4A7C15))"

text \<open>The loops of \<open>find\<close>, \<open>tryInsert\<close>, \<open>erase\<close> (its first loop) and
  \<open>placeUnique\<close>: from slot \<open>i\<close>, step until the slot holds the key or is empty.\<close>

partial_function (option) probe :: "'v order_index \<Rightarrow> u64 \<Rightarrow> nat \<Rightarrow> nat option" where
  "probe t key i =
     (let s = oi_slots t ! i in
      if s_key s = key then Some i
      else if s_key s = kEmpty then Some i
      else probe t key ((i + 1) AND oi_mask t))"

definition oi_find :: "'v order_index \<Rightarrow> u64 \<Rightarrow> 'v option option" where
  "oi_find t key =
     (if key = kEmpty then Some None
      else do {
        i \<leftarrow> probe t key (home t key);
        let s = oi_slots t ! i;
        if s_key s = key then Some (Some (s_value s)) else Some None
      })"

definition placeUnique :: "u64 \<Rightarrow> 'v \<Rightarrow> 'v order_index \<Rightarrow> 'v order_index option" where
  "placeUnique key v t = do {
     i \<leftarrow> probe t kEmpty (home t key);
     Some (t\<lparr>oi_slots := (oi_slots t)[i := \<lparr>s_key = key, s_value = v\<rparr>],
             oi_size := oi_size t + 1\<rparr>)
   }"

fun placeAll :: "'v slot list \<Rightarrow> 'v order_index \<Rightarrow> 'v order_index option" where
  "placeAll [] t = Some t"
| "placeAll (s # old) t =
     (if s_key s \<noteq> kEmpty then do { t \<leftarrow> placeUnique (s_key s) (s_value s) t; placeAll old t }
      else placeAll old t)"

text \<open>\<open>shift_ = 64; for (c = newCapacity; c > 1; c >>= 1) --shift_;\<close>\<close>

fun shift_loop :: "nat \<Rightarrow> nat \<Rightarrow> nat" where
  "shift_loop c sh = (if c > 1 then shift_loop (c div 2) (sh - 1) else sh)"

text \<open>\<open>rehash\<close>: the blank table of the new capacity, then every old entry placed in it.\<close>

definition blankTable :: "nat \<Rightarrow> ('v::default) order_index" where
  "blankTable newCapacity =
     \<lparr>oi_slots = replicate newCapacity emptySlot, oi_mask = newCapacity - 1,
      oi_shift = shift_loop newCapacity 64, oi_size = 0\<rparr>"

definition rehash :: "nat \<Rightarrow> ('v::default) order_index \<Rightarrow> 'v order_index option" where
  "rehash newCapacity t =
     (if newCapacity \<ge> 16 \<and> newCapacity AND (newCapacity - 1) = 0
      then placeAll (oi_slots t) (blankTable newCapacity)
      else None)"

definition oi_tryInsert ::
    "u64 \<Rightarrow> 'v \<Rightarrow> ('v::default) order_index \<Rightarrow> (bool \<times> 'v order_index) option" where
  "oi_tryInsert key v t =
     (if key = kEmpty then Some (False, t)
      else do {
        t \<leftarrow> (if (oi_size t + 1) * 2 > length (oi_slots t)
              then rehash (length (oi_slots t) * 2) t else Some t);
        i \<leftarrow> probe t key (home t key);
        if s_key (oi_slots t ! i) = key then Some (False, t)
        else Some (True, t\<lparr>oi_slots := (oi_slots t)[i := \<lparr>s_key = key, s_value = v\<rparr>],
                           oi_size := oi_size t + 1\<rparr>)
      })"

text \<open>The backward shift: \<open>j\<close> walks the cluster after \<open>hole\<close>; the result is the final
  slots and the final hole.\<close>

definition stays :: "nat \<Rightarrow> nat \<Rightarrow> nat \<Rightarrow> bool" where
  "stays hole h j = (if hole < j then hole < h \<and> h \<le> j else hole < h \<or> h \<le> j)"

partial_function (option) shift_back ::
    "'v order_index \<Rightarrow> nat \<Rightarrow> nat \<Rightarrow> ('v order_index \<times> nat) option" where
  "shift_back t hole j =
     (if s_key (oi_slots t ! j) = kEmpty then Some (t, hole)
      else if stays hole (home t (s_key (oi_slots t ! j))) j
      then shift_back t hole ((j + 1) AND oi_mask t)
      else shift_back (t\<lparr>oi_slots := (oi_slots t)[hole := oi_slots t ! j]\<rparr>) j
             ((j + 1) AND oi_mask t))"

definition oi_erase :: "u64 \<Rightarrow> 'v order_index \<Rightarrow> (bool \<times> 'v order_index) option" where
  "oi_erase key t =
     (if key = kEmpty then Some (False, t)
      else do {
        hole \<leftarrow> probe t key (home t key);
        if s_key (oi_slots t ! hole) \<noteq> key then Some (False, t)
        else do {
          (t, hole) \<leftarrow> shift_back t hole ((hole + 1) AND oi_mask t);
          Some (True, t\<lparr>oi_slots := (oi_slots t)[hole := (oi_slots t ! hole)\<lparr>s_key := kEmpty\<rparr>],
                        oi_size := oi_size t - 1\<rparr>)
        }
      })"

text \<open>\<open>capacityFor\<close> and the constructor.\<close>

function capacity_loop :: "nat \<Rightarrow> nat \<Rightarrow> nat" where
  "capacity_loop entries c = (if 0 < c \<and> c < entries * 2 then capacity_loop entries (c * 2) else c)"
  by pat_completeness auto
termination
  by (relation "measure (\<lambda>(entries, c). entries * 2 - c)") auto

definition capacityFor :: "nat \<Rightarrow> nat" where
  "capacityFor entries = capacity_loop entries 16"

definition oi_new :: "nat \<Rightarrow> ('v::default) order_index option" where
  "oi_new expectedEntries =
     rehash (capacityFor expectedEntries)
       \<lparr>oi_slots = [], oi_mask = 0, oi_shift = 64, oi_size = 0\<rparr>"

declare shift_loop.simps [simp del] capacity_loop.simps [simp del]

section \<open>Cyclic distance\<close>

text \<open>How many steps of \<open>(i + 1) & mask_\<close> lead from \<open>a\<close> to \<open>b\<close>.\<close>

definition cyc :: "nat \<Rightarrow> nat \<Rightarrow> nat \<Rightarrow> nat" where
  "cyc n a b = (if a \<le> b then b - a else b + n - a)"

definition nxt :: "nat \<Rightarrow> nat \<Rightarrow> nat" where
  "nxt n i = (if i + 1 = n then 0 else i + 1)"

lemma cyc_less: "a < n \<Longrightarrow> b < n \<Longrightarrow> cyc n a b < n"
  by (auto simp: cyc_def)

lemma cyc_inj: "a < n \<Longrightarrow> b < n \<Longrightarrow> c < n \<Longrightarrow> cyc n a b = cyc n a c \<longleftrightarrow> b = c"
  by (auto simp: cyc_def split: if_splits)

lemma cyc_same [simp]: "cyc n a a = 0"
  by (simp add: cyc_def)

lemma nxt_less: "i < n \<Longrightarrow> nxt n i < n"
  by (auto simp: nxt_def)

lemma cyc_nxt: "i < n \<Longrightarrow> q < n \<Longrightarrow> q \<noteq> i \<Longrightarrow> cyc n i q = Suc (cyc n (nxt n i) q)"
  by (auto simp: cyc_def nxt_def)

lemma cyc_to_nxt: "h < n \<Longrightarrow> j < n \<Longrightarrow> nxt n j \<noteq> h \<Longrightarrow> cyc n h (nxt n j) = Suc (cyc n h j)"
  by (auto simp: cyc_def nxt_def)

lemma stays_cyc:
  "hole < n \<Longrightarrow> h < n \<Longrightarrow> j < n \<Longrightarrow> hole \<noteq> j \<Longrightarrow> stays hole h j \<longleftrightarrow> \<not> cyc n h hole < cyc n h j"
  by (auto simp: stays_def cyc_def)

lemma cyc_via:
  "a < n \<Longrightarrow> b < n \<Longrightarrow> j < n \<Longrightarrow> p < n \<Longrightarrow> cyc n a b < cyc n a p \<Longrightarrow> cyc n b j < cyc n b p \<Longrightarrow>
   cyc n a j < cyc n a p"
  by (auto simp: cyc_def split: if_splits)

section \<open>Invariant and abstraction\<close>

text \<open>The shape: a power of two of slots, the mask and shift that belong to it.\<close>

definition index_shape :: "'v order_index \<Rightarrow> bool" where
  "index_shape t \<longleftrightarrow> (\<exists>k. 4 \<le> k \<and> k \<le> 63 \<and> length (oi_slots t) = 2 ^ k
     \<and> oi_mask t = 2 ^ k - 1 \<and> oi_shift t = 64 - k)"

abbreviation key_at :: "'v order_index \<Rightarrow> nat \<Rightarrow> u64" where
  "key_at t p \<equiv> s_key (oi_slots t ! p)"

abbreviation cap :: "'v order_index \<Rightarrow> nat" where
  "cap t \<equiv> length (oi_slots t)"

text \<open>\<open>used t X\<close>: the slots that hold an entry, not counting those in \<open>X\<close> (the hole).\<close>

definition used :: "'v order_index \<Rightarrow> nat set \<Rightarrow> nat set" where
  "used t X = {p. p < cap t \<and> key_at t p \<noteq> kEmpty \<and> p \<notin> X}"

text \<open>Every slot between an entry's home and the entry is in use.\<close>

definition reachable_from_home :: "'v order_index \<Rightarrow> bool" where
  "reachable_from_home t \<longleftrightarrow>
     (\<forall>p \<in> used t {}. \<forall>q < cap t.
        cyc (cap t) (home t (key_at t p)) q < cyc (cap t) (home t (key_at t p)) p \<longrightarrow>
        key_at t q \<noteq> kEmpty)"

definition distinct_keys :: "'v order_index \<Rightarrow> nat set \<Rightarrow> bool" where
  "distinct_keys t X \<longleftrightarrow> (\<forall>p \<in> used t X. \<forall>q \<in> used t X. key_at t p = key_at t q \<longrightarrow> p = q)"

definition index_inv :: "'v order_index \<Rightarrow> bool" where
  "index_inv t \<longleftrightarrow> index_shape t \<and> reachable_from_home t \<and> distinct_keys t {}
     \<and> oi_size t = card (used t {}) \<and> oi_size t * 2 \<le> cap t"

text \<open>The entries as a map.\<close>

definition index_map :: "'v order_index \<Rightarrow> u64 \<rightharpoonup> 'v" where
  "index_map t = map_of (map (\<lambda>s. (s_key s, s_value s)) (filter (\<lambda>s. s_key s \<noteq> kEmpty) (oi_slots t)))"

lemma used_iff: "p \<in> used t X \<longleftrightarrow> p < cap t \<and> key_at t p \<noteq> kEmpty \<and> p \<notin> X"
  by (simp add: used_def)

lemma finite_used [simp]: "finite (used t X)"
  by (simp add: used_def)

lemma index_map_kEmpty [simp]: "index_map t kEmpty = None"
  by (auto simp: index_map_def map_of_eq_None_iff)

lemma index_map_None_iff: "index_map t k = None \<longleftrightarrow> (\<forall>p \<in> used t {}. key_at t p \<noteq> k)"
  by (force simp: index_map_def map_of_eq_None_iff used_def in_set_conv_nth)

lemma index_map_used:
  assumes "distinct_keys t {}" and "p \<in> used t {}"
  shows "index_map t (key_at t p) = Some (s_value (oi_slots t ! p))"
proof -
  obtain v where v: "index_map t (key_at t p) = Some v"
    using index_map_None_iff [of t "key_at t p"] assms(2) by fastforce
  then have "(key_at t p, v) \<in> set (map (\<lambda>s. (s_key s, s_value s))
      (filter (\<lambda>s. s_key s \<noteq> kEmpty) (oi_slots t)))"
    unfolding index_map_def by (rule map_of_SomeD)
  then obtain q where "q \<in> used t {}" "key_at t q = key_at t p" "s_value (oi_slots t ! q) = v"
    by (force simp: used_def in_set_conv_nth)
  with assms v show ?thesis unfolding distinct_keys_def by blast
qed

lemma index_map_Some_iff:
  assumes "distinct_keys t {}"
  shows "index_map t k = Some v \<longleftrightarrow>
    (\<exists>p \<in> used t {}. key_at t p = k \<and> s_value (oi_slots t ! p) = v)"
  using index_map_used [OF assms] index_map_None_iff [of t k]
  by (metis option.distinct(1) option.inject)

lemma shape_next: "index_shape t \<Longrightarrow> i < cap t \<Longrightarrow> (i + 1) AND oi_mask t = nxt (cap t) i"
  by (auto simp: index_shape_def nxt_def and_pow2_mask simp del: Suc_eq_plus1)

lemma shape_home: "index_shape t \<Longrightarrow> home t key < cap t"
proof -
  assume "index_shape t"
  then obtain k where k: "k \<le> 63" "cap t = 2 ^ k" "oi_shift t = 64 - k"
    by (auto simp: index_shape_def)
  have "unat (key * 0x9E3779B97F4A7C15) < 2 ^ k * 2 ^ (64 - k)"
    using unsigned_less [of "key * 0x9E3779B97F4A7C15", where ?'a = nat] k
    by (simp flip: power_add)
  then have "unat (key * 0x9E3779B97F4A7C15) div 2 ^ (64 - k) < 2 ^ k"
    by (simp add: less_mult_imp_div_less)
  then show ?thesis
    using k by (simp only: home_def unat_drop_bit_eq drop_bit_eq_div [where ?'a = nat])
qed

section \<open>Probing\<close>

definition stops :: "'v order_index \<Rightarrow> u64 \<Rightarrow> nat \<Rightarrow> bool" where
  "stops t key p \<longleftrightarrow> key_at t p = key \<or> key_at t p = kEmpty"

text \<open>With an unused slot \<open>e\<close> in the table, probing ends, at the first slot that stops it.\<close>

lemma probe_ends:
  assumes shape: "index_shape t" and e: "e < cap t" "key_at t e = kEmpty" and i: "i < cap t"
  shows "\<exists>j. probe t key i = Some j \<and> j < cap t \<and> stops t key j
    \<and> (\<forall>q < cap t. cyc (cap t) i q < cyc (cap t) i j \<longrightarrow> \<not> stops t key q)"
  using i
proof (induction "cyc (cap t) i e" arbitrary: i rule: less_induct)
  case less
  show ?case
  proof (cases "stops t key i")
    case True
    then have "probe t key i = Some i" by (auto simp: stops_def probe.simps [of t key i] Let_def)
    with True less.prems show ?thesis by auto
  next
    case False
    let ?i = "nxt (cap t) i"
    have "i \<noteq> e" using False e by (auto simp: stops_def)
    then have closer: "cyc (cap t) ?i e < cyc (cap t) i e"
      using cyc_nxt [of i "cap t" e] less.prems e(1) by simp
    obtain j where j: "probe t key ?i = Some j" "j < cap t" "stops t key j"
      "\<forall>q < cap t. cyc (cap t) ?i q < cyc (cap t) ?i j \<longrightarrow> \<not> stops t key q"
      using less.hyps [OF closer nxt_less [OF less.prems]] by blast
    have "probe t key i = Some j"
      using False j(1) shape_next [OF shape less.prems]
      by (simp add: stops_def probe.simps [of t key i] Let_def)
    moreover have "\<not> stops t key q" if "q < cap t" "cyc (cap t) i q < cyc (cap t) i j" for q
    proof (cases "q = i")
      case True
      then show ?thesis using False by simp
    next
      case qi: False
      have "j \<noteq> i" using j(3) False by auto
      then have "cyc (cap t) ?i q < cyc (cap t) ?i j"
        using that cyc_nxt [OF less.prems that(1) qi] cyc_nxt [OF less.prems j(2)] by simp
      with j(4) that(1) show ?thesis by blast
    qed
    ultimately show ?thesis using j by blast
  qed
qed

lemma has_unused:
  assumes "index_shape t" and "card (used t {}) * 2 \<le> cap t"
  shows "\<exists>e < cap t. key_at t e = kEmpty"
proof (rule ccontr)
  assume "\<not> ?thesis"
  then have "used t {} = {..< cap t}" by (auto simp: used_def)
  then have "card (used t {}) = cap t" by simp
  moreover have "0 < cap t" using assms(1) by (auto simp: index_shape_def)
  ultimately show False using assms(2) by simp
qed

lemma inv_probe:
  assumes "index_inv t"
  shows "\<exists>j. probe t key (home t key) = Some j \<and> j < cap t \<and> stops t key j
    \<and> (\<forall>q < cap t. cyc (cap t) (home t key) q < cyc (cap t) (home t key) j \<longrightarrow> \<not> stops t key q)"
proof -
  have shape: "index_shape t" using assms by (simp add: index_inv_def)
  moreover obtain e where "e < cap t" "key_at t e = kEmpty"
    using has_unused [OF shape] assms by (auto simp: index_inv_def)
  ultimately show ?thesis by (intro probe_ends shape_home)
qed

text \<open>From its home slot, probing for a stored key stops at its entry.\<close>

lemma probe_at_entry:
  assumes inv: "index_inv t" and p: "p \<in> used t {}"
  shows "probe t (key_at t p) (home t (key_at t p)) = Some p"
proof -
  let ?k = "key_at t p" and ?n = "cap t"
  obtain j where j: "probe t ?k (home t ?k) = Some j" "j < ?n" "stops t ?k j"
    "\<forall>q < ?n. cyc ?n (home t ?k) q < cyc ?n (home t ?k) j \<longrightarrow> \<not> stops t ?k q"
    using inv_probe [OF inv] by blast
  have "\<not> cyc ?n (home t ?k) p < cyc ?n (home t ?k) j"
    using j(4) p by (auto simp: stops_def used_def)
  moreover have "p = j" if "cyc ?n (home t ?k) j < cyc ?n (home t ?k) p"
  proof -
    have "key_at t j \<noteq> kEmpty"
      using inv p j(2) that by (auto simp: index_inv_def reachable_from_home_def)
    then show ?thesis
      using inv p j(2,3) by (auto simp: stops_def index_inv_def distinct_keys_def used_def)
  qed
  ultimately have "cyc ?n (home t ?k) p = cyc ?n (home t ?k) j" by (metis linorder_less_linear)
  then have "p = j"
    using cyc_inj [of "home t ?k" ?n p j] shape_home [of t] inv p j(2)
    by (simp add: index_inv_def used_def)
  then show ?thesis using j(1) by simp
qed

lemma probe_absent:
  assumes inv: "index_inv t" and k: "index_map t k = None"
  shows "\<exists>j. probe t k (home t k) = Some j \<and> j < cap t \<and> key_at t j = kEmpty
    \<and> (\<forall>q < cap t. cyc (cap t) (home t k) q < cyc (cap t) (home t k) j \<longrightarrow> key_at t q \<noteq> kEmpty)"
proof -
  obtain j where j: "probe t k (home t k) = Some j" "j < cap t" "stops t k j"
    "\<forall>q < cap t. cyc (cap t) (home t k) q < cyc (cap t) (home t k) j \<longrightarrow> \<not> stops t k q"
    using inv_probe [OF inv] by blast
  then have "key_at t j = kEmpty"
    using k by (auto simp: index_map_None_iff used_def stops_def)
  with j show ?thesis by (auto simp: stops_def)
qed

lemma oi_find_map: "index_inv t \<Longrightarrow> oi_find t k = Some (index_map t k)"
proof (cases "index_map t k")
  case None
  assume inv: "index_inv t"
  with None obtain j where "probe t k (home t k) = Some j" "key_at t j = kEmpty"
    using probe_absent by blast
  with None show ?thesis by (auto simp: oi_find_def Let_def)
next
  case (Some v)
  assume inv: "index_inv t"
  with Some obtain p where p: "p \<in> used t {}" "key_at t p = k" "s_value (oi_slots t ! p) = v"
    using index_map_Some_iff [of t k v] by (auto simp: index_inv_def)
  then have "probe t k (home t k) = Some p" using probe_at_entry [OF inv] by blast
  with Some p show ?thesis by (auto simp: oi_find_def Let_def used_def)
qed

section \<open>Storing an entry in an unused slot\<close>

lemma store_unused:
  assumes inv: "index_inv t" and k: "index_map t k = None" "k \<noteq> kEmpty"
    and room: "(oi_size t + 1) * 2 \<le> cap t"
    and j: "j < cap t" "key_at t j = kEmpty"
      "\<forall>q < cap t. cyc (cap t) (home t k) q < cyc (cap t) (home t k) j \<longrightarrow> key_at t q \<noteq> kEmpty"
    and t': "t' = t\<lparr>oi_slots := (oi_slots t)[j := \<lparr>s_key = k, s_value = v\<rparr>], oi_size := oi_size t + 1\<rparr>"
  shows "index_inv t' \<and> index_map t' = (index_map t)(k \<mapsto> v)"
proof -
  have cap: "cap t' = cap t" and home: "\<And>x. home t' x = home t x"
    by (simp_all add: t' home_def)
  have at: "oi_slots t' ! p = (if p = j then \<lparr>s_key = k, s_value = v\<rparr> else oi_slots t ! p)" if "p < cap t" for p
    using that by (simp add: t')
  have used: "used t' {} = insert j (used t {})"
    using j k by (auto simp: used_def cap at split: if_splits)
  have shape: "index_shape t'" using inv by (simp add: index_inv_def index_shape_def t')
  have reach: "reachable_from_home t'"
    using inv j(3) k(2) by (auto simp: index_inv_def reachable_from_home_def used_def cap home at)
  have dist: "distinct_keys t' {}"
    using inv k(1) j(1) unfolding index_map_None_iff index_inv_def distinct_keys_def used
    by (auto simp: at used_def split: if_splits)
  have "card (used t' {}) = oi_size t + 1"
    using inv j(2) by (simp add: used index_inv_def used_iff)
  then have "index_inv t'"
    using shape reach dist room by (simp add: index_inv_def t')
  moreover have "index_map t' = (index_map t)(k \<mapsto> v)"
  proof (intro ext option_eqI)
    fix x w
    have d: "distinct_keys t {}" using inv by (simp add: index_inv_def)
    have "j \<notin> used t {}" using j by (simp add: used_def)
    then have "index_map t' x = Some w \<longleftrightarrow> (if x = k then w = v \<or> index_map t x = Some w
        else index_map t x = Some w)"
      unfolding index_map_Some_iff [OF dist] index_map_Some_iff [OF d] used
      by (auto simp: used_def at j(1))
    then show "index_map t' x = Some w \<longleftrightarrow> ((index_map t)(k \<mapsto> v)) x = Some w"
      using k(1) by auto
  qed
  ultimately show ?thesis by blast
qed

section \<open>Growing the table\<close>

abbreviation entries :: "'v slot list \<Rightarrow> (u64 \<times> 'v) list" where
  "entries xs \<equiv> map (\<lambda>s. (s_key s, s_value s)) (filter (\<lambda>s. s_key s \<noteq> kEmpty) xs)"

lemma distinct_map_filter_nth:
  "(\<And>p q. p < length xs \<Longrightarrow> q < length xs \<Longrightarrow> P (xs ! p) \<Longrightarrow> P (xs ! q) \<Longrightarrow> f (xs ! p) = f (xs ! q) \<Longrightarrow> p = q)
   \<Longrightarrow> distinct (map f (filter P xs))"
proof (induction xs)
  case Nil
  then show ?case by simp
next
  case (Cons x xs)
  have "distinct (map f (filter P xs))"
  proof (rule Cons.IH)
    fix p q
    assume "p < length xs" "q < length xs" "P (xs ! p)" "P (xs ! q)" "f (xs ! p) = f (xs ! q)"
    then show "p = q" using Cons.prems [of "Suc p" "Suc q"] by simp
  qed
  moreover have "f x \<noteq> f y" if "P x" "y \<in> set xs" "P y" for y
    using that Cons.prems [of 0 "Suc _"] by (force simp: in_set_conv_nth)
  ultimately show ?case by auto
qed

lemma distinct_entries: "distinct_keys t {} \<Longrightarrow> distinct (map fst (entries (oi_slots t)))"
  by (simp add: comp_def) (rule distinct_map_filter_nth, auto simp: distinct_keys_def used_def)

lemma card_used_entries: "card (used t {}) = length (entries (oi_slots t))"
proof -
  have "used t {} = {p. p < length (oi_slots t) \<and> s_key (oi_slots t ! p) \<noteq> kEmpty}"
    by (auto simp: used_def)
  then show ?thesis by (simp add: length_filter_conv_card)
qed

lemma placeUnique_absent:
  assumes inv: "index_inv t" and k: "index_map t k = None" "k \<noteq> kEmpty"
    and room: "(oi_size t + 1) * 2 \<le> cap t"
  shows "\<exists>t'. placeUnique k v t = Some t' \<and> index_inv t' \<and> index_map t' = (index_map t)(k \<mapsto> v)
    \<and> oi_size t' = oi_size t + 1 \<and> cap t' = cap t"
proof -
  have shape: "index_shape t" using inv by (simp add: index_inv_def)
  moreover obtain e where "e < cap t" "key_at t e = kEmpty"
    using has_unused [OF shape] inv by (auto simp: index_inv_def)
  ultimately obtain j where j: "probe t kEmpty (home t k) = Some j" "j < cap t" "stops t kEmpty j"
    "\<forall>q < cap t. cyc (cap t) (home t k) q < cyc (cap t) (home t k) j \<longrightarrow> \<not> stops t kEmpty q"
    using probe_ends [of t e "home t k" kEmpty] shape_home by blast
  let ?t' = "t\<lparr>oi_slots := (oi_slots t)[j := \<lparr>s_key = k, s_value = v\<rparr>], oi_size := oi_size t + 1\<rparr>"
  have "index_inv ?t' \<and> index_map ?t' = (index_map t)(k \<mapsto> v)"
    by (rule store_unused [OF inv k room j(2)]) (use j in \<open>auto simp: stops_def\<close>)
  with j(1) show ?thesis by (simp add: placeUnique_def)
qed

lemma placeAll_entries:
  assumes "index_inv t" and "distinct (map fst (entries old))"
    and "\<forall>s \<in> set old. s_key s \<noteq> kEmpty \<longrightarrow> index_map t (s_key s) = None"
    and "(oi_size t + length (entries old)) * 2 \<le> cap t"
  shows "\<exists>t'. placeAll old t = Some t' \<and> index_inv t' \<and> cap t' = cap t
    \<and> index_map t' = index_map t ++ map_of (entries old)
    \<and> oi_size t' = oi_size t + length (entries old)"
  using assms
proof (induction old arbitrary: t)
  case Nil
  then show ?case by simp
next
  case (Cons s old)
  show ?case
  proof (cases "s_key s = kEmpty")
    case True
    with Cons show ?thesis by simp
  next
    case False
    then have k: "index_map t (s_key s) = None" using Cons.prems(3) by simp
    have "(oi_size t + 1) * 2 \<le> cap t" using Cons.prems(4) False by simp
    then obtain t1 where t1: "placeUnique (s_key s) (s_value s) t = Some t1" "index_inv t1"
      "index_map t1 = (index_map t)(s_key s \<mapsto> s_value s)" "oi_size t1 = oi_size t + 1" "cap t1 = cap t"
      using placeUnique_absent [OF Cons.prems(1) k False] by blast
    have fresh: "s_key s \<notin> fst ` set (entries old)" using Cons.prems(2) False by (simp add: image_image)
    have absent: "\<forall>x \<in> set old. s_key x \<noteq> kEmpty \<longrightarrow> index_map t1 (s_key x) = None"
    proof (intro ballI impI)
      fix x assume x: "x \<in> set old" "s_key x \<noteq> kEmpty"
      then have "s_key x \<in> fst ` set (entries old)" by force
      with fresh have "s_key x \<noteq> s_key s" by metis
      with x Cons.prems(3) show "index_map t1 (s_key x) = None" by (simp add: t1(3))
    qed
    have dist: "distinct (map fst (entries old))" using Cons.prems(2) False by simp
    have room: "(oi_size t1 + length (entries old)) * 2 \<le> cap t1"
      using Cons.prems(4) False t1(4,5) by simp
    obtain t2 where t2: "placeAll old t1 = Some t2" "index_inv t2" "cap t2 = cap t1"
      "index_map t2 = index_map t1 ++ map_of (entries old)" "oi_size t2 = oi_size t1 + length (entries old)"
      using Cons.IH [OF t1(2) dist absent room] by blast
    have notin: "s_key s \<notin> dom (map_of (entries old))"
      using fresh unfolding dom_map_of_conv_image_fst .
    have "index_map t2 = (index_map t)(s_key s \<mapsto> s_value s) ++ map_of (entries old)"
      by (simp only: t2(4) t1(3))
    also have "\<dots> = (index_map t ++ map_of (entries old))(s_key s \<mapsto> s_value s)"
      using notin by (rule map_add_upd_left)
    also have "\<dots> = index_map t ++ map_of (entries (s # old))"
      using False by (simp add: map_add_def fun_eq_iff)
    finally have "index_map t2 = index_map t ++ map_of (entries (s # old))" .
    moreover have "placeAll (s # old) t = Some t2" using t1(1) t2(1) False by simp
    moreover have "oi_size t2 = oi_size t + length (entries (s # old))" using t2(5) t1(4) False by simp
    ultimately show ?thesis using t2(2,3) unfolding t1(5) by blast
  qed
qed

lemma shift_loop_pow2: "shift_loop (2 ^ k) s = s - k"
proof (induction k arbitrary: s)
  case 0
  then show ?case by (simp add: shift_loop.simps)
next
  case (Suc k)
  have "Suc 0 < 2 * 2 ^ k" by (rule less_le_trans [of _ 2]) simp_all
  with Suc show ?case by (subst shift_loop.simps) simp
qed

lemma blank_inv:
  fixes t :: "('v::default) order_index"
  assumes t: "t = blankTable (2 ^ k)" and k: "4 \<le> k" "k \<le> 63"
  shows "index_inv t" and "index_map t = Map.empty" and "cap t = 2 ^ k" and "oi_size t = 0"
proof -
  show len: "cap t = 2 ^ k" and sz: "oi_size t = 0" by (simp_all add: t blankTable_def)
  have empty: "used t {} = {}" by (auto simp: used_def t blankTable_def emptySlot_def)
  have "index_shape t"
    using k by (auto simp: index_shape_def shift_loop_pow2 t blankTable_def)
  then show "index_inv t"
    by (simp add: index_inv_def reachable_from_home_def distinct_keys_def empty sz)
  show "index_map t = Map.empty"
    by (simp add: index_map_def emptySlot_def t blankTable_def filter_replicate)
qed

lemma rehash_pow2:
  fixes t :: "('v::default) order_index"
  assumes k: "4 \<le> k" "k \<le> 63" and d: "distinct (map fst (entries (oi_slots t)))"
    and room: "length (entries (oi_slots t)) * 2 \<le> 2 ^ k"
  shows "\<exists>t'. rehash (2 ^ k) t = Some t' \<and> index_inv t' \<and> index_map t' = index_map t
    \<and> oi_size t' = length (entries (oi_slots t)) \<and> cap t' = 2 ^ k"
proof -
  define b :: "'v order_index" where "b = blankTable (2 ^ k)"
  note blank = blank_inv [OF b_def k]
  have "(16::nat) \<le> 2 ^ k" using power_increasing [OF k(1), of "2::nat"] by simp
  then have "rehash (2 ^ k) t = placeAll (oi_slots t) b"
    using and_pow2_mask [of "2 ^ k" k] by (simp add: rehash_def b_def)
  moreover have "\<exists>t'. placeAll (oi_slots t) b = Some t' \<and> index_inv t' \<and> cap t' = cap b
    \<and> index_map t' = index_map b ++ map_of (entries (oi_slots t))
    \<and> oi_size t' = oi_size b + length (entries (oi_slots t))"
    by (rule placeAll_entries [OF blank(1) d]) (use room in \<open>simp_all add: blank\<close>)
  ultimately show ?thesis by (simp add: blank index_map_def [of t]) metis
qed

section \<open>Inserting\<close>

lemma oi_tryInsert_map:
  fixes t :: "('v::default) order_index"
  assumes inv: "index_inv t" and bound: "oi_size t < 2 ^ 61"
  shows "\<exists>t'. oi_tryInsert k v t = Some (k \<noteq> kEmpty \<and> index_map t k = None, t') \<and> index_inv t'
    \<and> index_map t' = (if k \<noteq> kEmpty \<and> index_map t k = None then (index_map t)(k \<mapsto> v) else index_map t)
    \<and> oi_size t' = oi_size t + (if k \<noteq> kEmpty \<and> index_map t k = None then 1 else 0)"
proof (cases "k = kEmpty")
  case True
  with inv show ?thesis by (simp add: oi_tryInsert_def)
next
  case key: False
  let ?grow = "if (oi_size t + 1) * 2 > cap t then rehash (cap t * 2) t else Some t"
  obtain n where n: "4 \<le> n" "n \<le> 63" "cap t = 2 ^ n"
    using inv by (auto simp: index_inv_def index_shape_def)
  have size: "oi_size t = length (entries (oi_slots t))"
    using inv card_used_entries [of t] by (simp add: index_inv_def)
  have "\<exists>t1. ?grow = Some t1 \<and> index_inv t1 \<and> index_map t1 = index_map t
    \<and> oi_size t1 = oi_size t \<and> (oi_size t + 1) * 2 \<le> cap t1"
  proof (cases "(oi_size t + 1) * 2 > cap t")
    case True
    have "(2::nat) ^ n < 2 ^ 63" using True bound n(3) by simp
    then have "n + 1 \<le> 63" using power_less_imp_less_exp [of "2::nat" n 63] by simp
    moreover have "length (entries (oi_slots t)) * 2 \<le> 2 ^ (n + 1)"
      using inv size n(3) by (simp add: index_inv_def)
    moreover have "distinct (map fst (entries (oi_slots t)))"
      using inv by (intro distinct_entries) (simp add: index_inv_def)
    ultimately obtain t1 where "rehash (2 ^ (n + 1)) t = Some t1" "index_inv t1"
      "index_map t1 = index_map t" "oi_size t1 = length (entries (oi_slots t))" "cap t1 = 2 ^ (n + 1)"
      using rehash_pow2 [of "n + 1" t] n(1) by auto
    moreover have "oi_size t * 2 \<le> 2 ^ n" using inv n(3) by (simp add: index_inv_def)
    moreover have "(2::nat) \<le> 2 ^ n" using power_increasing [of 1 n "2::nat"] n(1) by simp
    ultimately show ?thesis using True size n(3) by (simp add: mult.commute)
  next
    case False
    with inv show ?thesis by simp
  qed
  then obtain t1 where t1: "?grow = Some t1" "index_inv t1" "index_map t1 = index_map t"
    "oi_size t1 = oi_size t" "(oi_size t + 1) * 2 \<le> cap t1" by blast
  show ?thesis
  proof (cases "index_map t k")
    case None
    then have "index_map t1 k = None" by (simp add: t1(3))
    then obtain j where j: "probe t1 k (home t1 k) = Some j" "j < cap t1" "key_at t1 j = kEmpty"
      "\<forall>q < cap t1. cyc (cap t1) (home t1 k) q < cyc (cap t1) (home t1 k) j \<longrightarrow> key_at t1 q \<noteq> kEmpty"
      using probe_absent [OF t1(2)] by blast
    let ?t' = "t1\<lparr>oi_slots := (oi_slots t1)[j := \<lparr>s_key = k, s_value = v\<rparr>], oi_size := oi_size t1 + 1\<rparr>"
    have "index_inv ?t' \<and> index_map ?t' = (index_map t1)(k \<mapsto> v)"
      by (rule store_unused [OF t1(2) \<open>index_map t1 k = None\<close> key _ j(2,3,4)])
        (simp only: t1(4), rule t1(5), rule refl)
    moreover have "oi_tryInsert k v t = Some (True, ?t')"
      using key t1(1) j(1,3) by (simp add: oi_tryInsert_def)
    ultimately show ?thesis using None key t1(3,4) by simp
  next
    case (Some w)
    have d: "distinct_keys t1 {}" using t1(2) by (simp add: index_inv_def)
    from Some have "index_map t1 k = Some w" by (simp add: t1(3))
    then obtain p where p: "p \<in> used t1 {}" "key_at t1 p = k"
      using index_map_Some_iff [OF d] by blast
    then have "probe t1 k (home t1 k) = Some p" using probe_at_entry [OF t1(2)] by blast
    then have "oi_tryInsert k v t = Some (False, t1)"
      using key t1(1) p(2) by (simp add: oi_tryInsert_def)
    then show ?thesis using Some key t1 by simp
  qed
qed

section \<open>Erasing: the backward shift\<close>

text \<open>
  The state of the shift: \<open>hole\<close> counts as unused although it still holds a stale copy, and
  \<open>j\<close> is the next slot to look at. An entry may have the hole on its way from home only if it
  lies at \<open>j\<close> or beyond.
\<close>

definition shifting :: "'v order_index \<Rightarrow> nat \<Rightarrow> nat \<Rightarrow> bool" where
  "shifting t hole j \<longleftrightarrow> hole < cap t \<and> j < cap t \<and> hole \<noteq> j \<and> key_at t hole \<noteq> kEmpty
     \<and> (\<forall>q < cap t. q \<noteq> hole \<longrightarrow> cyc (cap t) hole q < cyc (cap t) hole j \<longrightarrow> key_at t q \<noteq> kEmpty)
     \<and> (\<forall>p \<in> used t {hole}. \<forall>q < cap t. q \<noteq> hole \<longrightarrow>
          cyc (cap t) (home t (key_at t p)) q < cyc (cap t) (home t (key_at t p)) p \<longrightarrow>
          key_at t q \<noteq> kEmpty)
     \<and> (\<forall>p \<in> used t {hole}. cyc (cap t) hole p < cyc (cap t) hole j \<longrightarrow>
          \<not> cyc (cap t) (home t (key_at t p)) hole < cyc (cap t) (home t (key_at t p)) p)"

lemma shifting_stays:
  assumes shape: "index_shape t" and s: "shifting t hole j"
    and st: "stays hole (home t (key_at t j)) j" and j: "key_at t j \<noteq> kEmpty" and nh: "nxt (cap t) j \<noteq> hole"
  shows "shifting t hole (nxt (cap t) j)"
proof -
  have b: "hole < cap t" "j < cap t" "hole \<noteq> j" using s by (simp_all add: shifting_def)
  have step: "cyc (cap t) hole (nxt (cap t) j) = Suc (cyc (cap t) hole j)"
    using b nh by (simp add: cyc_to_nxt)
  have upto: "cyc (cap t) hole q < cyc (cap t) hole (nxt (cap t) j) \<longleftrightarrow>
      cyc (cap t) hole q < cyc (cap t) hole j \<or> q = j" if "q < cap t" for q
    using cyc_inj [of hole "cap t" q j] b that by (auto simp: step less_Suc_eq)
  have "\<not> cyc (cap t) (home t (key_at t j)) hole < cyc (cap t) (home t (key_at t j)) j"
    using st stays_cyc [of hole "cap t" "home t (key_at t j)" j] b shape_home [OF shape] by simp
  with s j nh b show ?thesis
    unfolding shifting_def by (auto simp: upto used_iff nxt_less)
qed

lemma shifting_move:
  assumes shape: "index_shape t" and s: "shifting t hole j"
    and st: "\<not> stays hole (home t (key_at t j)) j" and j: "key_at t j \<noteq> kEmpty" and n: "1 < cap t"
    and t': "t' = t\<lparr>oi_slots := (oi_slots t)[hole := oi_slots t ! j]\<rparr>"
  shows "shifting t' j (nxt (cap t) j)"
    and "used t' {j} = insert hole (used t {hole} - {j})"
proof -
  have b: "hole < cap t" "j < cap t" "hole \<noteq> j" using s by (simp_all add: shifting_def)
  have cap: "cap t' = cap t" and home: "\<And>x. home t' x = home t x" by (simp_all add: t' home_def)
  have at: "oi_slots t' ! p = (if p = hole then oi_slots t ! j else oi_slots t ! p)" if "p < cap t" for p
    using that by (simp add: t')
  show used: "used t' {j} = insert hole (used t {hole} - {j})"
    using b j by (auto simp: used_iff cap at split: if_splits)
  have moved: "cyc (cap t) (home t (key_at t j)) hole < cyc (cap t) (home t (key_at t j)) j"
    using st stays_cyc [of hole "cap t" "home t (key_at t j)" j] b shape_home [OF shape] by simp
  have jn: "nxt (cap t) j \<noteq> j" using b n by (auto simp: nxt_def)
  have one: "cyc (cap t) j q < cyc (cap t) j (nxt (cap t) j) \<longleftrightarrow> q = j" if "q < cap t" for q
    using b that jn cyc_to_nxt [of j "cap t" j] cyc_inj [of j "cap t" q j] by auto
  have ju: "j \<in> used t {hole}" using b j by (simp add: used_iff)
  have "key_at t' q \<noteq> kEmpty"
    if p: "p \<in> used t' {j}" and q: "q < cap t" "q \<noteq> j"
      and c: "cyc (cap t) (home t (key_at t' p)) q < cyc (cap t) (home t (key_at t' p)) p" for p q
  proof (cases "q = hole")
    case True
    then show ?thesis using j b by (simp add: at)
  next
    case qh: False
    show ?thesis
    proof (cases "p = hole")
      case True
      then have "cyc (cap t) (home t (key_at t j)) q < cyc (cap t) (home t (key_at t j)) j"
        using c moved b by (simp add: at)
      then have "key_at t q \<noteq> kEmpty" using s ju q(1) qh unfolding shifting_def by blast
      then show ?thesis using q(1) qh by (simp add: at)
    next
      case False
      then have pu: "p \<in> used t {hole}" "p < cap t" using p used by (auto simp: used_iff)
      then have "cyc (cap t) (home t (key_at t p)) q < cyc (cap t) (home t (key_at t p)) p"
        using c False by (simp add: at)
      then have "key_at t q \<noteq> kEmpty" using s pu(1) q(1) qh unfolding shifting_def by blast
      then show ?thesis using q(1) qh by (simp add: at)
    qed
  qed
  then show "shifting t' j (nxt (cap t) j)"
    unfolding shifting_def cap home using b jn j one nxt_less [of j "cap t"]
    by (auto simp: at used_iff cap)
qed


text \<open>What the shift keeps: the shape, the entries outside the hole, and where it ends.\<close>

lemma shift_back_ends:
  assumes "index_shape t" and "shifting t hole j" and "distinct_keys t {hole}"
    and "e < cap t" and "key_at t e = kEmpty"
  shows "\<exists>t' hole' j'. shift_back t hole j = Some (t', hole') \<and> shifting t' hole' j'
    \<and> key_at t' j' = kEmpty \<and> index_shape t' \<and> distinct_keys t' {hole'}
    \<and> (\<lambda>p. oi_slots t' ! p) ` used t' {hole'} = (\<lambda>p. oi_slots t ! p) ` used t {hole}
    \<and> card (used t' {hole'}) = card (used t {hole}) \<and> cap t' = cap t \<and> oi_size t' = oi_size t"
  using assms
proof (induction "cyc (cap t) j e" arbitrary: t hole j rule: less_induct)
  case less
  note shape = less.prems(1) and s = less.prems(2) and e = less.prems(4,5)
  show ?case
  proof (cases "key_at t j = kEmpty")
    case True
    then have "shift_back t hole j = Some (t, hole)" by (simp add: shift_back.simps [of t hole j])
    with True less.prems show ?thesis by blast
  next
    case j: False
    let ?j = "nxt (cap t) j"
    have b: "hole < cap t" "j < cap t" "hole \<noteq> j" "hole \<noteq> e"
      using s e by (auto simp: shifting_def)
    have je: "j \<noteq> e" using j e by auto
    then have closer: "cyc (cap t) ?j e < cyc (cap t) j e" using cyc_nxt [of j "cap t" e] b e by simp
    have next_slot: "(j + 1) AND oi_mask t = ?j" using shape b(2) by (rule shape_next)
    show ?thesis
    proof (cases "stays hole (home t (key_at t j)) j")
      case True
      have nh: "?j \<noteq> hole"
      proof
        assume "?j = hole"
        then have "cyc (cap t) hole e < cyc (cap t) hole j"
          using b e je by (auto simp: cyc_def nxt_def split: if_splits)
        then have "key_at t e \<noteq> kEmpty" using s e(1) b(4) unfolding shifting_def by blast
        then show False using e(2) by simp
      qed
      have s': "shifting t hole ?j" by (rule shifting_stays [OF shape s True j nh])
      have "shift_back t hole j = shift_back t hole ?j"
        using j True next_slot by (simp add: shift_back.simps [of t hole j])
      then show ?thesis using less.hyps [OF closer shape s' less.prems(3) e] by simp
    next
      case False
      define t1 where "t1 = t\<lparr>oi_slots := (oi_slots t)[hole := oi_slots t ! j]\<rparr>"
      have n: "1 < cap t" using b by simp
      note move = shifting_move [OF shape s False j n t1_def]
      have cap1: "cap t1 = cap t" by (simp add: t1_def)
      have shape1: "index_shape t1" using shape by (simp add: t1_def index_shape_def)
      have at: "oi_slots t1 ! p = (if p = hole then oi_slots t ! j else oi_slots t ! p)"
        if "p < cap t" for p using that by (simp add: t1_def)
      have ju: "j \<in> used t {hole}" using b j by (simp add: used_iff)
      have "(\<lambda>p. oi_slots t1 ! p) ` (used t {hole} - {j}) = (\<lambda>p. oi_slots t ! p) ` (used t {hole} - {j})"
        by (rule image_cong) (auto simp: at used_iff)
      then have "(\<lambda>p. oi_slots t1 ! p) ` used t1 {j} = insert (oi_slots t ! j)
          ((\<lambda>p. oi_slots t ! p) ` (used t {hole} - {j}))"
        using at [OF b(1)] by (simp add: move(2))
      also have "\<dots> = (\<lambda>p. oi_slots t ! p) ` used t {hole}" using ju by blast
      finally have image: "(\<lambda>p. oi_slots t1 ! p) ` used t1 {j} = (\<lambda>p. oi_slots t ! p) ` used t {hole}" .
      have card: "card (used t1 {j}) = card (used t {hole})"
        using card_Suc_Diff1 [OF finite_used ju] by (simp add: move(2) used_iff)
      have dist: "distinct_keys t1 {j}"
        using less.prems(3) ju b(1) unfolding distinct_keys_def move(2)
        by (auto simp: at used_iff)
      have e1: "key_at t1 e = kEmpty" using e b(4) by (simp add: at)
      have "shift_back t hole j = shift_back t1 j ?j"
        using j False next_slot by (simp add: shift_back.simps [of t hole j] t1_def)
      then show ?thesis
        using less.hyps [of t1 ?j j, unfolded cap1, OF closer shape1 move(1) dist e(1) e1] image card cap1
        by (simp add: t1_def)
    qed
  qed
qed

text \<open>At the end no entry has the hole on its way from home, so the hole can be cleared.\<close>

lemma clear_hole:
  assumes shape: "index_shape t" and s: "shifting t hole j" and j: "key_at t j = kEmpty"
    and d: "distinct_keys t {hole}" and size: "oi_size t = card (used t {hole}) + 1" "oi_size t * 2 \<le> cap t"
    and t': "t' = t\<lparr>oi_slots := (oi_slots t)[hole := (oi_slots t ! hole)\<lparr>s_key := kEmpty\<rparr>],
                    oi_size := oi_size t - 1\<rparr>"
  shows "index_inv t'" and "(\<lambda>p. oi_slots t' ! p) ` used t' {} = (\<lambda>p. oi_slots t ! p) ` used t {hole}"
proof -
  have b: "hole < cap t" "j < cap t" "hole \<noteq> j" using s by (simp_all add: shifting_def)
  have cap: "cap t' = cap t" and home: "\<And>x. home t' x = home t x" by (simp_all add: t' home_def)
  have at: "oi_slots t' ! p = (if p = hole then (oi_slots t ! hole)\<lparr>s_key := kEmpty\<rparr> else oi_slots t ! p)"
    if "p < cap t" for p using that by (simp add: t')
  have used: "used t' {} = used t {hole}" by (auto simp: used_iff cap at split: if_splits)
  show "(\<lambda>p. oi_slots t' ! p) ` used t' {} = (\<lambda>p. oi_slots t ! p) ` used t {hole}"
    by (rule image_cong) (auto simp: used used_iff at)
  have not_between: "\<not> cyc (cap t) (home t (key_at t p)) hole < cyc (cap t) (home t (key_at t p)) p"
    if p: "p \<in> used t {hole}" for p
  proof
    assume c: "cyc (cap t) (home t (key_at t p)) hole < cyc (cap t) (home t (key_at t p)) p"
    have pb: "p < cap t" "p \<noteq> j" using p j by (auto simp: used_iff)
    have "\<not> cyc (cap t) hole p < cyc (cap t) hole j" using s p c unfolding shifting_def by blast
    then have "cyc (cap t) hole j < cyc (cap t) hole p"
      using cyc_inj [of hole "cap t" j p] b pb by (metis linorder_less_linear)
    then have "cyc (cap t) (home t (key_at t p)) j < cyc (cap t) (home t (key_at t p)) p"
      using cyc_via [OF shape_home [OF shape] b(1) b(2) pb(1) c] by simp
    then have "key_at t j \<noteq> kEmpty" using s p b unfolding shifting_def by blast
    then show False using j by simp
  qed
  have "reachable_from_home t'"
    unfolding reachable_from_home_def
  proof (intro ballI allI impI)
    fix p q
    assume p: "p \<in> used t' {}" and q: "q < cap t'"
      and c: "cyc (cap t') (home t' (key_at t' p)) q < cyc (cap t') (home t' (key_at t' p)) p"
    have pu: "p \<in> used t {hole}" "p \<noteq> hole" "p < cap t" using p by (auto simp: used used_iff)
    then have c': "cyc (cap t) (home t (key_at t p)) q < cyc (cap t) (home t (key_at t p)) p"
      using c by (simp add: cap home at)
    then have "q \<noteq> hole" using not_between [OF pu(1)] by auto
    moreover from this have "key_at t q \<noteq> kEmpty"
      using s pu(1) q c' unfolding shifting_def cap by blast
    ultimately show "key_at t' q \<noteq> kEmpty" using q by (simp add: cap at)
  qed
  moreover have "distinct_keys t' {}"
    using d unfolding distinct_keys_def used by (auto simp: at used_iff)
  moreover have "index_shape t'" using shape by (simp add: t' index_shape_def)
  moreover have "oi_size t' = card (used t' {})" "oi_size t' * 2 \<le> cap t'"
    using size by (simp_all add: used cap) (simp_all add: t')
  ultimately show "index_inv t'" by (simp add: index_inv_def)
qed

lemma shape_cap: "index_shape t \<Longrightarrow> 16 \<le> cap t"
  using power_increasing [of 4 _ "2::nat"] by (auto simp: index_shape_def)

lemma start_shift:
  assumes inv: "index_inv t" and p: "p \<in> used t {}"
  shows "shifting t p (nxt (cap t) p)"
proof -
  have b: "p < cap t" "key_at t p \<noteq> kEmpty" using p by (simp_all add: used_iff)
  have "1 < cap t" using inv shape_cap [of t] by (simp add: index_inv_def)
  then have np: "nxt (cap t) p \<noteq> p" using b by (auto simp: nxt_def)
  have "cyc (cap t) p (nxt (cap t) p) = 1" using cyc_to_nxt [of p "cap t" p] b np by simp
  then have "cyc (cap t) p q < cyc (cap t) p (nxt (cap t) p) \<longleftrightarrow> q = p" if "q < cap t" for q
    using cyc_inj [of p "cap t" q p] b that by auto
  then show ?thesis
    using inv b np nxt_less [of p "cap t"]
    unfolding shifting_def index_inv_def reachable_from_home_def by (auto simp: used_iff)
qed

lemma oi_erase_map:
  assumes inv: "index_inv t"
  shows "\<exists>t'. oi_erase k t = Some (index_map t k \<noteq> None, t') \<and> index_inv t'
    \<and> index_map t' = (index_map t)(k := None)
    \<and> oi_size t' = oi_size t - (if index_map t k = None then 0 else 1)"
proof (cases "index_map t k")
  case None
  have "oi_erase k t = Some (False, t)"
  proof (cases "k = kEmpty")
    case False
    obtain j where "probe t k (home t k) = Some j" "key_at t j = kEmpty"
      using probe_absent [OF inv None] by blast
    with False show ?thesis by (auto simp: oi_erase_def)
  qed (simp add: oi_erase_def)
  with None inv show ?thesis by (auto simp: fun_upd_idem)
next
  case (Some v)
  have d: "distinct_keys t {}" and shape: "index_shape t" using inv by (simp_all add: index_inv_def)
  obtain p where p: "p \<in> used t {}" "key_at t p = k" "s_value (oi_slots t ! p) = v"
    using Some index_map_Some_iff [OF d] by blast
  then have pb: "p < cap t" "k \<noteq> kEmpty" by (auto simp: used_iff)
  have probed: "probe t k (home t k) = Some p" using probe_at_entry [OF inv p(1)] p(2) by simp
  have used_p: "used t {p} = used t {} - {p}" by (auto simp: used_iff)
  have "distinct_keys t {p}" using d by (simp add: distinct_keys_def used_p)
  moreover obtain e where "e < cap t" "key_at t e = kEmpty"
    using has_unused [OF shape] inv by (auto simp: index_inv_def)
  ultimately obtain t1 hole j where sh: "shift_back t p (nxt (cap t) p) = Some (t1, hole)"
    "shifting t1 hole j" "key_at t1 j = kEmpty" "index_shape t1" "distinct_keys t1 {hole}"
    "(\<lambda>q. oi_slots t1 ! q) ` used t1 {hole} = (\<lambda>q. oi_slots t ! q) ` used t {p}"
    "card (used t1 {hole}) = card (used t {p})" "cap t1 = cap t" "oi_size t1 = oi_size t"
    using shift_back_ends [OF shape start_shift [OF inv p(1)]] by blast
  define t2 where "t2 = t1\<lparr>oi_slots := (oi_slots t1)[hole := (oi_slots t1 ! hole)\<lparr>s_key := kEmpty\<rparr>],
      oi_size := oi_size t1 - 1\<rparr>"
  have "card (used t {p}) + 1 = card (used t {})"
    using p(1) card_Suc_Diff1 [OF finite_used p(1)] by (simp add: used_p)
  then have size: "oi_size t1 = card (used t1 {hole}) + 1" "oi_size t1 * 2 \<le> cap t1"
    using inv by (simp_all add: sh(7-9) index_inv_def)
  note clear = clear_hole [OF sh(4) sh(2) sh(3) sh(5) size t2_def]
  have erase: "oi_erase k t = Some (True, t2)"
    using pb p(2) probed sh(1) shape_next [OF shape pb(1)] by (simp add: oi_erase_def t2_def)
  have d2: "distinct_keys t2 {}" using clear(1) by (simp add: index_inv_def)
  have some2: "index_map t2 x = Some w \<longleftrightarrow> (\<exists>s \<in> (\<lambda>q. oi_slots t ! q) ` used t {p}. s_key s = x \<and> s_value s = w)" for x w
    unfolding index_map_Some_iff [OF d2] sh(6) [symmetric] clear(2) [symmetric] by simp
  have "index_map t2 = (index_map t)(k := None)"
  proof (intro ext option_eqI)
    fix x w
    have "p = q" if "q \<in> used t {}" "key_at t q = k" for q
      using d p(1,2) that unfolding distinct_keys_def by metis
    then show "index_map t2 x = Some w \<longleftrightarrow> ((index_map t)(k := None)) x = Some w"
      unfolding some2 used_p using index_map_Some_iff [OF d, of x w] p(2) by auto
  qed
  with clear(1) erase Some sh(9) show ?thesis by (simp add: t2_def)
qed


section \<open>Construction\<close>

lemma capacity_loop_pow2: "\<exists>m. k \<le> m \<and> capacity_loop n (2 ^ k) = 2 ^ m \<and> n * 2 \<le> 2 ^ m
    \<and> (m = k \<or> 2 ^ m < n * 4)"
proof (induction "n * 2 - 2 ^ k" arbitrary: k rule: less_induct)
  case less
  show ?case
  proof (cases "2 ^ k < n * 2")
    case True
    have "(0::nat) < 2 ^ k" by simp
    then have "n * 2 - 2 ^ Suc k < n * 2 - 2 ^ k" using True by (simp add: diff_less_mono2)
    then obtain m where m: "Suc k \<le> m" "capacity_loop n (2 ^ Suc k) = 2 ^ m" "n * 2 \<le> 2 ^ m"
      "m = Suc k \<or> 2 ^ m < n * 4" using less by blast
    have "capacity_loop n (2 ^ k) = capacity_loop n (2 ^ Suc k)"
      using True by (subst capacity_loop.simps) (simp add: mult.commute)
    moreover have "2 ^ m < n * 4" using m(4) True by auto
    ultimately show ?thesis using m by (intro exI [of _ m]) simp
  next
    case False
    then have "capacity_loop n (2 ^ k) = 2 ^ k" by (subst capacity_loop.simps) simp
    with False show ?thesis by (intro exI [of _ k]) simp
  qed
qed

lemma oi_new_map:
  assumes "n \<le> 2 ^ 61"
  shows "\<exists>t. (oi_new n :: ('v::default) order_index option) = Some t \<and> index_inv t
    \<and> index_map t = Map.empty \<and> oi_size t = 0 \<and> n * 2 \<le> cap t"
proof -
  let ?e = "\<lparr>oi_slots = [], oi_mask = 0, oi_shift = 64, oi_size = 0\<rparr> :: 'v order_index"
  obtain m where m: "4 \<le> m" "capacityFor n = 2 ^ m" "n * 2 \<le> 2 ^ m" "m = 4 \<or> 2 ^ m < n * 4"
    using capacity_loop_pow2 [of 4 n] by (auto simp: capacityFor_def)
  have "m \<le> 63"
  proof (cases "m = 4")
    case False
    then have "(2::nat) ^ m < 2 ^ 63" using m(4) assms by simp
    then show ?thesis using power_less_imp_less_exp [of "2::nat" m 63] by simp
  qed simp
  then show ?thesis
    using rehash_pow2 [of m ?e] m by (auto simp: oi_new_def index_map_def)
qed

section \<open>The contract\<close>

text \<open>
  What the book builder relies on: lookup, insertion of a key that is not there, and deletion,
  on the map \<open>abs\<close>; every operation defined while the invariant holds and, for insertion,
  while the table holds fewer than \<open>limit\<close> entries. One key is \<open>reserved\<close>.
\<close>

datatype ('k, 'v) map_op = Insert 'k 'v | Erase 'k

fun run_ops :: "('k \<Rightarrow> 'v \<Rightarrow> 't \<Rightarrow> (bool \<times> 't) option) \<Rightarrow> ('k \<Rightarrow> 't \<Rightarrow> (bool \<times> 't) option)
    \<Rightarrow> ('k, 'v) map_op list \<Rightarrow> 't \<Rightarrow> (bool list \<times> 't) option" where
  "run_ops ins del [] t = Some ([], t)"
| "run_ops ins del (op # ops) t = do {
     (b, t) \<leftarrow> (case op of Insert k v \<Rightarrow> ins k v t | Erase k \<Rightarrow> del k t);
     (bs, t) \<leftarrow> run_ops ins del ops t;
     Some (b # bs, t)
   }"

fun map_run :: "'k \<Rightarrow> ('k, 'v) map_op list \<Rightarrow> ('k \<rightharpoonup> 'v) \<Rightarrow> bool list \<times> ('k \<rightharpoonup> 'v)" where
  "map_run reserved [] m = ([], m)"
| "map_run reserved (Insert k v # ops) m =
     (if k \<noteq> reserved \<and> m k = None
      then (let (bs, m') = map_run reserved ops (m(k \<mapsto> v)) in (True # bs, m'))
      else (let (bs, m') = map_run reserved ops m in (False # bs, m')))"
| "map_run reserved (Erase k # ops) m =
     (let (bs, m') = map_run reserved ops (m(k := None)) in ((m k \<noteq> None) # bs, m'))"

locale ref_map =
  fixes find :: "'t \<Rightarrow> 'k \<Rightarrow> 'v option option"
    and ins :: "'k \<Rightarrow> 'v \<Rightarrow> 't \<Rightarrow> (bool \<times> 't) option"
    and del :: "'k \<Rightarrow> 't \<Rightarrow> (bool \<times> 't) option"
    and inv :: "'t \<Rightarrow> bool"
    and abs :: "'t \<Rightarrow> 'k \<rightharpoonup> 'v"
    and count :: "'t \<Rightarrow> nat"
    and reserved :: 'k
    and limit :: nat
  assumes find_abs: "inv t \<Longrightarrow> find t k = Some (abs t k)"
    and abs_reserved: "abs t reserved = None"
    and ins_law: "inv t \<Longrightarrow> count t < limit \<Longrightarrow>
      \<exists>t'. ins k v t = Some (k \<noteq> reserved \<and> abs t k = None, t') \<and> inv t'
        \<and> abs t' = (if k \<noteq> reserved \<and> abs t k = None then (abs t)(k \<mapsto> v) else abs t)
        \<and> count t' = count t + (if k \<noteq> reserved \<and> abs t k = None then 1 else 0)"
    and del_law: "inv t \<Longrightarrow>
      \<exists>t'. del k t = Some (abs t k \<noteq> None, t') \<and> inv t' \<and> abs t' = (abs t)(k := None)
        \<and> count t' = count t - (if abs t k = None then 0 else 1)"
begin

lemma ins_new:
  assumes "inv t" "count t < limit" "k \<noteq> reserved" "abs t k = None"
  obtains t' where "ins k v t = Some (True, t')" "inv t'" "abs t' = (abs t)(k \<mapsto> v)"
    "count t' = count t + 1"
  using ins_law [OF assms(1,2), of k v] assms(3,4) by auto

lemma ins_refused:
  assumes "inv t" "count t < limit" "\<not> (k \<noteq> reserved \<and> abs t k = None)"
  obtains t' where "ins k v t = Some (False, t')" "inv t'" "abs t' = abs t" "count t' = count t"
  using ins_law [OF assms(1,2), of k v] assms(3) by auto

lemma del_present:
  assumes "inv t" "abs t k = Some v"
  obtains t' where "del k t = Some (True, t')" "inv t'" "abs t' = (abs t)(k := None)"
    "count t' = count t - 1"
  using del_law [OF assms(1), of k] assms(2) by auto

lemma run_refines:
  assumes "inv t" "count t + length ops \<le> limit"
  shows "\<exists>t'. run_ops ins del ops t = Some (fst (map_run reserved ops (abs t)), t')
    \<and> inv t' \<and> abs t' = snd (map_run reserved ops (abs t))"
  using assms
proof (induction ops arbitrary: t)
  case (Cons op ops)
  show ?case
  proof (cases op)
    case (Insert k v)
    let ?new = "k \<noteq> reserved \<and> abs t k = None"
    obtain t1 where t1: "ins k v t = Some (?new, t1)" "inv t1"
      "abs t1 = (if ?new then (abs t)(k \<mapsto> v) else abs t)" "count t1 = count t + (if ?new then 1 else 0)"
      using ins_law [of t k v] Cons.prems by auto
    have "count t1 + length ops \<le> limit" using t1(4) Cons.prems(2) by simp
    from Cons.IH [OF t1(2) this] obtain t2 where t2:
      "run_ops ins del ops t1 = Some (fst (map_run reserved ops (abs t1)), t2)" "inv t2"
      "abs t2 = snd (map_run reserved ops (abs t1))" by blast
    show ?thesis by (cases ?new) (auto simp: Insert t1(1,3) t2 split: prod.split)
  next
    case (Erase k)
    obtain t1 where t1: "del k t = Some (abs t k \<noteq> None, t1)" "inv t1" "abs t1 = (abs t)(k := None)"
      "count t1 = count t - (if abs t k = None then 0 else 1)"
      using del_law [of t k] Cons.prems by auto
    have "count t1 + length ops \<le> limit" using t1(4) Cons.prems(2) by simp
    from Cons.IH [OF t1(2) this] obtain t2 where t2:
      "run_ops ins del ops t1 = Some (fst (map_run reserved ops (abs t1)), t2)" "inv t2"
      "abs t2 = snd (map_run reserved ops (abs t1))" by blast
    show ?thesis by (auto simp: Erase t1(1,3) t2 split: prod.split)
  qed
qed simp

text \<open>A lookup after an insertion or a deletion.\<close>

lemma find_after_ins:
  assumes "inv t" "count t < limit" "ins k v t = Some (True, t')"
  shows "find t' x = (if x = k then Some (Some v) else find t x)"
  using ins_law [OF assms(1,2), of k v] assms find_abs by auto

lemma find_after_del:
  assumes "inv t" "del k t = Some (b, t')"
  shows "find t' x = (if x = k then Some None else find t x)"
  using del_law [OF assms(1), of k] assms find_abs by auto

end

interpretation oi: ref_map oi_find oi_tryInsert oi_erase index_inv index_map oi_size kEmpty "2 ^ 61"
proof unfold_locales
  fix t :: "('v::default) order_index" and k v
  show "index_inv t \<Longrightarrow> oi_find t k = Some (index_map t k)" by (rule oi_find_map)
  show "index_map t kEmpty = None" by simp
  show "index_inv t \<Longrightarrow> oi_size t < 2 ^ 61 \<Longrightarrow>
      \<exists>t'. oi_tryInsert k v t = Some (k \<noteq> kEmpty \<and> index_map t k = None, t') \<and> index_inv t'
        \<and> index_map t' = (if k \<noteq> kEmpty \<and> index_map t k = None then (index_map t)(k \<mapsto> v) else index_map t)
        \<and> oi_size t' = oi_size t + (if k \<noteq> kEmpty \<and> index_map t k = None then 1 else 0)"
    by (rule oi_tryInsert_map)
  show "index_inv t \<Longrightarrow>
      \<exists>t'. oi_erase k t = Some (index_map t k \<noteq> None, t') \<and> index_inv t'
        \<and> index_map t' = (index_map t)(k := None)
        \<and> oi_size t' = oi_size t - (if index_map t k = None then 0 else 1)"
    by (rule oi_erase_map)
qed


section \<open>The index as a map\<close>

text \<open>C8. An order index built for up to \<open>2^61\<close> expected entries never loops forever and
  never probes outside its table: any run of \<open>tryInsert\<close> and \<open>erase\<close> on it returns the
  results a finite map gives (insertion refused for the reserved key and for a key that is
  present, erasure reporting whether the key was present), across every growth of the table, and
  afterwards \<open>find\<close> is lookup in that map, for every key.\<close>

theorem index_is_a_map:
  assumes "n \<le> 2 ^ 61" and "length ops \<le> 2 ^ 61"
  shows "\<exists>t t'. (oi_new n :: ('v::default) order_index option) = Some t
    \<and> run_ops oi_tryInsert oi_erase ops t = Some (fst (map_run kEmpty ops Map.empty), t')
    \<and> (\<forall>k. oi_find t' k = Some (snd (map_run kEmpty ops Map.empty) k))"
proof -
  obtain t :: "'v order_index" where t: "oi_new n = Some t" "index_inv t" "index_map t = Map.empty"
    "oi_size t = 0" using oi_new_map [OF assms(1)] by blast
  with oi.run_refines [OF t(2), of ops] assms(2) oi.find_abs show ?thesis by force
qed

lemma index_is_a_map_witness:
  "\<exists>t t'. (oi_new 0 :: nat option order_index option) = Some t
    \<and> run_ops oi_tryInsert oi_erase [Insert 7 (Some 1), Insert 7 None, Erase 9, Erase 7] t
        = Some ([True, False, False, True], t')
    \<and> (\<forall>k. oi_find t' k = Some None)"
  using index_is_a_map [where 'v = "nat option", of 0 "[Insert 7 (Some 1), Insert 7 None, Erase 9, Erase 7]"]
  by (simp add: kEmpty_def)

text \<open>\<open>tryInsert\<close> keeps the index well formed and answers as a map does: it inserts exactly when
  the key is not the reserved one and not present, whether or not it has to double the table first,
  and then only that key's entry changes.\<close>

theorem tryInsert_refines:
  fixes t :: "('v::default) order_index"
  assumes "index_inv t" and "oi_size t < 2 ^ 61"
  shows "\<exists>t'. oi_tryInsert k v t = Some (k \<noteq> kEmpty \<and> index_map t k = None, t') \<and> index_inv t'
    \<and> index_map t' = (if k \<noteq> kEmpty \<and> index_map t k = None then (index_map t)(k \<mapsto> v) else index_map t)
    \<and> oi_size t' = oi_size t + (if k \<noteq> kEmpty \<and> index_map t k = None then 1 else 0)"
  using assms by (rule oi.ins_law)

lemma tryInsert_refines_witness:
  "\<exists>t'. oi_tryInsert 7 (Some 1) (blankTable 16 :: nat option order_index) = Some (True, t')
    \<and> index_inv t' \<and> index_map t' = [7 \<mapsto> Some 1] \<and> oi_size t' = 1"
  using tryInsert_refines [of "blankTable 16" 7 "Some (1::nat)"] blank_inv [OF refl, of 4, where 'v = "nat option"]
  by (simp add: kEmpty_def)

text \<open>C36. \<open>erase\<close> terminates and keeps the index well formed: after the backward shift every
  remaining entry is still reachable from its home slot with its value, the erased key is
  gone, and the result says whether it was present.\<close>

theorem erase_refines:
  fixes t :: "('v::default) order_index"
  assumes "index_inv t"
  shows "\<exists>t'. oi_erase k t = Some (index_map t k \<noteq> None, t') \<and> index_inv t'
    \<and> index_map t' = (index_map t)(k := None)
    \<and> oi_size t' = oi_size t - (if index_map t k = None then 0 else 1)"
  using assms by (rule oi.del_law)


lemma erase_refines_witness:
  "\<exists>t t'. index_map t = [7 \<mapsto> Some (1::nat)] \<and> oi_erase 7 t = Some (True, t')
    \<and> index_inv t' \<and> index_map t' = Map.empty \<and> oi_size t' = 0"
proof -
  obtain t where t: "index_inv t" "index_map t = [7 \<mapsto> Some (1::nat)]" "oi_size t = 1"
    using oi_tryInsert_map [of "blankTable 16" 7 "Some (1::nat)"] blank_inv [OF refl, of 4, where 'v = "nat option"]
    by (auto simp: kEmpty_def)
  with erase_refines [OF t(1), of 7] show ?thesis by auto
qed

end
