(* ===== verification/ObjectPool.thy ===== *)
theory ObjectPool
  imports Prelude
begin

text \<open>
  The object pool: \<open>include/ObjectPool.hpp\<close>. Slots live in blocks of \<open>BlockSize\<close>; an address
  is a block number and a slot number, so objects never move. A slot's memory is raw, holds a
  free-list node (the pointer to the next free slot, inside the released slot itself, as in the
  code), or holds a constructed object. Reading a slot as something it does not hold is
  \<^term>\<open>None\<close>.

  The contract (locale \<open>slot_pool\<close>): \<open>acquire\<close> returns an address that held no live object and
  touches no other object; \<open>release\<close> forgets exactly one object.
\<close>

section \<open>Memory\<close>

datatype addr = Slot nat nat
type_synonym ptr = "addr option"

datatype 'a cell = Raw | FreeSlot ptr | Live 'a

type_synonym 'a heap = "addr \<rightharpoonup> 'a cell"

text \<open>The objects of a memory, and a read and an update through a pointer.\<close>

definition live :: "'a heap \<Rightarrow> addr \<rightharpoonup> 'a" where
  "live m a = (case m a of Some (Live x) \<Rightarrow> Some x | _ \<Rightarrow> None)"

definition deref :: "'a heap \<Rightarrow> ptr \<Rightarrow> 'a option" where
  "deref m p = Option.bind p (live m)"

definition modify :: "ptr \<Rightarrow> ('a \<Rightarrow> 'a) \<Rightarrow> 'a heap \<Rightarrow> 'a heap option" where
  "modify p f m = do { a \<leftarrow> p; x \<leftarrow> live m a; Some (m(a \<mapsto> Live (f x))) }"

lemma live_Some_iff: "live m a = Some x \<longleftrightarrow> m a = Some (Live x)"
  by (auto simp: live_def split: option.splits cell.splits)

lemma live_upd [simp]: "live (m(a \<mapsto> Live x)) = (live m)(a \<mapsto> x)"
  by (auto simp: live_def fun_eq_iff)

lemma live_upd_free [simp]: "live (m(a \<mapsto> FreeSlot p)) = (live m)(a := None)"
  by (auto simp: live_def fun_eq_iff)

lemma deref_Some [simp]: "deref m (Some a) = live m a"
  by (simp add: deref_def)

lemma deref_None [simp]: "deref m None = None"
  by (simp add: deref_def)

lemma modify_Some: "live m a = Some x \<Longrightarrow> modify (Some a) f m = Some (m(a \<mapsto> Live (f x)))"
  by (simp add: modify_def)

section \<open>The pool\<close>

record 'a pool =
  p_mem :: "'a heap"
  p_blocks :: nat
  p_used :: nat
  p_freeHead :: ptr

definition addBlock :: "nat \<Rightarrow> 'a pool \<Rightarrow> 'a pool" where
  "addBlock BlockSize p =
     p\<lparr>p_mem := (\<lambda>a. case a of Slot b i \<Rightarrow> if b = p_blocks p \<and> i < BlockSize then Some Raw else p_mem p a),
       p_blocks := p_blocks p + 1, p_used := 0\<rparr>"

definition pool_new :: "nat \<Rightarrow> 'a pool" where
  "pool_new BlockSize =
     addBlock BlockSize \<lparr>p_mem = Map.empty, p_blocks = 0, p_used = 0, p_freeHead = None\<rparr>"

text \<open>\<open>::new (slot) T(args)\<close> on a slot of the pool's own memory.\<close>

definition construct :: "addr \<Rightarrow> 'a \<Rightarrow> 'a pool \<Rightarrow> (addr \<times> 'a pool) option" where
  "construct a x p = (if a \<in> dom (p_mem p) then Some (a, p\<lparr>p_mem := (p_mem p)(a \<mapsto> Live x)\<rparr>) else None)"

definition acquire :: "nat \<Rightarrow> 'a \<Rightarrow> 'a pool \<Rightarrow> (addr \<times> 'a pool) option" where
  "acquire BlockSize x p =
     (case p_freeHead p of
        Some slot \<Rightarrow>
          (case p_mem p slot of
             Some (FreeSlot next) \<Rightarrow> construct slot x (p\<lparr>p_freeHead := next\<rparr>)
           | _ \<Rightarrow> None)
      | None \<Rightarrow>
          (let p = (if p_used p = BlockSize then addBlock BlockSize p else p);
               slot = Slot (p_blocks p - 1) (p_used p)
           in construct slot x (p\<lparr>p_used := p_used p + 1\<rparr>)))"

definition release :: "addr \<Rightarrow> 'a pool \<Rightarrow> 'a pool option" where
  "release a p = do {
     _ \<leftarrow> live (p_mem p) a;
     Some (p\<lparr>p_mem := (p_mem p)(a \<mapsto> FreeSlot (p_freeHead p)), p_freeHead := Some a\<rparr>)
   }"

section \<open>Invariant\<close>

text \<open>\<open>free_list m p as\<close>: from \<open>p\<close>, the free-list nodes are at \<open>as\<close>, in this order.\<close>

fun free_list :: "'a heap \<Rightarrow> ptr \<Rightarrow> addr list \<Rightarrow> bool" where
  "free_list m p [] = (p = None)"
| "free_list m p (a # as) = (p = Some a \<and> (\<exists>q. m a = Some (FreeSlot q) \<and> free_list m q as))"

definition all_slots :: "nat \<Rightarrow> nat \<Rightarrow> addr set" where
  "all_slots blocks n = {a. case a of Slot b i \<Rightarrow> b < blocks \<and> i < n}"

definition pool_shape :: "nat \<Rightarrow> 'a pool \<Rightarrow> bool" where
  "pool_shape n p \<longleftrightarrow> 0 < n \<and> 0 < p_blocks p \<and> p_used p \<le> n
     \<and> (\<forall>b i. p_mem p (Slot b i) \<noteq> None \<longleftrightarrow> b < p_blocks p \<and> i < n)
     \<and> (\<forall>b i. p_mem p (Slot b i) = Some Raw \<longleftrightarrow> b + 1 = p_blocks p \<and> p_used p \<le> i \<and> i < n)"

definition pool_inv :: "nat \<Rightarrow> 'a pool \<Rightarrow> bool" where
  "pool_inv n p \<longleftrightarrow> pool_shape n p
     \<and> (\<exists>as. free_list (p_mem p) (p_freeHead p) as \<and> distinct as
          \<and> set as = {a. \<exists>q. p_mem p a = Some (FreeSlot q)})"

abbreviation objects :: "'a pool \<Rightarrow> addr \<rightharpoonup> 'a" where
  "objects p \<equiv> live (p_mem p)"

lemma free_list_cong:
  "(\<And>a. a \<in> set as \<Longrightarrow> m a = m' a) \<Longrightarrow> free_list m p as \<longleftrightarrow> free_list m' p as"
  by (induction as arbitrary: p) auto

lemma free_list_nodes: "free_list m p as \<Longrightarrow> a \<in> set as \<Longrightarrow> \<exists>q. m a = Some (FreeSlot q)"
  by (induction as arbitrary: p) auto

lemma pool_shape_upd:
  assumes "pool_shape n p" "p_mem p a = Some c" "c \<noteq> Raw" "c' \<noteq> Raw"
  shows "pool_shape n (p\<lparr>p_mem := (p_mem p)(a \<mapsto> c'), p_freeHead := q\<rparr>)"
proof -
  obtain b i where a: "a = (Slot b i)" by (cases a)
  have "p_mem p (Slot b i) \<noteq> None" "p_mem p (Slot b i) \<noteq> Some Raw" using assms a by auto
  then have "b < p_blocks p \<and> i < n" "\<not> (b + 1 = p_blocks p \<and> p_used p \<le> i \<and> i < n)"
    using assms(1) unfolding pool_shape_def by blast+
  then show ?thesis using assms(1,4) unfolding pool_shape_def a by simp
qed

lemma addBlock_shape:
  assumes "pool_shape n p" "p_used p = n"
  shows "pool_shape n (addBlock n p)" and "p_used (addBlock n p) < n"
proof -
  have none: "p_mem p (Slot (p_blocks p) i) = None" for i
    using assms(1) by (simp add: pool_shape_def) (metis less_irrefl option.exhaust)
  have raw: "p_mem p (Slot b i) \<noteq> Some Raw" for b i
    using assms by (simp add: pool_shape_def)
  show "pool_shape n (addBlock n p)"
    using assms none raw unfolding pool_shape_def by (auto simp: addBlock_def less_Suc_eq)
  show "p_used (addBlock n p) < n" using assms by (simp add: pool_shape_def addBlock_def)
qed

lemma addBlock_frame:
  assumes "pool_shape n p"
  shows "p_mem (addBlock n p) a = Some (FreeSlot q) \<longleftrightarrow> p_mem p a = Some (FreeSlot q)"
    and "objects (addBlock n p) = objects p"
    and "p_freeHead (addBlock n p) = p_freeHead p"
proof -
  have none: "p_mem p (Slot (p_blocks p) i) = None" for i
    using assms(1) by (simp add: pool_shape_def) (metis less_irrefl option.exhaust)
  show "p_mem (addBlock n p) a = Some (FreeSlot q) \<longleftrightarrow> p_mem p a = Some (FreeSlot q)"
    by (cases a) (auto simp: addBlock_def none)
  show "objects (addBlock n p) = objects p"
    by (auto simp: fun_eq_iff live_def addBlock_def none split: addr.split)
  show "p_freeHead (addBlock n p) = p_freeHead p" by (simp add: addBlock_def)
qed

lemma addBlock_inv: "pool_inv n p \<Longrightarrow> p_used p = n \<Longrightarrow> pool_inv n (addBlock n p)"
proof -
  assume inv: "pool_inv n p" and full: "p_used p = n"
  then obtain as where as: "free_list (p_mem p) (p_freeHead p) as" "distinct as"
    "set as = {a. \<exists>q. p_mem p a = Some (FreeSlot q)}" and shape: "pool_shape n p"
    by (auto simp: pool_inv_def)
  have "free_list (p_mem (addBlock n p)) (p_freeHead p) as"
    using as(1) free_list_cong [of as "p_mem (addBlock n p)" "p_mem p"]
      addBlock_frame(1) [OF shape] free_list_nodes [OF as(1)] by metis
  with as(2,3) show ?thesis
    using addBlock_shape [OF shape full] addBlock_frame [OF shape] by (auto simp: pool_inv_def)
qed

lemma pool_new_inv:
  assumes "0 < n"
  shows "pool_inv n (pool_new n)" and "objects (pool_new n) = Map.empty"
proof -
  have mem: "p_mem (pool_new n) (Slot b i) = (if b = 0 \<and> i < n then Some Raw else None)" for b i
    by (simp add: pool_new_def addBlock_def)
  show "objects (pool_new n) = Map.empty" 
  proof
    fix a show "objects (pool_new n) a = None" by (cases a) (simp add: live_def mem)
  qed
  have "pool_shape n (pool_new n)"
    using assms by (auto simp: pool_shape_def mem) (auto simp: pool_new_def addBlock_def)
  moreover have "p_mem (pool_new n) a \<noteq> Some (FreeSlot q)" for a q
    by (cases a) (auto simp: mem split: if_splits)
  then have "{a. \<exists>q. p_mem (pool_new n) a = Some (FreeSlot q)} = {}" by blast
  moreover have "p_freeHead (pool_new n) = None" by (simp add: pool_new_def addBlock_def)
  ultimately show "pool_inv n (pool_new n)" unfolding pool_inv_def by (intro conjI exI [of _ "[]"]) auto
qed

section \<open>The operations keep it\<close>

text \<open>Writing through a pointer to a live object keeps the pool well formed.\<close>

lemma modify_inv:
  assumes "pool_inv n p" "objects p a = Some x"
  shows "pool_inv n (p\<lparr>p_mem := (p_mem p)(a \<mapsto> Live y)\<rparr>)"
proof -
  obtain as where as: "free_list (p_mem p) (p_freeHead p) as" "distinct as"
    "set as = {a. \<exists>q. p_mem p a = Some (FreeSlot q)}" and shape: "pool_shape n p"
    using assms(1) by (auto simp: pool_inv_def)
  have a: "p_mem p a = Some (Live x)" using assms(2) by (simp add: live_Some_iff)
  then have "a \<notin> set as" by (simp add: as(3))
  then have "free_list ((p_mem p)(a \<mapsto> Live y)) (p_freeHead p) as"
    using as(1) by (subst free_list_cong [of as _ "p_mem p"]) auto
  moreover have "pool_shape n (p\<lparr>p_mem := (p_mem p)(a \<mapsto> Live y)\<rparr>)"
    using pool_shape_upd [OF shape a, of "Live y" "p_freeHead p"] by simp
  ultimately show ?thesis using as(2,3) a by (auto simp: pool_inv_def)
qed

lemma release_law:
  assumes "pool_inv n p" "objects p a = Some x"
  shows "\<exists>p'. release a p = Some p' \<and> pool_inv n p' \<and> objects p' = (objects p)(a := None)
    \<and> p_freeHead p' = Some a"
proof -
  obtain as where as: "free_list (p_mem p) (p_freeHead p) as" "distinct as"
    "set as = {a. \<exists>q. p_mem p a = Some (FreeSlot q)}" and shape: "pool_shape n p"
    using assms(1) by (auto simp: pool_inv_def)
  let ?m = "(p_mem p)(a \<mapsto> FreeSlot (p_freeHead p))"
  have a: "p_mem p a = Some (Live x)" using assms(2) by (simp add: live_Some_iff)
  then have new: "a \<notin> set as" by (simp add: as(3))
  then have "free_list ?m (p_freeHead p) as"
    using as(1) by (subst free_list_cong [of as _ "p_mem p"]) auto
  then have "free_list ?m (Some a) (a # as)" by simp
  moreover have "set (a # as) = {b. \<exists>q. ?m b = Some (FreeSlot q)}" using as(3) by auto
  moreover have "pool_shape n (p\<lparr>p_mem := ?m, p_freeHead := Some a\<rparr>)"
    using pool_shape_upd [OF shape a] by simp
  ultimately have "pool_inv n (p\<lparr>p_mem := ?m, p_freeHead := Some a\<rparr>)"
    unfolding pool_inv_def using as(2) new by (intro conjI exI [of _ "a # as"]) simp_all
  then show ?thesis using assms(2) by (simp add: release_def)
qed

lemma no_free_nodes:
  assumes "pool_inv n p" "p_freeHead p = None"
  shows "p_mem p a \<noteq> Some (FreeSlot q)"
proof -
  obtain as where "free_list (p_mem p) None as" "set as = {a. \<exists>q. p_mem p a = Some (FreeSlot q)}"
    using assms by (auto simp: pool_inv_def)
  then show ?thesis by (cases as; cases a) (simp_all add: set_eq_iff)
qed

text \<open>The next unused slot of the newest block.\<close>

lemma acquire_unused:
  assumes inv: "pool_inv n p" and free: "p_freeHead p = None" and room: "p_used p < n"
  shows "\<exists>p'. construct (Slot (p_blocks p - 1) (p_used p)) x (p\<lparr>p_used := p_used p + 1\<rparr>)
      = Some (Slot (p_blocks p - 1) (p_used p), p') \<and> pool_inv n p'
    \<and> objects p (Slot (p_blocks p - 1) (p_used p)) = None
    \<and> objects p' = (objects p)(Slot (p_blocks p - 1) (p_used p) \<mapsto> x) \<and> p_blocks p' = p_blocks p"
proof -
  let ?a = "Slot (p_blocks p - 1) (p_used p)"
  let ?p' = "p\<lparr>p_used := p_used p + 1, p_mem := (p_mem p)(?a \<mapsto> Live x)\<rparr>"
  have shape: "pool_shape n p" using inv by (simp add: pool_inv_def)
  have raw: "p_mem p ?a = Some Raw" using shape room by (auto simp: pool_shape_def)
  have "pool_shape n ?p'" using shape room raw by (auto simp: pool_shape_def)
  moreover have "{a. \<exists>q. p_mem ?p' a = Some (FreeSlot q)} = {}" using no_free_nodes [OF inv free] by auto
  ultimately have "pool_inv n ?p'" unfolding pool_inv_def using free
    by (intro conjI exI [of _ "[]"]) simp_all
  moreover have "objects p ?a = None" using raw by (simp add: live_def)
  ultimately show ?thesis using raw by (simp add: construct_def dom_def)
qed

lemma acquire_law:
  assumes inv: "pool_inv n p"
  shows "\<exists>a p'. acquire n x p = Some (a, p') \<and> pool_inv n p' \<and> objects p a = None
    \<and> objects p' = (objects p)(a \<mapsto> x)
    \<and> (\<forall>s. p_freeHead p = Some s \<longrightarrow> a = s)
    \<and> p_blocks p' = p_blocks p + (if p_freeHead p = None \<and> p_used p = n then 1 else 0)"
proof (cases "p_freeHead p")
  case None
  show ?thesis
  proof (cases "p_used p = n")
    case True
    have shape: "pool_shape n p" using inv by (simp add: pool_inv_def)
    note frame = addBlock_frame [OF shape]
    have "p_blocks (addBlock n p) = p_blocks p + 1" by (simp add: addBlock_def)
    then show ?thesis
      using acquire_unused [OF addBlock_inv [OF inv True] _ addBlock_shape(2) [OF shape True], of x]
        None True frame(2,3)
      by (auto simp: acquire_def Let_def)
  next
    case False
    then have "p_used p < n" using inv by (simp add: pool_inv_def pool_shape_def)
    from acquire_unused [OF inv None this, of x] show ?thesis
      using False None by (auto simp: acquire_def Let_def)
  qed
next
  case (Some s)
  obtain as where as: "free_list (p_mem p) (p_freeHead p) as" "distinct as"
    "set as = {a. \<exists>q. p_mem p a = Some (FreeSlot q)}" and shape: "pool_shape n p"
    using inv by (auto simp: pool_inv_def)
  with Some obtain q bs where bs: "as = s # bs" "p_mem p s = Some (FreeSlot q)"
    "free_list (p_mem p) q bs" by (cases as) auto
  let ?m = "(p_mem p)(s \<mapsto> Live x)"
  have "free_list ?m q bs"
    using bs(3) as(2) bs(1) by (subst free_list_cong [of bs _ "p_mem p"]) auto
  moreover have "set bs = {a. \<exists>q. ?m a = Some (FreeSlot q)}" using as(2,3) bs(1) by auto
  moreover have "pool_shape n (p\<lparr>p_mem := ?m, p_freeHead := q\<rparr>)"
    using pool_shape_upd [OF shape bs(2)] by simp
  moreover have "p\<lparr>p_mem := ?m, p_freeHead := q\<rparr> = p\<lparr>p_freeHead := q, p_mem := ?m\<rparr>"
    by (cases p) simp
  ultimately have "pool_inv n (p\<lparr>p_freeHead := q, p_mem := ?m\<rparr>)"
    unfolding pool_inv_def using as(2) bs(1) by (intro conjI exI [of _ bs]) simp_all
  moreover have "objects p s = None" using bs(2) by (simp add: live_def)
  ultimately show ?thesis
    using Some bs(2)
    by (intro exI [of _ s] exI [of _ "p\<lparr>p_freeHead := q, p_mem := ?m\<rparr>"])
      (simp add: acquire_def construct_def domI)
qed

text \<open>A block is added only when every slot is in use: the pool holds \<open>n\<close> times its blocks
  objects then.\<close>

lemma full_pool:
  assumes "pool_inv n p" "p_freeHead p = None" "p_used p = n"
  shows "dom (objects p) = all_slots (p_blocks p) n"
proof -
  have "\<exists>x. p_mem p (Slot b i) = Some (Live x)" if "b < p_blocks p" "i < n" for b i
  proof -
    have shape: "pool_shape n p" using assms(1) by (simp add: pool_inv_def)
    then have "p_mem p (Slot b i) \<noteq> None" using that by (simp add: pool_shape_def)
    then obtain c where c: "p_mem p (Slot b i) = Some c" by blast
    have "p_mem p (Slot b i) = Some Raw \<longleftrightarrow> b + 1 = p_blocks p \<and> p_used p \<le> i \<and> i < n"
      using shape by (simp add: pool_shape_def)
    then have "c \<noteq> Raw" using assms(3) that(2) c by auto
    have "c \<noteq> FreeSlot q" for q
      using c no_free_nodes [OF assms(1,2), of "(Slot b i)" q] by blast
    with c \<open>c \<noteq> Raw\<close> show ?thesis by (cases c) blast+
  qed
  then have "objects p (Slot b i) \<noteq> None" if "b < p_blocks p" "i < n" for b i
    using that by (auto simp: live_Some_iff)
  moreover have "b < p_blocks p \<and> i < n" if "objects p (Slot b i) = Some x" for b i x
    using that assms(1) by (auto simp: live_Some_iff pool_inv_def pool_shape_def)
  ultimately have "objects p (Slot b i) \<noteq> None \<longleftrightarrow> b < p_blocks p \<and> i < n" for b i by blast
  then have "a \<in> dom (objects p) \<longleftrightarrow> a \<in> all_slots (p_blocks p) n" for a
    by (cases a) (simp add: all_slots_def dom_def)
  then show ?thesis by blast
qed


lemma not_full:
  assumes inv: "pool_inv n p" and dom: "dom (objects p) = all_slots (p_blocks p) n"
  shows "p_freeHead p = None \<and> p_used p = n"
proof
  have shape: "pool_shape n p" using inv by (simp add: pool_inv_def)
  have live: "objects p (Slot b i) \<noteq> None" if "b < p_blocks p" "i < n" for b i
    using that dom by (simp add: set_eq_iff dom_def all_slots_def split: addr.split)
  show "p_freeHead p = None"
  proof (rule ccontr)
    assume "p_freeHead p \<noteq> None"
    then obtain b i q where a: "p_mem p (Slot b i) = Some (FreeSlot q)"
      using inv unfolding pool_inv_def by (metis free_list.elims(2) not_None_eq addr.exhaust)
    then have "b < p_blocks p \<and> i < n" using shape unfolding pool_shape_def by (metis option.distinct(1))
    then show False using live [of b i] a by (simp add: live_def)
  qed
  show "p_used p = n"
  proof (rule ccontr)
    assume "p_used p \<noteq> n"
    then have "p_mem p (Slot (p_blocks p - 1) (p_used p)) = Some Raw" and lt: "p_used p < n" "0 < p_blocks p"
      using shape by (auto simp: pool_shape_def)
    then show False using live [of "p_blocks p - 1" "p_used p"] by (simp add: live_def)
  qed
qed

section \<open>The contract\<close>

text \<open>
  What a client of the pool relies on, and a run of it: the client keeps the pointers it was
  given, in a list, and names an object to release by its position there.
\<close>

datatype 'x pool_op = Acquire 'x | Release nat

fun drop_nth :: "nat \<Rightarrow> 'b list \<Rightarrow> 'b list" where
  "drop_nth k xs = take k xs @ drop (Suc k) xs"

fun pool_run :: "('x \<Rightarrow> 'p \<Rightarrow> ('a \<times> 'p) option) \<Rightarrow> ('a \<Rightarrow> 'p \<Rightarrow> 'p option)
    \<Rightarrow> 'x pool_op list \<Rightarrow> 'a list \<Rightarrow> 'p \<Rightarrow> ('a list \<times> 'p) option" where
  "pool_run acq rel [] held p = Some (held, p)"
| "pool_run acq rel (Acquire x # ops) held p =
     do { (a, p) \<leftarrow> acq x p; pool_run acq rel ops (held @ [a]) p }"
| "pool_run acq rel (Release k # ops) held p =
     (if k < length held
      then do { p \<leftarrow> rel (held ! k) p; pool_run acq rel ops (drop_nth k held) p }
      else None)"

fun held_run :: "'x pool_op list \<Rightarrow> 'x list \<Rightarrow> 'x list option" where
  "held_run [] xs = Some xs"
| "held_run (Acquire x # ops) xs = held_run ops (xs @ [x])"
| "held_run (Release k # ops) xs = (if k < length xs then held_run ops (drop_nth k xs) else None)"

locale slot_pool =
  fixes acq :: "'x \<Rightarrow> 'p \<Rightarrow> ('a \<times> 'p) option"
    and rel :: "'a \<Rightarrow> 'p \<Rightarrow> 'p option"
    and inv :: "'p \<Rightarrow> bool"
    and objs :: "'p \<Rightarrow> 'a \<rightharpoonup> 'x"
  assumes acq_law: "inv p \<Longrightarrow> \<exists>a p'. acq x p = Some (a, p') \<and> inv p' \<and> objs p a = None
      \<and> objs p' = (objs p)(a \<mapsto> x)"
    and rel_law: "inv p \<Longrightarrow> objs p a = Some x \<Longrightarrow>
      \<exists>p'. rel a p = Some p' \<and> inv p' \<and> objs p' = (objs p)(a := None)"
begin

lemma run_holds:
  assumes "inv p" "distinct held" "dom (objs p) = set held" "map (objs p) held = map Some xs"
    and "held_run ops xs = Some ys"
  shows "\<exists>held' p'. pool_run acq rel ops held p = Some (held', p') \<and> inv p' \<and> distinct held'
    \<and> dom (objs p') = set held' \<and> map (objs p') held' = map Some ys"
  using assms
proof (induction ops arbitrary: held p xs)
  case (Cons op ops)
  show ?case
  proof (cases op)
    case (Acquire x)
    obtain a p1 where a: "acq x p = Some (a, p1)" "inv p1" "objs p a = None"
      "objs p1 = (objs p)(a \<mapsto> x)" using acq_law [OF Cons.prems(1)] by blast
    have new: "a \<notin> set held" using a(3) Cons.prems(3) by auto
    then have "map (objs p1) (held @ [a]) = map Some (xs @ [x])"
      using Cons.prems(4) by (simp add: a(4))
    moreover have "distinct (held @ [a])" "dom (objs p1) = set (held @ [a])"
      "held_run ops (xs @ [x]) = Some ys"
      using Cons.prems new by (simp_all add: a(4) Acquire)
    ultimately show ?thesis using Cons.IH [of p1 "held @ [a]" "xs @ [x]"] a(1,2) by (simp add: Acquire)
  next
    case (Release k)
    have len: "length held = length xs" using arg_cong [OF Cons.prems(4), of length] by simp
    have k: "k < length held" and run: "held_run ops (drop_nth k xs) = Some ys"
      using Cons.prems(5) len by (auto simp: Release split: if_splits)
    have "objs p (held ! k) = Some (xs ! k)"
      using arg_cong [OF Cons.prems(4), of "\<lambda>l. l ! k"] k len by simp
    then obtain p1 where p1: "rel (held ! k) p = Some p1" "inv p1"
      "objs p1 = (objs p)(held ! k := None)" using rel_law [OF Cons.prems(1)] by blast
    have split: "held = take k held @ held ! k # drop (Suc k) held" using k by (rule id_take_nth_drop)
    then have "distinct (take k held @ held ! k # drop (Suc k) held)" using Cons.prems(2) by simp
    then have d: "distinct (drop_nth k held)" "held ! k \<notin> set (drop_nth k held)" by simp_all
    have "insert (held ! k) (set (drop_nth k held)) = set held"
      using arg_cong [OF split, of set] by simp
    then have dom: "dom (objs p1) = set (drop_nth k held)"
      using Cons.prems(3) d(2) by (auto simp: p1(3))
    have "map (objs p1) (drop_nth k held) = map (objs p) (drop_nth k held)"
      using d(2) by (intro map_cong) (auto simp: p1(3))
    also have "\<dots> = drop_nth k (map (objs p) held)" by (simp add: take_map drop_map)
    also have "\<dots> = map Some (drop_nth k xs)" by (simp add: Cons.prems(4) take_map drop_map)
    finally show ?thesis
      using Cons.IH [OF p1(2) d(1) dom _ run] p1(1) k by (simp add: Release)
  qed
qed simp

end

interpretation block_pool: slot_pool "acquire n" release "pool_inv n" objects for n
proof unfold_locales
  fix p :: "'a pool" and x a
  show "pool_inv n p \<Longrightarrow> \<exists>a p'. acquire n x p = Some (a, p') \<and> pool_inv n p' \<and> objects p a = None
      \<and> objects p' = (objects p)(a \<mapsto> x)"
    using acquire_law [of n p x] by blast
  show "pool_inv n p \<Longrightarrow> objects p a = Some x \<Longrightarrow>
      \<exists>p'. release a p = Some p' \<and> pool_inv n p' \<and> objects p' = (objects p)(a := None)"
    using release_law [of n p a x] by blast
qed

section \<open>The pool as a store of objects\<close>

text \<open>C26. From a new pool, any sequence of acquisitions and of releases of objects still held
  succeeds: no two held objects ever share a slot, every held object still has its value (the
  free-list pointers written into released slots damage none), and no object is live that
  is not held.\<close>

theorem pool_holds:
  assumes "0 < n" and "held_run ops [] = Some xs"
  shows "\<exists>held p. pool_run (acquire n) release ops [] (pool_new n) = Some (held, p)
    \<and> distinct held \<and> dom (objects p) = set held \<and> map (objects p) held = map Some xs"
  using block_pool.run_holds [OF pool_new_inv(1) [OF assms(1)] _ _ _ assms(2), of "[]"]
    pool_new_inv(2) [OF assms(1)] by auto

lemma pool_holds_witness:
  "\<exists>held p. pool_run (acquire 2) release [Acquire 5, Acquire 6, Release 0, Acquire 7, Acquire (8::nat)]
      [] (pool_new 2) = Some (held, p)
    \<and> distinct held \<and> dom (objects p) = set held \<and> map (objects p) held = [Some 6, Some 7, Some 8]"
  using pool_holds [of 2 "[Acquire 5, Acquire 6, Release 0, Acquire 7, Acquire (8::nat)]" "[6, 7, 8]"]
  by simp

text \<open>\<open>acquire\<close> reuses the most recently released slot when there is one, and calls for a new
  block exactly when every slot of every block holds a live object.\<close>

theorem acquire_reuses:
  assumes "pool_inv n p" and "acquire n x p = Some (a, p')"
  shows "pool_inv n p' \<and> objects p a = None \<and> objects p' = (objects p)(a \<mapsto> x)
    \<and> (p_freeHead p \<noteq> None \<longrightarrow> p_freeHead p = Some a)
    \<and> (p_blocks p' = p_blocks p + 1 \<longleftrightarrow> dom (objects p) = all_slots (p_blocks p) n)
    \<and> p_blocks p' \<le> p_blocks p + 1"
proof -
  have law: "pool_inv n p'" "objects p a = None" "objects p' = (objects p)(a \<mapsto> x)"
    "p_freeHead p \<noteq> None \<longrightarrow> p_freeHead p = Some a"
    "p_blocks p' = p_blocks p + (if p_freeHead p = None \<and> p_used p = n then 1 else 0)"
    using acquire_law [OF assms(1), of x] assms(2) by auto
  have "p_freeHead p = None \<and> p_used p = n \<longleftrightarrow> dom (objects p) = all_slots (p_blocks p) n"
    using full_pool [OF assms(1)] not_full [OF assms(1)] by blast
  with law show ?thesis by simp
qed

lemma acquire_reuses_witness:
  "\<exists>p'. acquire 2 (5::nat) (pool_new 2) = Some (Slot 0 0, p') \<and> pool_inv 2 p'
    \<and> objects p' = [Slot 0 0 \<mapsto> 5] \<and> p_blocks p' \<le> p_blocks (pool_new 2 :: nat pool) + 1"
proof -
  obtain p' where p': "acquire 2 (5::nat) (pool_new 2) = Some (Slot 0 0, p')"
    by (simp add: acquire_def pool_new_def addBlock_def construct_def dom_def Let_def)
  have none: "objects (pool_new 2 :: nat pool) = Map.empty" by (simp add: pool_new_inv(2))
  have "pool_inv 2 (pool_new 2 :: nat pool)" by (simp add: pool_new_inv(1))
  note acquire_reuses [OF this p', unfolded none]
  then show ?thesis using p' by blast
qed

end
