(* ===== verification/L3OrderBook.thy ===== *)
theory L3OrderBook
  imports ObjectPool
begin

text \<open>
  The order book of one instrument: \<open>include/L3OrderBook.hpp\<close>. Each side is a list of price
  levels with the best price last; each level keeps its orders in an intrusive doubly linked list
  whose nodes live in the memory of the object pool, so the operations thread that memory.

  The specification of a book is the list \<open>L\<close> of its orders' addresses, in order of arrival.
  \<open>book_rel\<close> says that a book and a memory represent it: on each side the levels are strictly
  sorted and are exactly the prices some order has, and each level's linked list, count and total
  are those of the orders of \<open>L\<close> at that price, first come first. The operations append to
  \<open>L\<close>, reduce an order in place, and delete from \<open>L\<close>.
\<close>

section \<open>State\<close>

datatype BookSide = Bid | Ask

record book_order =
  o_ref :: u64
  o_price :: u32
  o_shares :: u32
  o_locate :: u16
  o_side :: BookSide
  o_prev :: ptr
  o_next :: ptr

record price_level =
  l_price :: u32
  l_orderCount :: u32
  l_shares :: u64
  l_head :: ptr
  l_tail :: ptr

record l3_book =
  bids :: "price_level list"
  asks :: "price_level list"

type_synonym order_heap = "book_order heap"

text \<open>\<open>BookOrder{}\<close> and an empty book.\<close>

definition blankOrder :: book_order where
  "blankOrder = \<lparr>o_ref = 0, o_price = 0, o_shares = 0, o_locate = 0, o_side = Bid,
     o_prev = None, o_next = None\<rparr>"

definition emptyBook :: l3_book where
  "emptyBook = \<lparr>bids = [], asks = []\<rparr>"

section \<open>Operations\<close>

fun sideOf :: "l3_book \<Rightarrow> BookSide \<Rightarrow> price_level list" where
  "sideOf b Bid = bids b"
| "sideOf b Ask = asks b"

fun set_side :: "BookSide \<Rightarrow> price_level list \<Rightarrow> l3_book \<Rightarrow> l3_book" where
  "set_side Bid ls b = b\<lparr>bids := ls\<rparr>"
| "set_side Ask ls b = b\<lparr>asks := ls\<rparr>"

text \<open>The order of a side, worse price first, and \<open>std::lower_bound\<close> with it: the length of the
  part of the (sorted) list before the price.\<close>

fun before :: "BookSide \<Rightarrow> u32 \<Rightarrow> u32 \<Rightarrow> bool" where
  "before Bid p q = (p < q)"
| "before Ask p q = (p > q)"

definition lowerBound :: "price_level list \<Rightarrow> BookSide \<Rightarrow> u32 \<Rightarrow> nat" where
  "lowerBound levels side price = length (takeWhile (\<lambda>l. before side (l_price l) price) levels)"

definition l3_find :: "price_level list \<Rightarrow> book_order \<Rightarrow> nat option" where
  "l3_find levels x =
     (let i = lowerBound levels (o_side x) (o_price x) in
      if i < length levels \<and> l_price (levels ! i) = o_price x then Some i else None)"

definition ensureLevel :: "price_level list \<Rightarrow> nat \<Rightarrow> u32 \<Rightarrow> price_level list" where
  "ensureLevel levels i price =
     (if i = length levels \<or> l_price (levels ! i) \<noteq> price
      then take i levels @ [\<lparr>l_price = price, l_orderCount = 0, l_shares = 0,
             l_head = None, l_tail = None\<rparr>] @ drop i levels
      else levels)"

definition l3_add :: "ptr \<Rightarrow> l3_book \<Rightarrow> order_heap \<Rightarrow> (nat \<times> l3_book \<times> order_heap) option" where
  "l3_add order b m = do {
     x \<leftarrow> deref m order;
     let levels = sideOf b (o_side x);
     let i = lowerBound levels (o_side x) (o_price x);
     let levels = ensureLevel levels i (o_price x);
     let level = levels ! i;
     m \<leftarrow> modify order (\<lambda>y. y\<lparr>o_prev := l_tail level, o_next := None\<rparr>) m;
     (level, m) \<leftarrow> (case l_tail level of
         Some t \<Rightarrow> do { m \<leftarrow> modify (Some t) (\<lambda>y. y\<lparr>o_next := order\<rparr>) m; Some (level, m) }
       | None \<Rightarrow> Some (level\<lparr>l_head := order\<rparr>, m));
     x \<leftarrow> deref m order;
     let level = level\<lparr>l_tail := order, l_orderCount := l_orderCount level + 1,
                       l_shares := l_shares level + ucast (o_shares x)\<rparr>;
     Some (length levels - 1 - i, set_side (o_side x) (levels[i := level]) b, m)
   }"

definition l3_reduce ::
    "ptr \<Rightarrow> u32 \<Rightarrow> l3_book \<Rightarrow> order_heap \<Rightarrow> (nat \<times> l3_book \<times> order_heap) option" where
  "l3_reduce order shares b m = do {
     x \<leftarrow> deref m order;
     _ \<leftarrow> (if shares \<le> o_shares x then Some () else None);
     let levels = sideOf b (o_side x);
     i \<leftarrow> l3_find levels x;
     let level = (levels ! i)\<lparr>l_shares := l_shares (levels ! i) - ucast shares\<rparr>;
     m \<leftarrow> modify order (\<lambda>y. y\<lparr>o_shares := o_shares y - shares\<rparr>) m;
     Some (length levels - 1 - i, set_side (o_side x) (levels[i := level]) b, m)
   }"

definition l3_remove :: "ptr \<Rightarrow> l3_book \<Rightarrow> order_heap \<Rightarrow> (nat \<times> l3_book \<times> order_heap) option" where
  "l3_remove order b m = do {
     x \<leftarrow> deref m order;
     let levels = sideOf b (o_side x);
     i \<leftarrow> l3_find levels x;
     let depth = length levels - 1 - i;
     let level = levels ! i;
     (level, m) \<leftarrow> (case o_prev x of
         Some p \<Rightarrow> do { m \<leftarrow> modify (Some p) (\<lambda>y. y\<lparr>o_next := o_next x\<rparr>) m; Some (level, m) }
       | None \<Rightarrow> Some (level\<lparr>l_head := o_next x\<rparr>, m));
     (level, m) \<leftarrow> (case o_next x of
         Some n \<Rightarrow> do { m \<leftarrow> modify (Some n) (\<lambda>y. y\<lparr>o_prev := o_prev x\<rparr>) m; Some (level, m) }
       | None \<Rightarrow> Some (level\<lparr>l_tail := o_prev x\<rparr>, m));
     let level = level\<lparr>l_orderCount := l_orderCount level - 1,
                       l_shares := l_shares level - ucast (o_shares x)\<rparr>;
     let levels = (if l_orderCount level = 0 then take i levels @ drop (Suc i) levels
                   else levels[i := level]);
     m \<leftarrow> modify order (\<lambda>y. y\<lparr>o_prev := None, o_next := None\<rparr>) m;
     Some (depth, set_side (o_side x) levels b, m)
   }"

definition vec_back :: "'a list \<Rightarrow> 'a option" where
  "vec_back xs = (if xs = [] then None else Some (last xs))"

definition bestBid :: "l3_book \<Rightarrow> price_level option" where
  "bestBid b = vec_back (bids b)"

definition bestAsk :: "l3_book \<Rightarrow> price_level option" where
  "bestAsk b = vec_back (asks b)"

definition crossed :: "l3_book \<Rightarrow> bool" where
  "crossed b \<longleftrightarrow> bids b \<noteq> [] \<and> asks b \<noteq> [] \<and> l_price (last (bids b)) \<ge> l_price (last (asks b))"

section \<open>Linked lists\<close>

text \<open>\<open>dll c p as q\<close>: the nodes \<open>as\<close> are linked both ways, with \<open>p\<close> before the first and \<open>q\<close>
  after the last.\<close>

definition hd_or :: "ptr \<Rightarrow> addr list \<Rightarrow> ptr" where
  "hd_or q as = (case as of [] \<Rightarrow> q | a # _ \<Rightarrow> Some a)"

definition last_or :: "ptr \<Rightarrow> addr list \<Rightarrow> ptr" where
  "last_or p as = (if as = [] then p else Some (last as))"

fun dll :: "(addr \<rightharpoonup> book_order) \<Rightarrow> ptr \<Rightarrow> addr list \<Rightarrow> ptr \<Rightarrow> bool" where
  "dll c p [] q = True"
| "dll c p (a # as) q = ((\<exists>x. c a = Some x \<and> o_prev x = p \<and> o_next x = hd_or q as) \<and> dll c (Some a) as q)"

lemma hd_or_simps [simp]: "hd_or q [] = q" "hd_or q (a # as) = Some a"
  "hd_or q (as @ bs) = hd_or (hd_or q bs) as"
  by (simp_all add: hd_or_def split: list.split)

lemma last_or_simps [simp]: "last_or p [] = p" "last_or p (as @ [a]) = Some a"
  "last_or p (a # as) = last_or (Some a) as"
  by (simp_all add: last_or_def)

lemma dll_append: "dll c p (as @ bs) q \<longleftrightarrow> dll c p as (hd_or q bs) \<and> dll c (last_or p as) bs q"
  by (induction as arbitrary: p) auto

lemma dll_cong: "(\<And>a. a \<in> set as \<Longrightarrow> c a = c' a) \<Longrightarrow> dll c p as q \<longleftrightarrow> dll c' p as q"
  by (induction as arbitrary: p) auto

lemma dll_frame [simp]: "a \<notin> set as \<Longrightarrow> dll (c(a := x)) p as q \<longleftrightarrow> dll c p as q"
  by (rule dll_cong) auto

text \<open>Redirecting the two ends.\<close>

lemma dll_set_next:
  "dll c p (as @ [t]) q \<Longrightarrow> t \<notin> set as \<Longrightarrow> c t = Some x \<Longrightarrow>
     dll (c(t \<mapsto> x\<lparr>o_next := q'\<rparr>)) p (as @ [t]) q'"
  by (auto simp: dll_append)

lemma dll_set_prev:
  "dll c p (h # as) q \<Longrightarrow> h \<notin> set as \<Longrightarrow> c h = Some x \<Longrightarrow>
     dll (c(h \<mapsto> x\<lparr>o_prev := p'\<rparr>)) p' (h # as) q"
  by auto

section \<open>The representation\<close>

definition qaddr :: "(addr \<rightharpoonup> book_order) \<Rightarrow> BookSide \<Rightarrow> u32 \<Rightarrow> addr list \<Rightarrow> addr list" where
  "qaddr c s p L = filter (\<lambda>a. \<exists>x. c a = Some x \<and> o_side x = s \<and> o_price x = p) L"

definition total_shares :: "(addr \<rightharpoonup> book_order) \<Rightarrow> addr list \<Rightarrow> nat" where
  "total_shares c as = sum_list (map (\<lambda>a. unat (o_shares (the (c a)))) as)"

definition level_rel :: "(addr \<rightharpoonup> book_order) \<Rightarrow> addr list \<Rightarrow> price_level \<Rightarrow> bool" where
  "level_rel c q lv \<longleftrightarrow> l_head lv = hd_or None q \<and> l_tail lv = last_or None q \<and> dll c None q None
     \<and> l_orderCount lv = of_nat (length q) \<and> l_shares lv = of_nat (total_shares c q)"

definition side_rel :: "(addr \<rightharpoonup> book_order) \<Rightarrow> addr list \<Rightarrow> BookSide \<Rightarrow> price_level list \<Rightarrow> bool" where
  "side_rel c L s lvs \<longleftrightarrow> sorted_wrt (before s) (map l_price lvs)
     \<and> l_price ` set lvs = {p. qaddr c s p L \<noteq> []}
     \<and> (\<forall>lv \<in> set lvs. level_rel c (qaddr c s (l_price lv) L) lv)"

definition book_rel :: "(addr \<rightharpoonup> book_order) \<Rightarrow> addr list \<Rightarrow> l3_book \<Rightarrow> bool" where
  "book_rel c L b \<longleftrightarrow> distinct L \<and> set L \<subseteq> dom c \<and> (\<forall>s. side_rel c L s (sideOf b s))"

lemma before_trans: "before s p q \<Longrightarrow> before s q r \<Longrightarrow> before s p r"
  by (cases s) auto

lemma before_irrefl [simp]: "\<not> before s p p"
  by (cases s) auto

lemma before_linear: "before s p q \<or> p = q \<or> before s q p"
  by (cases s) auto

lemma level_rel_cong:
  "(\<And>a. a \<in> set q \<Longrightarrow> c a = c' a) \<Longrightarrow> level_rel c q lv \<longleftrightarrow> level_rel c' q lv"
proof -
  assume a: "\<And>a. a \<in> set q \<Longrightarrow> c a = c' a"
  then have "total_shares c q = total_shares c' q"
    unfolding total_shares_def by (intro arg_cong [of _ _ sum_list] map_cong) auto
  with a show ?thesis using dll_cong [of q c c'] by (simp add: level_rel_def)
qed

text \<open>Where \<open>lower_bound\<close> points: between the worse and the better levels, at the level of the
  price if there is one.\<close>

lemma split_at:
  assumes "side_rel c L s lvs"
  obtains pre mid post where "lvs = pre @ mid @ post" "lowerBound lvs s p = length pre"
    "\<forall>lv \<in> set pre. before s (l_price lv) p" "\<forall>lv \<in> set post. before s p (l_price lv)"
    "if qaddr c s p L = [] then mid = [] else \<exists>lv. mid = [lv] \<and> l_price lv = p"
proof -
  let ?P = "\<lambda>l. before s (l_price l) p"
  let ?pre = "takeWhile ?P lvs" and ?rest = "dropWhile ?P lvs"
  have lvs: "lvs = ?pre @ ?rest" by simp
  have sorted: "sorted_wrt (before s) (map l_price lvs)" using assms by (simp add: side_rel_def)
  have srest: "sorted_wrt (before s) (map l_price ?rest)"
    using sorted by (subst (asm) lvs) (simp only: map_append sorted_wrt_append)
  have pre: "\<forall>lv \<in> set ?pre. before s (l_price lv) p" by (auto dest: set_takeWhileD)
  have prices: "p \<in> l_price ` set lvs \<longleftrightarrow> qaddr c s p L \<noteq> []"
    using assms by (simp add: side_rel_def)
  show ?thesis
  proof (cases ?rest)
    case Nil
    then have "set lvs = set ?pre" using lvs by (metis append_Nil2)
    with pre prices have "qaddr c s p L = []" by auto
    moreover have all: "?pre = lvs" using Nil lvs by (metis append_Nil2)
    moreover have "lowerBound lvs s p = length lvs" unfolding lowerBound_def by (subst all) (rule refl)
    ultimately show ?thesis using pre by (intro that [of lvs "[]" "[]"]) simp_all
  next
    case (Cons lv post)
    have hd: "\<not> before s (l_price lv) p" using hd_dropWhile [of ?P lvs] Cons by simp
    have after: "\<forall>l \<in> set post. before s (l_price lv) (l_price l)" using srest Cons by auto
    have set: "set lvs = set ?pre \<union> insert lv (set post)"
      using arg_cong [OF lvs, of set] Cons by simp
    show ?thesis
    proof (cases "l_price lv = p")
      case True
      then have "qaddr c s p L \<noteq> []" using prices set by auto
      with True Cons lvs pre after show ?thesis
        by (intro that [of ?pre "[lv]" post]) (auto simp: lowerBound_def)
    next
      case False
      then have "before s p (l_price lv)" using hd before_linear by blast
      then have post: "\<forall>l \<in> set (lv # post). before s p (l_price l)" using after before_trans by auto
      then have "p \<notin> l_price ` set lvs" unfolding set using pre by auto
      with prices Cons lvs pre post show ?thesis
        by (intro that [of ?pre "[]" "lv # post"]) (auto simp: lowerBound_def)
    qed
  qed
qed

section \<open>Changing one level\<close>

text \<open>What an order is apart from its links. The operations change links only, so no order
  changes side, price, size, instrument or reference number behind its back.\<close>

definition payload :: "book_order \<Rightarrow> book_order" where
  "payload x = x\<lparr>o_prev := None, o_next := None\<rparr>"

definition relinked :: "addr set \<Rightarrow> order_heap \<Rightarrow> order_heap \<Rightarrow> bool" where
  "relinked A m m' \<longleftrightarrow> (\<forall>a. m' a = m a \<or> (a \<in> A \<and> (\<exists>x y. m a = Some (Live x) \<and> m' a = Some (Live y)
     \<and> payload y = payload x)))"

lemma payload_fields:
  assumes "payload y = payload x"
  shows "o_ref y = o_ref x" "o_price y = o_price x" "o_shares y = o_shares x"
    "o_locate y = o_locate x" "o_side y = o_side x"
  using assms unfolding payload_def
  by (metis book_order.select_convs(1-5) book_order.surjective book_order.update_convs(6,7))+

lemma payload_links [simp]:
  "payload (x\<lparr>o_prev := p\<rparr>) = payload x" "payload (x\<lparr>o_next := q\<rparr>) = payload x"
  by (simp_all add: payload_def)

lemma relinked_refl [simp]: "relinked A m m"
  by (simp add: relinked_def)

lemma relinked_upd:
  assumes "relinked A m m'" "a \<in> A" "live m' a = Some x" "payload y = payload x"
  shows "relinked A m (m'(a \<mapsto> Live y))"
proof -
  have "\<exists>z. m a = Some (Live z) \<and> payload y = payload z"
    using assms unfolding relinked_def live_Some_iff by (metis cell.inject(2) option.inject)
  with assms(1,2) show ?thesis by (simp add: relinked_def)
qed

lemma relinked_live:
  assumes "relinked A m m'"
  shows "map_option payload (live m' a) = map_option payload (live m a)"
proof -
  consider "m' a = m a" | x y where "m a = Some (Live x)" "m' a = Some (Live y)" "payload y = payload x"
    using assms unfolding relinked_def by blast
  then show ?thesis by cases (simp_all add: live_def)
qed

lemma relinked_outside: "relinked A m m' \<Longrightarrow> a \<notin> A \<Longrightarrow> m' a = m a"
  unfolding relinked_def by metis

abbreviation same_payloads :: "(addr \<rightharpoonup> book_order) \<Rightarrow> (addr \<rightharpoonup> book_order) \<Rightarrow> bool" where
  "same_payloads c c' \<equiv> \<forall>a. map_option payload (c' a) = map_option payload (c a)"

lemma same_payload:
  assumes "map_option payload (c' a) = map_option payload (c a)"
  shows "(c' a = None) = (c a = None)"
    and "c' a = Some y \<Longrightarrow> \<exists>x. c a = Some x \<and> payload y = payload x"
    and "(\<exists>x. c' a = Some x \<and> o_side x = s \<and> o_price x = p) = (\<exists>x. c a = Some x \<and> o_side x = s \<and> o_price x = p)"
    and "o_shares (the (c' a)) = o_shares (the (c a))"
proof -
  consider "c' a = None" "c a = None"
    | x y where "c' a = Some y" "c a = Some x" "payload y = payload x"
    using assms by (cases "c' a"; cases "c a") auto
  note cases = this
  show "(c' a = None) = (c a = None)" by (rule cases) simp_all
  show "c' a = Some y \<Longrightarrow> \<exists>x. c a = Some x \<and> payload y = payload x" by (rule cases) simp_all
  show "(\<exists>x. c' a = Some x \<and> o_side x = s \<and> o_price x = p) = (\<exists>x. c a = Some x \<and> o_side x = s \<and> o_price x = p)"
  proof (rule cases)
    fix x y
    assume "c' a = Some y" "c a = Some x" and pl: "payload y = payload x"
    with payload_fields(2,5) [OF pl] show ?thesis by simp
  qed simp
  show "o_shares (the (c' a)) = o_shares (the (c a))"
    by (rule cases) (simp, metis option.sel payload_fields(3))
qed

lemma qaddr_payload: "same_payloads c c' \<Longrightarrow> qaddr c' s p L = qaddr c s p L"
  unfolding qaddr_def by (intro filter_cong refl same_payload(3)) blast

lemma total_payload: "same_payloads c c' \<Longrightarrow> total_shares c' as = total_shares c as"
  unfolding total_shares_def by (intro arg_cong [of _ _ sum_list] map_cong refl arg_cong [of _ _ unat] same_payload(4)) blast

lemma qaddr_snoc:
  "qaddr c s p (L @ [a]) = qaddr c s p L @ (if \<exists>x. c a = Some x \<and> o_side x = s \<and> o_price x = p then [a] else [])"
  unfolding qaddr_def by auto

lemma set_qaddr: "set (qaddr c s p L) = {a \<in> set L. \<exists>x. c a = Some x \<and> o_side x = s \<and> o_price x = p}"
  by (simp add: qaddr_def)

lemma distinct_qaddr: "distinct L \<Longrightarrow> distinct (qaddr c s p L)"
  by (simp add: qaddr_def)

text \<open>Every level but one keeps its queue and the nodes in it.\<close>

definition agree ::
  "(addr \<rightharpoonup> book_order) \<Rightarrow> addr list \<Rightarrow> (addr \<rightharpoonup> book_order) \<Rightarrow> addr list \<Rightarrow> BookSide \<Rightarrow> u32 \<Rightarrow> bool" where
  "agree c L c' L' s p \<longleftrightarrow> (\<forall>s' q. (s', q) \<noteq> (s, p) \<longrightarrow>
     qaddr c' s' q L' = qaddr c s' q L \<and> (\<forall>a \<in> set (qaddr c s' q L). c' a = c a))"

lemma agree_level:
  assumes "agree c L c' L' s p" "(s', l_price lv) \<noteq> (s, p)"
    and "level_rel c (qaddr c s' (l_price lv) L) lv"
  shows "level_rel c' (qaddr c' s' (l_price lv) L') lv"
  using assms level_rel_cong [of "qaddr c s' (l_price lv) L" c c'] by (simp add: agree_def)

lemma other_side:
  assumes "side_rel c L s' lvs" "agree c L c' L' s p" "s' \<noteq> s"
  shows "side_rel c' L' s' lvs"
proof -
  have "qaddr c' s' q L' = qaddr c s' q L" for q using assms(2,3) by (simp add: agree_def)
  moreover have "\<forall>lv \<in> set lvs. level_rel c' (qaddr c' s' (l_price lv) L') lv"
    using assms(1,3) agree_level [OF assms(2), of s'] by (simp add: side_rel_def)
  ultimately show ?thesis using assms(1) by (simp add: side_rel_def)
qed

lemma side_replace:
  assumes rel: "side_rel c L s (pre @ mid @ post)" and agree: "agree c L c' L' s p"
    and pre: "\<forall>lv \<in> set pre. before s (l_price lv) p" and post: "\<forall>lv \<in> set post. before s p (l_price lv)"
    and mid: "\<forall>lv \<in> set mid. l_price lv = p"
    and mid': "if qaddr c' s p L' = [] then mid' = []
      else \<exists>lv. mid' = [lv] \<and> l_price lv = p \<and> level_rel c' (qaddr c' s p L') lv"
  shows "side_rel c' L' s (pre @ mid' @ post)"
proof -
  have p': "\<forall>lv \<in> set mid'. l_price lv = p" using mid' by (auto split: if_splits)
  have sorted: "sorted_wrt (before s) (map l_price (pre @ mid' @ post))"
    using rel pre post mid' before_trans
    by (fastforce simp: side_rel_def sorted_wrt_append split: if_splits)
  have off: "l_price lv \<noteq> p" if "lv \<in> set pre \<union> set post" for lv using that pre post by auto
  have same: "qaddr c' s q L' = qaddr c s q L" if "q \<noteq> p" for q using agree that by (simp add: agree_def)
  have "l_price ` set (pre @ mid' @ post) = {q. qaddr c' s q L' \<noteq> []}"
  proof (intro set_eqI)
    fix q
    have "q \<in> l_price ` (set pre \<union> set mid \<union> set post) \<longleftrightarrow> qaddr c s q L \<noteq> []"
      using rel unfolding side_rel_def set_append by blast
    then have "q \<noteq> p \<Longrightarrow> q \<in> l_price ` (set pre \<union> set post) \<longleftrightarrow> qaddr c' s q L' \<noteq> []"
      using mid by (auto simp: same)
    moreover have "p \<in> l_price ` set mid' \<longleftrightarrow> qaddr c' s p L' \<noteq> []" using mid' by (auto split: if_splits)
    moreover have "p \<notin> l_price ` (set pre \<union> set post)" using off by blast
    ultimately show "q \<in> l_price ` set (pre @ mid' @ post) \<longleftrightarrow> q \<in> {q. qaddr c' s q L' \<noteq> []}"
      using p' by (cases "q = p") (auto simp del: domIff)
  qed
  moreover have "level_rel c' (qaddr c' s (l_price lv) L') lv" if "lv \<in> set (pre @ mid' @ post)" for lv
  proof (cases "lv \<in> set mid'")
    case True
    then show ?thesis using mid' by (auto split: if_splits)
  next
    case False
    then have "lv \<in> set pre \<union> set post" using that by auto
    then show ?thesis
      using rel off agree_level [OF agree, of s lv] by (auto simp: side_rel_def)
  qed
  ultimately show ?thesis using sorted by (simp add: side_rel_def)
qed

lemma sideOf_set_side [simp]: "sideOf (set_side s lvs b) s' = (if s' = s then lvs else sideOf b s')"
  by (cases s; cases s') auto

lemma book_replace:
  assumes "book_rel c L b" "sideOf b s = pre @ mid @ post" "agree c L c' L' s p"
    and "\<forall>lv \<in> set pre. before s (l_price lv) p" "\<forall>lv \<in> set post. before s p (l_price lv)"
    and "\<forall>lv \<in> set mid. l_price lv = p"
    and "if qaddr c' s p L' = [] then mid' = []
      else \<exists>lv. mid' = [lv] \<and> l_price lv = p \<and> level_rel c' (qaddr c' s p L') lv"
    and "distinct L'" "set L' \<subseteq> dom c'"
  shows "book_rel c' L' (set_side s (pre @ mid' @ post) b)"
  using assms other_side [OF _ assms(3)] side_replace [OF _ assms(3-7)]
  unfolding book_rel_def by (metis sideOf_set_side)

text \<open>The number of better levels.\<close>

definition depth_of :: "(addr \<rightharpoonup> book_order) \<Rightarrow> addr list \<Rightarrow> BookSide \<Rightarrow> u32 \<Rightarrow> nat" where
  "depth_of c L s p = card {q. before s p q \<and> qaddr c s q L \<noteq> []}"

lemma depth_post:
  assumes "side_rel c L s (pre @ mid @ post)"
    and "\<forall>lv \<in> set pre. before s (l_price lv) p" "\<forall>lv \<in> set post. before s p (l_price lv)"
    and "\<forall>lv \<in> set mid. l_price lv = p"
  shows "depth_of c L s p = length post"
proof -
  have "{q. before s p q \<and> qaddr c s q L \<noteq> []} = {q \<in> l_price ` set (pre @ mid @ post). before s p q}"
    using assms(1) by (auto simp: side_rel_def)
  also have "\<dots> = l_price ` set post"
  proof -
    have "\<not> before s p q" if "before s q p" for q using before_trans [OF that, of p] that before_trans by fastforce
    then show ?thesis using assms(2-4) by auto
  qed
  finally have "depth_of c L s p = card (set (map l_price post))" by (simp add: depth_of_def)
  moreover have "sorted_wrt (before s) (map l_price post)"
    using assms(1) by (simp add: side_rel_def sorted_wrt_append)
  then have "distinct (map l_price post)"
    by (induction post) auto
  ultimately show ?thesis using distinct_card by fastforce
qed

section \<open>add\<close>

text \<open>The linked list after appending \<open>a\<close>.\<close>

lemma append_node:
  assumes level: "level_rel c q lv" and d: "distinct q" and a: "a \<notin> set q" "c a = Some x"
    and t: "\<And>t. last_or None q = Some t \<Longrightarrow> c t \<noteq> None"
  defines "c1 \<equiv> c(a \<mapsto> x\<lparr>o_prev := last_or None q, o_next := None\<rparr>)"
  defines "c2 \<equiv> (case last_or None q of None \<Rightarrow> c1 | Some t \<Rightarrow> c1(t \<mapsto> (the (c t))\<lparr>o_next := Some a\<rparr>))"
  shows "dll c2 None (q @ [a]) None" and "same_payloads c c2"
proof -
  have sp1: "same_payloads c c1" using a(2) by (simp add: c1_def)
  have dll: "dll c None q None" using level by (simp add: level_rel_def)
  have "dll c2 None (q @ [a]) None \<and> same_payloads c c2"
  proof (cases q rule: rev_cases)
    case Nil
    then show ?thesis using sp1 by (simp add: c2_def) (simp add: c1_def)
  next
    case (snoc q0 t)
    have ne: "t \<noteq> a" "t \<notin> set q0" "a \<notin> set q0" using a(1) d snoc by auto
    obtain y where y: "c t = Some y" using t [of t] snoc by auto
    have c2: "c2 = c1(t \<mapsto> y\<lparr>o_next := Some a\<rparr>)" by (simp add: c2_def snoc y)
    have "dll c1 None (q0 @ [t]) None" using dll a(1) by (simp add: snoc c1_def)
    moreover have "c1 t = Some y" using y ne by (simp add: c1_def)
    ultimately have "dll c2 None (q0 @ [t]) (Some a)" using ne dll_set_next by (simp add: c2)
    moreover have "dll c2 (Some t) [a] None" using ne by (simp add: c2 c1_def snoc)
    ultimately have "dll c2 None ((q0 @ [t]) @ [a]) None" by (simp only: dll_append) simp
    then show ?thesis using sp1 y by (simp add: snoc c2 c1_def)
  qed
  then show "dll c2 None (q @ [a]) None" "same_payloads c c2" by blast+
qed

lemma level_rel_empty:
  "level_rel c [] \<lparr>l_price = p, l_orderCount = 0, l_shares = 0, l_head = None, l_tail = None\<rparr>"
  by (simp add: level_rel_def total_shares_def)

lemma length_filter_less: "length (qaddr c s p L) \<le> length L"
  by (simp add: qaddr_def)

lemma l3_add_law:
  assumes rel: "book_rel (live m) L b" and x: "live m a = Some x" and new: "a \<notin> set L"
  shows "\<exists>b' m'. l3_add (Some a) b m = Some (depth_of (live m) L (o_side x) (o_price x), b', m')
    \<and> book_rel (live m') (L @ [a]) b' \<and> relinked (insert a (set L)) m m'"
proof -
  let ?c = "live m" and ?s = "o_side x" and ?p = "o_price x"
  let ?q = "qaddr ?c ?s ?p L"
  have side: "side_rel ?c L ?s (sideOf b ?s)" and dist: "distinct L" and dom: "set L \<subseteq> dom ?c"
    using rel by (simp_all add: book_rel_def)
  from split_at [OF side, of ?p] obtain pre mid post where split: "sideOf b ?s = pre @ mid @ post"
    "lowerBound (sideOf b ?s) ?s ?p = length pre"
    "\<forall>lv \<in> set pre. before ?s (l_price lv) ?p" "\<forall>lv \<in> set post. before ?s ?p (l_price lv)"
    "if ?q = [] then mid = [] else \<exists>lv. mid = [lv] \<and> l_price lv = ?p" .
  have mid: "\<forall>lv \<in> set mid. l_price lv = ?p" using split(5) by (auto split: if_splits)
  text \<open>The level, new or not, after the search.\<close>
  let ?blank = "\<lparr>l_price = ?p, l_orderCount = 0, l_shares = 0, l_head = None, l_tail = None\<rparr>"
  define lv where "lv = (if mid = [] then ?blank else hd mid)"
  have lv: "level_rel ?c ?q lv" "l_price lv = ?p"
    using side split(1,5) level_rel_empty by (auto simp: lv_def side_rel_def split: if_splits)
  have post: "post = [] \<or> l_price (hd post) \<noteq> ?p" using split(4) by (cases post) auto
  have levels: "ensureLevel (pre @ mid @ post) (length pre) ?p = pre @ lv # post"
    using split(5) post by (cases mid; cases post) (auto simp: ensureLevel_def lv_def split: if_splits)
  text \<open>The links.\<close>
  have tail: "l_tail lv = last_or None ?q" using lv(1) by (simp add: level_rel_def)
  have aq: "a \<notin> set ?q" "distinct ?q" using new dist by (simp_all add: set_qaddr distinct_qaddr)
  have tc: "last_or None ?q = Some t \<Longrightarrow> t \<in> set ?q" for t by (auto simp: last_or_def split: if_splits)
  then have tn: "last_or None ?q = Some t \<Longrightarrow> ?c t \<noteq> None" for t by (auto simp: set_qaddr)
  define m1 where "m1 = m(a \<mapsto> Live (x\<lparr>o_prev := last_or None ?q, o_next := None\<rparr>))"
  define m2 where "m2 = (case last_or None ?q of None \<Rightarrow> m1
      | Some t \<Rightarrow> m1(t \<mapsto> Live ((the (?c t))\<lparr>o_next := Some a\<rparr>)))"
  have live1: "live m1 = ?c(a \<mapsto> x\<lparr>o_prev := last_or None ?q, o_next := None\<rparr>)" by (simp add: m1_def)
  have live2: "live m2 = (case last_or None ?q of None \<Rightarrow> live m1
      | Some t \<Rightarrow> (live m1)(t \<mapsto> (the (?c t))\<lparr>o_next := Some a\<rparr>))"
    by (simp add: m2_def split: option.split)
  have node: "dll (live m2) None (?q @ [a]) None" "same_payloads ?c (live m2)"
    using append_node [OF lv(1) aq(2,1) x] tn unfolding live1 live2 by blast+
  have a2: "live m2 a = Some (x\<lparr>o_prev := last_or None ?q, o_next := None\<rparr>)"
    using aq(1) tc by (auto simp: live2 live1 split: option.split)
  define lv' where "lv' = (case last_or None ?q of None \<Rightarrow> lv\<lparr>l_head := Some a\<rparr> | Some _ \<Rightarrow> lv)
      \<lparr>l_tail := Some a, l_orderCount := l_orderCount lv + 1, l_shares := l_shares lv + ucast (o_shares x)\<rparr>"
  have exec: "l3_add (Some a) b m = Some (length (pre @ lv # post) - 1 - length pre,
      set_side ?s (pre @ lv' # post) b, m2)"
  proof (cases "last_or None ?q")
    case None
    then show ?thesis
      using x by (simp add: l3_add_def Let_def split(1) split(2) [unfolded split(1)] levels modify_def m2_def m1_def lv'_def tail)
  next
    case (Some t)
    have "t \<noteq> a" using tc [OF Some] aq(1) by blast
    moreover obtain y where "?c t = Some y" using tn [OF Some] by blast
    ultimately show ?thesis
      using x Some by (simp add: l3_add_def Let_def split(1) split(2) [unfolded split(1)] levels modify_def m2_def m1_def lv'_def tail)
  qed
  text \<open>The representation.\<close>
  have L': "qaddr (live m2) s' q (L @ [a]) = qaddr ?c s' q L @ (if (s', q) = (?s, ?p) then [a] else [])" for s' q
    unfolding qaddr_payload [OF node(2)] using x by (auto simp: qaddr_snoc)
  have "agree ?c L (live m2) (L @ [a]) ?s ?p"
    unfolding agree_def
  proof (intro allI impI conjI ballI)
    fix s' q b
    assume ne: "(s', q) \<noteq> (?s, ?p)"
    then show "qaddr (live m2) s' q (L @ [a]) = qaddr ?c s' q L" by (simp add: L')
    assume b: "b \<in> set (qaddr ?c s' q L)"
    then have "b \<notin> set ?q" "b \<noteq> a" using ne new by (auto simp: set_qaddr)
    then show "live m2 b = ?c b" using tc by (auto simp: live2 live1 split: option.split)
  qed
  moreover have "level_rel (live m2) (?q @ [a]) lv'"
  proof -
    have "total_shares (live m2) (?q @ [a]) = total_shares ?c ?q + unat (o_shares x)"
      using x by (simp add: total_payload [OF node(2)]) (simp add: total_shares_def)
    moreover have "l_head lv' = hd_or None (?q @ [a])"
      using lv(1) by (cases ?q) (simp_all add: lv'_def level_rel_def last_or_def)
    ultimately show ?thesis using lv(1) node(1) by (simp add: level_rel_def lv'_def)
  qed
  moreover have "l_price lv' = ?p" using lv(2) by (simp add: lv'_def split: option.split)
  moreover have "set (L @ [a]) \<subseteq> dom (live m2)"
    using dom x same_payload(1) [of "live m2" _ ?c] node(2) by (auto simp: dom_def)
  ultimately have "book_rel (live m2) (L @ [a]) (set_side ?s (pre @ [lv'] @ post) b)"
    using dist new
    by (intro book_replace [OF rel split(1) _ split(3,4) mid]) (simp_all add: L')
  moreover have "relinked (insert a (set L)) m m2"
  proof -
    have r1: "relinked (insert a (set L)) m m1"
      unfolding m1_def by (rule relinked_upd [OF _ _ x]) simp_all
    show ?thesis
    proof (cases "last_or None ?q")
      case (Some t)
      have "t \<noteq> a" "t \<in> set L" using tc [OF Some] aq(1) by (auto simp: set_qaddr)
      moreover obtain y where y: "?c t = Some y" using tn [OF Some] by blast
      ultimately show ?thesis
        unfolding m2_def by (simp add: Some) (rule relinked_upd [OF r1], simp_all add: live1)
    qed (simp add: m2_def r1)
  qed
  ultimately show ?thesis
    using exec depth_post [OF side [unfolded split(1)] split(3,4) mid] by auto
qed

section \<open>reduce\<close>

lemma locate_level:
  assumes rel: "book_rel (live m) L b" and a: "a \<in> set L" and x: "live m a = Some x"
  obtains pre lv post where "sideOf b (o_side x) = pre @ lv # post"
    "l3_find (pre @ lv # post) x = Some (length pre)"
    "\<forall>lv \<in> set pre. before (o_side x) (l_price lv) (o_price x)"
    "\<forall>lv \<in> set post. before (o_side x) (o_price x) (l_price lv)"
    "l_price lv = o_price x" "level_rel (live m) (qaddr (live m) (o_side x) (o_price x) L) lv"
    "a \<in> set (qaddr (live m) (o_side x) (o_price x) L)"
    "depth_of (live m) L (o_side x) (o_price x) = length post"
proof -
  let ?s = "o_side x" and ?p = "o_price x"
  have side: "side_rel (live m) L ?s (sideOf b ?s)" using rel by (simp add: book_rel_def)
  from split_at [OF side, of ?p] obtain pre mid post where split: "sideOf b ?s = pre @ mid @ post"
    "lowerBound (sideOf b ?s) ?s ?p = length pre"
    "\<forall>lv \<in> set pre. before ?s (l_price lv) ?p" "\<forall>lv \<in> set post. before ?s ?p (l_price lv)"
    "if qaddr (live m) ?s ?p L = [] then mid = [] else \<exists>lv. mid = [lv] \<and> l_price lv = ?p" .
  have aq: "a \<in> set (qaddr (live m) ?s ?p L)" using a x by (simp add: set_qaddr)
  then obtain lv where lv: "mid = [lv]" "l_price lv = ?p" using split(5) by (cases "qaddr (live m) ?s ?p L") auto
  have "level_rel (live m) (qaddr (live m) ?s ?p L) lv"
    using side by (simp add: side_rel_def split(1) lv)
  then show ?thesis
    using that [of pre lv post] split lv aq depth_post [OF side [unfolded split(1)] split(3,4)]
    by (simp add: l3_find_def)
qed

lemma dll_links:
  assumes "\<And>b. map_option (\<lambda>x. (o_prev x, o_next x)) (c' b) = map_option (\<lambda>x. (o_prev x, o_next x)) (c b)"
  shows "dll c' p as q \<longleftrightarrow> dll c p as q"
proof (induction as arbitrary: p)
  case (Cons a as)
  have "(\<exists>x. c' a = Some x \<and> o_prev x = p \<and> o_next x = hd_or q as)
      = (\<exists>x. c a = Some x \<and> o_prev x = p \<and> o_next x = hd_or q as)"
    using assms [of a] by (cases "c' a"; cases "c a") auto
  with Cons show ?case by simp
qed simp

text \<open>The total of a queue that holds \<open>a\<close>.\<close>

lemma total_split: "total_shares c (as @ a # bs) = total_shares c (as @ bs) + unat (o_shares (the (c a)))"
  by (simp add: total_shares_def)

lemma total_cong: "(\<And>a. a \<in> set as \<Longrightarrow> c a = c' a) \<Longrightarrow> total_shares c as = total_shares c' as"
  unfolding total_shares_def by (intro arg_cong [of _ _ sum_list] map_cong) auto

lemma total_upd:
  assumes "distinct q" "a \<in> set q" "c a = Some x" "n \<le> o_shares x"
  shows "total_shares (c(a \<mapsto> x\<lparr>o_shares := o_shares x - n\<rparr>)) q + unat n = total_shares c q"
proof -
  obtain q1 q2 where q: "q = q1 @ a # q2" using split_list [OF assms(2)] by blast
  let ?c = "c(a \<mapsto> x\<lparr>o_shares := o_shares x - n\<rparr>)"
  have "total_shares ?c (q1 @ q2) = total_shares c (q1 @ q2)"
    using assms(1) by (intro total_cong) (auto simp: q)
  moreover have "unat (o_shares x - n) + unat n = unat (o_shares x)"
    using assms(4) by (simp add: unat_sub word_le_nat_alt)
  ultimately show ?thesis using assms(3) by (simp add: q total_split)
qed

lemma l3_reduce_law:
  assumes rel: "book_rel (live m) L b" and a: "a \<in> set L" and x: "live m a = Some x" and n: "n \<le> o_shares x"
  shows "\<exists>b'. l3_reduce (Some a) n b m = Some (depth_of (live m) L (o_side x) (o_price x), b',
      m(a \<mapsto> Live (x\<lparr>o_shares := o_shares x - n\<rparr>)))
    \<and> book_rel (live (m(a \<mapsto> Live (x\<lparr>o_shares := o_shares x - n\<rparr>)))) L b'"
proof -
  let ?s = "o_side x" and ?p = "o_price x"
  let ?q = "qaddr (live m) ?s ?p L"
  let ?m = "m(a \<mapsto> Live (x\<lparr>o_shares := o_shares x - n\<rparr>))"
  from locate_level [OF rel a x] obtain pre lv post where l: "sideOf b ?s = pre @ lv # post"
    "l3_find (pre @ lv # post) x = Some (length pre)" "\<forall>lv \<in> set pre. before ?s (l_price lv) ?p"
    "\<forall>lv \<in> set post. before ?s ?p (l_price lv)" "l_price lv = ?p" "level_rel (live m) ?q lv" "a \<in> set ?q"
    "depth_of (live m) L ?s ?p = length post" .
  let ?lv = "lv\<lparr>l_shares := l_shares lv - ucast n\<rparr>"
  have dist: "distinct L" and dom: "set L \<subseteq> dom (live m)" using rel by (simp_all add: book_rel_def)
  have same: "qaddr (live ?m) s' q L = qaddr (live m) s' q L" for s' q
    unfolding qaddr_def using x by (intro filter_cong) auto
  note same' = same [unfolded live_upd]
  have "agree (live m) L (live ?m) L ?s ?p"
    unfolding agree_def same using x by (auto simp: set_qaddr)
  moreover have "level_rel (live ?m) ?q ?lv"
  proof -
    have "dll (live ?m) None ?q None = dll (live m) None ?q None"
      using x by (intro dll_links) simp
    moreover have "total_shares (live ?m) ?q + unat n = total_shares (live m) ?q"
      unfolding live_upd by (rule total_upd [where c = "live m", OF _ l(7) x n]) (simp add: distinct_qaddr dist)
    then have "of_nat (total_shares (live ?m) ?q) + of_nat (unat n)
        = (of_nat (total_shares (live m) ?q) :: u64)" unfolding of_nat_add [symmetric] by simp
    then have "of_nat (total_shares (live m) ?q) - ucast n = (of_nat (total_shares (live ?m) ?q) :: u64)"
      by (simp add: algebra_simps)
    ultimately show ?thesis using l(6) by (simp add: level_rel_def)
  qed
  ultimately have "book_rel (live ?m) L (set_side ?s (pre @ [?lv] @ post) b)"
    using l dist dom by (intro book_replace [OF rel _ _ l(3,4), of "[lv]"]) (auto simp: same')
  moreover have "l3_reduce (Some a) n b m = Some (length post, set_side ?s (pre @ [?lv] @ post) b, ?m)"
    using x n l by (simp add: l3_reduce_def Let_def modify_def)
  ultimately show ?thesis using l(8) by auto
qed

section \<open>remove\<close>

text \<open>The linked list after unlinking \<open>a\<close>.\<close>

lemma unlink_node:
  assumes dll: "dll c None (q1 @ a # q2) None" and d: "distinct (q1 @ a # q2)" and x: "c a = Some x"
  defines "c1 \<equiv> (case o_prev x of None \<Rightarrow> c | Some p \<Rightarrow> c(p \<mapsto> (the (c p))\<lparr>o_next := o_next x\<rparr>))"
  defines "c2 \<equiv> (case o_next x of None \<Rightarrow> c1 | Some n \<Rightarrow> c1(n \<mapsto> (the (c1 n))\<lparr>o_prev := o_prev x\<rparr>))"
  shows "o_prev x = last_or None q1" and "o_next x = hd_or None q2"
    and "dll c2 None (q1 @ q2) None" and "c2 a = Some x" and "same_payloads c c2"
    and "b \<notin> set q1 \<union> set q2 \<Longrightarrow> c2 b = c b"
    and "o_prev x = Some p \<Longrightarrow> c p \<noteq> None" and "o_next x = Some n \<Longrightarrow> c1 n \<noteq> None"
proof -
  have prev: "o_prev x = last_or None q1" and nxt: "o_next x = hd_or None q2"
    and l1: "dll c None q1 (Some a)" and l2: "dll c (Some a) q2 None"
    using dll x by (auto simp: dll_append)
  have "dll c1 None q1 (o_next x) \<and> same_payloads c c1 \<and> (\<forall>b. b \<notin> set q1 \<longrightarrow> c1 b = c b)
    \<and> (\<forall>p. o_prev x = Some p \<longrightarrow> c p \<noteq> None)"
  proof (cases q1 rule: rev_cases)
    case Nil
    then show ?thesis using prev by (simp add: c1_def)
  next
    case (snoc q t)
    obtain y where y: "c t = Some y" using l1 by (auto simp: snoc dll_append)
    have "dll (c(t \<mapsto> y\<lparr>o_next := o_next x\<rparr>)) None (q @ [t]) (o_next x)"
      using dll_set_next [OF l1 [unfolded snoc] _ y] d snoc by auto
    then show ?thesis using prev y by (simp add: c1_def snoc)
  qed
  then have c1: "dll c1 None q1 (o_next x)" "same_payloads c c1" "\<And>b. b \<notin> set q1 \<Longrightarrow> c1 b = c b"
    "\<And>p. o_prev x = Some p \<Longrightarrow> c p \<noteq> None" by blast+
  have l2': "dll c1 (Some a) q2 None"
    using l2 d c1(3) by (subst dll_cong [of q2 c1 c]) auto
  have c2: "dll c2 None (q1 @ q2) None \<and> same_payloads c1 c2 \<and> (\<forall>b. b \<notin> set q2 \<longrightarrow> c2 b = c1 b)
    \<and> (\<forall>n. o_next x = Some n \<longrightarrow> c1 n \<noteq> None)"
  proof (cases q2)
    case Nil
    then show ?thesis using nxt c1(1) by (simp add: c2_def)
  next
    case (Cons h q)
    obtain y where y: "c1 h = Some y" using l2' by (auto simp: Cons)
    have h: "h \<notin> set q" "h \<notin> set q1" using d Cons by auto
    have c2: "c2 = c1(h \<mapsto> y\<lparr>o_prev := o_prev x\<rparr>)" using nxt y by (simp add: c2_def Cons)
    have "dll c2 (o_prev x) (h # q) None"
      unfolding c2 by (rule dll_set_prev [OF l2' [unfolded Cons] h(1) y])
    moreover have "dll c2 None q1 (Some h)" using c1(1) nxt h by (simp add: c2 Cons)
    ultimately show ?thesis using nxt y prev by (simp add: Cons dll_append c2 del: dll.simps)
  qed
  have a: "a \<notin> set q1" "a \<notin> set q2" using d by auto
  show "o_prev x = last_or None q1" "o_next x = hd_or None q2" by fact+
  show "dll c2 None (q1 @ q2) None" using c2 by blast
  show "c2 a = Some x" using c2 a c1(3) x by simp
  show "same_payloads c c2" using c2 c1(2) by simp
  show "b \<notin> set q1 \<union> set q2 \<Longrightarrow> c2 b = c b" using c2 c1(3) by simp
  show "o_prev x = Some p \<Longrightarrow> c p \<noteq> None" using c1(4) by blast
  show "o_next x = Some n \<Longrightarrow> c1 n \<noteq> None" using c2 by blast
qed

lemma of_nat_u32_eq_0: "n < 2 ^ 32 \<Longrightarrow> (of_nat n :: u32) = 0 \<longleftrightarrow> n = 0"
  by (auto simp: word_of_nat_eq_0_iff dest: dvd_imp_le)

lemma qaddr_minus: "qaddr c s p (filter (\<lambda>b. b \<noteq> a) L) = filter (\<lambda>b. b \<noteq> a) (qaddr c s p L)"
  by (simp add: qaddr_def conj_commute)

lemma l3_remove_law:
  assumes rel: "book_rel (live m) L b" and a: "a \<in> set L" and x: "live m a = Some x"
    and few: "length L \<le> 2 ^ 32"
  shows "\<exists>b' m'. l3_remove (Some a) b m = Some (depth_of (live m) L (o_side x) (o_price x), b', m')
    \<and> book_rel (live m') (filter (\<lambda>c. c \<noteq> a) L) b' \<and> relinked (set L) m m'"
proof -
  let ?c = "live m" and ?s = "o_side x" and ?p = "o_price x" and ?L = "filter (\<lambda>c. c \<noteq> a) L"
  let ?q = "qaddr ?c ?s ?p L"
  from locate_level [OF rel a x] obtain pre lv post where l: "sideOf b ?s = pre @ lv # post"
    "l3_find (pre @ lv # post) x = Some (length pre)" "\<forall>lv \<in> set pre. before ?s (l_price lv) ?p"
    "\<forall>lv \<in> set post. before ?s ?p (l_price lv)" "l_price lv = ?p" "level_rel ?c ?q lv" "a \<in> set ?q"
    "depth_of ?c L ?s ?p = length post" .
  have dist: "distinct L" and dom: "set L \<subseteq> dom ?c" using rel by (simp_all add: book_rel_def)
  obtain q1 q2 where q: "?q = q1 @ a # q2" using split_list [OF l(7)] by blast
  have d: "distinct (q1 @ a # q2)" using distinct_qaddr [OF dist] q by metis
  have aq: "a \<notin> set q1" "a \<notin> set q2" using d by auto
  have inL: "set q1 \<union> set q2 \<subseteq> set L" using arg_cong [OF q, of set] by (auto simp: set_qaddr)
  have dll: "dll ?c None (q1 @ a # q2) None" using l(6) by (simp add: level_rel_def q)
  text \<open>The links.\<close>
  define m1 where "m1 = (case o_prev x of None \<Rightarrow> m | Some p \<Rightarrow> m(p \<mapsto> Live ((the (?c p))\<lparr>o_next := o_next x\<rparr>)))"
  define m2 where "m2 = (case o_next x of None \<Rightarrow> m1
    | Some n \<Rightarrow> m1(n \<mapsto> Live ((the (live m1 n))\<lparr>o_prev := o_prev x\<rparr>)))"
  let ?y = "x\<lparr>o_prev := None, o_next := None\<rparr>"
  define m3 where "m3 = m2(a \<mapsto> Live ?y)"
  have live1: "live m1 = (case o_prev x of None \<Rightarrow> ?c | Some p \<Rightarrow> ?c(p \<mapsto> (the (?c p))\<lparr>o_next := o_next x\<rparr>))"
    by (simp add: m1_def split: option.split)
  have live2: "live m2 = (case o_next x of None \<Rightarrow> live m1
      | Some n \<Rightarrow> (live m1)(n \<mapsto> (the (live m1 n))\<lparr>o_prev := o_prev x\<rparr>))"
    by (simp add: m2_def split: option.split)
  note node = unlink_node [OF dll d x, folded live1, folded live2]
  have live3: "live m3 = (live m2)(a \<mapsto> ?y)" by (simp add: m3_def)
  have sp: "same_payloads ?c (live m3)"
    using node(5) x by (simp add: live3 payload_def)
  text \<open>The level, with one order fewer, and its disappearance when it was the last.\<close>
  define lv1 where "lv1 = (case o_prev x of None \<Rightarrow> lv\<lparr>l_head := o_next x\<rparr> | Some _ \<Rightarrow> lv)"
  define lv2 where "lv2 = (case o_next x of None \<Rightarrow> lv1\<lparr>l_tail := o_prev x\<rparr> | Some _ \<Rightarrow> lv1)"
  define lv3 where "lv3 = lv2\<lparr>l_orderCount := l_orderCount lv2 - 1, l_shares := l_shares lv2 - ucast (o_shares x)\<rparr>"
  have count: "l_orderCount lv3 = of_nat (length (q1 @ q2))"
    using l(6) by (simp add: lv3_def lv2_def lv1_def level_rel_def q split: option.split)
  have "length ?q \<le> length L" by (rule length_filter_less)
  then have "length (q1 @ q2) < 2 ^ 32" using few by (simp add: q)
  then have gone: "l_orderCount lv3 = 0 \<longleftrightarrow> q1 @ q2 = []" unfolding count by (subst of_nat_u32_eq_0) auto
  have exec: "l3_remove (Some a) b m = Some (length post,
      set_side ?s (if l_orderCount lv3 = 0 then pre @ post else pre @ [lv3] @ post) b, m3)"
  proof -
    have p: "?c p \<noteq> None" if "o_prev x = Some p" for p using node(7) that by blast
    have n: "live m1 n \<noteq> None" if "o_next x = Some n" for n using node(8) that by blast
    have s1: "(case o_prev x of Some p \<Rightarrow> Option.bind (modify (Some p) (\<lambda>y. y\<lparr>o_next := o_next x\<rparr>) m) (\<lambda>m. Some (lv, m))
        | None \<Rightarrow> Some (lv\<lparr>l_head := o_next x\<rparr>, m)) = Some (lv1, m1)"
      using p by (auto simp: lv1_def m1_def modify_def split: option.split)
    have s2: "(case o_next x of Some n \<Rightarrow> Option.bind (modify (Some n) (\<lambda>y. y\<lparr>o_prev := o_prev x\<rparr>) m1) (\<lambda>m. Some (lv1, m))
        | None \<Rightarrow> Some (lv1\<lparr>l_tail := o_prev x\<rparr>, m1)) = Some (lv2, m2)"
      using n by (auto simp: lv2_def m2_def modify_def split: option.split)
    have s3: "modify (Some a) (\<lambda>y. y\<lparr>o_prev := None, o_next := None\<rparr>) m2 = Some m3"
      using node(4) by (simp add: modify_def m3_def)
    show "l3_remove (Some a) b m = Some (length post,
        set_side ?s (if l_orderCount lv3 = 0 then pre @ post else pre @ [lv3] @ post) b, m3)"
      unfolding l3_remove_def deref_Some x bind.bind_lunit Let_def l(1) l(2) nth_append_length
        s1 s2 s3 prod.case
      by (simp add: lv3_def)
  qed
  text \<open>The representation.\<close>
  have Lq: "qaddr (live m3) s' r ?L = filter (\<lambda>c. c \<noteq> a) (qaddr ?c s' r L)" for s' r
    by (simp add: qaddr_payload [OF sp] qaddr_minus)
  have Lsp: "qaddr (live m3) ?s ?p ?L = q1 @ q2"
    using aq by (simp add: Lq q) (metis (mono_tags, lifting) filter_True)
  have "agree ?c L (live m3) ?L ?s ?p"
    unfolding agree_def
  proof (intro allI impI conjI ballI)
    fix s' r c
    assume ne: "(s', r) \<noteq> (?s, ?p)"
    then have "a \<notin> set (qaddr ?c s' r L)" using x by (auto simp: set_qaddr)
    then show "qaddr (live m3) s' r ?L = qaddr ?c s' r L"
      unfolding Lq by (metis (mono_tags, lifting) filter_True)
    assume c: "c \<in> set (qaddr ?c s' r L)"
    then have "c \<notin> set ?q" using ne by (auto simp: set_qaddr)
    then show "live m3 c = ?c c" using node(6) [of c] by (simp add: q live3)
  qed
  moreover have "level_rel (live m3) (q1 @ q2) lv3" if "q1 @ q2 \<noteq> []"
  proof -
    have "total_shares (live m3) (q1 @ q2) = total_shares ?c (q1 @ q2)" by (rule total_payload [OF sp])
    moreover have "total_shares ?c ?q = total_shares ?c (q1 @ q2) + unat (o_shares x)"
      using x by (simp add: q total_split)
    ultimately have "l_shares lv3 = of_nat (total_shares (live m3) (q1 @ q2))"
      using l(6) by (simp add: lv3_def lv2_def lv1_def level_rel_def split: option.split)
    moreover have "dll (live m3) None (q1 @ q2) None" using node(3) aq by (simp add: live3)
    moreover have "l_head lv3 = hd_or None (q1 @ q2)"
      using l(6) node(1,2)
      by (cases q1) (simp_all add: lv3_def lv2_def lv1_def level_rel_def q last_or_def split: option.split)
    moreover have "l_tail lv3 = last_or None (q1 @ q2)"
      using l(6) node(1,2)
      by (cases q2) (simp_all add: lv3_def lv2_def lv1_def level_rel_def q last_or_def split: option.split)
    ultimately show ?thesis using count by (simp add: level_rel_def)
  qed
  moreover have "l_price lv3 = ?p" using l(5) by (simp add: lv3_def lv2_def lv1_def split: option.split)
  moreover have "set ?L \<subseteq> dom (live m3)" using dom sp same_payload(1) [of "live m3" _ ?c] by (auto simp: dom_def)
  ultimately have rel': "book_rel (live m3) ?L
      (set_side ?s (pre @ (if q1 @ q2 = [] then [] else [lv3]) @ post) b)"
    using l(1,5) dist by (intro book_replace [OF rel _ _ l(3,4), of "[lv]"]) (simp_all add: Lsp)
  have "relinked (set L) m m3"
  proof -
    have "relinked (set L) m m1"
    proof (cases "o_prev x")
      case (Some p)
      then have "p \<in> set q1" using node(1) by (auto simp: last_or_def split: if_splits)
      moreover obtain y where "?c p = Some y" using node(7) [OF Some] by blast
      ultimately show ?thesis
        using inL unfolding m1_def by (simp add: Some) (rule relinked_upd [OF relinked_refl], auto)
    qed (simp add: m1_def)
    then have "relinked (set L) m m2"
    proof (cases "o_next x")
      case (Some n)
      assume r: "relinked (set L) m m1"
      from Some have "n \<in> set q2" using node(2) by (cases q2) auto
      moreover obtain y where "live m1 n = Some y" using node(8) [OF Some] by blast
      ultimately show ?thesis
        using inL unfolding m2_def by (simp add: Some) (rule relinked_upd [OF r], auto)
    qed (simp add: m2_def)
    then show ?thesis unfolding m3_def by (rule relinked_upd [OF _ a node(4)]) (simp add: payload_def)
  qed
  moreover have "(if l_orderCount lv3 = 0 then pre @ post else pre @ [lv3] @ post)
      = pre @ (if q1 @ q2 = [] then [] else [lv3]) @ post" using gone by simp
  ultimately show ?thesis using exec rel' l(8) by auto
qed

section \<open>What the levels show\<close>

definition price_list :: "BookSide \<Rightarrow> u32 set \<Rightarrow> u32 list" where
  "price_list s P = (case s of Bid \<Rightarrow> sorted_list_of_set P | Ask \<Rightarrow> rev (sorted_list_of_set P))"

definition level_view :: "price_level \<Rightarrow> u32 \<times> u32 \<times> u64" where
  "level_view lv = (l_price lv, l_orderCount lv, l_shares lv)"

lemma before_orders: "before Bid = (<)" "before Ask = (>)"
  by (simp_all add: fun_eq_iff)

lemma sorted_before_unique:
  assumes "sorted_wrt (before s) ps"
  shows "ps = price_list s (set ps)"
proof (cases s)
  case Bid
  then have "sorted ps" "distinct ps" using assms by (simp_all add: before_orders strict_sorted_iff)
  then show ?thesis using sorted_distinct_set_unique [of ps "sorted_list_of_set (set ps)"] Bid
    by (simp add: price_list_def)
next
  case Ask
  have "sorted_wrt (<) (rev ps)" using assms Ask by (simp add: before_orders sorted_wrt_rev)
  then have "sorted (rev ps)" "distinct (rev ps)" by (simp_all add: strict_sorted_iff)
  then have "rev ps = sorted_list_of_set (set ps)"
    using sorted_distinct_set_unique [of "rev ps" "sorted_list_of_set (set ps)"] by simp
  then show ?thesis using Ask by (simp add: price_list_def) (metis rev_rev_ident)
qed

lemma book_side: "book_rel c L b \<Longrightarrow> side_rel c L s (sideOf b s)"
  by (simp add: book_rel_def)

lemma side_prices: "side_rel c L s lvs \<Longrightarrow> map l_price lvs = price_list s {p. qaddr c s p L \<noteq> []}"
  using sorted_before_unique [of s "map l_price lvs"] by (simp add: side_rel_def)

lemma side_best:
  assumes "side_rel c L s lvs" "lv \<in> set lvs"
  shows "lvs \<noteq> []" and "l_price lv = l_price (last lvs) \<or> before s (l_price lv) (l_price (last lvs))"
proof -
  show ne: "lvs \<noteq> []" using assms by auto
  have sorted: "sorted_wrt (before s) (map l_price (butlast lvs) @ [l_price (last lvs)])"
    using assms(1) ne unfolding side_rel_def
    by (metis append_butlast_last_id list.simps(8) list.simps(9) map_append)
  have "lv \<in> set (butlast lvs) \<or> lv = last lvs"
    using assms(2) ne by (metis append_butlast_last_id in_set_conv_decomp set_ConsD insert_iff
        list.set(2) rotate1.simps(2) set_rotate1)
  with sorted show "l_price lv = l_price (last lvs) \<or> before s (l_price lv) (l_price (last lvs))"
    by (auto simp: sorted_wrt_append)
qed

text \<open>The orders of one side.\<close>

definition side_orders :: "(addr \<rightharpoonup> book_order) \<Rightarrow> addr list \<Rightarrow> BookSide \<Rightarrow> book_order list" where
  "side_orders c L s = filter (\<lambda>x. o_side x = s) (map (\<lambda>a. the (c a)) L)"

lemma side_has_price:
  "set L \<subseteq> dom c \<Longrightarrow> qaddr c s p L \<noteq> [] \<longleftrightarrow> p \<in> o_price ` set (side_orders c L s)"
  by (fastforce simp: qaddr_def side_orders_def filter_empty_conv dom_def image_iff)

lemma side_prices_orders:
  "book_rel c L b \<Longrightarrow> l_price ` set (sideOf b s) = o_price ` set (side_orders c L s)"
  using book_side [of c L b s] side_has_price [of L c s] by (auto simp: side_rel_def book_rel_def)

text \<open>Following \<open>next\<close> from a level's head.\<close>

partial_function (option) walk :: "order_heap \<Rightarrow> ptr \<Rightarrow> addr list option" where
  "walk m p = (case p of None \<Rightarrow> Some []
     | Some a \<Rightarrow> do { x \<leftarrow> live m a; as \<leftarrow> walk m (o_next x); Some (a # as) })"

lemma dll_walk: "dll (live m) p as None \<Longrightarrow> walk m (hd_or None as) = Some as"
proof (induction as arbitrary: p)
  case Nil
  then show ?case by (simp add: walk.simps)
next
  case (Cons a as)
  then obtain x where "live m a = Some x" "o_next x = hd_or None as" "walk m (hd_or None as) = Some as"
    by auto
  then show ?case by (simp add: walk.simps [of m "Some a"])
qed

lemma crossed_orders:
  assumes rel: "book_rel c L b"
  shows "crossed b \<longleftrightarrow> (\<exists>x \<in> set (side_orders c L Bid). \<exists>y \<in> set (side_orders c L Ask). o_price y \<le> o_price x)"
proof -
  have sb: "side_rel c L Bid (bids b)" and sa: "side_rel c L Ask (asks b)"
    using book_side [OF rel, of Bid] book_side [OF rel, of Ask] by simp_all
  have "crossed b \<longleftrightarrow> (\<exists>l \<in> set (bids b). \<exists>k \<in> set (asks b). l_price k \<le> l_price l)"
  proof
    assume "crossed b"
    then show "\<exists>l \<in> set (bids b). \<exists>k \<in> set (asks b). l_price k \<le> l_price l"
      unfolding crossed_def by (metis last_in_set)
  next
    assume "\<exists>l \<in> set (bids b). \<exists>k \<in> set (asks b). l_price k \<le> l_price l"
    then obtain l k where lk: "l \<in> set (bids b)" "k \<in> set (asks b)" "l_price k \<le> l_price l" by blast
    have "l_price l \<le> l_price (last (bids b))" using side_best(2) [OF sb lk(1)] by auto
    moreover have "l_price (last (asks b)) \<le> l_price k" using side_best(2) [OF sa lk(2)] by auto
    ultimately show "crossed b" unfolding crossed_def
      using lk side_best(1) [OF sb lk(1)] side_best(1) [OF sa lk(2)] by (meson order_trans)
  qed
  also have "\<dots> \<longleftrightarrow> (\<exists>p \<in> l_price ` set (sideOf b Bid). \<exists>q \<in> l_price ` set (sideOf b Ask). q \<le> p)"
    by simp
  also have "\<dots> \<longleftrightarrow> (\<exists>p \<in> o_price ` set (side_orders c L Bid). \<exists>q \<in> o_price ` set (side_orders c L Ask). q \<le> p)"
    unfolding side_prices_orders [OF rel] ..
  finally show ?thesis by simp
qed

section \<open>The contract\<close>

text \<open>
  What the book builder relies on, as a locale over the three operations and the representation
  relation, and runs of them. The specification of a run works on the orders without their
  links, \<open>c\<close>, and the arrival list \<open>L\<close>; it is \<^term>\<open>None\<close> when the caller adds an order that
  is already resting, changes one that is not, or takes more shares than the order has.
\<close>

datatype book_op = Add addr | Reduce addr u32 | Remove addr

definition payloads :: "order_heap \<Rightarrow> addr \<rightharpoonup> book_order" where
  "payloads m a = map_option payload (live m a)"

fun spec_op :: "book_op \<Rightarrow> (addr \<rightharpoonup> book_order) \<Rightarrow> addr list \<Rightarrow> (nat \<times> (addr \<rightharpoonup> book_order) \<times> addr list) option"
where
  "spec_op (Add a) c L = do {
     x \<leftarrow> c a;
     if a \<in> set L then None else Some (depth_of c L (o_side x) (o_price x), c, L @ [a]) }"
| "spec_op (Reduce a n) c L = do {
     x \<leftarrow> c a;
     if a \<in> set L \<and> n \<le> o_shares x
     then Some (depth_of c L (o_side x) (o_price x), c(a \<mapsto> x\<lparr>o_shares := o_shares x - n\<rparr>), L)
     else None }"
| "spec_op (Remove a) c L = do {
     x \<leftarrow> c a;
     if a \<in> set L then Some (depth_of c L (o_side x) (o_price x), c, filter (\<lambda>b. b \<noteq> a) L) else None }"

fun spec_run :: "book_op list \<Rightarrow> (addr \<rightharpoonup> book_order) \<Rightarrow> addr list
    \<Rightarrow> (nat list \<times> (addr \<rightharpoonup> book_order) \<times> addr list) option" where
  "spec_run [] c L = Some ([], c, L)"
| "spec_run (op # ops) c L = do {
     (d, c, L) \<leftarrow> spec_op op c L;
     (ds, c, L) \<leftarrow> spec_run ops c L;
     Some (d # ds, c, L) }"

fun book_run :: "(ptr \<Rightarrow> 'b \<Rightarrow> order_heap \<Rightarrow> (nat \<times> 'b \<times> order_heap) option)
    \<Rightarrow> (ptr \<Rightarrow> u32 \<Rightarrow> 'b \<Rightarrow> order_heap \<Rightarrow> (nat \<times> 'b \<times> order_heap) option)
    \<Rightarrow> (ptr \<Rightarrow> 'b \<Rightarrow> order_heap \<Rightarrow> (nat \<times> 'b \<times> order_heap) option)
    \<Rightarrow> book_op list \<Rightarrow> 'b \<Rightarrow> order_heap \<Rightarrow> (nat list \<times> 'b \<times> order_heap) option" where
  "book_run add red rem [] b m = Some ([], b, m)"
| "book_run add red rem (op # ops) b m = do {
     (d, b, m) \<leftarrow> (case op of Add a \<Rightarrow> add (Some a) b m | Reduce a n \<Rightarrow> red (Some a) n b m
                     | Remove a \<Rightarrow> rem (Some a) b m);
     (ds, b, m) \<leftarrow> book_run add red rem ops b m;
     Some (d # ds, b, m) }"

lemma payload_idem [simp]: "payload (payload x) = payload x"
  by (simp add: payload_def)

lemma payload_sel [simp]:
  "o_ref (payload x) = o_ref x" "o_price (payload x) = o_price x" "o_shares (payload x) = o_shares x"
  "o_locate (payload x) = o_locate x" "o_side (payload x) = o_side x"
  by (simp_all add: payload_def)

lemma qaddr_payloads: "qaddr (payloads m) s p L = qaddr (live m) s p L"
  by (rule qaddr_payload) (simp add: payloads_def option.map_comp comp_def)

lemma total_payloads: "total_shares (payloads m) as = total_shares (live m) as"
  by (rule total_payload) (simp add: payloads_def option.map_comp comp_def)

lemma depth_payloads: "depth_of (payloads m) L s p = depth_of (live m) L s p"
  by (simp add: depth_of_def qaddr_payloads)

lemma relinked_payloads: "relinked A m m' \<Longrightarrow> payloads m' = payloads m"
  by (simp add: payloads_def relinked_live fun_eq_iff)

locale level_book =
  fixes add :: "ptr \<Rightarrow> 'b \<Rightarrow> order_heap \<Rightarrow> (nat \<times> 'b \<times> order_heap) option"
    and red :: "ptr \<Rightarrow> u32 \<Rightarrow> 'b \<Rightarrow> order_heap \<Rightarrow> (nat \<times> 'b \<times> order_heap) option"
    and rem :: "ptr \<Rightarrow> 'b \<Rightarrow> order_heap \<Rightarrow> (nat \<times> 'b \<times> order_heap) option"
    and rel :: "(addr \<rightharpoonup> book_order) \<Rightarrow> addr list \<Rightarrow> 'b \<Rightarrow> bool"
  assumes add_law: "rel (live m) L b \<Longrightarrow> live m a = Some x \<Longrightarrow> a \<notin> set L \<Longrightarrow>
      \<exists>b' m'. add (Some a) b m = Some (depth_of (live m) L (o_side x) (o_price x), b', m')
        \<and> rel (live m') (L @ [a]) b' \<and> relinked (insert a (set L)) m m'"
    and red_law: "rel (live m) L b \<Longrightarrow> a \<in> set L \<Longrightarrow> live m a = Some x \<Longrightarrow> n \<le> o_shares x \<Longrightarrow>
      \<exists>b'. red (Some a) n b m = Some (depth_of (live m) L (o_side x) (o_price x), b',
          m(a \<mapsto> Live (x\<lparr>o_shares := o_shares x - n\<rparr>)))
        \<and> rel (live (m(a \<mapsto> Live (x\<lparr>o_shares := o_shares x - n\<rparr>)))) L b'"
    and rem_law: "rel (live m) L b \<Longrightarrow> a \<in> set L \<Longrightarrow> live m a = Some x \<Longrightarrow> length L \<le> 2 ^ 32 \<Longrightarrow>
      \<exists>b' m'. rem (Some a) b m = Some (depth_of (live m) L (o_side x) (o_price x), b', m')
        \<and> rel (live m') (filter (\<lambda>c. c \<noteq> a) L) b' \<and> relinked (set L) m m'"
begin

lemma step_refines:
  assumes "rel (live m) L b" "spec_op op (payloads m) L = Some (d, c', L')" "length L \<le> 2 ^ 32"
  shows "\<exists>b' m'. (case op of Add a \<Rightarrow> add (Some a) b m | Reduce a n \<Rightarrow> red (Some a) n b m
      | Remove a \<Rightarrow> rem (Some a) b m) = Some (d, b', m')
    \<and> rel (live m') L' b' \<and> payloads m' = c' \<and> length L' \<le> length L + 1"
proof (cases op)
  case (Add a)
  then obtain x where x: "live m a = Some x" "a \<notin> set L" "L' = L @ [a]" "c' = payloads m"
    "d = depth_of (live m) L (o_side x) (o_price x)"
    using assms(2) by (auto simp: bind_Some_iff payloads_def depth_payloads split: if_splits)
  from add_law [OF assms(1) x(1,2)] obtain b' m' where
    "add (Some a) b m = Some (d, b', m')" "rel (live m') (L @ [a]) b'" "relinked (insert a (set L)) m m'"
    unfolding x(5) by blast
  with relinked_payloads [OF this(3)] show ?thesis by (simp add: Add x(3,4))
next
  case (Reduce a n)
  obtain y where y: "payloads m a = Some y" using assms(2) by (auto simp: Reduce bind_Some_iff)
  have if_Some: "(if P then Some u else None) = Some v \<Longrightarrow> P \<and> u = v" for P u and v :: "nat \<times> (addr \<rightharpoonup> book_order) \<times> addr list"
    by (simp split: if_splits)
  have "a \<in> set L \<and> n \<le> o_shares y \<and> (depth_of (payloads m) L (o_side y) (o_price y),
      (payloads m)(a \<mapsto> y\<lparr>o_shares := o_shares y - n\<rparr>), L) = (d, c', L')"
    using if_Some [OF assms(2) [unfolded Reduce spec_op.simps y bind.bind_lunit]] by blast
  with y have y: "payloads m a = Some y" "a \<in> set L" "n \<le> o_shares y" "L' = L"
    "c' = (payloads m)(a \<mapsto> y\<lparr>o_shares := o_shares y - n\<rparr>)"
    "d = depth_of (payloads m) L (o_side y) (o_price y)" unfolding prod.inject by blast+
  then obtain x where xy: "live m a = Some x" "y = payload x" by (auto simp: payloads_def)
  have x: "live m a = Some x" "a \<in> set L" "n \<le> o_shares x" "L' = L"
    "c' = (payloads m)(a \<mapsto> (payload x)\<lparr>o_shares := o_shares x - n\<rparr>)"
    "d = depth_of (live m) L (o_side x) (o_price x)"
    using xy y by (simp_all add: depth_payloads)
  have "payloads (m(a \<mapsto> Live (x\<lparr>o_shares := o_shares x - n\<rparr>))) = c'"
    unfolding x(5) by (rule ext) (simp add: payloads_def payload_def)
  moreover from red_law [OF assms(1) x(2,1,3)] obtain b' where
    "red (Some a) n b m = Some (d, b', m(a \<mapsto> Live (x\<lparr>o_shares := o_shares x - n\<rparr>)))"
    "rel (live (m(a \<mapsto> Live (x\<lparr>o_shares := o_shares x - n\<rparr>)))) L b'"
    unfolding x(6) by blast
  ultimately show ?thesis
    by (intro exI [of _ b'] exI [of _ "m(a \<mapsto> Live (x\<lparr>o_shares := o_shares x - n\<rparr>))"]) (simp add: Reduce x(4))
next
  case (Remove a)
  then obtain x where x: "live m a = Some x" "a \<in> set L" "L' = filter (\<lambda>b. b \<noteq> a) L" "c' = payloads m"
    "d = depth_of (live m) L (o_side x) (o_price x)"
    using assms(2) by (auto simp: bind_Some_iff payloads_def depth_payloads split: if_splits)
  have "length L' \<le> length L" by (simp add: x(3))
  from rem_law [OF assms(1) x(2,1) assms(3)] obtain b' m' where
    "rem (Some a) b m = Some (d, b', m')" "rel (live m') L' b'" "relinked (set L) m m'"
    unfolding x(3,5) by blast
  with relinked_payloads [OF this(3)] \<open>length L' \<le> length L\<close> show ?thesis by (simp add: Remove x(4))
qed

lemma run_refines:
  assumes "rel (live m) L b" "spec_run ops (payloads m) L = Some (ds, c', L')"
    and "length L + length ops \<le> 2 ^ 32"
  shows "\<exists>b' m'. book_run add red rem ops b m = Some (ds, b', m') \<and> rel (live m') L' b' \<and> payloads m' = c'"
  using assms
proof (induction ops arbitrary: m L b ds)
  case Nil
  then show ?case by auto
next
  case (Cons op ops)
  obtain d c1 L1 ds' where s: "spec_op op (payloads m) L = Some (d, c1, L1)"
    "spec_run ops c1 L1 = Some (ds', c', L')" "ds = d # ds'"
    using Cons.prems(2) by (auto simp: bind_Some_iff)
  have "length L \<le> 2 ^ 32" using Cons.prems(3) by simp
  from step_refines [OF Cons.prems(1) s(1) this] obtain b1 m1 where st:
    "(case op of Add a \<Rightarrow> add (Some a) b m | Reduce a n \<Rightarrow> red (Some a) n b m
      | Remove a \<Rightarrow> rem (Some a) b m) = Some (d, b1, m1)"
    "rel (live m1) L1 b1" "payloads m1 = c1" "length L1 \<le> length L + 1" by blast
  have "length L1 + length ops \<le> 2 ^ 32" using st(4) Cons.prems(3) by simp
  from Cons.IH [OF st(2) s(2) [folded st(3)] this] st(1) s(3) show ?case by auto
qed

end

interpretation l3: level_book l3_add l3_reduce l3_remove book_rel
  by unfold_locales (fact l3_add_law l3_reduce_law l3_remove_law)+

lemma emptyBook_rel: "book_rel c [] emptyBook"
proof -
  have "sideOf emptyBook s = []" for s by (cases s) (simp_all add: emptyBook_def)
  then show ?thesis by (simp add: book_rel_def side_rel_def qaddr_def)
qed

section \<open>What a run leaves\<close>

text \<open>The levels a side must show for the orders \<open>L\<close>: their prices, each with the number and the
  total size of the orders there.\<close>

definition spec_levels :: "(addr \<rightharpoonup> book_order) \<Rightarrow> addr list \<Rightarrow> BookSide \<Rightarrow> (u32 \<times> u32 \<times> u64) list" where
  "spec_levels c L s = map (\<lambda>p. (p, of_nat (length (qaddr c s p L)), of_nat (total_shares c (qaddr c s p L))))
     (price_list s (o_price ` set (side_orders c L s)))"

definition spec_crossed :: "(addr \<rightharpoonup> book_order) \<Rightarrow> addr list \<Rightarrow> bool" where
  "spec_crossed c L \<longleftrightarrow>
     (\<exists>x \<in> set (side_orders c L Bid). \<exists>y \<in> set (side_orders c L Ask). o_price y \<le> o_price x)"

lemma side_orders_payloads:
  assumes "set L \<subseteq> dom (live m)"
  shows "side_orders (payloads m) L s = map payload (side_orders (live m) L s)"
proof -
  have "map (\<lambda>a. the (payloads m a)) L = map payload (map (\<lambda>a. the (live m a)) L)"
    using assms by (auto simp: payloads_def)
  then show ?thesis unfolding side_orders_def by (simp only: filter_map comp_def payload_sel)
qed

lemma book_shows:
  assumes rel: "book_rel (live m) L b"
  shows "map level_view (sideOf b s) = spec_levels (payloads m) L s"
    and "map (\<lambda>lv. walk m (l_head lv)) (sideOf b s)
      = map (\<lambda>p. Some (qaddr (payloads m) s p L)) (price_list s (o_price ` set (side_orders (payloads m) L s)))"
    and "crossed b \<longleftrightarrow> spec_crossed (payloads m) L"
proof -
  have side: "side_rel (live m) L s (sideOf b s)" by (rule book_side [OF rel])
  have dom: "set L \<subseteq> dom (live m)" using rel by (simp add: book_rel_def)
  have "o_price ` set (side_orders (payloads m) L s) = {p. qaddr (live m) s p L \<noteq> []}"
    using side_has_price [OF dom, of s] by (simp add: side_orders_payloads [OF dom] image_image set_eq_iff)
  then have prices: "price_list s (o_price ` set (side_orders (payloads m) L s)) = map l_price (sideOf b s)"
    using side_prices [OF side] by simp
  have level: "level_rel (live m) (qaddr (live m) s (l_price lv) L) lv" if "lv \<in> set (sideOf b s)" for lv
    using side that by (simp add: side_rel_def)
  show "map level_view (sideOf b s) = spec_levels (payloads m) L s"
    unfolding spec_levels_def prices using level
    by (simp add: qaddr_payloads total_payloads level_view_def level_rel_def)
  show "map (\<lambda>lv. walk m (l_head lv)) (sideOf b s)
      = map (\<lambda>p. Some (qaddr (payloads m) s p L)) (price_list s (o_price ` set (side_orders (payloads m) L s)))"
    unfolding prices using level dll_walk
    by (simp add: qaddr_payloads level_rel_def) blast
  show "crossed b \<longleftrightarrow> spec_crossed (payloads m) L"
    unfolding crossed_orders [OF rel] spec_crossed_def side_orders_payloads [OF dom] by simp
qed

text \<open>C14. From an empty book, any sequence of \<open>add\<close>, \<open>reduce\<close> and \<open>remove\<close> that adds orders not in
  the book, takes at most what an order has left and touches only resting orders runs without
  a null or dangling pointer or a failed assertion. Each call returns the number of better price
  levels. At the end each side shows exactly the prices of the resting orders, worst first,
  each with the number and total of the orders there; following \<open>next\<close> from a level's head
  visits its orders in order of arrival; \<open>crossed\<close> says whether some resting bid is at or above
  some resting ask; and no order's contents were changed but by the reductions.\<close>

theorem l3_run_correct:
  assumes "spec_run ops (payloads m) [] = Some (ds, c, L)" and "length ops \<le> 2 ^ 32"
  shows "\<exists>b m'. book_run l3_add l3_reduce l3_remove ops emptyBook m = Some (ds, b, m')
    \<and> payloads m' = c
    \<and> (\<forall>s. map level_view (sideOf b s) = spec_levels c L s
        \<and> map (\<lambda>lv. walk m' (l_head lv)) (sideOf b s)
            = map (\<lambda>p. Some (qaddr c s p L)) (price_list s (o_price ` set (side_orders c L s))))
    \<and> (crossed b \<longleftrightarrow> spec_crossed c L)"
proof -
  have "length ([] :: addr list) + length ops \<le> 2 ^ 32" using assms(2) by simp
  from l3.run_refines [OF emptyBook_rel assms(1) this] obtain b m' where
    r: "book_run l3_add l3_reduce l3_remove ops emptyBook m = Some (ds, b, m')" "book_rel (live m') L b"
      "payloads m' = c" by blast
  from book_shows [OF r(2), unfolded r(3)] have "\<forall>s. map level_view (sideOf b s) = spec_levels c L s
        \<and> map (\<lambda>lv. walk m' (l_head lv)) (sideOf b s)
            = map (\<lambda>p. Some (qaddr c s p L)) (price_list s (o_price ` set (side_orders c L s)))"
    "crossed b \<longleftrightarrow> spec_crossed c L" by blast+
  with r(1,3) show ?thesis by blast
qed

lemma l3_run_correct_witness:
  "\<exists>b m'. book_run l3_add l3_reduce l3_remove [Add (Slot 0 0), Reduce (Slot 0 0) 30] emptyBook
      [Slot 0 0 \<mapsto> Live (blankOrder\<lparr>o_price := 7, o_shares := 100\<rparr>)] = Some ([0, 0], b, m')
    \<and> map level_view (sideOf b Bid) = [(7, 1, 70)] \<and> \<not> crossed b"
proof -
  let ?x = "blankOrder\<lparr>o_price := 7, o_shares := 100\<rparr>" and ?a = "Slot 0 0"
  let ?c = "[?a \<mapsto> ?x\<lparr>o_shares := 70\<rparr>]"
  have c: "payloads [?a \<mapsto> Live ?x] = [?a \<mapsto> ?x]"
    by (rule ext) (simp add: payloads_def live_def payload_def blankOrder_def)
  have d: "depth_of [?a \<mapsto> ?x] [] Bid 7 = 0" "depth_of [?a \<mapsto> ?x] [?a] Bid 7 = 0"
    by (simp_all add: depth_of_def qaddr_def blankOrder_def)
  have run: "spec_run [Add ?a, Reduce ?a 30] (payloads [?a \<mapsto> Live ?x]) [] = Some ([0, 0], ?c, [?a])"
    unfolding c using d by (simp add: blankOrder_def)
  have "spec_levels ?c [?a] Bid = [(7, 1, 70)]"
    by (simp add: spec_levels_def side_orders_def qaddr_def total_shares_def price_list_def blankOrder_def)
  moreover have "\<not> spec_crossed ?c [?a]" by (simp add: spec_crossed_def side_orders_def blankOrder_def)
  moreover have "length [Add ?a, Reduce ?a 30] \<le> 2 ^ 32" by simp
  ultimately show ?thesis using l3_run_correct [OF run] by metis
qed

text \<open>Removing a resting order, wherever it stands in its queue, succeeds: the book then
  represents the remaining orders in their order of arrival, its level disappears
  exactly when it was the last order there, the result is the number of better levels, and only
  links of orders of this book were written.\<close>

theorem l3_remove_unlinks:
  assumes "book_rel (live m) L b" and "a \<in> set L" and "live m a = Some x" and "length L \<le> 2 ^ 32"
  shows "\<exists>b' m'. l3_remove (Some a) b m = Some (depth_of (live m) L (o_side x) (o_price x), b', m')
    \<and> book_rel (live m') (filter (\<lambda>c. c \<noteq> a) L) b' \<and> relinked (set L) m m'
    \<and> (o_price x \<in> l_price ` set (sideOf b' (o_side x))
        \<longleftrightarrow> qaddr (live m) (o_side x) (o_price x) (filter (\<lambda>c. c \<noteq> a) L) \<noteq> [])"
proof -
  obtain b' m' where r: "l3_remove (Some a) b m = Some (depth_of (live m) L (o_side x) (o_price x), b', m')"
    "book_rel (live m') (filter (\<lambda>c. c \<noteq> a) L) b'" "relinked (set L) m m'"
    using l3.rem_law [OF assms] by blast
  have "qaddr (live m') s p K = qaddr (live m) s p K" for s p K
    by (rule qaddr_payload) (simp add: relinked_live [OF r(3)])
  then show ?thesis using r book_side [OF r(2), of "o_side x"] by (simp add: side_rel_def)
qed

lemma l3_remove_unlinks_witness:
  "\<exists>b m d b' m'. l3_remove (Some (Slot 0 0)) b m = Some (d, b', m') \<and> book_rel (live m') [Slot 0 1] b'"
proof -
  let ?a = "Slot 0 0" and ?b = "Slot 0 1"
  let ?x = "blankOrder\<lparr>o_price := 7, o_shares := 100\<rparr>"
  let ?m = "[?a \<mapsto> Live ?x, ?b \<mapsto> Live ?x]"
  have x: "live ?m ?a = Some ?x" "live ?m ?b = Some ?x" by (simp_all add: live_def)
  obtain b1 m1 where r1: "book_rel (live m1) [?a] b1" "relinked {?a} ?m m1"
    using l3_add_law [OF emptyBook_rel x(1)] by auto
  have "live m1 ?b = Some ?x" using relinked_outside [OF r1(2), of ?b] by (simp add: live_def)
  then obtain b2 m2 where r2: "book_rel (live m2) [?a, ?b] b2" "relinked {?a, ?b} m1 m2"
    using l3_add_law [OF r1(1), of ?b ?x] by (auto simp: insert_commute)
  have "map_option payload (live m2 ?a) = map_option payload (live ?m ?a)"
    using relinked_live [OF r2(2)] relinked_live [OF r1(2)] by simp
  then obtain y where y: "live m2 ?a = Some y" "payload y = payload ?x" by (auto simp: live_def)
  have "?a \<in> set [?a, ?b]" "length [?a, ?b] \<le> 2 ^ 32" "filter (\<lambda>c. c \<noteq> ?a) [?a, ?b] = [?b]" by simp_all
  with l3_remove_unlinks [OF r2(1) _ y(1)] show ?thesis by metis
qed

end
