(* ===== verification/ItchBook.thy ===== *)
theory ItchBook
  imports ItchMessages OrderIndex L3OrderBook
begin

text \<open>
  The book builder: \<open>include/ItchBook.hpp\<close>. It applies decoded ITCH events to one order book per
  instrument, with orders in the object pool and found through the order index.

  A builder is its books (an array over all 65536 locate codes, so a \<open>uint16_t\<close> always
  indexes it), the pool, the index, and \<open>builder_core\<close>, the rest of its fields. A listener is the
  function \<open>onTopOfBook\<close> on the listener's state; \<^term>\<open>None\<close> stands for \<open>NoListener\<close>, for
  which the code compiles no notification.

  The specification keeps, for the memory, the index and the books together, just the list of
  live orders in order of arrival; everything else is the same \<open>builder_core\<close>. The refinement
  says that every handler returns, without undefined behaviour, and does to the core and to the
  orders what the specification does.
\<close>

section \<open>State\<close>

record top_of_book =
  t_locate :: u16
  t_timestamp :: u64
  t_bidPrice :: u32
  t_bidShares :: u64
  t_askPrice :: u32
  t_askShares :: u64

record crossed_event =
  ce_locate :: u16
  ce_timestamp :: u64
  ce_lastTradingAction :: u64

record book_stats =
  adds :: u64
  executions :: u64
  cancels :: u64
  deletes :: u64
  replaces :: u64
  trades :: u64
  unknownRefs :: u64
  duplicateRefs :: u64
  overExecutions :: u64
  crossedDuringMarket :: u64
  crossedWhileTradingCount :: u64
  tradingActions :: u64
  liveOrders :: u64
  peakLiveOrders :: u64
  depthHistogram :: "u64 list"

record 'l builder_core =
  symbols :: "u16 \<Rightarrow> string"
  lastPrice :: "u16 \<Rightarrow> u32"
  tradingState :: "u16 \<Rightarrow> char"
  crossedByLocate :: "u16 \<Rightarrow> u32"
  lastTradingAction :: "u16 \<Rightarrow> u64"
  crossedWhileTrading :: "crossed_event list"
  stats :: book_stats
  marketOpen :: bool
  listener :: 'l

record 'l builder =
  books :: "u16 \<Rightarrow> l3_book"
  order_pool :: "book_order pool"
  index :: "ptr order_index"
  core :: "'l builder_core"

type_synonym 'l on_top = "(top_of_book \<Rightarrow> 'l \<Rightarrow> 'l) option"

definition poolBlock :: nat where
  "poolBlock = 65536"

definition kMaxLocates :: nat where
  "kMaxLocates = 65536"

definition zero_stats :: book_stats where
  "zero_stats = \<lparr>adds = 0, executions = 0, cancels = 0, deletes = 0, replaces = 0, trades = 0,
     unknownRefs = 0, duplicateRefs = 0, overExecutions = 0, crossedDuringMarket = 0,
     crossedWhileTradingCount = 0, tradingActions = 0, liveOrders = 0, peakLiveOrders = 0,
     depthHistogram = [0, 0, 0, 0, 0, 0]\<rparr>"

definition new_core :: "'l \<Rightarrow> 'l builder_core" where
  "new_core l = \<lparr>symbols = (\<lambda>_. ''''), lastPrice = (\<lambda>_. 0), tradingState = (\<lambda>_. CHR ''T''),
     crossedByLocate = (\<lambda>_. 0), lastTradingAction = (\<lambda>_. 0), crossedWhileTrading = [],
     stats = zero_stats, marketOpen = False, listener = l\<rparr>"

definition builder_new :: "nat \<Rightarrow> 'l \<Rightarrow> 'l builder option" where
  "builder_new expectedLiveOrders l = do {
     ix \<leftarrow> oi_new expectedLiveOrders;
     Some \<lparr>books = (\<lambda>_. emptyBook), order_pool = pool_new poolBlock, index = ix, core = new_core l\<rparr>
   }"

section \<open>Statistics\<close>

definition count_stat :: "(book_stats \<Rightarrow> book_stats) \<Rightarrow> 'l builder_core \<Rightarrow> 'l builder_core" where
  "count_stat f k = k\<lparr>stats := f (stats k)\<rparr>"

definition depth_bucket :: "nat \<Rightarrow> nat" where
  "depth_bucket depth =
     (if depth = 0 then 0 else if depth = 1 then 1 else if depth < 5 then 2
      else if depth < 10 then 3 else if depth < 50 then 4 else 5)"

definition recordDepth :: "nat \<Rightarrow> 'l builder_core \<Rightarrow> 'l builder_core" where
  "recordDepth depth = count_stat (\<lambda>st. st\<lparr>depthHistogram :=
     (depthHistogram st)[depth_bucket depth := depthHistogram st ! depth_bucket depth + 1]\<rparr>)"

text \<open>\<open>if (++stats_.liveOrders > stats_.peakLiveOrders) stats_.peakLiveOrders = stats_.liveOrders;\<close>\<close>

definition countLive :: "'l builder_core \<Rightarrow> 'l builder_core" where
  "countLive = count_stat (\<lambda>st.
     (let st = st\<lparr>liveOrders := liveOrders st + 1\<rparr> in
      if liveOrders st > peakLiveOrders st then st\<lparr>peakLiveOrders := liveOrders st\<rparr> else st))"

text \<open>The end of \<open>addOrder\<close>, when the market is open and the book is crossed.\<close>

definition noteCrossed :: "u16 \<Rightarrow> u64 \<Rightarrow> 'l builder_core \<Rightarrow> 'l builder_core" where
  "noteCrossed locate ts k =
     (let k = count_stat (\<lambda>st. st\<lparr>crossedDuringMarket := crossedDuringMarket st + 1\<rparr>) k;
          k = k\<lparr>crossedByLocate := (crossedByLocate k)(locate := crossedByLocate k locate + 1)\<rparr>
      in if tradingState k locate = CHR ''T''
         then (let k = count_stat (\<lambda>st. st\<lparr>crossedWhileTradingCount := crossedWhileTradingCount st + 1\<rparr>) k
               in if length (crossedWhileTrading k) < 100
                  then k\<lparr>crossedWhileTrading := crossedWhileTrading k @
                         [\<lparr>ce_locate = locate, ce_timestamp = ts,
                           ce_lastTradingAction = lastTradingAction k locate\<rparr>]\<rparr>
                  else k)
         else k)"

section \<open>Orders and books\<close>

definition with_core :: "('l builder_core \<Rightarrow> 'l builder_core) \<Rightarrow> 'l builder \<Rightarrow> 'l builder" where
  "with_core f s = s\<lparr>core := f (core s)\<rparr>"

abbreviation mem :: "'l builder \<Rightarrow> order_heap" where
  "mem s \<equiv> p_mem (order_pool s)"

definition set_mem :: "order_heap \<Rightarrow> 'l builder \<Rightarrow> 'l builder" where
  "set_mem m s = s\<lparr>order_pool := (order_pool s)\<lparr>p_mem := m\<rparr>\<rparr>"

definition lookup :: "u64 \<Rightarrow> 'l builder \<Rightarrow> (ptr \<times> 'l builder) option" where
  "lookup ref s = do {
     found \<leftarrow> oi_find (index s) ref;
     case found of
       None \<Rightarrow> Some (None, with_core (count_stat (\<lambda>st. st\<lparr>unknownRefs := unknownRefs st + 1\<rparr>)) s)
     | Some p \<Rightarrow> Some (p, s)
   }"

definition addOrder ::
    "u16 \<Rightarrow> u64 \<Rightarrow> u64 \<Rightarrow> BookSide \<Rightarrow> u32 \<Rightarrow> u32 \<Rightarrow> 'l builder \<Rightarrow> 'l builder option" where
  "addOrder locate ts ref side shares price s = do {
     (a, p) \<leftarrow> acquire poolBlock blankOrder (order_pool s);
     m \<leftarrow> modify (Some a) (\<lambda>x. x\<lparr>o_ref := ref, o_price := price, o_shares := shares,
            o_locate := locate, o_side := side\<rparr>) (p_mem p);
     let s = s\<lparr>order_pool := p\<lparr>p_mem := m\<rparr>\<rparr>;
     (inserted, ix) \<leftarrow> oi_tryInsert ref (Some a) (index s);
     let s = s\<lparr>index := ix\<rparr>;
     if \<not> inserted then do {
       p \<leftarrow> release a (order_pool s);
       Some (with_core (count_stat (\<lambda>st. st\<lparr>duplicateRefs := duplicateRefs st + 1\<rparr>)) (s\<lparr>order_pool := p\<rparr>))
     } else do {
       (depth, b, m) \<leftarrow> l3_add (Some a) (books s locate) (mem s);
       let s = set_mem m (s\<lparr>books := (books s)(locate := b)\<rparr>);
       let s = with_core (countLive \<circ> recordDepth depth) s;
       Some (if marketOpen (core s) \<and> crossed (books s locate)
             then with_core (noteCrossed locate ts) s else s)
     }
   }"

definition removeOrder :: "ptr \<Rightarrow> 'l builder \<Rightarrow> 'l builder option" where
  "removeOrder order s = do {
     x \<leftarrow> deref (mem s) order;
     (depth, b, m) \<leftarrow> l3_remove order (books s (o_locate x)) (mem s);
     let s = set_mem m (s\<lparr>books := (books s)(o_locate x := b)\<rparr>);
     let s = with_core (recordDepth depth) s;
     x \<leftarrow> deref (mem s) order;
     (_, ix) \<leftarrow> oi_erase (o_ref x) (index s);
     a \<leftarrow> order;
     p \<leftarrow> release a (order_pool s);
     let s = s\<lparr>index := ix, order_pool := p\<rparr>;
     Some (with_core (count_stat (\<lambda>st. st\<lparr>liveOrders := liveOrders st - 1\<rparr>)) s)
   }"

definition take_order :: "ptr \<Rightarrow> u32 \<Rightarrow> 'l builder \<Rightarrow> 'l builder option" where
  "take_order order shares s = do {
     x \<leftarrow> deref (mem s) order;
     let (shares, s) = (if shares > o_shares x
        then (o_shares x, with_core (count_stat (\<lambda>st. st\<lparr>overExecutions := overExecutions st + 1\<rparr>)) s)
        else (shares, s));
     if shares = o_shares x then removeOrder order s
     else do {
       (depth, b, m) \<leftarrow> l3_reduce order shares (books s (o_locate x)) (mem s);
       Some (with_core (recordDepth depth) (set_mem m (s\<lparr>books := (books s)(o_locate x := b)\<rparr>)))
     }
   }"

section \<open>Notification\<close>

definition topOf :: "u16 \<Rightarrow> u64 \<Rightarrow> 'l builder \<Rightarrow> top_of_book" where
  "topOf locate ts s =
     (let b = books s locate;
          tb = \<lparr>t_locate = locate, t_timestamp = ts, t_bidPrice = 0, t_bidShares = 0,
                 t_askPrice = 0, t_askShares = 0\<rparr>;
          tb = (case bestBid b of Some bid \<Rightarrow> tb\<lparr>t_bidPrice := l_price bid, t_bidShares := l_shares bid\<rparr>
                 | None \<Rightarrow> tb)
      in case bestAsk b of Some ask \<Rightarrow> tb\<lparr>t_askPrice := l_price ask, t_askShares := l_shares ask\<rparr>
         | None \<Rightarrow> tb)"

definition top_moved :: "top_of_book \<Rightarrow> top_of_book \<Rightarrow> bool" where
  "top_moved old new \<longleftrightarrow> t_bidPrice new \<noteq> t_bidPrice old \<or> t_bidShares new \<noteq> t_bidShares old
     \<or> t_askPrice new \<noteq> t_askPrice old \<or> t_askShares new \<noteq> t_askShares old"

definition tell :: "(top_of_book \<Rightarrow> 'l \<Rightarrow> 'l) \<Rightarrow> top_of_book \<Rightarrow> 'l builder_core \<Rightarrow> 'l builder_core" where
  "tell onTop tb k = k\<lparr>listener := onTop tb (listener k)\<rparr>"

definition changeBook :: "'l on_top \<Rightarrow> u16 \<Rightarrow> u64 \<Rightarrow> ('l builder \<Rightarrow> 'l builder option) \<Rightarrow> 'l builder
    \<Rightarrow> 'l builder option" where
  "changeBook lsn locate ts change s =
     (case lsn of
        Some onTop \<Rightarrow> do {
          let tb = topOf locate ts s;
          s \<leftarrow> change s;
          let tb2 = topOf locate ts s;
          Some (if top_moved tb tb2 then with_core (tell onTop tb2) s else s)
        }
      | None \<Rightarrow> change s)"

section \<open>Handlers\<close>

definition side_of_char :: "char \<Rightarrow> BookSide" where
  "side_of_char c = (if c = CHR ''B'' then Bid else Ask)"

definition builder_onAdd :: "'l on_top \<Rightarrow> u16 \<Rightarrow> u64 \<Rightarrow> add_order \<Rightarrow> 'l builder \<Rightarrow> 'l builder option" where
  "builder_onAdd lsn locate ts m s =
     changeBook lsn locate ts
       (addOrder locate ts (ao_ref m) (side_of_char (ao_side m)) (ao_shares m) (ao_price m))
       (with_core (count_stat (\<lambda>st. st\<lparr>adds := adds st + 1\<rparr>)) s)"

definition builder_onExecuted ::
    "'l on_top \<Rightarrow> u16 \<Rightarrow> u64 \<Rightarrow> order_executed \<Rightarrow> 'l builder \<Rightarrow> 'l builder option" where
  "builder_onExecuted lsn l ts m s = do {
     (p, s) \<leftarrow> lookup (oe_ref m) (with_core (count_stat (\<lambda>st. st\<lparr>executions := executions st + 1\<rparr>)) s);
     if p = None then Some s
     else do {
       x \<leftarrow> deref (mem s) p;
       let s = with_core (\<lambda>k. k\<lparr>lastPrice := (lastPrice k)(o_locate x := o_price x)\<rparr>) s;
       changeBook lsn (o_locate x) ts (take_order p (oe_shares m)) s
     }
   }"

definition builder_onExecutedWithPrice ::
    "'l on_top \<Rightarrow> u16 \<Rightarrow> u64 \<Rightarrow> order_executed_with_price \<Rightarrow> 'l builder \<Rightarrow> 'l builder option" where
  "builder_onExecutedWithPrice lsn l ts m s = do {
     (p, s) \<leftarrow> lookup (oewp_ref m) (with_core (count_stat (\<lambda>st. st\<lparr>executions := executions st + 1\<rparr>)) s);
     if p = None then Some s
     else do {
       x \<leftarrow> deref (mem s) p;
       let s = (if oewp_printable m = CHR ''Y''
         then with_core (\<lambda>k. k\<lparr>lastPrice := (lastPrice k)(o_locate x := oewp_price m)\<rparr>) s else s);
       changeBook lsn (o_locate x) ts (take_order p (oewp_shares m)) s
     }
   }"

definition builder_onCancel ::
    "'l on_top \<Rightarrow> u16 \<Rightarrow> u64 \<Rightarrow> order_cancel \<Rightarrow> 'l builder \<Rightarrow> 'l builder option" where
  "builder_onCancel lsn l ts m s = do {
     (p, s) \<leftarrow> lookup (oc_ref m) (with_core (count_stat (\<lambda>st. st\<lparr>cancels := cancels st + 1\<rparr>)) s);
     if p = None then Some s
     else do {
       x \<leftarrow> deref (mem s) p;
       changeBook lsn (o_locate x) ts (take_order p (oc_shares m)) s
     }
   }"

definition builder_onDelete ::
    "'l on_top \<Rightarrow> u16 \<Rightarrow> u64 \<Rightarrow> order_delete \<Rightarrow> 'l builder \<Rightarrow> 'l builder option" where
  "builder_onDelete lsn l ts m s = do {
     (p, s) \<leftarrow> lookup (od_ref m) (with_core (count_stat (\<lambda>st. st\<lparr>deletes := deletes st + 1\<rparr>)) s);
     if p = None then Some s
     else do {
       x \<leftarrow> deref (mem s) p;
       changeBook lsn (o_locate x) ts (removeOrder p) s
     }
   }"

definition builder_onReplace ::
    "'l on_top \<Rightarrow> u16 \<Rightarrow> u64 \<Rightarrow> order_replace \<Rightarrow> 'l builder \<Rightarrow> 'l builder option" where
  "builder_onReplace lsn l ts m s = do {
     (p, s) \<leftarrow> lookup (or_oldRef m) (with_core (count_stat (\<lambda>st. st\<lparr>replaces := replaces st + 1\<rparr>)) s);
     if p = None then Some s
     else do {
       x \<leftarrow> deref (mem s) p;
       let locate = o_locate x;
       let side = o_side x;
       changeBook lsn locate ts
         (\<lambda>s. do { s \<leftarrow> removeOrder p s; addOrder locate ts (or_newRef m) side (or_shares m) (or_price m) s }) s
     }
   }"

definition core_onTrade :: "u16 \<Rightarrow> itch_trade \<Rightarrow> 'l builder_core \<Rightarrow> 'l builder_core" where
  "core_onTrade locate m k =
     (let k = count_stat (\<lambda>st. st\<lparr>trades := trades st + 1\<rparr>) k
      in k\<lparr>lastPrice := (lastPrice k)(locate := tr_price m)\<rparr>)"

definition core_onStockDirectory :: "u16 \<Rightarrow> stock_directory \<Rightarrow> 'l builder_core \<Rightarrow> 'l builder_core" where
  "core_onStockDirectory locate m k =
     (let symbol = rev (dropWhile (\<lambda>c. c = CHR '' '') (rev (sd_stock m)))
      in k\<lparr>symbols := (symbols k)(locate := symbol)\<rparr>)"

definition core_onSystemEvent :: "system_event \<Rightarrow> 'l builder_core \<Rightarrow> 'l builder_core" where
  "core_onSystemEvent m k =
     (let k = (if se_code m = CHR ''Q'' then k\<lparr>marketOpen := True\<rparr> else k)
      in if se_code m = CHR ''M'' then k\<lparr>marketOpen := False\<rparr> else k)"

definition core_onTradingAction :: "u16 \<Rightarrow> u64 \<Rightarrow> trading_action \<Rightarrow> 'l builder_core \<Rightarrow> 'l builder_core" where
  "core_onTradingAction locate ts m k =
     (let k = count_stat (\<lambda>st. st\<lparr>tradingActions := tradingActions st + 1\<rparr>) k
      in k\<lparr>tradingState := (tradingState k)(locate := ta_state m),
           lastTradingAction := (lastTradingAction k)(locate := ts)\<rparr>)"

definition builder_handler :: "'l on_top \<Rightarrow> 'l builder itch_handler" where
  "builder_handler lsn = \<lparr>
     onAdd = builder_onAdd lsn,
     onExecuted = builder_onExecuted lsn,
     onExecutedWithPrice = builder_onExecutedWithPrice lsn,
     onCancel = builder_onCancel lsn,
     onDelete = builder_onDelete lsn,
     onReplace = builder_onReplace lsn,
     onTrade = (\<lambda>l ts m s. Some (with_core (core_onTrade l m) s)),
     onStockDirectory = (\<lambda>l ts m s. Some (with_core (core_onStockDirectory l m) s)),
     onSystemEvent = (\<lambda>l ts m s. Some (with_core (core_onSystemEvent m) s)),
     onTradingAction = (\<lambda>l ts m s. Some (with_core (core_onTradingAction l ts m) s))\<rparr>"

text \<open>\<open>locateOf\<close>: the first locate with the symbol, or \<open>-1\<close>.\<close>

definition locateOf :: "string \<Rightarrow> 'l builder \<Rightarrow> int" where
  "locateOf symbol s =
     (case List.find (\<lambda>i. symbols (core s) (of_nat i) = symbol) [0..<kMaxLocates] of
        Some i \<Rightarrow> int i | None \<Rightarrow> -1)"

end
