(* ===== verification/BookSpec.thy ===== *)
theory BookSpec
  imports ItchBook
begin

text \<open>
  The specification of the book builder and the refinement. The specification's state is the
  builder's core and the list of live orders, in order of arrival; a level, the depth of a price,
  the best bid and ask, whether a book is crossed: all are computed from that list. Two properties look through
  the refinement at the memory itself: the chains of the levels hold exactly the live orders, and a replacement that
  cannot be entered still removes the order it was to replace.
\<close>

section \<open>Books of a list of orders\<close>

type_synonym 'l spec_state = "'l builder_core \<times> book_order list"

definition side_of_book :: "book_order list \<Rightarrow> u16 \<Rightarrow> BookSide \<Rightarrow> book_order list" where
  "side_of_book B l s = filter (\<lambda>x. o_locate x = l \<and> o_side x = s) B"

definition queue_of :: "book_order list \<Rightarrow> u16 \<Rightarrow> BookSide \<Rightarrow> u32 \<Rightarrow> book_order list" where
  "queue_of B l s p = filter (\<lambda>x. o_locate x = l \<and> o_side x = s \<and> o_price x = p) B"

definition book_prices :: "book_order list \<Rightarrow> u16 \<Rightarrow> BookSide \<Rightarrow> u32 list" where
  "book_prices B l s = price_list s (o_price ` set (side_of_book B l s))"

definition book_levels :: "book_order list \<Rightarrow> u16 \<Rightarrow> BookSide \<Rightarrow> (u32 \<times> u32 \<times> u64) list" where
  "book_levels B l s = map (\<lambda>p. (p, of_nat (length (queue_of B l s p)),
     of_nat (sum_list (map (\<lambda>x. unat (o_shares x)) (queue_of B l s p))))) (book_prices B l s)"

definition spec_depth :: "book_order list \<Rightarrow> u16 \<Rightarrow> BookSide \<Rightarrow> u32 \<Rightarrow> nat" where
  "spec_depth B l s p = card (Set.filter (before s p) (o_price ` set (side_of_book B l s)))"

definition book_crossed :: "book_order list \<Rightarrow> u16 \<Rightarrow> bool" where
  "book_crossed B l \<longleftrightarrow>
     (\<exists>x \<in> set (side_of_book B l Bid). \<exists>y \<in> set (side_of_book B l Ask). o_price y \<le> o_price x)"

definition spec_top :: "u16 \<Rightarrow> u64 \<Rightarrow> book_order list \<Rightarrow> top_of_book" where
  "spec_top l ts B =
     (let (bp, bs) = (case vec_back (book_levels B l Bid) of None \<Rightarrow> (0, 0) | Some (p, n, v) \<Rightarrow> (p, v));
          (ap, as) = (case vec_back (book_levels B l Ask) of None \<Rightarrow> (0, 0) | Some (p, n, v) \<Rightarrow> (p, v))
      in \<lparr>t_locate = l, t_timestamp = ts, t_bidPrice = bp, t_bidShares = bs,
          t_askPrice = ap, t_askShares = as\<rparr>)"

section \<open>Events\<close>

fun spec_add :: "u16 \<Rightarrow> u64 \<Rightarrow> u64 \<Rightarrow> BookSide \<Rightarrow> u32 \<Rightarrow> u32 \<Rightarrow> 'l spec_state \<Rightarrow> 'l spec_state" where
  "spec_add l ts r s n p (k, B) =
     (if r = kEmpty \<or> r \<in> o_ref ` set B
      then (count_stat (\<lambda>st. st\<lparr>duplicateRefs := duplicateRefs st + 1\<rparr>) k, B)
      else (let k = countLive (recordDepth (spec_depth B l s p) k);
                B = B @ [\<lparr>o_ref = r, o_price = p, o_shares = n, o_locate = l, o_side = s,
                          o_prev = None, o_next = None\<rparr>]
            in (if marketOpen k \<and> book_crossed B l then noteCrossed l ts k else k, B)))"

definition drop_ref :: "u64 \<Rightarrow> book_order list \<Rightarrow> book_order list" where
  "drop_ref r B = filter (\<lambda>x. o_ref x \<noteq> r) B"

fun spec_remove :: "book_order \<Rightarrow> 'l spec_state \<Rightarrow> 'l spec_state" where
  "spec_remove x (k, B) =
     (count_stat (\<lambda>st. st\<lparr>liveOrders := liveOrders st - 1\<rparr>)
        (recordDepth (spec_depth B (o_locate x) (o_side x) (o_price x)) k), drop_ref (o_ref x) B)"

fun spec_take :: "book_order \<Rightarrow> u32 \<Rightarrow> 'l spec_state \<Rightarrow> 'l spec_state" where
  "spec_take x n (k, B) =
     (if o_shares x \<le> n
      then spec_remove x
        (if o_shares x < n then count_stat (\<lambda>st. st\<lparr>overExecutions := overExecutions st + 1\<rparr>) k else k, B)
      else (recordDepth (spec_depth B (o_locate x) (o_side x) (o_price x)) k,
            map (\<lambda>y. if o_ref y = o_ref x then y\<lparr>o_shares := o_shares y - n\<rparr> else y) B))"

definition spec_change ::
    "'l on_top \<Rightarrow> u16 \<Rightarrow> u64 \<Rightarrow> ('l spec_state \<Rightarrow> 'l spec_state) \<Rightarrow> 'l spec_state \<Rightarrow> 'l spec_state" where
  "spec_change lsn l ts f st =
     (let st' = f st; old = spec_top l ts (snd st); new = spec_top l ts (snd st') in
      case lsn of None \<Rightarrow> st'
      | Some onTop \<Rightarrow> (if top_moved old new then tell onTop new (fst st') else fst st', snd st'))"

definition spec_find :: "u64 \<Rightarrow> book_order list \<Rightarrow> book_order option" where
  "spec_find r B = List.find (\<lambda>x. o_ref x = r) B"

fun spec_on_order :: "u64 \<Rightarrow> (book_order \<Rightarrow> 'l spec_state \<Rightarrow> 'l spec_state) \<Rightarrow> 'l spec_state \<Rightarrow> 'l spec_state" where
  "spec_on_order r f (k, B) =
     (case spec_find r B of
        None \<Rightarrow> (count_stat (\<lambda>st. st\<lparr>unknownRefs := unknownRefs st + 1\<rparr>) k, B)
      | Some x \<Rightarrow> f x (k, B))"

definition map_core :: "('l builder_core \<Rightarrow> 'l builder_core) \<Rightarrow> 'l spec_state \<Rightarrow> 'l spec_state" where
  "map_core f st = (f (fst st), snd st)"

fun spec_event :: "'l on_top \<Rightarrow> itch_event \<Rightarrow> 'l spec_state \<Rightarrow> 'l spec_state" where
  "spec_event lsn (EvAdd l ts m) st =
     spec_change lsn l ts
       (spec_add l ts (ao_ref m) (side_of_char (ao_side m)) (ao_shares m) (ao_price m))
       (map_core (count_stat (\<lambda>st. st\<lparr>adds := adds st + 1\<rparr>)) st)"
| "spec_event lsn (EvExecuted l ts m) st =
     spec_on_order (oe_ref m) (\<lambda>x st. spec_change lsn (o_locate x) ts (spec_take x (oe_shares m))
         (map_core (\<lambda>k. k\<lparr>lastPrice := (lastPrice k)(o_locate x := o_price x)\<rparr>) st))
       (map_core (count_stat (\<lambda>st. st\<lparr>executions := executions st + 1\<rparr>)) st)"
| "spec_event lsn (EvExecutedWithPrice l ts m) st =
     spec_on_order (oewp_ref m) (\<lambda>x st. spec_change lsn (o_locate x) ts (spec_take x (oewp_shares m))
         (if oewp_printable m = CHR ''Y''
          then map_core (\<lambda>k. k\<lparr>lastPrice := (lastPrice k)(o_locate x := oewp_price m)\<rparr>) st else st))
       (map_core (count_stat (\<lambda>st. st\<lparr>executions := executions st + 1\<rparr>)) st)"
| "spec_event lsn (EvCancel l ts m) st =
     spec_on_order (oc_ref m) (\<lambda>x. spec_change lsn (o_locate x) ts (spec_take x (oc_shares m)))
       (map_core (count_stat (\<lambda>st. st\<lparr>cancels := cancels st + 1\<rparr>)) st)"
| "spec_event lsn (EvDelete l ts m) st =
     spec_on_order (od_ref m) (\<lambda>x. spec_change lsn (o_locate x) ts (spec_remove x))
       (map_core (count_stat (\<lambda>st. st\<lparr>deletes := deletes st + 1\<rparr>)) st)"
| "spec_event lsn (EvReplace l ts m) st =
     spec_on_order (or_oldRef m) (\<lambda>x. spec_change lsn (o_locate x) ts
         (\<lambda>st. spec_add (o_locate x) ts (or_newRef m) (o_side x) (or_shares m) (or_price m) (spec_remove x st)))
       (map_core (count_stat (\<lambda>st. st\<lparr>replaces := replaces st + 1\<rparr>)) st)"
| "spec_event lsn (EvTrade l ts m) st = map_core (core_onTrade l m) st"
| "spec_event lsn (EvStockDirectory l ts m) st = map_core (core_onStockDirectory l m) st"
| "spec_event lsn (EvSystemEvent l ts m) st = map_core (core_onSystemEvent m) st"
| "spec_event lsn (EvTradingAction l ts m) st = map_core (core_onTradingAction l ts m) st"

section \<open>The representation\<close>

definition at_locate :: "order_heap \<Rightarrow> u16 \<Rightarrow> addr list \<Rightarrow> addr list" where
  "at_locate m l L = filter (\<lambda>a. \<exists>x. live m a = Some x \<and> o_locate x = l) L"

definition orders :: "'l builder \<Rightarrow> addr list \<Rightarrow> book_order list" where
  "orders s L = map (\<lambda>a. the (payloads (mem s) a)) L"

definition builder_rep :: "'l builder \<Rightarrow> addr list \<Rightarrow> bool" where
  "builder_rep s L \<longleftrightarrow> pool_inv poolBlock (order_pool s) \<and> distinct L \<and> set L = dom (live (mem s))
     \<and> index_inv (index s) \<and> oi_size (index s) = length L
     \<and> (\<forall>r p. index_map (index s) r = Some p \<longleftrightarrow>
          (\<exists>a x. p = Some a \<and> live (mem s) a = Some x \<and> o_ref x = r))
     \<and> (\<forall>l. book_rel (live (mem s)) (at_locate (mem s) l L) (books s l))"

lemma at_locate_payload:
  assumes "\<And>a. a \<in> set L \<Longrightarrow> map_option payload (live m' a) = map_option payload (live m a)"
  shows "at_locate m' l L = at_locate m l L"
  unfolding at_locate_def
proof (rule filter_cong [OF refl])
  fix a assume "a \<in> set L"
  from assms [OF this] consider "live m' a = None" "live m a = None"
    | x y where "live m' a = Some y" "live m a = Some x" "payload y = payload x"
    by (cases "live m' a"; cases "live m a") auto
  then show "(\<exists>x. live m' a = Some x \<and> o_locate x = l) = (\<exists>x. live m a = Some x \<and> o_locate x = l)"
  proof cases
    case (2 x y)
    then show ?thesis using payload_fields(4) [OF 2(3)] by simp
  qed simp
qed

text \<open>What a book shows is what the list of orders says.\<close>

lemma side_of_orders:
  assumes "set L \<subseteq> dom (live m)"
  shows "side_orders (payloads m) (at_locate m l L) s
    = side_of_book (map (\<lambda>a. the (payloads m a)) L) l s"
proof -
  have "\<forall>a \<in> set L. (\<exists>x. live m a = Some x \<and> o_locate x = l) = (o_locate (the (payloads m a)) = l)"
    using assms by (fastforce simp: payloads_def dom_def)
  then have "at_locate m l L = filter (\<lambda>a. o_locate (the (payloads m a)) = l) L"
    unfolding at_locate_def by (intro filter_cong) auto
  then show ?thesis
    by (simp add: side_orders_def side_of_book_def filter_map comp_def conj_commute)
qed

lemma queue_of_orders:
  assumes "set L \<subseteq> dom (live m)"
  shows "map (\<lambda>a. the (payloads m a)) (qaddr (payloads m) s p (at_locate m l L))
    = queue_of (map (\<lambda>a. the (payloads m a)) L) l s p"
proof -
  have "\<forall>a \<in> set L. (\<exists>x. live m a = Some x \<and> o_locate x = l) = (o_locate (the (payloads m a)) = l)"
    and "\<forall>a \<in> set L. (\<exists>x. payloads m a = Some x \<and> o_side x = s \<and> o_price x = p)
      = (o_side (the (payloads m a)) = s \<and> o_price (the (payloads m a)) = p)"
    using assms by (fastforce simp: payloads_def dom_def)+
  then have "qaddr (payloads m) s p (at_locate m l L) = filter (\<lambda>a. o_locate (the (payloads m a)) = l
      \<and> o_side (the (payloads m a)) = s \<and> o_price (the (payloads m a)) = p) L"
    unfolding at_locate_def qaddr_def filter_filter by (intro filter_cong) auto
  then show ?thesis by (simp add: queue_of_def filter_map comp_def)
qed

lemma levels_of_orders:
  assumes "set L \<subseteq> dom (live m)"
  shows "spec_levels (payloads m) (at_locate m l L) s = book_levels (map (\<lambda>a. the (payloads m a)) L) l s"
proof -
  have "length (qaddr (payloads m) s p (at_locate m l L))
      = length (queue_of (map (\<lambda>a. the (payloads m a)) L) l s p)"
    "total_shares (payloads m) (qaddr (payloads m) s p (at_locate m l L))
      = sum_list (map (\<lambda>x. unat (o_shares x)) (queue_of (map (\<lambda>a. the (payloads m a)) L) l s p))" for p
    by (simp_all add: queue_of_orders [OF assms, symmetric] total_shares_def comp_def)
  then show ?thesis
    by (simp add: spec_levels_def book_levels_def book_prices_def side_of_orders [OF assms])
qed

lemma crossed_of_orders:
  "set L \<subseteq> dom (live m) \<Longrightarrow>
     spec_crossed (payloads m) (at_locate m l L) \<longleftrightarrow> book_crossed (map (\<lambda>a. the (payloads m a)) L) l"
  by (simp add: spec_crossed_def book_crossed_def side_of_orders)

lemma depth_of_orders:
  assumes "set L \<subseteq> dom (live m)"
  shows "depth_of (live m) (at_locate m l L) s p = spec_depth (map (\<lambda>a. the (payloads m a)) L) l s p"
proof -
  have "set (at_locate m l L) \<subseteq> dom (payloads m)" using assms by (auto simp: at_locate_def payloads_def dom_def)
  from side_has_price [OF this, of s]
  have "{q. before s p q \<and> qaddr (live m) s q (at_locate m l L) \<noteq> []}
      = Set.filter (before s p) (o_price ` set (side_of_book (map (\<lambda>a. the (payloads m a)) L) l s))"
    by (auto simp: side_of_orders [OF assms] qaddr_payloads)
  then show ?thesis by (simp add: depth_of_def spec_depth_def)
qed

section \<open>Steps of the refinement\<close>

lemma book_rel_cong:
  assumes "\<And>a. a \<in> set L \<Longrightarrow> c' a = c a"
  shows "book_rel c' L b \<longleftrightarrow> book_rel c L b"
proof -
  have q: "qaddr c' s p L = qaddr c s p L" for s p
    unfolding qaddr_def using assms by (intro filter_cong) auto
  have lv: "level_rel c' (qaddr c s p L) lv = level_rel c (qaddr c s p L) lv" for s p lv
    using assms by (intro level_rel_cong) (auto simp: set_qaddr)
  have "set L \<subseteq> dom c' \<longleftrightarrow> set L \<subseteq> dom c" using assms by (auto simp: dom_def)
  then show ?thesis by (simp add: book_rel_def side_rel_def q lv)
qed

lemma relinked_pool_inv:
  assumes inv: "pool_inv n p" and r: "relinked A (p_mem p) m'"
  shows "pool_inv n (p\<lparr>p_mem := m'\<rparr>)"
proof -
  have cell: "m' a = p_mem p a \<or> (\<exists>x y. p_mem p a = Some (Live x) \<and> m' a = Some (Live y))" for a
    using r unfolding relinked_def by blast
  have free: "m' a = Some (FreeSlot q) \<longleftrightarrow> p_mem p a = Some (FreeSlot q)" for a q using cell [of a] by auto
  have none: "m' a = None \<longleftrightarrow> p_mem p a = None" for a using cell [of a] by auto
  have raw: "m' a = Some Raw \<longleftrightarrow> p_mem p a = Some Raw" for a using cell [of a] by auto
  have chain: "free_list m' q as = free_list (p_mem p) q as" for q as
    by (induction as arbitrary: q) (simp_all add: free)
  show ?thesis using inv by (simp add: pool_inv_def pool_shape_def free none raw chain)
qed

lemma rep_dom: "builder_rep s L \<Longrightarrow> set L \<subseteq> dom (live (mem s))"
  by (simp add: builder_rep_def)

lemma rep_live: "builder_rep s L \<Longrightarrow> a \<in> set L \<longleftrightarrow> (\<exists>x. live (mem s) a = Some x)"
  by (auto simp: builder_rep_def)

lemma rep_index: "builder_rep s L \<Longrightarrow> index_map (index s) r = Some p \<longleftrightarrow>
    (\<exists>a x. p = Some a \<and> live (mem s) a = Some x \<and> o_ref x = r)"
  by (simp add: builder_rep_def)

lemma payloads_at: "live m a = Some x \<Longrightarrow> payloads m a = Some (payload x)"
  by (simp add: payloads_def)

lemma rep_core [simp]: "builder_rep (with_core f s) L = builder_rep s L"
  "orders (with_core f s) L = orders s L" "core (with_core f s) = f (core s)"
  "mem (with_core f s) = mem s" "books (with_core f s) = books s" "index (with_core f s) = index s"
  "order_pool (with_core f s) = order_pool s"
  by (simp_all add: with_core_def builder_rep_def orders_def)

lemma set_mem_simps [simp]: "core (set_mem m s) = core s" "mem (set_mem m s) = m"
  "books (set_mem m s) = books s" "index (set_mem m s) = index s"
  by (simp_all add: set_mem_def)

lemma topOf_core [simp]: "topOf l ts (with_core f s) = topOf l ts s"
  by (simp add: topOf_def)

lemma orders_refs: "builder_rep s L \<Longrightarrow> o_ref ` set (orders s L) = {r. index_map (index s) r \<noteq> None}"
proof -
  assume rep: "builder_rep s L"
  have "r \<in> o_ref ` set (orders s L) \<longleftrightarrow> (\<exists>a \<in> set L. r = o_ref (the (payloads (mem s) a)))" for r
    by (auto simp: orders_def)
  moreover have "(\<exists>a \<in> set L. r = o_ref (the (payloads (mem s) a))) \<longleftrightarrow> (\<exists>a x. live (mem s) a = Some x \<and> o_ref x = r)" for r
    using rep_live [OF rep] payloads_at [of "mem s"] by force
  moreover have "index_map (index s) r \<noteq> None \<longleftrightarrow> (\<exists>a x. live (mem s) a = Some x \<and> o_ref x = r)" for r
    unfolding not_None_eq rep_index [OF rep] by blast
  ultimately have "r \<in> o_ref ` set (orders s L) \<longleftrightarrow> index_map (index s) r \<noteq> None" for r by simp
  then show ?thesis by (intro set_eqI) (simp only: mem_Collect_eq)
qed

lemma orders_distinct: "builder_rep s L \<Longrightarrow> inj_on (\<lambda>a. o_ref (the (payloads (mem s) a))) (set L)"
proof (rule inj_onI)
  fix a b
  assume rep: "builder_rep s L" and ab: "a \<in> set L" "b \<in> set L"
    and eq: "o_ref (the (payloads (mem s) a)) = o_ref (the (payloads (mem s) b))"
  obtain x y where x: "live (mem s) a = Some x" and y: "live (mem s) b = Some y"
    using ab rep_live [OF rep] by blast
  have ref: "o_ref x = o_ref y" using eq x y by (simp add: payloads_def)
  have "index_map (index s) (o_ref x) = Some (Some a)" "index_map (index s) (o_ref x) = Some (Some b)"
    using x y ref by (simp_all add: rep_index [OF rep])
  then show "a = b" by simp
qed

lemma find_in_map:
  assumes "inj_on (\<lambda>a. g (f a)) (set L)" "a \<in> set L"
  shows "List.find (\<lambda>x. g x = g (f a)) (map f L) = Some (f a)"
  using assms by (induction L) (auto simp: inj_on_def)

lemma lookup_law:
  assumes rep: "builder_rep s L"
  shows "case spec_find r (orders s L) of
      None \<Rightarrow> lookup r s = Some (None, with_core (count_stat (\<lambda>st. st\<lparr>unknownRefs := unknownRefs st + 1\<rparr>)) s)
    | Some x \<Rightarrow> (\<exists>a \<in> set L. \<exists>y. lookup r s = Some (Some a, s) \<and> live (mem s) a = Some y \<and> x = payload y
        \<and> o_ref y = r)"
proof -
  have inv: "index_inv (index s)" using rep by (simp add: builder_rep_def)
  show ?thesis
  proof (cases "index_map (index s) r")
    case None
    then have "r \<notin> o_ref ` set (orders s L)" using orders_refs [OF rep] by simp
    then have "spec_find r (orders s L) = None" by (auto simp: spec_find_def find_None_iff)
    then show ?thesis using oi.find_abs [OF inv, of r] None by (simp add: lookup_def)
  next
    case (Some p)
    then obtain a y where a: "p = Some a" "live (mem s) a = Some y" "o_ref y = r"
      by (auto simp: rep_index [OF rep])
    have aL: "a \<in> set L" using a(2) rep_live [OF rep] by blast
    have "spec_find r (orders s L) = Some (the (payloads (mem s) a))"
      using find_in_map [of o_ref "\<lambda>a. the (payloads (mem s) a)", OF orders_distinct [OF rep] aL] a(2,3)
      by (simp add: spec_find_def orders_def payloads_def)
    then show ?thesis using oi.find_abs [OF inv, of r] Some a aL by (simp add: lookup_def payloads_def)
  qed
qed

text \<open>Replacing one book and relinking its orders.\<close>

lemma at_locate_append:
  "at_locate m l (L @ [a]) = at_locate m l L @ (if \<exists>x. live m a = Some x \<and> o_locate x = l then [a] else [])"
  by (simp add: at_locate_def)

lemma set_at_locate: "set (at_locate m l L) = {a \<in> set L. \<exists>x. live m a = Some x \<and> o_locate x = l}"
  by (simp add: at_locate_def)

lemma other_books:
  assumes "book_rel (live m) (at_locate m l' L) b" "l' \<noteq> l"
    and "relinked A m m'" "A \<subseteq> {a. \<exists>x. live m a = Some x \<and> o_locate x = l}"
  shows "book_rel (live m') (at_locate m' l' L) b"
proof -
  have "at_locate m' l' L = at_locate m l' L"
    by (rule at_locate_payload) (rule relinked_live [OF assms(3)])
  moreover have "live m' a = live m a" if "a \<in> set (at_locate m l' L)" for a
  proof -
    have "a \<notin> A" using that assms(2,4) by (auto simp: set_at_locate)
    then show ?thesis using relinked_outside [OF assms(3)] by (simp add: live_def)
  qed
  ultimately show ?thesis using assms(1) book_rel_cong [of _ "live m'" "live m"] by simp
qed

lemma payload_ref: "map_option payload (live m' a) = map_option payload (live m a) \<Longrightarrow>
  (\<exists>x. live m' a = Some x \<and> o_ref x = r) \<longleftrightarrow> (\<exists>x. live m a = Some x \<and> o_ref x = r)"
  by (cases "live m' a"; cases "live m a") (auto dest: payload_fields(1))

lemma orders_drop:
  assumes rep: "builder_rep s L" and a: "a \<in> set L" "live (mem s) a = Some y"
    and same: "\<And>c. c \<in> set L \<Longrightarrow> c \<noteq> a \<Longrightarrow> payloads (mem s') c = payloads (mem s) c"
  shows "orders s' (filter (\<lambda>c. c \<noteq> a) L) = drop_ref (o_ref y) (orders s L)"
proof -
  have "o_ref (the (payloads (mem s) c)) = o_ref y \<longleftrightarrow> c = a" if "c \<in> set L" for c
    using inj_onD [OF orders_distinct [OF rep], of c a] a that by (auto simp: payloads_at)
  then have "filter (\<lambda>c. o_ref (the (payloads (mem s) c)) \<noteq> o_ref y) L = filter (\<lambda>c. c \<noteq> a) L"
    by (intro filter_cong) auto
  moreover have "map (\<lambda>c. the (payloads (mem s') c)) (filter (\<lambda>c. c \<noteq> a) L)
      = map (\<lambda>c. the (payloads (mem s) c)) (filter (\<lambda>c. c \<noteq> a) L)"
    using same by simp
  ultimately show ?thesis by (simp add: orders_def drop_ref_def filter_map comp_def)
qed

lemma removeOrder_law:
  assumes rep: "builder_rep s L" and a: "a \<in> set L" and y: "live (mem s) a = Some y"
    and few: "length L \<le> 2 ^ 32"
  shows "\<exists>s'. removeOrder (Some a) s = Some s' \<and> builder_rep s' (filter (\<lambda>c. c \<noteq> a) L)
    \<and> (core s', orders s' (filter (\<lambda>c. c \<noteq> a) L)) = spec_remove (payload y) (core s, orders s L)"
proof -
  let ?l = "o_locate y" and ?L = "filter (\<lambda>c. c \<noteq> a) L"
  let ?Ll = "at_locate (mem s) ?l L"
  have pool: "pool_inv poolBlock (order_pool s)" and dist: "distinct L" and ix: "index_inv (index s)"
    and size: "oi_size (index s) = length L" and dom: "set L = dom (live (mem s))"
    and bk: "\<And>l. book_rel (live (mem s)) (at_locate (mem s) l L) (books s l)"
    using rep by (simp_all add: builder_rep_def)
  have al: "a \<in> set ?Ll" using a y by (simp add: set_at_locate)
  have "length ?Ll \<le> 2 ^ 32" using few unfolding at_locate_def by (rule order_trans [OF length_filter_le])
  from l3.rem_law [OF bk al y this] obtain b m where
    rem: "l3_remove (Some a) (books s ?l) (mem s)
      = Some (depth_of (live (mem s)) ?Ll (o_side y) (o_price y), b, m)"
    "book_rel (live m) (filter (\<lambda>c. c \<noteq> a) ?Ll) b" "relinked (set ?Ll) (mem s) m" by blast
  have sp: "map_option payload (live m c) = map_option payload (live (mem s) c)" for c
    by (rule relinked_live [OF rem(3)])
  obtain y' where y': "live m a = Some y'" "payload y' = payload y" using sp [of a] y by auto
  define p1 where "p1 = (order_pool s)\<lparr>p_mem := m\<rparr>"
  have "pool_inv poolBlock p1" unfolding p1_def by (rule relinked_pool_inv [OF pool rem(3)])
  then obtain p2 where p2: "release a p1 = Some p2" "pool_inv poolBlock p2"
    "objects p2 = (live m)(a := None)"
    using block_pool.rel_law [of poolBlock p1 a y'] y'(1) by (auto simp: p1_def)
  have present: "index_map (index s) (o_ref y) = Some (Some a)" using y by (simp add: rep_index [OF rep])
  from oi.del_law [OF ix, of "o_ref y"] obtain ix' where ix': "oi_erase (o_ref y) (index s) = Some (True, ix')"
    "index_inv ix'" "index_map ix' = (index_map (index s))(o_ref y := None)" "oi_size ix' = oi_size (index s) - 1"
    using present by auto
  let ?f = "count_stat (\<lambda>st. st\<lparr>liveOrders := liveOrders st - 1\<rparr>) \<circ> recordDepth (spec_depth (orders s L) ?l (o_side y) (o_price y))"
  define s' where "s' = with_core ?f (s\<lparr>books := (books s)(?l := b), order_pool := p2, index := ix'\<rparr>)"
  have depth: "depth_of (live (mem s)) ?Ll (o_side y) (o_price y) = spec_depth (orders s L) ?l (o_side y) (o_price y)"
    unfolding orders_def by (rule depth_of_orders [OF rep_dom [OF rep]])
  have exec: "removeOrder (Some a) s = Some s'"
    using rem(1) y y' p2(1) ix'(1) payload_fields(1) [OF y'(2)]
    by (simp add: removeOrder_def Let_def set_mem_def with_core_def s'_def p1_def depth)
  have live': "live (mem s') = (live m)(a := None)" by (simp add: s'_def p2(3))
  text \<open>The books.\<close>
  have at: "at_locate (mem s') l ?L = filter (\<lambda>c. c \<noteq> a) (at_locate (mem s) l L)" for l
  proof -
    have "at_locate (mem s') l ?L = at_locate m l ?L"
      unfolding at_locate_def live' by (intro filter_cong) auto
    also have "\<dots> = at_locate (mem s) l ?L" by (rule at_locate_payload) (rule sp)
    finally show ?thesis by (simp add: at_locate_def conj_commute)
  qed
  have "book_rel (live (mem s')) (at_locate (mem s') l ?L) (books s' l)" for l
  proof -
    have "book_rel (live m) (filter (\<lambda>c. c \<noteq> a) (at_locate (mem s) l L)) (books s' l)"
    proof (cases "l = ?l")
      case True
      then show ?thesis using rem(2) by (simp add: s'_def)
    next
      case False
      have "book_rel (live m) (at_locate m l L) (books s l)"
        using False by (intro other_books [OF bk _ rem(3)]) (auto simp: set_at_locate)
      moreover have "at_locate m l L = at_locate (mem s) l L" by (rule at_locate_payload) (rule sp)
      moreover have "a \<notin> set (at_locate (mem s) l L)" using False y by (simp add: set_at_locate)
      then have "filter (\<lambda>c. c \<noteq> a) (at_locate (mem s) l L) = at_locate (mem s) l L"
        by (metis (mono_tags, lifting) filter_True)
      ultimately show ?thesis using False by (simp add: s'_def)
    qed
    then show ?thesis unfolding at live' by (subst book_rel_cong) auto
  qed
  moreover have "index_map (index s') r = Some p \<longleftrightarrow> (\<exists>c x. p = Some c \<and> live (mem s') c = Some x \<and> o_ref x = r)" for r p
  proof -
    have old: "index_map (index s) r = Some p \<longleftrightarrow> (\<exists>c x. p = Some c \<and> live m c = Some x \<and> o_ref x = r)"
      using payload_ref [OF sp] rep_index [OF rep, of r p] by metis
    have "index_map (index s') = (index_map (index s))(o_ref y := None)" by (simp add: s'_def ix'(3))
    moreover have "p = Some a \<Longrightarrow> index_map (index s) r = Some p \<Longrightarrow> r = o_ref y"
      using y by (simp add: rep_index [OF rep])
    moreover have "(\<exists>c x. p = Some c \<and> live (mem s') c = Some x \<and> o_ref x = r) \<longleftrightarrow>
        p \<noteq> Some a \<and> (\<exists>c x. p = Some c \<and> live m c = Some x \<and> o_ref x = r)"
      unfolding live' by (cases p) auto
    ultimately show ?thesis using old present by (cases "r = o_ref y") auto
  qed
  moreover have "set ?L = dom (live (mem s'))"
  proof -
    have "c \<in> set L \<longleftrightarrow> live m c \<noteq> None" for c
      using sp [of c] unfolding dom by (cases "live m c"; cases "live (mem s) c") auto
    then show ?thesis unfolding live' by auto
  qed
  moreover have "length ?L = length L - 1"
  proof -
    have "?L = remove1 a L" using dist by (simp add: distinct_remove1_removeAll removeAll_filter_not_eq) (metis (mono_tags, lifting))
    then show ?thesis using a by (simp add: length_remove1)
  qed
  ultimately have "builder_rep s' ?L"
    unfolding builder_rep_def using p2(2) ix'(2,4) dist size by (simp add: s'_def)
  moreover have "orders s' ?L = drop_ref (o_ref y) (orders s L)"
    by (rule orders_drop [OF rep a y]) (simp add: payloads_def live' sp)
  ultimately show ?thesis using exec by (auto simp: s'_def with_core_def)
qed

lemma orders_update:
  assumes rep: "builder_rep s L" and a: "a \<in> set L" "live (mem s) a = Some y"
    and same: "\<And>c. c \<noteq> a \<Longrightarrow> payloads (mem s') c = payloads (mem s) c"
    and new: "payloads (mem s') a = Some (f (payload y))"
  shows "orders s' L = map (\<lambda>x. if o_ref x = o_ref y then f x else x) (orders s L)"
proof -
  have "o_ref (the (payloads (mem s) c)) = o_ref y \<longleftrightarrow> c = a" if "c \<in> set L" for c
    using inj_onD [OF orders_distinct [OF rep], of c a] a that by (auto simp: payloads_at)
  then show ?thesis using same new a by (auto simp: orders_def payloads_at)
qed

lemma reduce_law:
  assumes rep: "builder_rep s L" and a: "a \<in> set L" and y: "live (mem s) a = Some y" and n: "n \<le> o_shares y"
  shows "\<exists>d b m. l3_reduce (Some a) n (books s (o_locate y)) (mem s) = Some (d, b, m)
    \<and> d = spec_depth (orders s L) (o_locate y) (o_side y) (o_price y)
    \<and> (let s' = set_mem m (s\<lparr>books := (books s)(o_locate y := b)\<rparr>) in builder_rep s' L
      \<and> orders s' L = map (\<lambda>x. if o_ref x = o_ref y then x\<lparr>o_shares := o_shares x - n\<rparr> else x) (orders s L))"
proof -
  let ?l = "o_locate y"
  let ?y = "y\<lparr>o_shares := o_shares y - n\<rparr>"
  let ?m = "(mem s)(a \<mapsto> Live ?y)"
  have bk: "\<And>l. book_rel (live (mem s)) (at_locate (mem s) l L) (books s l)"
    using rep by (simp add: builder_rep_def)
  have al: "a \<in> set (at_locate (mem s) ?l L)" using a y by (simp add: set_at_locate)
  from l3.red_law [OF bk al y n] obtain b where red:
    "l3_reduce (Some a) n (books s ?l) (mem s) = Some (depth_of (live (mem s)) (at_locate (mem s) ?l L) (o_side y) (o_price y), b, ?m)"
    "book_rel (live ?m) (at_locate (mem s) ?l L) b" by blast
  define s' where "s' = set_mem ?m (s\<lparr>books := (books s)(?l := b)\<rparr>)"
  have live': "live (mem s') = (live (mem s))(a \<mapsto> ?y)" by (simp add: s'_def)
  have at: "at_locate (mem s') l L = at_locate (mem s) l L" for l
    unfolding at_locate_def live' using y by (intro filter_cong) auto
  have "book_rel (live (mem s')) (at_locate (mem s') l L) (books s' l)" for l
  proof (cases "l = ?l")
    case True
    then show ?thesis using red(2) unfolding at by (simp add: s'_def)
  next
    case False
    then have "a \<notin> set (at_locate (mem s) l L)" using y by (simp add: set_at_locate)
    then show ?thesis using bk [of l] False unfolding at live' by (subst book_rel_cong) (auto simp: s'_def)
  qed
  moreover have "pool_inv poolBlock (order_pool s')"
    using modify_inv [of poolBlock "order_pool s" a y] rep y by (simp add: s'_def set_mem_def builder_rep_def)
  moreover have "index_map (index s') r = Some p \<longleftrightarrow> (\<exists>c x. p = Some c \<and> live (mem s') c = Some x \<and> o_ref x = r)" for r p
    using rep_index [OF rep, of r p] y unfolding live' by (auto simp: s'_def)
  moreover have "set L = dom (live (mem s'))" using rep a unfolding live' by (auto simp: builder_rep_def)
  ultimately have "builder_rep s' L"
    unfolding builder_rep_def using rep by (simp add: s'_def builder_rep_def)
  moreover have "orders s' L = map (\<lambda>x. if o_ref x = o_ref y then x\<lparr>o_shares := o_shares x - n\<rparr> else x) (orders s L)"
    by (rule orders_update [OF rep a y]) (simp_all add: payloads_def live' payload_def)
  moreover have "depth_of (live (mem s)) (at_locate (mem s) ?l L) (o_side y) (o_price y)
      = spec_depth (orders s L) ?l (o_side y) (o_price y)"
    unfolding orders_def by (rule depth_of_orders [OF rep_dom [OF rep]])
  ultimately show ?thesis using red(1) unfolding s'_def Let_def by simp
qed

lemma take_law:
  assumes rep: "builder_rep s L" and a: "a \<in> set L" and y: "live (mem s) a = Some y"
    and few: "length L \<le> 2 ^ 32"
  shows "\<exists>s' L'. take_order (Some a) n s = Some s' \<and> builder_rep s' L' \<and> length L' \<le> length L
    \<and> (core s', orders s' L') = spec_take (payload y) n (core s, orders s L)"
proof (cases "o_shares y \<le> n")
  case True
  let ?s = "if o_shares y < n then with_core (count_stat (\<lambda>st. st\<lparr>overExecutions := overExecutions st + 1\<rparr>)) s else s"
  have r: "builder_rep ?s L" "live (mem ?s) a = Some y" "orders ?s L = orders s L" using rep y by simp_all
  have "take_order (Some a) n s = removeOrder (Some a) ?s"
    using True y by (auto simp: take_order_def)
  moreover have "length (filter (\<lambda>c. c \<noteq> a) L) \<le> length L" by (rule length_filter_le)
  ultimately show ?thesis using removeOrder_law [OF r(1) a r(2) few] True r(3)
    by (intro exI [of _ "the (removeOrder (Some a) ?s)"] exI [of _ "filter (\<lambda>c. c \<noteq> a) L"]) auto
next
  case False
  then have n: "n \<le> o_shares y" "n \<noteq> o_shares y" "\<not> o_shares y < n" by auto
  from reduce_law [OF rep a y n(1)] obtain d b m where r:
    "l3_reduce (Some a) n (books s (o_locate y)) (mem s) = Some (d, b, m)"
    "d = spec_depth (orders s L) (o_locate y) (o_side y) (o_price y)"
    "builder_rep (set_mem m (s\<lparr>books := (books s)(o_locate y := b)\<rparr>)) L"
    "orders (set_mem m (s\<lparr>books := (books s)(o_locate y := b)\<rparr>)) L
      = map (\<lambda>x. if o_ref x = o_ref y then x\<lparr>o_shares := o_shares x - n\<rparr> else x) (orders s L)"
    by (auto simp: Let_def)
  have "take_order (Some a) n s = Some (with_core (recordDepth d) (set_mem m (s\<lparr>books := (books s)(o_locate y := b)\<rparr>)))"
    using y n r(1) by (simp add: take_order_def)
  then show ?thesis using r(2-4) False by (intro exI conjI) (assumption | simp)+
qed

lemma addOrder_law:
  assumes rep: "builder_rep s L" and few: "length L < 2 ^ 61"
  shows "\<exists>s' L'. addOrder l ts r sd n p s = Some s' \<and> builder_rep s' L' \<and> length L' \<le> Suc (length L)
    \<and> (core s', orders s' L') = spec_add l ts r sd n p (core s, orders s L)"
proof -
  have pool: "pool_inv poolBlock (order_pool s)" and dist: "distinct L" and ix: "index_inv (index s)"
    and size: "oi_size (index s) = length L" and dom: "set L = dom (live (mem s))"
    and bk: "\<And>l. book_rel (live (mem s)) (at_locate (mem s) l L) (books s l)"
    using rep by (simp_all add: builder_rep_def)
  obtain a p1 where acq: "acquire poolBlock blankOrder (order_pool s) = Some (a, p1)" "pool_inv poolBlock p1"
    "live (mem s) a = None" "objects p1 = (live (mem s))(a \<mapsto> blankOrder)"
    using block_pool.acq_law [OF pool, of blankOrder] by blast
  let ?x = "\<lparr>o_ref = r, o_price = p, o_shares = n, o_locate = l, o_side = sd, o_prev = None, o_next = None\<rparr>"
  define p2 where "p2 = p1\<lparr>p_mem := (p_mem p1)(a \<mapsto> Live ?x)\<rparr>"
  have mod: "modify (Some a) (\<lambda>x. x\<lparr>o_ref := r, o_price := p, o_shares := n, o_locate := l, o_side := sd\<rparr>) (p_mem p1)
      = Some (p_mem p2)" using acq(4) by (simp add: modify_def p2_def blankOrder_def)
  have live2: "objects p2 = (live (mem s))(a \<mapsto> ?x)" by (simp add: p2_def acq(4))
  have pool2: "pool_inv poolBlock p2" unfolding p2_def by (rule modify_inv [OF acq(2)]) (simp add: acq(4))
  have p2: "p1\<lparr>p_mem := p_mem p2\<rparr> = p2" by (simp add: p2_def)
  have aL: "a \<notin> set L" using acq(3) dom by auto
  let ?new = "r \<noteq> kEmpty \<and> index_map (index s) r = None"
  have size61: "oi_size (index s) < 2 ^ 61" using few size by simp
  obtain ix' where ins: "oi_tryInsert r (Some a) (index s) = Some (?new, ix')" "index_inv ix'"
    "index_map ix' = (if ?new then (index_map (index s))(r \<mapsto> Some a) else index_map (index s))"
    "oi_size ix' = oi_size (index s) + (if ?new then 1 else 0)"
    using oi.ins_law [OF ix size61, of r "Some a"] by blast
  have fresh: "\<not> (r = kEmpty \<or> r \<in> o_ref ` set (orders s L)) \<longleftrightarrow> ?new" using orders_refs [OF rep] by simp
  show ?thesis
  proof (cases ?new)
    case False
    obtain p3 where p3: "release a p2 = Some p3" "pool_inv poolBlock p3" "objects p3 = (objects p2)(a := None)"
      using block_pool.rel_law [OF pool2, of a ?x] by (auto simp: live2)
    have live3: "objects p3 = live (mem s)" using acq(3) by (simp add: p3(3) live2 fun_upd_idem)
    let ?s = "with_core (count_stat (\<lambda>st. st\<lparr>duplicateRefs := duplicateRefs st + 1\<rparr>)) (s\<lparr>order_pool := p3, index := ix'\<rparr>)"
    have "addOrder l ts r sd n p s = Some ?s"
      using False acq(1) mod ins(1) p3(1) by (auto simp: addOrder_def p2 with_core_def)
    moreover have at: "at_locate (p_mem p3) l' L = at_locate (mem s) l' L" for l'
      by (simp add: at_locate_def live3)
    have "builder_rep ?s L"
      using rep p3(2) ins False unfolding builder_rep_def rep_core(4-7) by (simp add: live3 at with_core_def)
    moreover have "orders ?s L = orders s L" by (simp add: orders_def payloads_def live3)
    moreover have "r = kEmpty \<or> r \<in> o_ref ` set (orders s L)" using False fresh by blast
    ultimately show ?thesis by (intro exI [of _ ?s] exI [of _ L]) simp
  next
    case True
    let ?m1 = "p_mem p2" and ?L = "L @ [a]"
    have pay1: "payloads ?m1 c = (if c = a then Some ?x else payloads (mem s) c)" for c
      by (simp add: payloads_def live2 payload_def)
    have at1: "at_locate ?m1 l' L = at_locate (mem s) l' L" for l'
      unfolding at_locate_def live2 using aL by (intro filter_cong) auto
    have rel1: "book_rel (live ?m1) (at_locate ?m1 l' L) (books s l')" for l'
      using bk [of l'] aL unfolding at1 live2 by (subst book_rel_cong) (auto simp: set_at_locate)
    have al: "a \<notin> set (at_locate ?m1 l L)" using aL by (simp add: set_at_locate)
    obtain b m where add: "l3_add (Some a) (books s l) ?m1 = Some (depth_of (live ?m1) (at_locate ?m1 l L) sd p, b, m)"
      "book_rel (live m) (at_locate ?m1 l L @ [a]) b" "relinked (insert a (set (at_locate ?m1 l L))) ?m1 m"
      using l3.add_law [OF rel1 _ al, of ?x] by (auto simp: live2)
    have sp: "map_option payload (live m c) = map_option payload (live ?m1 c)" for c
      by (rule relinked_live [OF add(3)])
    have at: "at_locate m l' ?L = at_locate ?m1 l' L @ (if l' = l then [a] else [])" for l'
    proof -
      have "at_locate m l' ?L = at_locate ?m1 l' ?L" by (rule at_locate_payload) (rule sp)
      then show ?thesis by (simp add: at_locate_append) (simp add: live2)
    qed
    define k where "k = (countLive \<circ> recordDepth (spec_depth (orders s L) l sd p)) (core s)"
    define s1 where "s1 = s\<lparr>index := ix', books := (books s)(l := b), order_pool := p1\<lparr>p_mem := m\<rparr>, core := k\<rparr>"
    have orders1: "orders s1 ?L = orders s L @ [?x]"
    proof -
      have "payloads m c = payloads ?m1 c" for c by (simp add: payloads_def sp)
      then show ?thesis using aL by (auto simp: orders_def s1_def pay1)
    qed
    have depth: "depth_of (live ?m1) (at_locate ?m1 l L) sd p = spec_depth (orders s L) l sd p"
    proof -
      have "set L \<subseteq> dom (live ?m1)" using dom by (auto simp: live2)
      from depth_of_orders [OF this] have "depth_of (live ?m1) (at_locate ?m1 l L) sd p
          = spec_depth (map (\<lambda>c. the (payloads ?m1 c)) L) l sd p" .
      moreover have "map (\<lambda>c. the (payloads ?m1 c)) L = orders s L" using aL by (auto simp: orders_def pay1)
      ultimately show ?thesis by simp
    qed
    have rep1: "builder_rep s1 ?L"
    proof -
      have "book_rel (live m) (at_locate m l' ?L) (books s1 l')" for l'
      proof (cases "l' = l")
        case True
        then show ?thesis using add(2) by (simp add: at s1_def)
      next
        case False
        have "book_rel (live ?m1) (at_locate ?m1 l' ?L) (books s l')"
          using rel1 [of l'] False by (simp add: at_locate_append) (simp add: live2)
        from other_books [OF this False add(3)] show ?thesis
          using False by (auto simp: s1_def set_at_locate live2)
      qed
      moreover have "pool_inv poolBlock (p1\<lparr>p_mem := m\<rparr>)"
        using relinked_pool_inv [OF pool2 add(3)] by (simp add: p2_def)
      moreover have "set ?L = dom (live m)"
      proof -
        have "live m c \<noteq> None \<longleftrightarrow> live ?m1 c \<noteq> None" for c
          using sp [of c] by (cases "live m c"; cases "live ?m1 c") auto
        then have "dom (live m) = dom (live ?m1)" by auto
        then show ?thesis by (simp add: live2 dom)
      qed
      moreover have "index_map ix' r' = Some q \<longleftrightarrow> (\<exists>c x. q = Some c \<and> live m c = Some x \<and> o_ref x = r')" for r' q
      proof -
        have "(\<exists>c x. q = Some c \<and> live m c = Some x \<and> o_ref x = r')
            \<longleftrightarrow> (\<exists>c x. q = Some c \<and> live ?m1 c = Some x \<and> o_ref x = r')"
          using payload_ref [OF sp] by metis
        also have "\<dots> \<longleftrightarrow> (if q = Some a then r' = r else index_map (index s) r' = Some q)"
          unfolding rep_index [OF rep] live2 by (cases q) auto
        also have "\<dots> \<longleftrightarrow> index_map ix' r' = Some q"
        proof -
          have "index_map (index s) r' \<noteq> Some (Some a)" using acq(3) by (simp add: rep_index [OF rep])
          then show ?thesis using True ins(3) by auto
        qed
        finally show ?thesis by simp
      qed
      ultimately show ?thesis
        unfolding builder_rep_def using ins(2,4) True dist aL size by (simp add: s1_def)
    qed
    have crossed: "crossed b \<longleftrightarrow> book_crossed (orders s L @ [?x]) l"
    proof -
      have "book_rel (live m) (at_locate m l ?L) b" using add(2) by (simp add: at)
      from book_shows(3) [OF this] crossed_of_orders [of ?L m l] rep_dom [OF rep1]
      show ?thesis unfolding orders1 [symmetric] by (simp add: orders_def s1_def)
    qed
    let ?s = "if marketOpen k \<and> crossed b then with_core (noteCrossed l ts) s1 else s1"
    have "addOrder l ts r sd n p s = Some ?s"
      using True acq(1) mod ins(1) add(1)
      by (simp add: addOrder_def p2 Let_def set_mem_def with_core_def s1_def k_def depth)
    moreover have "builder_rep ?s ?L" "orders ?s ?L = orders s L @ [?x]" using rep1 orders1 by simp_all
    moreover have "core ?s = (if marketOpen k \<and> crossed b then noteCrossed l ts k else k)" by (simp add: s1_def)
    moreover have "\<not> (r = kEmpty \<or> r \<in> o_ref ` set (orders s L))" using True fresh by blast
    ultimately show ?thesis
      by (intro exI [of _ ?s] exI [of _ ?L]) (simp add: Let_def k_def crossed)
  qed
qed

section \<open>The refinement\<close>

text \<open>\<open>g\<close> does to the builder \<open>s\<close> with orders \<open>L\<close> what \<open>f\<close> does to the specification.\<close>

definition refines :: "('l builder \<Rightarrow> 'l builder option) \<Rightarrow> ('l spec_state \<Rightarrow> 'l spec_state)
    \<Rightarrow> 'l builder \<Rightarrow> addr list \<Rightarrow> bool" where
  "refines g f s L \<longleftrightarrow> (\<exists>s' L'. g s = Some s' \<and> builder_rep s' L' \<and> length L' \<le> Suc (length L)
     \<and> (core s', orders s' L') = f (core s, orders s L))"

lemma refinesI:
  "g s = Some s' \<Longrightarrow> builder_rep s' L' \<Longrightarrow> length L' \<le> Suc (length L) \<Longrightarrow>
     (core s', orders s' L') = f (core s, orders s L) \<Longrightarrow> refines g f s L"
  unfolding refines_def by blast

lemma vec_back_map: "vec_back (map f xs) = map_option f (vec_back xs)"
  by (simp add: vec_back_def last_map)

lemma rep_levels:
  assumes "builder_rep s L"
  shows "map level_view (sideOf (books s l) sd) = book_levels (orders s L) l sd"
proof -
  have "book_rel (live (mem s)) (at_locate (mem s) l L) (books s l)" using assms by (simp add: builder_rep_def)
  from book_shows(1) [OF this] levels_of_orders [OF rep_dom [OF assms]] show ?thesis
    by (simp add: orders_def)
qed

lemma topOf_law:
  assumes "builder_rep s L"
  shows "topOf l ts s = spec_top l ts (orders s L)"
proof -
  have "vec_back (book_levels (orders s L) l Bid) = map_option level_view (bestBid (books s l))"
    "vec_back (book_levels (orders s L) l Ask) = map_option level_view (bestAsk (books s l))"
    using rep_levels [OF assms, of l Bid, symmetric] rep_levels [OF assms, of l Ask, symmetric]
    by (simp_all add: vec_back_map bestBid_def bestAsk_def)
  then show ?thesis
    by (simp add: topOf_def spec_top_def level_view_def Let_def split: option.split)
qed

lemma change_refines:
  assumes rep: "builder_rep s L" and r: "refines g f s L"
  shows "refines (changeBook lsn l ts g) (spec_change lsn l ts f) s L"
proof -
  obtain s' L' where s': "g s = Some s'" "builder_rep s' L'" "length L' \<le> Suc (length L)"
    "(core s', orders s' L') = f (core s, orders s L)" using r unfolding refines_def by blast
  show ?thesis
  proof (cases lsn)
    case None
    then show ?thesis using s' by (intro refinesI [of _ s s' L']) (simp_all add: changeBook_def spec_change_def)
  next
    case (Some onTop)
    let ?moved = "top_moved (topOf l ts s) (topOf l ts s')"
    let ?s = "if ?moved then with_core (tell onTop (topOf l ts s')) s' else s'"
    have "changeBook lsn l ts g s = Some ?s" using s'(1) by (simp add: changeBook_def Some Let_def)
    moreover have "builder_rep ?s L'" using s'(2) by simp
    moreover have "(core ?s, orders ?s L') = spec_change lsn l ts f (core s, orders s L)"
      using s'(4) by (simp add: spec_change_def Some Let_def topOf_law [OF rep] topOf_law [OF s'(2)]
          flip: s'(4))
    ultimately show ?thesis using s'(3) by (intro refinesI)
  qed
qed

lemma on_order_refines:
  assumes rep: "builder_rep s L"
    and g: "\<And>a y. a \<in> set L \<Longrightarrow> live (mem s) a = Some y \<Longrightarrow> refines (g (Some a)) (f (payload y)) s L"
  shows "refines (\<lambda>s. do { (p, s) \<leftarrow> lookup r s; if p = None then Some s else g p s }) (spec_on_order r f) s L"
proof (cases "spec_find r (orders s L)")
  case None
  let ?s = "with_core (count_stat (\<lambda>st. st\<lparr>unknownRefs := unknownRefs st + 1\<rparr>)) s"
  have "lookup r s = Some (None, ?s)" using lookup_law [OF rep, of r] None by simp
  then show ?thesis using rep None by (intro refinesI [of _ s ?s L]) simp_all
next
  case (Some x)
  obtain a y where a: "a \<in> set L" "lookup r s = Some (Some a, s)" "live (mem s) a = Some y" "x = payload y"
    using lookup_law [OF rep, of r] Some by auto
  have "spec_on_order r f (core s, orders s L) = f (payload y) (core s, orders s L)"
    using Some a(4) by simp
  with g [OF a(1,3)] show ?thesis using a(2) unfolding refines_def by simp
qed

lemma core_refines: "refines g f (with_core c s) L \<Longrightarrow> refines (\<lambda>s. g (with_core c s)) (\<lambda>st. f (map_core c st)) s L"
  by (simp add: refines_def map_core_def)

text \<open>The changes an event makes to an order it found.\<close>

lemma take_refines:
  "builder_rep s L \<Longrightarrow> a \<in> set L \<Longrightarrow> live (mem s) a = Some y \<Longrightarrow> length L \<le> 2 ^ 32 \<Longrightarrow>
     refines (take_order (Some a) n) (spec_take (payload y) n) s L"
  using take_law [of s L a y n] unfolding refines_def by (metis le_SucI)

lemma remove_refines:
  "builder_rep s L \<Longrightarrow> a \<in> set L \<Longrightarrow> live (mem s) a = Some y \<Longrightarrow> length L \<le> 2 ^ 32 \<Longrightarrow>
     refines (removeOrder (Some a)) (spec_remove (payload y)) s L"
  using removeOrder_law [of s L a y] length_filter_le unfolding refines_def by (metis le_SucI)

lemma replace_refines:
  assumes rep: "builder_rep s L" and a: "a \<in> set L" "live (mem s) a = Some y" and few: "length L \<le> 2 ^ 32"
  shows "refines (\<lambda>s. do { s \<leftarrow> removeOrder (Some a) s; addOrder l ts r sd n p s })
    (\<lambda>st. spec_add l ts r sd n p (spec_remove (payload y) st)) s L"
proof -
  let ?L = "filter (\<lambda>c. c \<noteq> a) L"
  obtain s1 where s1: "removeOrder (Some a) s = Some s1" "builder_rep s1 ?L"
    "(core s1, orders s1 ?L) = spec_remove (payload y) (core s, orders s L)"
    using removeOrder_law [OF rep a few] by blast
  have len: "length ?L \<le> length L" by (rule length_filter_le)
  then have "length ?L < 2 ^ 61" using few by (rule le_less_trans [OF le_trans]) simp
  from addOrder_law [OF s1(2) this] obtain s2 L2 where s2: "addOrder l ts r sd n p s1 = Some s2"
    "builder_rep s2 L2" "length L2 \<le> Suc (length ?L)"
    "(core s2, orders s2 L2) = spec_add l ts r sd n p (core s1, orders s1 ?L)" by blast
  from s2(3) len have "length L2 \<le> Suc (length L)" by (meson Suc_le_mono le_trans)
  with s1 s2 show ?thesis by (intro refinesI [of _ s s2 L2]) simp_all
qed

text \<open>The shape of the handlers that look an order up.\<close>

lemma found_refines:
  assumes rep: "builder_rep s L"
    and h: "h = (\<lambda>s. do { (p, s) \<leftarrow> lookup r (with_core c s); if p = None then Some s
        else do { x \<leftarrow> deref (mem s) p; g p x s } })"
    and sp: "sp = (\<lambda>st. spec_on_order r f (map_core c st))"
    and g: "\<And>a y s. builder_rep s L \<Longrightarrow> a \<in> set L \<Longrightarrow> live (mem s) a = Some y \<Longrightarrow>
        refines (g (Some a) y) (f (payload y)) s L"
  shows "refines h sp s L"
  unfolding h sp
proof (rule core_refines [of "\<lambda>s. do { (p, s) \<leftarrow> lookup r s; if p = None then Some s
    else do { x \<leftarrow> deref (mem s) p; g p x s } }"], rule on_order_refines)
  show rep': "builder_rep (with_core c s) L" using rep by simp
  fix a y
  assume a: "a \<in> set L" "live (mem (with_core c s)) a = Some y"
  from g [OF rep' this] a(2)
  show "refines (\<lambda>s. do { x \<leftarrow> deref (mem s) (Some a); g (Some a) x s }) (f (payload y)) (with_core c s) L"
    by (simp add: refines_def)
qed

lemma change_core_refines:
  assumes "builder_rep s L" "refines g f (with_core c s) L"
  shows "refines (\<lambda>s. changeBook lsn l ts g (with_core c s)) (\<lambda>st. spec_change lsn l ts f (map_core c st)) s L"
  using change_refines [of "with_core c s" L g f] assms by (intro core_refines) simp

lemma handle_refines:
  assumes rep: "builder_rep s L" and few: "length L \<le> 2 ^ 32"
  shows "refines (handle (builder_handler lsn) e) (spec_event lsn e) s L"
proof (cases e)
  case (EvAdd l ts m)
  have "length L < 2 ^ 61" using few by (rule le_less_trans) simp
  then have "refines (addOrder l ts r sd n p) (spec_add l ts r sd n p) (with_core c s) L" for r sd n p c
    using addOrder_law [of "with_core c s" L l ts r sd n p] rep unfolding refines_def by simp
  moreover have "handle (builder_handler lsn) e = builder_onAdd lsn l ts m"
    by (rule ext) (simp add: EvAdd builder_handler_def)
  moreover have "spec_event lsn e = (\<lambda>st. spec_change lsn l ts
       (spec_add l ts (ao_ref m) (side_of_char (ao_side m)) (ao_shares m) (ao_price m))
       (map_core (count_stat (\<lambda>st. st\<lparr>adds := adds st + 1\<rparr>)) st))"
    by (rule ext) (simp add: EvAdd)
  ultimately show ?thesis
    unfolding builder_onAdd_def using change_core_refines [OF rep] by simp
next
  case (EvExecuted l ts m)
  show ?thesis
  proof (rule found_refines [OF rep])
    show "handle (builder_handler lsn) e = (\<lambda>s. do {
        (p, s) \<leftarrow> lookup (oe_ref m) (with_core (count_stat (\<lambda>st. st\<lparr>executions := executions st + 1\<rparr>)) s);
        if p = None then Some s else do { x \<leftarrow> deref (mem s) p;
          changeBook lsn (o_locate x) ts (take_order p (oe_shares m))
            (with_core (\<lambda>k. k\<lparr>lastPrice := (lastPrice k)(o_locate x := o_price x)\<rparr>) s) } })"
      by (rule ext) (simp add: EvExecuted builder_handler_def builder_onExecuted_def Let_def cong: if_cong)
    show "spec_event lsn e = (\<lambda>st. spec_on_order (oe_ref m)
        (\<lambda>x st. spec_change lsn (o_locate x) ts (spec_take x (oe_shares m))
          (map_core (\<lambda>k. k\<lparr>lastPrice := (lastPrice k)(o_locate x := o_price x)\<rparr>) st))
        (map_core (count_stat (\<lambda>st. st\<lparr>executions := executions st + 1\<rparr>)) st))"
      by (rule ext) (simp add: EvExecuted)
  qed (simp only: payload_sel, rule change_core_refines, assumption, rule take_refines, simp_all add: few [simplified])
next
  case (EvExecutedWithPrice l ts m)
  show ?thesis
  proof (rule found_refines [OF rep])
    let ?c = "\<lambda>x. if oewp_printable m = CHR ''Y''
       then (\<lambda>k. k\<lparr>lastPrice := (lastPrice k)(o_locate x := oewp_price m)\<rparr>) else (\<lambda>k. k)"
    have id: "with_core (\<lambda>k. k) s = s" "map_core (\<lambda>k. k) st = st" for s :: "'a builder" and st :: "'a spec_state"
      by (simp_all add: with_core_def map_core_def)
    show "handle (builder_handler lsn) e = (\<lambda>s. do {
        (p, s) \<leftarrow> lookup (oewp_ref m) (with_core (count_stat (\<lambda>st. st\<lparr>executions := executions st + 1\<rparr>)) s);
        if p = None then Some s else do { x \<leftarrow> deref (mem s) p;
          changeBook lsn (o_locate x) ts (take_order p (oewp_shares m)) (with_core (?c x) s) } })"
      by (rule ext, cases "oewp_printable m = CHR ''Y''")
        (simp_all add: EvExecutedWithPrice builder_handler_def builder_onExecutedWithPrice_def id Let_def cong: if_cong)
    show "spec_event lsn e = (\<lambda>st. spec_on_order (oewp_ref m)
        (\<lambda>x st. spec_change lsn (o_locate x) ts (spec_take x (oewp_shares m)) (map_core (?c x) st))
        (map_core (count_stat (\<lambda>st. st\<lparr>executions := executions st + 1\<rparr>)) st))"
      by (rule ext, cases "oewp_printable m = CHR ''Y''") (simp_all add: EvExecutedWithPrice id)
  qed (simp only: payload_sel, rule change_core_refines, assumption, rule take_refines, simp_all add: few [simplified])
next
  case (EvCancel l ts m)
  show ?thesis
  proof (rule found_refines [OF rep])
    show "handle (builder_handler lsn) e = (\<lambda>s. do {
        (p, s) \<leftarrow> lookup (oc_ref m) (with_core (count_stat (\<lambda>st. st\<lparr>cancels := cancels st + 1\<rparr>)) s);
        if p = None then Some s else do { x \<leftarrow> deref (mem s) p;
          changeBook lsn (o_locate x) ts (take_order p (oc_shares m)) s } })"
      by (rule ext) (simp add: EvCancel builder_handler_def builder_onCancel_def)
    show "spec_event lsn e = (\<lambda>st. spec_on_order (oc_ref m)
        (\<lambda>x. spec_change lsn (o_locate x) ts (spec_take x (oc_shares m)))
        (map_core (count_stat (\<lambda>st. st\<lparr>cancels := cancels st + 1\<rparr>)) st))"
      by (rule ext) (simp add: EvCancel)
  qed (simp only: payload_sel, rule change_refines, assumption, rule take_refines, simp_all add: few [simplified])
next
  case (EvDelete l ts m)
  show ?thesis
  proof (rule found_refines [OF rep])
    show "handle (builder_handler lsn) e = (\<lambda>s. do {
        (p, s) \<leftarrow> lookup (od_ref m) (with_core (count_stat (\<lambda>st. st\<lparr>deletes := deletes st + 1\<rparr>)) s);
        if p = None then Some s else do { x \<leftarrow> deref (mem s) p;
          changeBook lsn (o_locate x) ts (removeOrder p) s } })"
      by (rule ext) (simp add: EvDelete builder_handler_def builder_onDelete_def)
    show "spec_event lsn e = (\<lambda>st. spec_on_order (od_ref m)
        (\<lambda>x. spec_change lsn (o_locate x) ts (spec_remove x))
        (map_core (count_stat (\<lambda>st. st\<lparr>deletes := deletes st + 1\<rparr>)) st))"
      by (rule ext) (simp add: EvDelete)
  qed (simp only: payload_sel, rule change_refines, assumption, rule remove_refines, simp_all add: few [simplified])
next
  case (EvReplace l ts m)
  show ?thesis
  proof (rule found_refines [OF rep])
    show "handle (builder_handler lsn) e = (\<lambda>s. do {
        (p, s) \<leftarrow> lookup (or_oldRef m) (with_core (count_stat (\<lambda>st. st\<lparr>replaces := replaces st + 1\<rparr>)) s);
        if p = None then Some s else do { x \<leftarrow> deref (mem s) p;
          changeBook lsn (o_locate x) ts
            (\<lambda>s. do { s \<leftarrow> removeOrder p s;
               addOrder (o_locate x) ts (or_newRef m) (o_side x) (or_shares m) (or_price m) s }) s } })"
      by (rule ext) (simp add: EvReplace builder_handler_def builder_onReplace_def Let_def cong: if_cong)
    show "spec_event lsn e = (\<lambda>st. spec_on_order (or_oldRef m)
        (\<lambda>x. spec_change lsn (o_locate x) ts
          (\<lambda>st. spec_add (o_locate x) ts (or_newRef m) (o_side x) (or_shares m) (or_price m) (spec_remove x st)))
        (map_core (count_stat (\<lambda>st. st\<lparr>replaces := replaces st + 1\<rparr>)) st))"
      by (rule ext) (simp add: EvReplace)
  qed (simp only: payload_sel, rule change_refines, assumption, rule replace_refines, simp_all add: few [simplified])
qed (use rep in \<open>simp add: builder_handler_def refines_def map_core_def; (intro exI conjI; (assumption | simp))\<close>)+

section \<open>Runs\<close>

fun handle_all :: "'h itch_handler \<Rightarrow> itch_event list \<Rightarrow> 'h \<Rightarrow> 'h option" where
  "handle_all H [] h = Some h"
| "handle_all H (e # es) h = do { h \<leftarrow> handle H e h; handle_all H es h }"

fun spec_run_events :: "'l on_top \<Rightarrow> itch_event list \<Rightarrow> 'l spec_state \<Rightarrow> 'l spec_state" where
  "spec_run_events lsn [] st = st"
| "spec_run_events lsn (e # es) st = spec_run_events lsn es (spec_event lsn e st)"

lemma new_builder_rep:
  assumes "n \<le> 2 ^ 61"
  shows "\<exists>s. builder_new n l = Some s \<and> builder_rep s [] \<and> core s = new_core l"
proof -
  obtain ix :: "ptr order_index" where ix: "oi_new n = Some ix" "index_inv ix" "index_map ix = Map.empty"
    "oi_size ix = 0" using oi_new_map [OF assms] by blast
  have "pool_inv poolBlock (pool_new poolBlock :: book_order pool)"
    "objects (pool_new poolBlock) = (Map.empty :: addr \<rightharpoonup> book_order)"
    by (rule pool_new_inv; simp add: poolBlock_def)+
  then have "builder_rep \<lparr>books = (\<lambda>_. emptyBook), order_pool = pool_new poolBlock, index = ix, core = new_core l\<rparr> []"
    using ix by (simp add: builder_rep_def at_locate_def emptyBook_rel)
  then show ?thesis using ix(1) by (simp add: builder_new_def)
qed

lemma builder_run_refines:
  assumes "builder_rep s L" "length L + length es \<le> 2 ^ 32"
  shows "\<exists>s' L'. handle_all (builder_handler lsn) es s = Some s' \<and> builder_rep s' L'
    \<and> (core s', orders s' L') = spec_run_events lsn es (core s, orders s L)
    \<and> length L' \<le> length L + length es"
  using assms
proof (induction es arbitrary: s L)
  case Nil
  then show ?case by auto
next
  case (Cons e es)
  have "length L \<le> 2 ^ 32" using Cons.prems(2) by simp
  from handle_refines [OF Cons.prems(1) this, of lsn e] obtain s1 L1 where s1:
    "handle (builder_handler lsn) e s = Some s1" "builder_rep s1 L1" "length L1 \<le> Suc (length L)"
    "(core s1, orders s1 L1) = spec_event lsn e (core s, orders s L)" unfolding refines_def by blast
  have "length L1 + length es \<le> 2 ^ 32" using s1(3) Cons.prems(2) by simp
  from Cons.IH [OF s1(2) this] s1 show ?case by fastforce
qed

text \<open>The builder as a client of \<open>dispatch\<close>: defined on any message while it can still take
  orders.\<close>

definition builder_ok :: "nat \<Rightarrow> 'l builder \<Rightarrow> bool" where
  "builder_ok n s \<longleftrightarrow> (\<exists>L. builder_rep s L \<and> length L + n \<le> 2 ^ 32)"

interpretation bb: itch_client "builder_handler lsn" builder_ok for lsn :: "'l on_top"
proof unfold_locales
  fix n and s :: "'l builder" and e
  assume "builder_ok (Suc n) s"
  then obtain L where L: "builder_rep s L" "length L + Suc n \<le> 2 ^ 32" by (auto simp: builder_ok_def)
  then have "length L \<le> 2 ^ 32" by simp
  from handle_refines [OF L(1) this, of lsn e] obtain s1 L1 where
    "handle (builder_handler lsn) e s = Some s1" "builder_rep s1 L1" "length L1 \<le> Suc (length L)"
    unfolding refines_def by blast
  then show "\<exists>h'. handle (builder_handler lsn) e s = Some h' \<and> builder_ok n h'"
    using L(2) unfolding builder_ok_def by (metis Suc_le_mono add_Suc_right add_Suc add_le_mono1 le_trans)
next
  fix n and s :: "'l builder"
  assume "builder_ok (Suc n) s"
  then show "builder_ok n s" unfolding builder_ok_def by (metis Suc_leD add_Suc_right)
qed

lemma rep_queues:
  assumes "builder_rep s L"
  shows "map (\<lambda>lv. map_option (map (\<lambda>a. the (payloads (mem s) a))) (walk (mem s) (l_head lv))) (sideOf (books s l) sd)
    = map (\<lambda>p. Some (queue_of (orders s L) l sd p)) (book_prices (orders s L) l sd)"
proof -
  have "book_rel (live (mem s)) (at_locate (mem s) l L) (books s l)" using assms by (simp add: builder_rep_def)
  from book_shows(2) [OF this, of sd]
  have "map (map_option (map (\<lambda>a. the (payloads (mem s) a))) \<circ> (\<lambda>lv. walk (mem s) (l_head lv))) (sideOf (books s l) sd)
    = map (map_option (map (\<lambda>a. the (payloads (mem s) a))) \<circ> (\<lambda>p. Some (qaddr (payloads (mem s)) sd p (at_locate (mem s) l L))))
        (price_list sd (o_price ` set (side_orders (payloads (mem s)) (at_locate (mem s) l L) sd)))"
    unfolding map_map [symmetric] by (rule arg_cong)
  then show ?thesis
    by (simp add: comp_def queue_of_orders [OF rep_dom [OF assms]] side_of_orders [OF rep_dom [OF assms]]
        book_prices_def orders_def)
qed

text \<open>C1. The book builder is correct. From a new builder, any sequence of up to \<open>2^32\<close> decoded
  events, valid or not, is handled without undefined behaviour: no null or dangling pointer, no
  slot outside the index, no endless probe, no failed assertion, no destroyed order used. Its
  statistics, last prices, trading states, crossed counts and notifications are those of
  the specification, which knows only the list of live orders; and for every instrument and
  side the book shows exactly the specification's levels, each level's linked list holding its
  orders first come first.\<close>

theorem builder_correct:
  assumes "n \<le> 2 ^ 61" and "length es \<le> 2 ^ 32"
  shows "\<exists>s s'. builder_new n l = Some s \<and> handle_all (builder_handler lsn) es s = Some s'
    \<and> (let (k, B) = spec_run_events lsn es (new_core l, []) in
        core s' = k
        \<and> (\<forall>lc sd. map level_view (sideOf (books s' lc) sd) = book_levels B lc sd
            \<and> map (\<lambda>lv. map_option (map (\<lambda>a. the (payloads (mem s') a))) (walk (mem s') (l_head lv)))
                (sideOf (books s' lc) sd)
              = map (\<lambda>p. Some (queue_of B lc sd p)) (book_prices B lc sd)))"
proof -
  obtain s where s: "builder_new n l = Some s" "builder_rep s []" "core s = new_core l"
    using new_builder_rep [OF assms(1), of l] by (elim exE conjE)
  have "length ([] :: addr list) + length es \<le> 2 ^ 32" using assms(2) by simp
  from builder_run_refines [OF s(2) this, of lsn] obtain s' L' where s':
    "handle_all (builder_handler lsn) es s = Some s'" "builder_rep s' L'"
    "(core s', orders s' L') = spec_run_events lsn es (core s, orders s [])" by blast
  have "orders s [] = []" by (simp add: orders_def)
  with s'(3) have spec: "spec_run_events lsn es (new_core l, []) = (core s', orders s' L')" by (simp add: s(3))
  show ?thesis
    unfolding spec Let_def prod.case
    by (intro exI [of _ s] exI [of _ s'] conjI allI refl s(1) s'(1) rep_levels [OF s'(2)] rep_queues [OF s'(2)])
qed

definition demo_events :: "itch_event list" where
  "demo_events = [
     EvAdd 3 10 \<lparr>ao_ref = 1, ao_side = CHR ''B'', ao_shares = 100, ao_stock = ''ABC     '', ao_price = 50\<rparr>,
     EvAdd 3 11 \<lparr>ao_ref = 2, ao_side = CHR ''B'', ao_shares = 200, ao_stock = ''ABC     '', ao_price = 50\<rparr>,
     EvExecuted 3 12 \<lparr>oe_ref = 1, oe_shares = 40, oe_match = 9\<rparr>,
     EvDelete 3 13 \<lparr>od_ref = 7\<rparr>]"

lemma demo_spec: "snd (spec_run_events None demo_events (new_core (), [])) =
   [\<lparr>o_ref = 1, o_price = 50, o_shares = 60, o_locate = 3, o_side = Bid, o_prev = None, o_next = None\<rparr>,
    \<lparr>o_ref = 2, o_price = 50, o_shares = 200, o_locate = 3, o_side = Bid, o_prev = None, o_next = None\<rparr>]"
  by (simp add: demo_events_def spec_change_def map_core_def side_of_char_def kEmpty_def spec_find_def
      new_core_def Let_def)

lemma builder_correct_witness:
  "\<exists>s s'. builder_new 4 () = Some s \<and> handle_all (builder_handler None) demo_events s = Some s'
    \<and> map level_view (bids (books s' 3)) = [(50, 2, 260)]"
proof -
  let ?B = "snd (spec_run_events None demo_events (new_core (), []))"
  have "book_levels ?B 3 Bid = [(50, 2, 260)]" unfolding demo_spec
    by (simp add: book_levels_def book_prices_def side_of_book_def queue_of_def price_list_def)
  moreover have "(4::nat) \<le> 2 ^ 61" "length demo_events \<le> 2 ^ 32" by (simp_all add: demo_events_def)
  from builder_correct [OF this, of "()" None] obtain s s' where
    "builder_new 4 () = Some s" "handle_all (builder_handler None) demo_events s = Some s'"
    "map level_view (sideOf (books s' 3) Bid) = book_levels ?B 3 Bid"
    unfolding case_prod_beta Let_def by blast
  ultimately show ?thesis by auto
qed

text \<open>C16. No sequence of up to \<open>2^32\<close> byte strings, of any length and content, can make a new
  builder misbehave when it is fed to it through \<open>dispatch\<close>.\<close>

theorem builder_survives_any_bytes:
  assumes "n \<le> 2 ^ 61" and "length ms \<le> 2 ^ 32" and "builder_new n l = Some s"
  shows "\<exists>s'. dispatch_all (builder_handler lsn) ms s = Some s'"
proof -
  have "builder_ok (length ms + 0) s"
    using new_builder_rep [OF assms(1), of l] assms(2,3) by (auto simp: builder_ok_def)
  from bb.dispatch_all_ok [OF this, of lsn] show ?thesis by blast
qed

lemma builder_survives_any_bytes_witness:
  "\<exists>s s'. builder_new 4 () = Some s \<and> dispatch_all (builder_handler None) [[], [65, 1, 2], replicate 19 68] s = Some s'"
proof -
  obtain s where s: "builder_new 4 () = Some s" using new_builder_rep [of 4 "()"] by auto
  with builder_survives_any_bytes [of 4 "[[], [65, 1, 2], replicate 19 68]", OF _ _ s] show ?thesis by auto
qed

section \<open>Invariants of the specification\<close>

definition refs_ok :: "book_order list \<Rightarrow> bool" where
  "refs_ok B \<longleftrightarrow> distinct (map o_ref B) \<and> kEmpty \<notin> o_ref ` set B"

definition book_at :: "book_order list \<Rightarrow> u16 \<Rightarrow> book_order list" where
  "book_at B l = filter (\<lambda>x. o_locate x = l) B"

lemma core_parts [simp]:
  "listener (count_stat f k) = listener k" "marketOpen (count_stat f k) = marketOpen k"
  "stats (count_stat f k) = f (stats k)" "crossedWhileTrading (count_stat f k) = crossedWhileTrading k"
  "tradingState (count_stat f k) = tradingState k"
  "listener (recordDepth d k) = listener k" "listener (countLive k) = listener k"
  "listener (noteCrossed l ts k) = listener k"
  by (simp_all add: count_stat_def recordDepth_def countLive_def noteCrossed_def Let_def)

lemma live_parts [simp]:
  "liveOrders (stats (recordDepth d k)) = liveOrders (stats k)"
  "liveOrders (stats (countLive k)) = liveOrders (stats k) + 1"
  "liveOrders (stats (noteCrossed l ts k)) = liveOrders (stats k)"
  by (simp_all add: count_stat_def recordDepth_def countLive_def noteCrossed_def Let_def)

lemma map_core_simps [simp]: "snd (map_core f st) = snd st" "fst (map_core f st) = f (fst st)"
  by (simp_all add: map_core_def)

lemma snd_spec_change [simp]: "snd (spec_change lsn l ts f st) = snd (f st)"
  by (simp add: spec_change_def Let_def split: option.split)

lemma find_ref: "spec_find r B = Some x \<Longrightarrow> x \<in> set B \<and> o_ref x = r"
  by (auto simp: spec_find_def find_Some_iff)

text \<open>How the changes act on the orders: at one instrument, keeping references distinct.\<close>

definition local_change :: "u16 \<Rightarrow> ('l spec_state \<Rightarrow> 'l spec_state) \<Rightarrow> 'l spec_state \<Rightarrow> bool" where
  "local_change l f st \<longleftrightarrow> refs_ok (snd (f st)) \<and> listener (fst (f st)) = listener (fst st)
     \<and> liveOrders (stats (fst (f st))) - of_nat (length (snd (f st)))
         = liveOrders (stats (fst st)) - of_nat (length (snd st))
     \<and> (\<forall>l'. l' \<noteq> l \<longrightarrow> book_at (snd (f st)) l' = book_at (snd st) l')"

lemma same_ref: "refs_ok B \<Longrightarrow> x \<in> set B \<Longrightarrow> y \<in> set B \<Longrightarrow> o_ref y = o_ref x \<Longrightarrow> y = x"
  by (auto simp: refs_ok_def distinct_map inj_on_def)

lemma add_local: "refs_ok (snd st) \<Longrightarrow> local_change l (spec_add l ts r s n p) st"
  by (cases st) (auto simp: local_change_def refs_ok_def book_at_def Let_def)

lemma drop_ref_ok: "refs_ok B \<Longrightarrow> refs_ok (drop_ref r B)"
  by (auto simp: refs_ok_def drop_ref_def distinct_map_filter)

lemma length_drop_ref:
  assumes "refs_ok B" "x \<in> set B"
  shows "length B = Suc (length (drop_ref (o_ref x) B))"
proof -
  have "filter (\<lambda>y. o_ref y = o_ref x) B = [x]"
    using assms unfolding refs_ok_def by (induction B) (auto simp: filter_empty_conv image_iff)
  then show ?thesis
    using sum_length_filter_compl [of "\<lambda>y. o_ref y = o_ref x" B] by (simp add: drop_ref_def)
qed

lemma remove_local: "refs_ok (snd st) \<Longrightarrow> x \<in> set (snd st) \<Longrightarrow> local_change (o_locate x) (spec_remove x) st"
proof (cases st)
  case (Pair k B)
  assume ok: "refs_ok (snd st)" and x: "x \<in> set (snd st)"
  have "book_at (drop_ref (o_ref x) B) l' = book_at B l'" if "l' \<noteq> o_locate x" for l'
    unfolding book_at_def drop_ref_def filter_filter
    using same_ref [of B x] ok x that Pair by (intro filter_cong) auto
  moreover have "length B = Suc (length (drop_ref (o_ref x) B))"
    using length_drop_ref [of B x] ok x Pair by simp
  ultimately show ?thesis using ok drop_ref_ok Pair by (simp add: local_change_def)
qed

lemma take_local: "refs_ok (snd st) \<Longrightarrow> x \<in> set (snd st) \<Longrightarrow> local_change (o_locate x) (spec_take x n) st"
proof (cases st)
  case (Pair k B)
  assume ok: "refs_ok (snd st)" and x: "x \<in> set (snd st)"
  let ?g = "\<lambda>y. if o_ref y = o_ref x then y\<lparr>o_shares := o_shares y - n\<rparr> else y"
  show ?thesis
  proof (cases "o_shares x \<le> n")
    case True
    let ?k = "if o_shares x < n then count_stat (\<lambda>st. st\<lparr>overExecutions := overExecutions st + 1\<rparr>) k else k"
    have "local_change (o_locate x) (spec_remove x) (?k, B)" by (rule remove_local) (use ok x Pair in simp_all)
    then show ?thesis using True Pair by (simp add: local_change_def)
  next
    case False
    have eq: "map o_ref (map ?g B) = map o_ref B" by simp
    then have "refs_ok (map ?g B)"
      using ok Pair unfolding refs_ok_def set_map [symmetric] eq by simp
    moreover have "book_at (map ?g B) l' = book_at B l'" if "l' \<noteq> o_locate x" for l'
    proof -
      have "book_at (map ?g B) l' = map ?g (book_at B l')"
        unfolding book_at_def filter_map by (intro arg_cong [of _ _ "map ?g"] filter_cong) auto
      also have "\<dots> = book_at B l'"
        using same_ref [of B x] ok x that Pair by (intro map_idI) (auto simp: book_at_def)
      finally show ?thesis .
    qed
    ultimately show ?thesis using False Pair by (simp add: local_change_def recordDepth_def)
  qed
qed

lemma replace_local:
  assumes "refs_ok (snd st)" "x \<in> set (snd st)"
  shows "local_change (o_locate x) (\<lambda>st. spec_add (o_locate x) ts r s n p (spec_remove x st)) st"
proof -
  have rm: "local_change (o_locate x) (spec_remove x) st" by (rule remove_local [OF assms])
  then have "local_change (o_locate x) (spec_add (o_locate x) ts r s n p) (spec_remove x st)"
    by (intro add_local) (simp add: local_change_def)
  with rm show ?thesis unfolding local_change_def by auto
qed

text \<open>An induction principle for the specification: what every local change and every change of
  the core that leaves the listener alone preserves, every event preserves.\<close>

lemma event_induct:
  assumes st: "P st" "refs_ok (snd st)"
    and core: "\<And>f st. P st \<Longrightarrow> (\<And>k. listener (f k) = listener k \<and> liveOrders (stats (f k)) = liveOrders (stats k)) \<Longrightarrow>
      P (map_core f st)"
    and change: "\<And>l ts f st. P st \<Longrightarrow> refs_ok (snd st) \<Longrightarrow> local_change l f st \<Longrightarrow> P (spec_change lsn l ts f st)"
  shows "P (spec_event lsn e st) \<and> refs_ok (snd (spec_event lsn e st))"
proof -
  have both: "P (spec_change lsn l ts f st) \<and> refs_ok (snd (spec_change lsn l ts f st))"
    if "P st" "refs_ok (snd st)" "local_change l f st" for l ts f st
    using change that by (simp add: local_change_def)
  have found: "P (spec_on_order r f st) \<and> refs_ok (snd (spec_on_order r f st))"
    if "P st" "refs_ok (snd st)"
      and "\<And>x. x \<in> set (snd st) \<Longrightarrow> P (f x st) \<and> refs_ok (snd (f x st))" for r f and st :: "'a spec_state"
    using that core [OF that(1)] by (cases st) (auto simp: map_core_def dest: find_ref split: option.split)
  have k: "P (map_core f st)" "refs_ok (snd (map_core f st))" if "\<And>k. listener (f k) = listener k \<and> liveOrders (stats (f k)) = liveOrders (stats k)" for f
    using core [OF st(1) that] st(2) by auto
  have k2: "P (map_core f st')" if "P st'" "\<And>k. listener (f k) = listener k \<and> liveOrders (stats (f k)) = liveOrders (stats k)" for f st'
    by (rule core) (use that in auto)
  show ?thesis
  proof (cases e)
    case (EvAdd l ts m)
    then show ?thesis by (simp only: spec_event.simps, intro both k add_local) simp_all
  next
    case (EvExecuted l ts m)
    then show ?thesis
      by (simp, intro found k both) (simp_all add: k k2 take_local st(2))
  next
    case (EvExecutedWithPrice l ts m)
    then show ?thesis
      by (simp, intro found k both) (simp_all add: k k2 take_local st(2))
  next
    case (EvCancel l ts m)
    then show ?thesis by (simp, intro found k both) (simp_all add: k take_local st(2))
  next
    case (EvDelete l ts m)
    then show ?thesis by (simp, intro found k both) (simp_all add: k remove_local st(2))
  next
    case (EvReplace l ts m)
    then show ?thesis by (simp, intro found k both) (simp_all add: k replace_local st(2))
  qed (simp_all add: k st(2) core_onTrade_def core_onStockDirectory_def core_onSystemEvent_def
      core_onTradingAction_def Let_def)
qed

lemma refs_ok_run: "refs_ok (snd st) \<Longrightarrow> refs_ok (snd (spec_run_events lsn es st))"
proof (induction es arbitrary: st)
  case (Cons e es)
  then show ?case using event_induct [of "\<lambda>_. True" st lsn e] by simp
qed simp

section \<open>Notifications and accounting\<close>

text \<open>A listener that writes down what it hears; what it heard of one instrument, after the empty
  book it starts from.\<close>

definition top_recorder :: "top_of_book list on_top" where
  "top_recorder = Some (\<lambda>t log. log @ [t])"

definition heard :: "u16 \<Rightarrow> top_of_book list \<Rightarrow> top_of_book list" where
  "heard l log = spec_top l 0 [] # filter (\<lambda>t. t_locate t = l) log"

definition told :: "u16 \<Rightarrow> top_of_book list spec_state \<Rightarrow> bool" where
  "told l st \<longleftrightarrow> successively top_moved (heard l (listener (fst st)))
     \<and> (\<forall>ts. \<not> top_moved (last (heard l (listener (fst st)))) (spec_top l ts (snd st)))"

lemma top_moved_tuple: "top_moved a b \<longleftrightarrow>
  (t_bidPrice a, t_bidShares a, t_askPrice a, t_askShares a) \<noteq> (t_bidPrice b, t_bidShares b, t_askPrice b, t_askShares b)"
  by (auto simp: top_moved_def)

lemma top_moved_trans: "\<not> top_moved a b \<Longrightarrow> \<not> top_moved b c \<Longrightarrow> \<not> top_moved a c"
  "\<not> top_moved a b \<Longrightarrow> top_moved b c \<Longrightarrow> top_moved a c"
  by (simp_all add: top_moved_tuple)

lemma spec_top_locate [simp]: "t_locate (spec_top l ts B) = l"
  by (simp add: spec_top_def split: prod.split)

lemma spec_top_time: "\<not> top_moved (spec_top l ts B) (spec_top l ts' B)"
  by (simp add: spec_top_def top_moved_tuple split: prod.split)

lemma spec_top_cong:
  assumes "book_at B l = book_at B' l"
  shows "spec_top l ts B = spec_top l ts B'"
proof -
  have s: "side_of_book B l s = filter (\<lambda>x. o_side x = s) (book_at B l)" for B s
    by (simp add: side_of_book_def book_at_def conj_commute)
  have q: "queue_of B l s p = filter (\<lambda>x. o_side x = s \<and> o_price x = p) (book_at B l)" for B s p
    by (auto simp: queue_of_def book_at_def intro: filter_cong)
  show ?thesis by (simp add: spec_top_def book_levels_def book_prices_def s q assms)
qed

lemma heard_snoc: "heard l (log @ [t]) = heard l log @ (if t_locate t = l then [t] else [])"
  by (simp add: heard_def)

lemma told_change:
  assumes told: "told l st" and loc: "local_change l' f st"
  shows "told l (spec_change top_recorder l' ts f st)"
proof -
  let ?st = "f st" and ?old = "spec_top l' ts (snd st)" and ?new = "spec_top l' ts (snd (f st))"
  have same: "listener (fst ?st) = listener (fst st)" using loc by (simp add: local_change_def)
  have change: "spec_change top_recorder l' ts f st
      = (if top_moved ?old ?new then tell (\<lambda>t log. log @ [t]) ?new (fst ?st) else fst ?st, snd ?st)"
    by (simp add: spec_change_def top_recorder_def Let_def)
  let ?h = "heard l (listener (fst st))"
  have ne: "?h \<noteq> []" by (simp add: heard_def)
  show ?thesis
  proof (cases "l = l'")
    case False
    then have "book_at (snd ?st) l = book_at (snd st) l" using loc by (simp add: local_change_def)
    then have "spec_top l t (snd ?st) = spec_top l t (snd st)" for t by (rule spec_top_cong)
    then show ?thesis using told False by (simp add: told_def change tell_def same heard_snoc)
  next
    case True
    have h: "successively top_moved ?h" "\<not> top_moved (last ?h) ?old" using told True by (simp_all add: told_def)
    show ?thesis
    proof (cases "top_moved ?old ?new")
      case moved: True
      have "top_moved (last ?h) ?new" using top_moved_trans(2) [OF h(2) moved] .
      then have "successively top_moved (?h @ [?new])" using h(1) ne by (simp add: successively_append_iff)
      then show ?thesis using moved True by (simp add: told_def change tell_def same heard_snoc spec_top_time)
    next
      case still: False
      have "\<not> top_moved (last ?h) (spec_top l' t (snd ?st))" for t
        using top_moved_trans(1) [OF top_moved_trans(1) [OF h(2) still] spec_top_time] .
      then show ?thesis using still True h(1) by (simp add: told_def change same)
    qed
  qed
qed

lemma told_run:
  "told l st \<Longrightarrow> refs_ok (snd st) \<Longrightarrow> told l (spec_run_events top_recorder es st)"
proof (induction es arbitrary: st)
  case (Cons e es)
  have "told l (spec_event top_recorder e st) \<and> refs_ok (snd (spec_event top_recorder e st))"
    by (rule event_induct [where P = "told l", OF Cons.prems], simp add: told_def, rule told_change)
  with Cons.IH show ?case by simp
qed simp

definition counted :: "'l spec_state \<Rightarrow> bool" where
  "counted st \<longleftrightarrow> liveOrders (stats (fst st)) = of_nat (length (snd st))"

lemma counted_run:
  "counted st \<Longrightarrow> refs_ok (snd st) \<Longrightarrow> counted (spec_run_events lsn es st)"
proof (induction es arbitrary: st)
  case (Cons e es)
  have "counted (spec_event lsn e st) \<and> refs_ok (snd (spec_event lsn e st))"
  proof (rule event_induct [where P = counted, OF Cons.prems])
    fix l ts f and st :: "'a spec_state"
    assume c: "counted st" and "local_change l f st"
    then have "counted (f st)" by (simp add: counted_def local_change_def)
    then show "counted (spec_change lsn l ts f st)"
      by (simp add: counted_def spec_change_def Let_def tell_def split: option.split)
  qed (simp add: counted_def)
  with Cons.IH show ?case by simp
qed simp

lemma new_state_ok: "refs_ok (snd (new_core l, []))" "counted (new_core l, [])"
  by (simp_all add: refs_ok_def counted_def new_core_def zero_stats_def)

lemma builder_run:
  assumes "n \<le> 2 ^ 61" "length es \<le> 2 ^ 32" "builder_new n l = Some s"
    and "handle_all (builder_handler lsn) es s = Some s'"
  shows "\<exists>L. builder_rep s' L \<and> (core s', orders s' L) = spec_run_events lsn es (new_core l, [])
    \<and> length L \<le> 2 ^ 32"
proof -
  obtain s0 where s0: "builder_new n l = Some s0" "builder_rep s0 []" "core s0 = new_core l"
    using new_builder_rep [OF assms(1), of l] by (elim exE conjE)
  then have s: "builder_rep s []" "core s = new_core l" using assms(3) by simp_all
  have "length ([] :: addr list) + length es \<le> 2 ^ 32" using assms(2) by simp
  from builder_run_refines [OF s(1) this, of lsn] obtain s1 L where
    r: "handle_all (builder_handler lsn) es s = Some s1" "builder_rep s1 L"
      "(core s1, orders s1 L) = spec_run_events lsn es (core s, orders s [])"
      "length L \<le> length ([] :: addr list) + length es" by blast
  have "orders s [] = []" by (simp add: orders_def)
  moreover have "length L \<le> 2 ^ 32" using r(4) assms(2) by simp
  ultimately show ?thesis using r(1-3) assms(4) unfolding s(2) by auto
qed

text \<open>C20. What a listener hears. Whatever the events, and for every instrument: no two consecutive
  notifications show the same best bid and ask (price and size), the first does not show an
  empty book, and the last, or the empty book if there was none, is the book's current best bid
  and ask. So a listener that keeps the last notification always knows the top of every book.\<close>

theorem listener_hears_every_move:
  assumes "n \<le> 2 ^ 61" and "length es \<le> 2 ^ 32" and "builder_new n [] = Some s"
    and "handle_all (builder_handler top_recorder) es s = Some s'"
  shows "successively top_moved (heard l (listener (core s')))
    \<and> \<not> top_moved (last (heard l (listener (core s')))) (topOf l ts s')"
proof -
  obtain L where L: "builder_rep s' L" "(core s', orders s' L) = spec_run_events top_recorder es (new_core [], [])"
    using builder_run [OF assms] by blast
  have "told l (new_core [], [])" by (simp add: told_def heard_def new_core_def spec_top_time)
  from told_run [OF this new_state_ok(1)] have "told l (core s', orders s' L)" unfolding L(2) .
  then show ?thesis by (simp add: told_def topOf_law [OF L(1)])
qed

lemma listener_hears_every_move_witness:
  "\<exists>s s'. builder_new 4 [] = Some s \<and> handle_all (builder_handler top_recorder) demo_events s = Some s'
    \<and> successively top_moved (heard 3 (listener (core s')))
    \<and> \<not> top_moved (last (heard 3 (listener (core s')))) (topOf 3 20 s')"
proof -
  have n: "(4::nat) \<le> 2 ^ 61" and d: "length demo_events \<le> 2 ^ 32" by (simp_all add: demo_events_def)
  obtain s where s: "builder_new 4 ([] :: top_of_book list) = Some s" "builder_rep s []"
    using new_builder_rep [OF n, of "[] :: top_of_book list"] by (elim exE conjE)
  have "length ([] :: addr list) + length demo_events \<le> 2 ^ 32" using d by simp
  from builder_run_refines [OF s(2) this, of top_recorder] obtain s' where
    s': "handle_all (builder_handler top_recorder) demo_events s = Some s'" by blast
  show ?thesis using listener_hears_every_move [OF n d s(1) s'] s(1) s' by blast
qed

text \<open>The chain of a level holds exactly the live orders of its book, side and price.\<close>

lemma rep_chain:
  assumes rep: "builder_rep s L" and lv: "lv \<in> set (sideOf (books s l) sd)"
  shows "\<exists>as. walk (mem s) (l_head lv) = Some as \<and> distinct as
    \<and> set as = {a. \<exists>x. live (mem s) a = Some x \<and> o_locate x = l \<and> o_side x = sd \<and> o_price x = l_price lv}"
proof -
  let ?as = "qaddr (live (mem s)) sd (l_price lv) (at_locate (mem s) l L)"
  have "side_rel (live (mem s)) (at_locate (mem s) l L) sd (sideOf (books s l) sd)"
    using rep by (intro book_side) (simp add: builder_rep_def)
  then have "level_rel (live (mem s)) ?as lv" using lv by (simp add: side_rel_def)
  then have "walk (mem s) (l_head lv) = Some ?as" using dll_walk [of "mem s" None ?as] by (simp add: level_rel_def)
  moreover have "distinct ?as" using rep by (simp add: builder_rep_def qaddr_def at_locate_def)
  moreover have "set ?as = {a. \<exists>x. live (mem s) a = Some x \<and> o_locate x = l \<and> o_side x = sd \<and> o_price x = l_price lv}"
    unfolding set_qaddr set_at_locate using rep_live [OF rep] by auto
  ultimately show ?thesis by blast
qed

lemma rep_level:
  assumes rep: "builder_rep s L" and x: "live (mem s) a = Some x"
  shows "\<exists>lv \<in> set (sideOf (books s (o_locate x)) (o_side x)). l_price lv = o_price x"
proof -
  have "a \<in> set (qaddr (live (mem s)) (o_side x) (o_price x) (at_locate (mem s) (o_locate x) L))"
    using x rep_live [OF rep] by (auto simp: set_qaddr set_at_locate)
  moreover have "side_rel (live (mem s)) (at_locate (mem s) (o_locate x) L) (o_side x)
      (sideOf (books s (o_locate x)) (o_side x))"
    using rep by (intro book_side) (simp add: builder_rep_def)
  ultimately have "o_price x \<in> l_price ` set (sideOf (books s (o_locate x)) (o_side x))"
    unfolding side_rel_def by (metis (mono_tags, lifting) empty_iff list.set(1) mem_Collect_eq)
  then show ?thesis by force
qed

text \<open>C6. Nothing leaks and nothing is left out. After any events the count of live orders is exact: it
  is the number of objects live in the pool and the number of entries of the index. The chain of every
  level of every book, followed from its head, ends and holds, each once, exactly the live orders of that
  instrument, side and price; and every live order is found in the index at its own reference number and
  in the chain of a level of its book.\<close>

theorem live_orders_exact:
  assumes "n \<le> 2 ^ 61" and "length es < 2 ^ 32" and "builder_new n l = Some s"
    and "handle_all (builder_handler lsn) es s = Some s'"
  shows "unat (liveOrders (stats (core s'))) = card (dom (live (mem s')))
    \<and> oi_size (index s') = card (dom (live (mem s')))
    \<and> (\<forall>lc sd. \<forall>lv \<in> set (sideOf (books s' lc) sd). \<exists>as. walk (mem s') (l_head lv) = Some as \<and> distinct as
         \<and> set as = {a. \<exists>x. live (mem s') a = Some x \<and> o_locate x = lc \<and> o_side x = sd \<and> o_price x = l_price lv})
    \<and> (\<forall>a x. live (mem s') a = Some x \<longrightarrow>
         index_map (index s') (o_ref x) = Some (Some a)
         \<and> (\<exists>lv \<in> set (sideOf (books s' (o_locate x)) (o_side x)). \<exists>as. l_price lv = o_price x
              \<and> walk (mem s') (l_head lv) = Some as \<and> a \<in> set as))"
proof -
  have few: "length es \<le> 2 ^ 32" using assms(2) by simp
  obtain L where L: "builder_rep s' L" "(core s', orders s' L) = spec_run_events lsn es (new_core l, [])"
    "length L \<le> 2 ^ 32" using builder_run [OF assms(1) few assms(3,4)] by blast
  have "counted (core s', orders s' L)"
    unfolding L(2) by (rule counted_run [OF new_state_ok(2,1)])
  then have "liveOrders (stats (core s')) = of_nat (length L)" by (simp add: counted_def orders_def)
  moreover have "length L < 2 ^ 64" by (rule le_less_trans [OF L(3)]) simp
  ultimately have "unat (liveOrders (stats (core s'))) = length L" by simp
  moreover have "length L = card (dom (live (mem s')))"
    using L(1) distinct_card [of L] by (simp add: builder_rep_def)
  moreover have "\<exists>lv \<in> set (sideOf (books s' (o_locate x)) (o_side x)). \<exists>as. l_price lv = o_price x
      \<and> walk (mem s') (l_head lv) = Some as \<and> a \<in> set as" if x: "live (mem s') a = Some x" for a x
    using rep_level [OF L(1) x] rep_chain [OF L(1)] x by fastforce
  ultimately show ?thesis using L(1) rep_chain [OF L(1)] by (auto simp: rep_index [OF L(1)] builder_rep_def)
qed

lemma live_orders_exact_witness:
  "\<exists>s s' lv. builder_new 4 () = Some s \<and> handle_all (builder_handler None) demo_events s = Some s'
    \<and> unat (liveOrders (stats (core s'))) = card (dom (live (mem s')))
    \<and> bids (books s' 3) = [lv] \<and> (\<exists>as. walk (mem s') (l_head lv) = Some as \<and> distinct as
         \<and> set as = {a. \<exists>x. live (mem s') a = Some x \<and> o_locate x = 3 \<and> o_side x = Bid \<and> o_price x = l_price lv})"
proof -
  have n: "(4::nat) \<le> 2 ^ 61" and d: "length demo_events < 2 ^ 32" "length demo_events \<le> 2 ^ 32"
    by (simp_all add: demo_events_def)
  obtain s where s: "builder_new 4 () = Some s" "builder_rep s []" "core s = new_core ()"
    using new_builder_rep [OF n, of "()"] by (elim exE conjE)
  have "length ([] :: addr list) + length demo_events \<le> 2 ^ 32" using d(2) by simp
  from builder_run_refines [OF s(2) this, of None] obtain s' L' where
    s': "handle_all (builder_handler None) demo_events s = Some s'" "builder_rep s' L'"
      "(core s', orders s' L') = spec_run_events None demo_events (core s, orders s [])" by blast
  have "orders s' L' = snd (spec_run_events None demo_events (new_core (), []))"
    using s'(3) s(3) by (simp add: orders_def prod_eq_iff)
  then have "book_levels (orders s' L') 3 Bid = [(50, 2, 260)]" unfolding demo_spec
    by (simp add: book_levels_def book_prices_def side_of_book_def queue_of_def price_list_def)
  then have "map level_view (sideOf (books s' 3) Bid) = [(50, 2, 260)]" by (simp only: rep_levels [OF s'(2)])
  then obtain lv where lv: "sideOf (books s' 3) Bid = [lv]" by auto
  note all = live_orders_exact [OF n d(1) s(1) s'(1)]
  have "lv \<in> set (sideOf (books s' 3) Bid)" unfolding lv by simp
  then have "\<exists>as. walk (mem s') (l_head lv) = Some as \<and> distinct as
      \<and> set as = {a. \<exists>x. live (mem s') a = Some x \<and> o_locate x = 3 \<and> o_side x = Bid \<and> o_price x = l_price lv}"
    using conjunct1 [OF conjunct2 [OF conjunct2 [OF all]]] by blast
  then show ?thesis using conjunct1 [OF all] lv s(1) s'(1) by (intro exI [of _ s] exI [of _ s'] exI [of _ lv] conjI) simp_all
qed

section \<open>Symbols and reserved references\<close>

lemma find_upt: "List.find P [0..<n] = Some i \<longleftrightarrow> i < n \<and> P i \<and> (\<forall>j < i. \<not> P j)"
  by (auto simp: find_Some_iff)

lemma find_upt_None: "List.find P [0..<n] = None \<longleftrightarrow> (\<forall>i < n. \<not> P i)"
  by (auto simp: find_None_iff)

text \<open>\<open>locateOf\<close> returns the smallest locate code whose directory entry is the symbol, and
  \<open>-1\<close> exactly when no locate code has it.\<close>

theorem locateOf_first:
  "(locateOf symb s = -1 \<longleftrightarrow> symb \<notin> range (symbols (core s)))
   \<and> (locateOf symb s = int i \<longleftrightarrow> i < 65536 \<and> symbols (core s) (of_nat i) = symb
        \<and> symb \<notin> symbols (core s) ` of_nat ` {..<i})"
proof
  have range: "\<exists>i < 65536. w = of_nat i" for w :: u16
    using unat_u16_less [of w] by (intro exI [of _ "unat w"]) simp
  show "locateOf symb s = -1 \<longleftrightarrow> symb \<notin> range (symbols (core s))"
  proof (cases "List.find (\<lambda>i. symbols (core s) (of_nat i) = symb) [0..<kMaxLocates]")
    case None
    then have "symbols (core s) w \<noteq> symb" for w
      using range [of w] by (auto simp: find_upt_None kMaxLocates_def)
    with None show ?thesis by (auto simp: locateOf_def)
  next
    case (Some i)
    then have "symbols (core s) (of_nat i) = symb" by (simp add: find_upt)
    with Some show ?thesis by (auto simp: locateOf_def)
  qed
  show "locateOf symb s = int i \<longleftrightarrow> i < 65536 \<and> symbols (core s) (of_nat i) = symb
      \<and> symb \<notin> symbols (core s) ` of_nat ` {..<i}"
  proof -
    have "locateOf symb s = int i \<longleftrightarrow> List.find (\<lambda>i. symbols (core s) (of_nat i) = symb) [0..<kMaxLocates] = Some i"
      by (simp add: locateOf_def split: option.split)
    then show ?thesis unfolding find_upt by (auto simp: kMaxLocates_def)
  qed
qed

text \<open>The order with a reference number, as the index and the pool have it.\<close>

definition order_by_ref :: "'l builder \<Rightarrow> u64 \<Rightarrow> book_order option" where
  "order_by_ref s r = (case index_map (index s) r of
     Some (Some a) \<Rightarrow> map_option payload (live (mem s) a) | _ \<Rightarrow> None)"

lemma order_by_ref_spec:
  assumes rep: "builder_rep s L"
  shows "order_by_ref s r = spec_find r (orders s L)"
proof (cases "index_map (index s) r")
  case None
  then have "r \<notin> o_ref ` set (orders s L)" using orders_refs [OF rep] by simp
  then have "spec_find r (orders s L) = None" by (auto simp: spec_find_def find_None_iff)
  then show ?thesis by (simp add: order_by_ref_def None)
next
  case (Some p)
  then obtain a y where a: "p = Some a" "live (mem s) a = Some y" "o_ref y = r" by (auto simp: rep_index [OF rep])
  have "a \<in> set L" using a(2) rep_live [OF rep] by blast
  from find_in_map [of o_ref "\<lambda>a. the (payloads (mem s) a)", OF orders_distinct [OF rep] this] a(2,3)
  have "spec_find r (orders s L) = Some (payload y)" by (simp add: spec_find_def orders_def payloads_def)
  then show ?thesis using a Some by (simp add: order_by_ref_def)
qed

lemma find_drop: "spec_find r (drop_ref r' B) = (if r = r' then None else spec_find r B)"
  by (induction B) (auto simp: spec_find_def drop_ref_def)

lemma find_None: "spec_find r B = None \<longleftrightarrow> r \<notin> o_ref ` set B"
  by (auto simp: spec_find_def find_None_iff)

lemma depth_counts [simp]: "duplicateRefs (stats (recordDepth d k)) = duplicateRefs (stats k)"
  "liveOrders (stats (recordDepth d k)) = liveOrders (stats k)"
  by (simp_all add: recordDepth_def)

text \<open>What the specification does on a replacement that is refused.\<close>

lemma spec_replace_refused:
  assumes "spec_find (or_oldRef m) B = Some x"
    and "or_newRef m = kEmpty \<or> (or_newRef m \<noteq> or_oldRef m \<and> spec_find (or_newRef m) B \<noteq> None)"
  shows "snd (spec_event lsn (EvReplace l ts m) (k, B)) = drop_ref (or_oldRef m) B
    \<and> duplicateRefs (stats (fst (spec_event lsn (EvReplace l ts m) (k, B)))) = duplicateRefs (stats k) + 1
    \<and> liveOrders (stats (fst (spec_event lsn (EvReplace l ts m) (k, B)))) = liveOrders (stats k) - 1"
proof -
  have x: "o_ref x = or_oldRef m" using find_ref [OF assms(1)] by simp
  have "or_newRef m = kEmpty \<or> or_newRef m \<in> o_ref ` set (drop_ref (or_oldRef m) B)"
    using assms(2) find_drop [of "or_newRef m" "or_oldRef m" B] find_None [of "or_newRef m" "drop_ref (or_oldRef m) B"] by auto
  then show ?thesis using assms(1) x
    by (auto simp: map_core_def spec_change_def Let_def tell_def split: option.split)
qed

text \<open>C39. A replacement that cannot be entered still costs the order it was to replace. After any events,
  let an order be live under the old reference number, and let the new one be the reserved value or
  belong to another live order. Then \<open>builder_onReplace\<close> does not ignore the event: the old order is gone,
  every other reference number leads to the order it led to before, no order is added, and the event is
  counted as a duplicate.\<close>

theorem replace_refused_drops_order:
  assumes "n \<le> 2 ^ 61" and "length es < 2 ^ 32" and "builder_new n l = Some s"
    and "handle_all (builder_handler lsn) es s = Some s'"
    and "order_by_ref s' (or_oldRef m) = Some x"
    and "or_newRef m = kEmpty \<or> (or_newRef m \<noteq> or_oldRef m \<and> order_by_ref s' (or_newRef m) \<noteq> None)"
  shows "\<exists>s''. builder_onReplace lsn lc ts m s' = Some s''
    \<and> order_by_ref s'' = (order_by_ref s')(or_oldRef m := None)
    \<and> card (dom (live (mem s''))) = card (dom (live (mem s'))) - 1
    \<and> duplicateRefs (stats (core s'')) = duplicateRefs (stats (core s')) + 1
    \<and> liveOrders (stats (core s'')) = liveOrders (stats (core s')) - 1"
proof -
  have few: "length es \<le> 2 ^ 32" using assms(2) by simp
  obtain L where L: "builder_rep s' L" "(core s', orders s' L) = spec_run_events lsn es (new_core l, [])"
    "length L \<le> 2 ^ 32" using builder_run [OF assms(1) few assms(3,4)] by blast
  have "refines (handle (builder_handler lsn) (EvReplace lc ts m)) (spec_event lsn (EvReplace lc ts m)) s' L"
    by (rule handle_refines [OF L(1,3)])
  then obtain s'' L'' where s'': "builder_onReplace lsn lc ts m s' = Some s''" "builder_rep s'' L''"
    "(core s'', orders s'' L'') = spec_event lsn (EvReplace lc ts m) (core s', orders s' L)"
    unfolding refines_def by (auto simp: builder_handler_def)
  have "spec_find (or_oldRef m) (orders s' L) = Some x"
    "or_newRef m = kEmpty \<or> (or_newRef m \<noteq> or_oldRef m \<and> spec_find (or_newRef m) (orders s' L) \<noteq> None)"
    using assms(5,6) by (simp_all only: order_by_ref_spec [OF L(1)])
  note sp = spec_replace_refused [OF this, of lsn lc ts "core s'"]
  have o: "orders s'' L'' = drop_ref (or_oldRef m) (orders s' L)" using sp s''(3) by (metis snd_conv)
  have "order_by_ref s'' = (order_by_ref s')(or_oldRef m := None)"
    by (rule ext) (simp only: order_by_ref_spec [OF L(1)] order_by_ref_spec [OF s''(2)] o find_drop fun_upd_apply)
  moreover have "card (dom (live (mem s''))) = length (orders s'' L'')" "card (dom (live (mem s'))) = length (orders s' L)"
    using L(1) s''(2) distinct_card [of L] distinct_card [of L''] by (auto simp: builder_rep_def orders_def)
  moreover have "length (orders s' L) = Suc (length (drop_ref (or_oldRef m) (orders s' L)))"
  proof -
    have "refs_ok (orders s' L)" using refs_ok_run [OF new_state_ok(1), of lsn es l] L(2) by (metis snd_conv)
    moreover have "x \<in> set (orders s' L)" "o_ref x = or_oldRef m"
      using find_ref assms(5) order_by_ref_spec [OF L(1)] by metis+
    ultimately show ?thesis using length_drop_ref by metis
  qed
  ultimately show ?thesis using s''(1,3) sp o by (intro exI [of _ s'']) (auto simp: prod_eq_iff)
qed

lemma replace_refused_drops_order_witness:
  "\<exists>s s' s''. builder_new 4 () = Some s \<and> handle_all (builder_handler None) demo_events s = Some s'
    \<and> order_by_ref s' 1 = Some \<lparr>o_ref = 1, o_price = 50, o_shares = 60, o_locate = 3, o_side = Bid, o_prev = None, o_next = None\<rparr>
    \<and> builder_onReplace None 3 20 \<lparr>or_oldRef = 1, or_newRef = 2, or_shares = 5, or_price = 7\<rparr> s' = Some s''
    \<and> order_by_ref s'' = (order_by_ref s')(1 := None)
    \<and> duplicateRefs (stats (core s'')) = duplicateRefs (stats (core s')) + 1"
proof -
  let ?m = "\<lparr>or_oldRef = 1, or_newRef = 2, or_shares = 5, or_price = 7\<rparr> :: order_replace"
  have n: "(4::nat) \<le> 2 ^ 61" and d: "length demo_events < 2 ^ 32" "length demo_events \<le> 2 ^ 32"
    by (simp_all add: demo_events_def)
  obtain s where s: "builder_new 4 () = Some s" "builder_rep s []" "core s = new_core ()"
    using new_builder_rep [OF n, of "()"] by (elim exE conjE)
  have "length ([] :: addr list) + length demo_events \<le> 2 ^ 32" using d(2) by simp
  from builder_run_refines [OF s(2) this, of None] obtain s' L' where
    s': "handle_all (builder_handler None) demo_events s = Some s'" "builder_rep s' L'"
      "(core s', orders s' L') = spec_run_events None demo_events (core s, orders s [])" by blast
  have o: "orders s' L' = snd (spec_run_events None demo_events (new_core (), []))"
    using s'(3) s(3) by (simp add: orders_def prod_eq_iff)
  have old: "order_by_ref s' (or_oldRef ?m) = Some \<lparr>o_ref = 1, o_price = 50, o_shares = 60, o_locate = 3, o_side = Bid,
      o_prev = None, o_next = None\<rparr>" and new: "order_by_ref s' (or_newRef ?m) \<noteq> None"
    unfolding order_by_ref_spec [OF s'(2)] o demo_spec by (simp_all add: spec_find_def)
  have "or_newRef ?m = kEmpty \<or> (or_newRef ?m \<noteq> or_oldRef ?m \<and> order_by_ref s' (or_newRef ?m) \<noteq> None)" using new by simp
  from replace_refused_drops_order [OF n d(1) s(1) s'(1) old this, of 3 20] old s(1) s'(1) show ?thesis by auto
qed

end
