(* ===== verification/Framing.thy ===== *)
theory Framing
  imports BigEndian
begin

text \<open>
  Length-prefixed messages, the framing that NASDAQ's sample files (\<open>include/ItchParser.hpp\<close>)
  and the blocks of a MoldUDP64 datagram (\<open>include/MoldUdp64.hpp\<close>) share: each message follows
  its length as a 16-bit big-endian integer. \<open>frames ms\<close> are the bytes of the messages \<open>ms\<close>.
\<close>

section \<open>Framed messages\<close>

definition frame :: "bytes \<Rightarrow> bytes" where
  "frame m = bytes16 (of_nat (length m)) @ m"

definition frames :: "bytes list \<Rightarrow> bytes" where
  "frames ms = concat (map frame ms)"

definition framable :: "bytes \<Rightarrow> bool" where
  "framable m \<longleftrightarrow> m \<noteq> [] \<and> length m < 65536"

lemma frames_simps [simp]: "frames [] = []" "frames (m # ms) = frame m @ frames ms"
  "frames (ms @ ns) = frames ms @ frames ns"
  by (simp_all add: frames_def)

lemma length_frame: "length (frame m) = 2 + length m"
  by (simp add: frame_def)

lemma read_length:
  assumes "drop off b = bytes16 w @ rest"
  shows "be16 b off = Some w"
proof -
  have "length (drop off b) = 2 + length rest" by (simp add: assms)
  then have "off + 2 \<le> length b" by simp
  then show ?thesis using assms by (simp add: be16.get_in_range)
qed

lemma read_message:
  assumes "drop off b = bytes16 w @ m @ rest" "n = length m"
  shows "rd b (off + 2) n = Some m" and "drop (off + 2 + n) b = rest" and "off + 2 + n \<le> length b"
proof -
  have len: "length (drop off b) = 2 + length m + length rest" by (simp add: assms)
  then show "off + 2 + n \<le> length b" using assms(2) by simp
  have "drop (off + 2) b = m @ rest"
    using arg_cong [OF assms(1), of "drop 2"] by (simp add: add.commute)
  moreover have "drop (off + 2 + n) b = drop n (drop (off + 2) b)"
    by (simp only: drop_drop ac_simps)
  ultimately show "rd b (off + 2) n = Some m" "drop (off + 2 + n) b = rest"
    using len assms(2) by (simp_all add: rd_def)
qed

lemma unat_of_length: "framable m \<Longrightarrow> unat (of_nat (length m) :: u16) = length m"
  by (simp add: framable_def unat_of_nat take_bit_eq_mod)

end
