(* ===== verification/MoldUdp64.thy ===== *)
theory MoldUdp64
  imports Framing
begin

text \<open>
  MoldUDP64 datagrams: \<open>include/MoldUdp64.hpp\<close>, the packet decoder, the message iterator and
  the packet writer (the sequencer is in \<open>Sequencer\<close>).

  A decoded packet's blocks are length-prefixed messages (\<open>frames ms\<close>, in \<open>Framing\<close>). \<open>decode\<close> accepts exactly the datagrams whose blocks are the
  frames of \<open>count\<close> non-empty messages and whose numbers fit in 64 bits; the writer's
  datagrams are among them, with the messages that were added.

  \<open>size_t\<close> differences whose operands the code keeps ordered are written as differences of
  naturals. \<open>buffer_.size() - size_\<close> in \<open>add\<close> is not one of them for a buffer shorter than a
  header, so it is written modulo \<open>2^64\<close>.
\<close>

section \<open>Packets\<close>

definition kSessionBytes :: nat where
  "kSessionBytes = 10"

definition kHeaderBytes :: nat where
  "kHeaderBytes = kSessionBytes + 8 + 2"

definition kHeartbeat :: u16 where
  "kHeartbeat = 0"

definition kEndOfSession :: u16 where
  "kEndOfSession = 0xFFFF"

datatype PacketError = NoError | TooShort | BlockOverrun | CountMismatch | EmptyMessage | SequenceOverflow

record packet =
  pk_session :: bytes
  pk_sequence :: u64
  pk_count :: u16
  pk_blocks :: bytes

definition heartbeat :: "packet \<Rightarrow> bool" where
  "heartbeat p \<longleftrightarrow> pk_count p = kHeartbeat"

definition endOfSession :: "packet \<Rightarrow> bool" where
  "endOfSession p \<longleftrightarrow> pk_count p = kEndOfSession"

definition messages :: "packet \<Rightarrow> u16" where
  "messages p = (if pk_count p = kEndOfSession then 0 else pk_count p)"

section \<open>decode and forEachMessage\<close>

text \<open>The loop of \<open>decode\<close> over \<open>n\<close> more blocks from \<open>offset\<close>: the error, or the final
  offset.\<close>

fun check_blocks :: "bytes \<Rightarrow> nat \<Rightarrow> nat \<Rightarrow> (PacketError + nat) option" where
  "check_blocks b 0 offset = Some (Inr offset)"
| "check_blocks b (Suc n) offset =
     (if length b - offset < 2 then Some (Inl BlockOverrun)
      else do {
        w \<leftarrow> be16 b offset;
        let len = unat w;
        if len = 0 then Some (Inl EmptyMessage)
        else if length b - offset - 2 < len then Some (Inl BlockOverrun)
        else check_blocks b n (offset + (2 + len))
      })"

definition decode :: "bytes \<Rightarrow> packet \<Rightarrow> (PacketError \<times> packet) option" where
  "decode datagram out =
     (if length datagram < kHeaderBytes then Some (TooShort, out)
      else do {
        session \<leftarrow> rd datagram 0 kSessionBytes;
        sequence \<leftarrow> be64 datagram kSessionBytes;
        count \<leftarrow> be16 datagram (kSessionBytes + 8);
        let p = \<lparr>pk_session = session, pk_sequence = sequence, pk_count = count,
                 pk_blocks = drop kHeaderBytes datagram\<rparr>;
        if pk_sequence p > - 1 - ucast (messages p) then Some (SequenceOverflow, out)
        else do {
          r \<leftarrow> check_blocks (pk_blocks p) (unat (messages p)) 0;
          case r of
            Inl e \<Rightarrow> Some (e, out)
          | Inr offset \<Rightarrow> if offset \<noteq> length (pk_blocks p) then Some (CountMismatch, out)
                          else Some (NoError, p)
        }
      })"

text \<open>\<open>forEachMessage\<close>: \<open>i\<close> counts up, \<open>n\<close> are left.\<close>

fun each_loop :: "(u64 \<Rightarrow> bytes \<Rightarrow> 's \<Rightarrow> 's option) \<Rightarrow> packet \<Rightarrow> nat \<Rightarrow> nat \<Rightarrow> nat \<Rightarrow> 's \<Rightarrow> 's option" where
  "each_loop fn p 0 i offset s = Some s"
| "each_loop fn p (Suc n) i offset s = do {
     w \<leftarrow> be16 (pk_blocks p) offset;
     let len = unat w;
     m \<leftarrow> rd (pk_blocks p) (offset + 2) len;
     s \<leftarrow> fn (pk_sequence p + of_nat i) m s;
     each_loop fn p n (i + 1) (offset + (2 + len)) s
   }"

definition forEachMessage :: "(u64 \<Rightarrow> bytes \<Rightarrow> 's \<Rightarrow> 's option) \<Rightarrow> packet \<Rightarrow> 's \<Rightarrow> 's option" where
  "forEachMessage fn p = each_loop fn p (unat (messages p)) 0 0"

text \<open>A packet that carries the messages \<open>ms\<close>, with numbers that do not wrap.\<close>

definition carries :: "packet \<Rightarrow> bytes list \<Rightarrow> bool" where
  "carries p ms \<longleftrightarrow> pk_blocks p = frames ms \<and> list_all framable ms \<and> length ms = unat (messages p)
     \<and> unat (pk_sequence p) + length ms < 2 ^ 64"

fun feed :: "(u64 \<Rightarrow> bytes \<Rightarrow> 's \<Rightarrow> 's option) \<Rightarrow> u64 \<Rightarrow> bytes list \<Rightarrow> 's \<Rightarrow> 's option" where
  "feed fn seq [] s = Some s"
| "feed fn seq (m # ms) s = do { s \<leftarrow> fn seq m s; feed fn (seq + 1) ms s }"

lemma check_blocks_frames:
  "list_all framable ms \<Longrightarrow> drop offset b = frames ms @ rest \<Longrightarrow> offset \<le> length b \<Longrightarrow>
     check_blocks b (length ms) offset = Some (Inr (offset + length (frames ms)))"
proof (induction ms arbitrary: offset)
  case (Cons m ms)
  have m: "framable m" "m \<noteq> []" using Cons.prems(1) by (auto simp: framable_def)
  have d: "drop offset b = bytes16 (of_nat (length m)) @ m @ (frames ms @ rest)"
    using Cons.prems(2) by (simp add: frame_def)
  note rdm = read_message [OF d refl]
  have "check_blocks b (length ms) (offset + 2 + length m) = Some (Inr (offset + 2 + length m + length (frames ms)))"
    using Cons.IH [of "offset + 2 + length m"] Cons.prems(1) rdm(2,3) by simp
  moreover have "\<not> length b - offset < 2" "\<not> length b - offset - 2 < length m" using rdm(3) by linarith+
  ultimately show ?case
    using read_length [OF d] unat_of_length [OF m(1)] m(2)
    by (simp add: length_frame Let_def)
qed simp

lemma check_blocks_inv:
  "check_blocks b n offset = Some (Inr off') \<Longrightarrow> offset \<le> length b \<Longrightarrow>
     \<exists>ms rest. length ms = n \<and> list_all framable ms \<and> drop offset b = frames ms @ rest
       \<and> off' = offset + length (frames ms)"
proof (induction n arbitrary: offset)
  case 0
  then show ?case by (intro exI [of _ "[]"] exI [of _ "drop offset b"]) simp
next
  case (Suc n)
  have room: "2 \<le> length b - offset" using Suc.prems(1) by (simp split: if_splits)
  then have "be16 b offset = Some (dec16 (take 2 (drop offset b)))"
    by (intro be16.get_in_range) (use Suc.prems(2) in linarith)
  then obtain w where w: "be16 b offset = Some w" by blast
  have step: "check_blocks b n (offset + (2 + unat w)) = Some (Inr off')" and "unat w \<noteq> 0"
    and fits: "\<not> length b - offset - 2 < unat w"
    using Suc.prems(1) w room by (auto simp: Let_def split: if_splits)
  have le: "offset + (2 + unat w) \<le> length b" using fits room Suc.prems(2) by linarith
  from Suc.IH [OF step le] obtain ms rest where ms: "length ms = n" "list_all framable ms"
    "drop (offset + (2 + unat w)) b = frames ms @ rest" "off' = offset + (2 + unat w) + length (frames ms)" by blast
  let ?m = "take (unat w) (drop (offset + 2) b)"
  have m: "length ?m = unat w" using le by simp
  then have "framable ?m" using \<open>unat w \<noteq> 0\<close> unat_u16_less [of w] by (auto simp: framable_def)
  moreover have "drop offset b = frame ?m @ frames ms @ rest"
  proof -
    have "drop offset b = take 2 (drop offset b) @ drop (offset + 2) b"
      by (metis append_take_drop_id drop_drop add.commute)
    also have "take 2 (drop offset b) = bytes16 w"
    proof -
      have "length (take 2 (drop offset b)) = 2" using room by simp
      from bytes16_dec16 [OF this] show ?thesis using w room Suc.prems(2) by (auto simp: be16_rd rd_def split: if_splits)
    qed
    also have "drop (offset + 2) b = ?m @ drop (offset + 2 + unat w) b"
      by (metis append_take_drop_id drop_drop add.commute)
    finally show ?thesis using ms(3) m by (simp add: frame_def add.assoc)
  qed
  ultimately show ?case using ms m
    by (intro exI [of _ "?m # ms"] exI [of _ rest]) (simp add: length_frame)
qed

lemma each_loop_frames:
  "list_all framable ms \<Longrightarrow> drop offset (pk_blocks p) = frames ms @ rest \<Longrightarrow>
     each_loop fn p (length ms) i offset s = feed fn (pk_sequence p + of_nat i) ms s"
proof (induction ms arbitrary: offset i s)
  case (Cons m ms)
  have m: "framable m" using Cons.prems(1) by simp
  have d: "drop offset (pk_blocks p) = bytes16 (of_nat (length m)) @ m @ (frames ms @ rest)"
    using Cons.prems(2) by (simp add: frame_def)
  note rdm = read_message [OF d refl]
  have "each_loop fn p (length ms) (i + 1) (offset + 2 + length m) s
      = feed fn (pk_sequence p + of_nat i + 1) ms s" for s
    using Cons.IH [of "offset + 2 + length m" "i + 1" s] Cons.prems(1) rdm(2) by (simp add: ac_simps)
  then have "each_loop fn p (length ms) (i + 1) (offset + 2 + length m)
      = feed fn (pk_sequence p + of_nat i + 1) ms" by (intro ext)
  then show ?case
    using read_length [OF d] unat_of_length [OF m] rdm(1)
    by (simp add: Let_def)
qed simp

lemma forEach_carries: "carries p ms \<Longrightarrow> forEachMessage fn p s = feed fn (pk_sequence p) ms s"
  using each_loop_frames [of ms 0 p "[]" fn 0 s] by (simp add: carries_def forEachMessage_def)

section \<open>What decode accepts\<close>

definition header_of :: "bytes \<Rightarrow> packet \<Rightarrow> bool" where
  "header_of d p \<longleftrightarrow> 20 \<le> length d \<and> pk_session p = take 10 d \<and> be64 d 10 = Some (pk_sequence p)
     \<and> be16 d 18 = Some (pk_count p) \<and> pk_blocks p = drop 20 d"

lemma header_lengths [simp]: "kSessionBytes = 10" "kHeaderBytes = 20"
  by (simp_all add: kSessionBytes_def kHeaderBytes_def)

lemma header_exists: "20 \<le> length d \<Longrightarrow> \<exists>p. header_of d p"
proof -
  assume "20 \<le> length d"
  then show ?thesis
    using be64.get_in_range [of 10 d] be16.get_in_range [of 18 d]
    by (intro exI [of _ "\<lparr>pk_session = take 10 d, pk_sequence = dec64 (take 8 (drop 10 d)),
          pk_count = dec16 (take 2 (drop 18 d)), pk_blocks = drop 20 d\<rparr>"]) (simp add: header_of_def)
qed

lemma header_unique: "header_of d p \<Longrightarrow> header_of d q \<Longrightarrow> p = q"
  by (simp add: header_of_def)

lemma decode_header:
  assumes "header_of d p"
  shows "decode d out = (if pk_sequence p > - 1 - ucast (messages p) then Some (SequenceOverflow, out)
    else do {
      r \<leftarrow> check_blocks (pk_blocks p) (unat (messages p)) 0;
      case r of Inl e \<Rightarrow> Some (e, out)
      | Inr offset \<Rightarrow> if offset \<noteq> length (pk_blocks p) then Some (CountMismatch, out) else Some (NoError, p) })"
  using assms by (cases p, hypsubst) (simp add: decode_def header_of_def rd_def Let_def)

lemma check_blocks_defined: "offset \<le> length b \<Longrightarrow> \<exists>r. check_blocks b n offset = Some r"
proof (induction n arbitrary: offset)
  case (Suc n)
  show ?case
  proof (cases "length b - offset < 2")
    case False
    then obtain w where w: "be16 b offset = Some w"
      using be16.get_in_range [of offset b] Suc.prems by auto
    show ?thesis
    proof (cases "length b - offset - 2 < unat w")
      case fits: False
      then have "offset + (2 + unat w) \<le> length b" using False Suc.prems by linarith
      from Suc.IH [OF this] show ?thesis using False w fits by (simp add: Let_def)
    qed (use False w in \<open>simp add: Let_def\<close>)
  qed simp
qed simp

lemma check_blocks_error: "check_blocks b n offset \<noteq> Some (Inl NoError)"
  by (induction b n offset rule: check_blocks.induct) (auto simp: bind_Some_iff Let_def split: if_splits)

lemma no_overflow: "\<not> s > - 1 - ucast (c :: u16) \<longleftrightarrow> unat (s :: u64) + unat c < 2 ^ 64"
proof -
  have "unat (ucast c :: u64) = unat c"
    using unat_u16_less [of c] by (simp add: unsigned_ucast_eq take_bit_eq_mod)
  moreover have "unat (- 1 - ucast c :: u64) = unat (- 1 :: u64) - unat (ucast c :: u64)"
    by (rule unat_sub) simp
  moreover have "unat (- 1 :: u64) = 2 ^ 64 - 1" by (simp add: unsigned_minus_1_eq_mask mask_eq_exp_minus_1)
  ultimately show ?thesis using unat_u16_less [of c] by (simp add: word_less_nat_alt) linarith
qed

lemma decode_iff:
  "decode d out = Some (NoError, p) \<longleftrightarrow> header_of d p \<and> (\<exists>ms. carries p ms)"
proof
  assume dec: "decode d out = Some (NoError, p)"
  then have "20 \<le> length d" by (auto simp: decode_def split: if_splits)
  then obtain q where q: "header_of d q" using header_exists by blast
  from dec [unfolded decode_header [OF q]] have s: "\<not> pk_sequence q > - 1 - ucast (messages q)"
    and r: "\<exists>r. check_blocks (pk_blocks q) (unat (messages q)) 0 = Some r
      \<and> (case r of Inl e \<Rightarrow> Some (e, out) | Inr offset \<Rightarrow>
          if offset \<noteq> length (pk_blocks q) then Some (CountMismatch, out) else Some (NoError, q)) = Some (NoError, p)"
    by (auto simp: bind_Some_iff split: if_splits)
  from r obtain n where "check_blocks (pk_blocks q) (unat (messages q)) 0 = Some (Inr n)"
    "(if n \<noteq> length (pk_blocks q) then Some (CountMismatch, out) else Some (NoError, q)) = Some (NoError, p)"
    using check_blocks_error [of "pk_blocks q" "unat (messages q)" 0] by (elim exE conjE, rename_tac r, case_tac r) auto
  then have "q = p" and c: "check_blocks (pk_blocks q) (unat (messages q)) 0 = Some (Inr (length (pk_blocks q)))"
    by (auto split: if_splits)
  from check_blocks_inv [OF c] obtain ms rest where ms: "length ms = unat (messages q)" "list_all framable ms"
    "pk_blocks q = frames ms @ rest" "length (pk_blocks q) = length (frames ms)" by auto
  then have "carries q ms" using s by (simp add: carries_def no_overflow)
  with q \<open>q = p\<close> show "header_of d p \<and> (\<exists>ms. carries p ms)" by blast
next
  assume "header_of d p \<and> (\<exists>ms. carries p ms)"
  then obtain ms where h: "header_of d p" and ms: "carries p ms" by blast
  have "check_blocks (pk_blocks p) (length ms) 0 = Some (Inr (0 + length (frames ms)))"
    using ms by (intro check_blocks_frames [where rest = "[]"]) (simp_all add: carries_def)
  then show "decode d out = Some (NoError, p)"
    using ms unfolding decode_header [OF h] by (simp add: carries_def no_overflow)
qed

lemma decode_defined: "\<exists>e q. decode d out = Some (e, q) \<and> (e = NoError \<or> q = out)"
proof (cases "20 \<le> length d")
  case True
  then obtain p where p: "header_of d p" using header_exists by blast
  obtain r where "check_blocks (pk_blocks p) (unat (messages p)) 0 = Some r"
    using check_blocks_defined [of 0 "pk_blocks p"] by auto
  then show ?thesis unfolding decode_header [OF p] by (auto split: sum.split)
qed (simp add: decode_def)

text \<open>C31. \<open>decode\<close> never reads outside the datagram and writes its result only when it accepts. It
  accepts exactly the datagrams of at least 20 bytes whose blocks are \<open>count\<close> non-empty
  length-prefixed messages with nothing left over and whose numbers do not wrap; and then
  \<open>forEachMessage\<close> passes exactly those messages on, in order, numbered from \<open>sequence\<close>.\<close>

theorem decode_accepts:
  "(\<exists>e q. decode d out = Some (e, q) \<and> (e = NoError \<or> q = out))
   \<and> (decode d out = Some (NoError, p) \<longleftrightarrow>
        header_of d p \<and> (\<exists>ms. carries p ms \<and> (\<forall>fn (s :: 's). forEachMessage fn p s = feed fn (pk_sequence p) ms s)))"
  using decode_defined [of d out] decode_iff [of d out p] by (simp add: forEach_carries cong: conj_cong)

section \<open>The packet writer\<close>

record packet_writer =
  w_buffer :: bytes
  w_session :: bytes
  w_sequence :: u64
  w_count :: u16
  w_size :: nat

text \<open>The constructor: the session, cut or padded with blanks to ten bytes.\<close>

definition writer_new :: "bytes \<Rightarrow> bytes \<Rightarrow> packet_writer" where
  "writer_new buffer session =
     \<lparr>w_buffer = buffer,
      w_session = blit (replicate kSessionBytes 32) 0
        (take (if length session < kSessionBytes then length session else kSessionBytes) session),
      w_sequence = 1, w_count = 0, w_size = kHeaderBytes\<rparr>"

definition writer_begin :: "u64 \<Rightarrow> packet_writer \<Rightarrow> packet_writer" where
  "writer_begin sequence w = w\<lparr>w_sequence := sequence, w_count := 0, w_size := kHeaderBytes\<rparr>"

text \<open>\<open>buffer_.size() - size_\<close> as a \<open>size_t\<close>.\<close>

definition room :: "packet_writer \<Rightarrow> nat" where
  "room w = (length (w_buffer w) + 2 ^ 64 - w_size w) mod 2 ^ 64"

definition writer_add :: "bytes \<Rightarrow> packet_writer \<Rightarrow> (bool \<times> packet_writer) option" where
  "writer_add message w =
     (if message = [] \<or> length message > 0xFFFF \<or> w_count w = kEndOfSession - 1 then Some (False, w)
      else if room w < 2 + length message then Some (False, w)
      else do {
        b \<leftarrow> putBe16 (w_buffer w) (w_size w) (of_nat (length message));
        b \<leftarrow> wr b (w_size w + 2) message;
        Some (True, w\<lparr>w_buffer := b, w_size := w_size w + (2 + length message), w_count := w_count w + 1\<rparr>)
      })"

definition finishWithCount :: "u16 \<Rightarrow> packet_writer \<Rightarrow> (bytes \<times> packet_writer) option" where
  "finishWithCount count w = do {
     b \<leftarrow> wr (w_buffer w) 0 (w_session w);
     b \<leftarrow> putBe64 b kSessionBytes (w_sequence w);
     b \<leftarrow> putBe16 b (kSessionBytes + 8) count;
     d \<leftarrow> rd b 0 (w_size w);
     Some (d, w\<lparr>w_buffer := b\<rparr>)
   }"

definition writer_finish :: "packet_writer \<Rightarrow> (bytes \<times> packet_writer) option" where
  "writer_finish w = finishWithCount (w_count w) w"

definition writer_control :: "u64 \<Rightarrow> u16 \<Rightarrow> packet_writer \<Rightarrow> (bytes \<times> packet_writer) option" where
  "writer_control next count w = finishWithCount count (writer_begin next w)"

text \<open>Adding several messages; the results of the calls.\<close>

fun add_all :: "bytes list \<Rightarrow> packet_writer \<Rightarrow> (bool list \<times> packet_writer) option" where
  "add_all [] w = Some ([], w)"
| "add_all (m # ms) w = do {
     (ok, w) \<leftarrow> writer_add m w;
     (oks, w) \<leftarrow> add_all ms w;
     Some (ok # oks, w)
   }"

text \<open>The writer holds the messages \<open>ms\<close> after its header space.\<close>

definition writes :: "packet_writer \<Rightarrow> bytes list \<Rightarrow> bool" where
  "writes w ms \<longleftrightarrow> 20 \<le> length (w_buffer w) \<and> length (w_buffer w) < 2 ^ 64 \<and> length (w_session w) = 10
     \<and> list_all framable ms \<and> w_size w = 20 + length (frames ms) \<and> w_size w \<le> length (w_buffer w)
     \<and> length ms < 65535 \<and> w_count w = of_nat (length ms)
     \<and> take (length (frames ms)) (drop 20 (w_buffer w)) = frames ms"

lemma of_nat_u16_iff: "n < 65536 \<Longrightarrow> of_nat n = c \<longleftrightarrow> n = unat (c :: u16)"
  by (auto simp: word_unat_eq_iff unat_of_nat take_bit_eq_mod)

lemma room_writes: "writes w ms \<Longrightarrow> room w = length (w_buffer w) - w_size w"
proof -
  assume w: "writes w ms"
  then have "length (w_buffer w) + 2 ^ 64 - w_size w = (length (w_buffer w) - w_size w) + 2 ^ 64"
    by (simp add: writes_def)
  moreover have "length (w_buffer w) < 2 ^ 64" using w unfolding writes_def by blast
  then have "length (w_buffer w) - w_size w < 2 ^ 64" by (rule less_imp_diff_less)
  ultimately show ?thesis unfolding room_def by (simp only: mod_add_self2 mod_less)
qed

lemma add_writes:
  assumes w: "writes w ms"
  shows "\<exists>ok w'. writer_add m w = Some (ok, w')
    \<and> (ok \<longleftrightarrow> framable m \<and> length ms < 65534 \<and> w_size w + length (frame m) \<le> length (w_buffer w))
    \<and> writes w' (if ok then ms @ [m] else ms)
    \<and> w_sequence w' = w_sequence w \<and> w_session w' = w_session w
    \<and> length (w_buffer w') = length (w_buffer w) \<and> (ok \<or> w' = w)"
proof -
  have full: "w_count w = kEndOfSession - 1 \<longleftrightarrow> length ms = 65534"
  proof -
    have "w_count w = of_nat (length ms)" "length ms < 65535" using w by (simp_all add: writes_def)
    then show ?thesis by (simp add: kEndOfSession_def of_nat_u16_iff)
  qed
  show ?thesis
  proof (cases "framable m \<and> length ms < 65534 \<and> w_size w + length (frame m) \<le> length (w_buffer w)")
    case True
    let ?b = "blit (w_buffer w) (w_size w) (frame m)"
    have fits: "w_size w + length (frame m) \<le> length (w_buffer w)" using True by blast
    have "Option.bind (putBe16 (w_buffer w) (w_size w) (of_nat (length m))) (\<lambda>b. wr b (w_size w + 2) m)
        = wr (w_buffer w) (w_size w) (frame m)"
      using wr_append [of "w_buffer w" "w_size w" "bytes16 (of_nat (length m))" m]
      by (simp add: putBe16_wr frame_def)
    also have "\<dots> = Some ?b" by (rule wr_Some [OF fits])
    finally have written: "Option.bind (putBe16 (w_buffer w) (w_size w) (of_nat (length m))) (\<lambda>b. wr b (w_size w + 2) m) = Some ?b" .
    let ?w = "w\<lparr>w_buffer := ?b, w_size := w_size w + (2 + length m), w_count := w_count w + 1\<rparr>"
    have "writer_add m w = Option.bind (Option.bind (putBe16 (w_buffer w) (w_size w) (of_nat (length m)))
        (\<lambda>b. wr b (w_size w + 2) m)) (\<lambda>b. Some (True, w\<lparr>w_buffer := b, w_size := w_size w + (2 + length m), w_count := w_count w + 1\<rparr>))"
      using True full room_writes [OF w] by (auto simp: writer_add_def framable_def length_frame)
    then have exec: "writer_add m w = Some (True, ?w)" unfolding written by simp
    have "take (length (frames ms) + length (frame m)) (drop 20 ?b) = frames ms @ frame m"
    proof -
      have "drop 20 ?b = take (length (frames ms)) (drop 20 (w_buffer w)) @ frame m @ drop (w_size w + length (frame m)) (w_buffer w)"
        using w fits by (simp add: blit_in_range writes_def drop_take)
      also have "take (length (frames ms)) (drop 20 (w_buffer w)) = frames ms" using w by (simp add: writes_def)
      finally show ?thesis by simp
    qed
    then have "writes ?w (ms @ [m])"
      using w True fits by (simp add: writes_def length_blit length_frame)
    with exec show ?thesis using True by (auto simp: length_blit)
  next
    case False
    then have "writer_add m w = Some (False, w)"
      using full room_writes [OF w] w by (auto simp: writer_add_def framable_def length_frame writes_def)
    then show ?thesis using False w by auto
  qed
qed

text \<open>Which of the messages a packet takes: those that can be framed, while a count describes them
  and the buffer has room.\<close>

fun packed :: "nat \<Rightarrow> bytes list \<Rightarrow> bytes list \<Rightarrow> bytes list" where
  "packed cap acc [] = acc"
| "packed cap acc (m # ms) = packed cap
     (if framable m \<and> length acc < 65534 \<and> 20 + length (frames acc) + length (frame m) \<le> cap
      then acc @ [m] else acc) ms"

lemma add_all_writes:
  "writes w ms \<Longrightarrow> \<exists>oks w'. add_all ns w = Some (oks, w') \<and> length oks = length ns
    \<and> packed (length (w_buffer w)) ms ns = ms @ map snd (filter fst (zip oks ns))
    \<and> writes w' (packed (length (w_buffer w)) ms ns)
    \<and> w_sequence w' = w_sequence w \<and> w_session w' = w_session w"
proof (induction ns arbitrary: w ms)
  case Nil
  then show ?case by simp
next
  case (Cons n ns)
  from add_writes [OF Cons.prems, of n] obtain ok w1 where w1: "writer_add n w = Some (ok, w1)"
    "ok \<longleftrightarrow> framable n \<and> length ms < 65534 \<and> w_size w + length (frame n) \<le> length (w_buffer w)"
    "writes w1 (if ok then ms @ [n] else ms)" "w_sequence w1 = w_sequence w" "w_session w1 = w_session w"
    "length (w_buffer w1) = length (w_buffer w)" by blast
  have size: "w_size w = 20 + length (frames ms)" using Cons.prems by (simp add: writes_def)
  from Cons.IH [OF w1(3)] obtain oks w2 where w2: "add_all ns w1 = Some (oks, w2)" "length oks = length ns"
    "packed (length (w_buffer w1)) (if ok then ms @ [n] else ms) ns
       = (if ok then ms @ [n] else ms) @ map snd (filter fst (zip oks ns))"
    "writes w2 (packed (length (w_buffer w1)) (if ok then ms @ [n] else ms) ns)"
    "w_sequence w2 = w_sequence w1" "w_session w2 = w_session w1" by blast
  have "packed (length (w_buffer w)) ms (n # ns) = packed (length (w_buffer w1)) (if ok then ms @ [n] else ms) ns"
    using w1(2,6) size by simp
  then show ?case using w1 w2
    by (intro exI [of _ "ok # oks"] exI [of _ w2]) (simp split: if_splits)
qed

lemma begin_writes:
  assumes "20 \<le> length buffer" "length buffer < 2 ^ 64"
  shows "writes (writer_begin seq (writer_new buffer session)) []"
  using assms by (simp add: writes_def writer_begin_def writer_new_def length_blit)

lemma finish_with:
  assumes w: "writes w ms"
  shows "\<exists>w'. finishWithCount count w = Some (w_session w @ bytes64 (w_sequence w) @ bytes16 count @ frames ms, w')
    \<and> writes w' ms"
proof -
  let ?b = "blit (w_buffer w) 0 (w_session w @ bytes64 (w_sequence w) @ bytes16 count)"
  have len: "length (w_session w) = 10" "20 \<le> length (w_buffer w)" using w by (simp_all add: writes_def)
  have "Option.bind (wr (w_buffer w) 0 (w_session w)) (\<lambda>b. Option.bind (putBe64 b kSessionBytes (w_sequence w))
      (\<lambda>b. putBe16 b (kSessionBytes + 8) count))
    = wr (w_buffer w) 0 (w_session w @ bytes64 (w_sequence w) @ bytes16 count)"
    using wr_append [of "w_buffer w" 0 "w_session w @ bytes64 (w_sequence w)" "bytes16 count"]
      wr_append [of "w_buffer w" 0 "w_session w" "bytes64 (w_sequence w)"] len
    by (simp add: putBe64_wr putBe16_wr flip: bind_assoc)
  also have "\<dots> = Some ?b" using len by (intro wr_Some) simp
  finally have built: "Option.bind (wr (w_buffer w) 0 (w_session w)) (\<lambda>b. Option.bind (putBe64 b kSessionBytes (w_sequence w))
      (\<lambda>b. putBe16 b (kSessionBytes + 8) count)) = Some ?b" .
  have b: "?b = (w_session w @ bytes64 (w_sequence w) @ bytes16 count) @ drop 20 (w_buffer w)"
    using len by (simp add: blit_in_range)
  have "rd ?b 0 (w_size w) = Some (w_session w @ bytes64 (w_sequence w) @ bytes16 count @ frames ms)"
    proof -
    have "20 + length (frames ms) \<le> length (w_buffer w)" "w_size w = 20 + length (frames ms)"
      "take (length (frames ms)) (drop 20 (w_buffer w)) = frames ms" using w by (simp_all add: writes_def)
    then show ?thesis using len unfolding b rd_def by simp
  qed
  then have "finishWithCount count w = Some (w_session w @ bytes64 (w_sequence w) @ bytes16 count @ frames ms, w\<lparr>w_buffer := ?b\<rparr>)"
    using built unfolding finishWithCount_def
    by (auto simp: bind_Some_iff)
  moreover have "writes (w\<lparr>w_buffer := ?b\<rparr>) ms"
    using w len by (simp add: writes_def length_blit drop_blit)
  ultimately show ?thesis using w by (auto simp: writes_def)
qed

lemma finish_writes:
  "writes w ms \<Longrightarrow> \<exists>w'. writer_finish w
     = Some (w_session w @ bytes64 (w_sequence w) @ bytes16 (of_nat (length ms)) @ frames ms, w') \<and> writes w' ms"
  using finish_with [of w ms "w_count w"] by (simp add: writer_finish_def writes_def)

lemma add_length: "writer_add m w = Some (ok, w') \<Longrightarrow> length (w_buffer w') = length (w_buffer w)"
  by (auto simp: writer_add_def bind_Some_iff putBe16_wr wr_def length_blit split: if_splits)

lemma add_all_length: "add_all ms w = Some (oks, w') \<Longrightarrow> length (w_buffer w') = length (w_buffer w)"
  by (induction ms arbitrary: w oks) (auto simp: bind_Some_iff dest!: add_length)

lemma control_writes:
  assumes w: "writes w ms"
  shows "\<exists>w'. writer_control next count w
    = Some (w_session w @ bytes64 next @ bytes16 count, w') \<and> writes w' []"
proof -
  have "writes (writer_begin next w) []" using w by (auto simp: writes_def writer_begin_def)
  from finish_with [OF this, of count] show ?thesis
    unfolding writer_control_def by (simp add: writer_begin_def)
qed

lemma writer_session: "w_session (writer_begin seq (writer_new buffer session)) = take 10 (session @ replicate 10 32)"
proof (cases "length session < 10")
  case True
  then show ?thesis by (simp add: writer_begin_def writer_new_def blit_in_range)
next
  case False
  then show ?thesis by (simp add: writer_begin_def writer_new_def blit_in_range min_def)
qed

text \<open>\<open>Packet p;\<close>, before a datagram is decoded into it.\<close>

definition no_packet :: packet where
  "no_packet = \<lparr>pk_session = replicate kSessionBytes 0, pk_sequence = 0, pk_count = 0, pk_blocks = []\<rparr>"

lemma decode_built:
  assumes s: "length s = 10" and m: "messages p = of_nat (length ms)" "length ms < 65535" "list_all framable ms"
    and p: "p = \<lparr>pk_session = s, pk_sequence = seq, pk_count = c, pk_blocks = frames ms\<rparr>"
    and no_wrap: "unat seq + length ms < 2 ^ 64"
  shows "decode (s @ bytes64 seq @ bytes16 c @ frames ms) out = Some (NoError, p)" "carries p ms"
proof -
  have 1: "take 8 (drop 10 (s @ bytes64 seq @ bytes16 c @ frames ms)) = bytes64 seq"
    "take 2 (drop 18 (s @ bytes64 seq @ bytes16 c @ frames ms)) = bytes16 c" using s by simp_all
  have "header_of (s @ bytes64 seq @ bytes16 c @ frames ms) p"
    using s 1 be64.get_in_range [of 10 "s @ bytes64 seq @ bytes16 c @ frames ms"]
      be16.get_in_range [of 18 "s @ bytes64 seq @ bytes16 c @ frames ms"]
    by (simp add: header_of_def p)
  moreover show c: "carries p ms"
    using m no_wrap by (simp add: carries_def p unat_of_nat take_bit_eq_mod)
  ultimately show "decode (s @ bytes64 seq @ bytes16 c @ frames ms) out = Some (NoError, p)"
    unfolding decode_iff by blast
qed

text \<open>C21. What the writer builds, \<open>decode\<close> reads back: after \<open>begin seq\<close> and any calls of \<open>add\<close>, the
  finished datagram decodes to a packet with the padded session, the sequence number and exactly the
  messages that \<open>add\<close> accepted; and \<open>add\<close> accepts a message unless it is empty, longer than a
  length can say, beyond the largest count or beyond the buffer.\<close>

theorem datagram_roundtrip:
  assumes "20 \<le> length buffer" "length buffer < 2 ^ 64"
    and "unat seq + length ms < 2 ^ 64"
  shows "\<exists>oks w w' d p.
    add_all ms (writer_begin seq (writer_new buffer session)) = Some (oks, w)
    \<and> length oks = length ms
    \<and> map snd (filter fst (zip oks ms)) = packed (length buffer) [] ms
    \<and> writer_finish w = Some (d, w') \<and> length d \<le> length buffer
    \<and> decode d out = Some (NoError, p)
    \<and> pk_session p = take 10 (session @ replicate 10 32) \<and> pk_sequence p = seq
    \<and> carries p (packed (length buffer) [] ms)"
proof -
  let ?w = "writer_begin seq (writer_new buffer session)" and ?ms = "packed (length buffer) [] ms"
  have b: "w_buffer ?w = buffer" "w_sequence ?w = seq" by (simp_all add: writer_begin_def writer_new_def)
  from add_all_writes [OF begin_writes [OF assms(1,2), of seq session], of ms]
  obtain oks w where w: "add_all ms ?w = Some (oks, w)" "length oks = length ms"
    "?ms = map snd (filter fst (zip oks ms))" "writes w ?ms" "w_sequence w = seq" "w_session w = w_session ?w"
    by (auto simp: b)
  have sizes: "length (w_session w) = 10" "length ?ms < 65535" "list_all framable ?ms"
    "20 + length (frames ?ms) \<le> length (w_buffer w)" using w(4) by (auto simp: writes_def)
  from finish_writes [OF w(4)] obtain w' where
    f: "writer_finish w = Some (w_session w @ bytes64 seq @ bytes16 (of_nat (length ?ms)) @ frames ?ms, w')"
    by (auto simp: w(5))
  let ?p = "\<lparr>pk_session = w_session w, pk_sequence = seq, pk_count = of_nat (length ?ms), pk_blocks = frames ?ms\<rparr>"
  have "length ?ms \<le> length ms" unfolding w(3) using w(2) length_filter_le [of fst "zip oks ms"] by simp
  then have "unat seq + length ?ms < 2 ^ 64" using assms(3) by linarith
  moreover have "messages ?p = of_nat (length ?ms)"
    using sizes(2) by (simp add: messages_def kEndOfSession_def of_nat_u16_iff)
  ultimately have "decode (w_session w @ bytes64 seq @ bytes16 (of_nat (length ?ms)) @ frames ?ms) out = Some (NoError, ?p)"
    and "carries ?p ?ms"
    using decode_built [OF sizes(1) _ sizes(2,3) refl] by blast+
  moreover have "length (w_buffer w) = length buffer"
    using add_all_length [OF w(1)] b by simp
  ultimately show ?thesis using w f sizes writer_session [of seq buffer session]
    by (intro exI [of _ oks] exI [of _ w] exI [of _ w']
      exI [of _ "w_session w @ bytes64 seq @ bytes16 (of_nat (length ?ms)) @ frames ?ms"] exI [of _ ?p]) simp
qed

lemma datagram_roundtrip_witness:
  "\<exists>oks w w' d p.
    add_all [[83, 1], [], [88]] (writer_begin 7 (writer_new (replicate 30 0) [65])) = Some (oks, w)
    \<and> length oks = length [[83, 1], [], [88 :: u8]]
    \<and> map snd (filter fst (zip oks [[83, 1], [], [88]]))
        = packed (length (replicate 30 (0 :: u8))) [] [[83, 1], [], [88]]
    \<and> writer_finish w = Some (d, w') \<and> length d \<le> length (replicate 30 (0 :: u8))
    \<and> decode d no_packet = Some (NoError, p)
    \<and> pk_session p = take 10 ([65] @ replicate 10 32) \<and> pk_sequence p = 7
    \<and> carries p (packed (length (replicate 30 (0 :: u8))) [] [[83, 1], [], [88]])"
  by (rule datagram_roundtrip) simp_all

text \<open>A heartbeat and an end-of-session datagram announce the next sequence number and carry
  no messages: built over a writer in any state they decode to a packet with that number, which
  \<open>forEachMessage\<close> passes nothing of on.\<close>

theorem control_roundtrip:
  assumes "writes w ms" "count = kHeartbeat \<or> count = kEndOfSession"
  shows "\<exists>d w' p. writer_control seq count w = Some (d, w') \<and> decode d out = Some (NoError, p)
    \<and> pk_session p = w_session w \<and> pk_sequence p = seq \<and> pk_count p = count
    \<and> (heartbeat p \<longleftrightarrow> count = 0) \<and> (endOfSession p \<longleftrightarrow> count = 0xFFFF)
    \<and> forEachMessage fn p s = Some (s :: 's)"
proof -
  let ?p = "\<lparr>pk_session = w_session w, pk_sequence = seq, pk_count = count, pk_blocks = frames []\<rparr>"
  from control_writes [OF assms(1), of seq count] obtain w' where
    w': "writer_control seq count w = Some (w_session w @ bytes64 seq @ bytes16 count @ frames [], w')" by auto
  have "length (w_session w) = 10" using assms(1) by (simp add: writes_def)
  moreover have "messages ?p = of_nat (length ([] :: bytes list))"
    using assms(2) by (auto simp: messages_def kHeartbeat_def kEndOfSession_def)
  ultimately have "decode (w_session w @ bytes64 seq @ bytes16 count @ frames []) out = Some (NoError, ?p)" "carries ?p []"
    using decode_built [of "w_session w" ?p "[]"] unat_u64_less [of seq] by auto
  then show ?thesis using w' forEach_carries [of ?p "[]" fn s] assms(2)
    by (intro exI [of _ "w_session w @ bytes64 seq @ bytes16 count @ frames []"] exI [of _ w'] exI [of _ ?p])
      (auto simp: heartbeat_def endOfSession_def kHeartbeat_def kEndOfSession_def)
qed

lemma control_roundtrip_witness:
  "\<exists>d w' p. writer_control 5 kEndOfSession (writer_begin 1 (writer_new (replicate 20 0) [])) = Some (d, w')
    \<and> decode d no_packet = Some (NoError, p)
    \<and> pk_session p = w_session (writer_begin 1 (writer_new (replicate 20 0) [])) \<and> pk_sequence p = 5
    \<and> pk_count p = kEndOfSession
    \<and> (heartbeat p \<longleftrightarrow> kEndOfSession = 0) \<and> (endOfSession p \<longleftrightarrow> kEndOfSession = 0xFFFF)
    \<and> forEachMessage (\<lambda>_ _ n. Some (n + 1)) p 0 = Some (0 :: nat)"
  by (rule control_roundtrip [where ms = "[]", OF begin_writes]) simp_all

end
