(* ===== verification/Sequencer.thy ===== *)
theory Sequencer
  imports MoldUdp64
begin

text \<open>
  The sequencer of \<open>include/MoldUdp64.hpp\<close>: packets of either feed in, each message once and in
  order out.

  First the class as it is written: its fields, \<open>deliverNew\<close>, \<open>hold\<close>, \<open>drainHeld\<close>,
  \<open>finishIfEnded\<close>, \<open>giveUpGap\<close> and \<open>onPacket\<close>, over 64-bit words, with the \<open>deliver\<close> callback
  a parameter that may fail. Then its contract: a line of naturals that emits events, on which
  the invariants are proved, and the lemma that the class refines it (the callback sees exactly the
  \<open>Delivered\<close> events and every counter counts its event), through which the properties are read off.
\<close>

section \<open>The class\<close>

record sequencer_stats =
  st_packets :: u64
  st_heartbeats :: u64
  st_delivered :: u64
  st_duplicates :: u64
  st_held :: u64
  st_gaps :: u64
  st_lost :: u64
  st_otherSession :: u64

record held_packet =
  h_sequence :: u64
  h_count :: u16
  h_blocks :: bytes

record sequencer =
  sq_next :: u64
  sq_known :: u64
  sq_maxHeld :: nat
  sq_held :: "held_packet list"
  sq_session :: bytes
  sq_haveSession :: bool
  sq_endOfSession :: bool
  sq_ended :: bool
  sq_stats :: sequencer_stats

type_synonym 'h deliver = "u64 \<Rightarrow> bytes \<Rightarrow> 'h \<Rightarrow> 'h option"

definition no_stats :: sequencer_stats where
  "no_stats = \<lparr>st_packets = 0, st_heartbeats = 0, st_delivered = 0, st_duplicates = 0, st_held = 0,
     st_gaps = 0, st_lost = 0, st_otherSession = 0\<rparr>"

definition sequencer_new :: "u64 \<Rightarrow> nat \<Rightarrow> sequencer" where
  "sequencer_new firstSequence maxHeld =
     \<lparr>sq_next = firstSequence, sq_known = 0, sq_maxHeld = maxHeld, sq_held = [],
      sq_session = replicate kSessionBytes 0, sq_haveSession = False, sq_endOfSession = False,
      sq_ended = False, sq_stats = no_stats\<rparr>"

definition gapOpen :: "sequencer \<Rightarrow> bool" where
  "gapOpen q \<longleftrightarrow> sq_known q > sq_next q"

text \<open>The body of the loop of \<open>deliverNew\<close>.\<close>

definition deliver_message :: "'h deliver \<Rightarrow> u64 \<Rightarrow> bytes \<Rightarrow> sequencer \<times> 'h \<Rightarrow> (sequencer \<times> 'h) option" where
  "deliver_message deliver seq message = (\<lambda>(q, h).
     if seq < sq_next q
     then Some (q\<lparr>sq_stats := (sq_stats q)\<lparr>st_duplicates := st_duplicates (sq_stats q) + 1\<rparr>\<rparr>, h)
     else do {
       let q = q\<lparr>sq_next := sq_next q + 1,
                sq_stats := (sq_stats q)\<lparr>st_delivered := st_delivered (sq_stats q) + 1\<rparr>\<rparr>;
       h \<leftarrow> deliver seq message h;
       Some (q, h)
     })"

definition deliverNew ::
  "u64 \<Rightarrow> bytes \<Rightarrow> u16 \<Rightarrow> 'h deliver \<Rightarrow> sequencer \<Rightarrow> 'h \<Rightarrow> (sequencer \<times> 'h) option" where
  "deliverNew sequence blocks count deliver q h =
     (let view = \<lparr>pk_session = replicate kSessionBytes 0, pk_sequence = sequence, pk_count = count,
                  pk_blocks = blocks\<rparr>
      in forEachMessage (deliver_message deliver) view (q, h))"

text \<open>\<open>at\<close> stops at the first held packet whose sequence is not below the new one's.\<close>

fun hold_at :: "u64 \<Rightarrow> held_packet list \<Rightarrow> nat" where
  "hold_at sequence [] = 0"
| "hold_at sequence (h # hs) = (if h_sequence h < sequence then Suc (hold_at sequence hs) else 0)"

definition hold :: "packet \<Rightarrow> sequencer \<Rightarrow> sequencer" where
  "hold p q =
     (let q = q\<lparr>sq_stats := (sq_stats q)\<lparr>st_held := st_held (sq_stats q) + 1\<rparr>\<rparr>;
          at = hold_at (pk_sequence p) (sq_held q)
      in if at \<noteq> length (sq_held q) \<and> h_sequence (sq_held q ! at) = pk_sequence p
            \<and> h_count (sq_held q ! at) \<ge> pk_count p
         then q\<lparr>sq_stats := (sq_stats q)\<lparr>st_duplicates := st_duplicates (sq_stats q) + ucast (pk_count p)\<rparr>\<rparr>
         else q\<lparr>sq_held := take at (sq_held q)
                @ \<lparr>h_sequence = pk_sequence p, h_count = pk_count p, h_blocks = pk_blocks p\<rparr>
                # drop at (sq_held q)\<rparr>)"

text \<open>\<open>drainHeld\<close>: the list is \<open>held_\<close>, from which \<open>deliverNew\<close> itself takes nothing.\<close>

fun drain_loop :: "'h deliver \<Rightarrow> held_packet list \<Rightarrow> sequencer \<Rightarrow> 'h \<Rightarrow> (sequencer \<times> 'h) option" where
  "drain_loop deliver [] q h = Some (q\<lparr>sq_held := []\<rparr>, h)"
| "drain_loop deliver (x # xs) q h =
     (if h_sequence x \<le> sq_next q
      then do {
        (q, h) \<leftarrow> deliverNew (h_sequence x) (h_blocks x) (h_count x) deliver (q\<lparr>sq_held := xs\<rparr>) h;
        drain_loop deliver xs q h
      }
      else Some (q\<lparr>sq_held := x # xs\<rparr>, h))"

definition drainHeld :: "'h deliver \<Rightarrow> sequencer \<Rightarrow> 'h \<Rightarrow> (sequencer \<times> 'h) option" where
  "drainHeld deliver q h = drain_loop deliver (sq_held q) q h"

definition finishIfEnded :: "sequencer \<Rightarrow> sequencer" where
  "finishIfEnded q = (if sq_endOfSession q \<and> \<not> gapOpen q then q\<lparr>sq_ended := True\<rparr> else q)"

definition giveUpGap :: "'h deliver \<Rightarrow> sequencer \<Rightarrow> 'h \<Rightarrow> (sequencer \<times> 'h) option" where
  "giveUpGap deliver q h =
     (let target = (case sq_held q of [] \<Rightarrow> sq_known q | x # _ \<Rightarrow> h_sequence x);
          q = (if target > sq_next q
               then q\<lparr>sq_next := target,
                      sq_stats := (sq_stats q)\<lparr>st_gaps := st_gaps (sq_stats q) + 1,
                        st_lost := st_lost (sq_stats q) + (target - sq_next q)\<rparr>\<rparr>
               else q)
      in do {
        (q, h) \<leftarrow> drainHeld deliver q h;
        Some (finishIfEnded q, h)
      })"

text \<open>\<open>onPacket\<close> from the check of the count on: the packet is of this session.\<close>

definition on_data :: "packet \<Rightarrow> 'h deliver \<Rightarrow> sequencer \<Rightarrow> 'h \<Rightarrow> (sequencer \<times> 'h) option" where
  "on_data p deliver q h =
     (if messages p = 0 then Some (finishIfEnded q, h)
      else do {
        (q, h) \<leftarrow> (if pk_sequence p > sq_next q \<and> length (sq_held q) \<ge> sq_maxHeld q
                   then giveUpGap deliver q h else Some (q, h));
        if pk_sequence p > sq_next q then Some (hold p q, h)
        else do {
          (q, h) \<leftarrow> deliverNew (pk_sequence p) (pk_blocks p) (messages p) deliver q h;
          (q, h) \<leftarrow> drainHeld deliver q h;
          Some (finishIfEnded q, h)
        }
      })"

definition onPacket :: "packet \<Rightarrow> 'h deliver \<Rightarrow> sequencer \<Rightarrow> 'h \<Rightarrow> (sequencer \<times> 'h) option" where
  "onPacket p deliver q h =
     (if sq_haveSession q \<and> pk_session p \<noteq> sq_session q
      then Some (q\<lparr>sq_stats := (sq_stats q)\<lparr>st_otherSession := st_otherSession (sq_stats q) + 1\<rparr>\<rparr>, h)
      else
        let q = (if \<not> sq_haveSession q then q\<lparr>sq_session := pk_session p, sq_haveSession := True\<rparr> else q);
            q = q\<lparr>sq_stats := (sq_stats q)\<lparr>st_packets := st_packets (sq_stats q) + 1\<rparr>\<rparr>;
            past = pk_sequence p + ucast (messages p);
            q = (if past > sq_known q then q\<lparr>sq_known := past\<rparr> else q);
            q = (if heartbeat p
                 then q\<lparr>sq_stats := (sq_stats q)\<lparr>st_heartbeats := st_heartbeats (sq_stats q) + 1\<rparr>\<rparr> else q);
            q = (if endOfSession p then q\<lparr>sq_endOfSession := True\<rparr> else q)
        in on_data p deliver q h)"

section \<open>The contract: a line of numbered messages\<close>

datatype line_event =
  Arrived | Foreign | Heartbeat | Waited | GapLost
  | Delivered nat bytes
  | Duplicate nat
  | Lost nat

fun is_delivered :: "line_event \<Rightarrow> bool" where
  "is_delivered (Delivered n m) = True"
| "is_delivered e = False"

fun is_duplicate :: "line_event \<Rightarrow> bool" where
  "is_duplicate (Duplicate n) = True"
| "is_duplicate e = False"

fun is_lost :: "line_event \<Rightarrow> bool" where
  "is_lost (Lost n) = True"
| "is_lost e = False"

definition tally :: "(line_event \<Rightarrow> bool) \<Rightarrow> line_event list \<Rightarrow> u64" where
  "tally P evs = of_nat (length (filter P evs))"

definition stats_of :: "line_event list \<Rightarrow> sequencer_stats" where
  "stats_of evs = \<lparr>st_packets = tally ((=) Arrived) evs, st_heartbeats = tally ((=) Heartbeat) evs,
     st_delivered = tally is_delivered evs, st_duplicates = tally is_duplicate evs,
     st_held = tally ((=) Waited) evs, st_gaps = tally ((=) GapLost) evs,
     st_lost = tally is_lost evs, st_otherSession = tally ((=) Foreign) evs\<rparr>"

text \<open>What the callback is called with.\<close>

fun delivered :: "line_event list \<Rightarrow> (nat \<times> bytes) list" where
  "delivered [] = []"
| "delivered (Delivered n m # evs) = (n, m) # delivered evs"
| "delivered (e # evs) = delivered evs"

fun replay :: "'h deliver \<Rightarrow> (nat \<times> bytes) list \<Rightarrow> 'h \<Rightarrow> 'h option" where
  "replay d [] h = Some h"
| "replay d ((n, m) # l) h = do { h \<leftarrow> d (of_nat n) m h; replay d l h }"

text \<open>A run of messages: the number of the first and the messages; and its (number, message) pairs.\<close>

type_synonym run = "nat \<times> bytes list"

definition pairs :: "run \<Rightarrow> (nat \<times> bytes) list" where
  "pairs r = zip [fst r ..< fst r + length (snd r)] (snd r)"

definition past :: "run \<Rightarrow> nat" where
  "past r = fst r + length (snd r)"

record line =
  ln_next :: nat
  ln_known :: nat
  ln_limit :: nat
  ln_held :: "run list"
  ln_session :: "bytes option"
  ln_closing :: bool
  ln_ended :: bool

definition line_new :: "nat \<Rightarrow> nat \<Rightarrow> line" where
  "line_new first limit = \<lparr>ln_next = first, ln_known = 0, ln_limit = limit, ln_held = [], ln_session = None,
     ln_closing = False, ln_ended = False\<rparr>"

fun take_run :: "nat \<Rightarrow> run \<Rightarrow> line_event list" where
  "take_run next (s, ms) =
     map Duplicate [s ..< min next (s + length ms)] @ map (\<lambda>(n, m). Delivered n m) (drop (next - s) (pairs (s, ms)))"

definition run_line :: "run \<Rightarrow> line \<Rightarrow> line \<times> line_event list" where
  "run_line r a = (a\<lparr>ln_next := max (ln_next a) (past r)\<rparr>, take_run (ln_next a) r)"

fun drain_line :: "run list \<Rightarrow> line \<Rightarrow> line \<times> line_event list" where
  "drain_line [] a = (a\<lparr>ln_held := []\<rparr>, [])"
| "drain_line (r # rs) a =
     (if fst r \<le> ln_next a
      then let (a, e1) = run_line r (a\<lparr>ln_held := rs\<rparr>); (a, e2) = drain_line rs a in (a, e1 @ e2)
      else (a\<lparr>ln_held := r # rs\<rparr>, []))"

definition hold_line :: "run \<Rightarrow> line \<Rightarrow> line \<times> line_event list" where
  "hold_line r a =
     (let lower = takeWhile (\<lambda>x. fst x < fst r) (ln_held a); upper = dropWhile (\<lambda>x. fst x < fst r) (ln_held a)
      in if upper \<noteq> [] \<and> fst (hd upper) = fst r \<and> length (snd (hd upper)) \<ge> length (snd r)
         then (a, Waited # map Duplicate [fst r ..< past r])
         else (a\<lparr>ln_held := lower @ r # upper\<rparr>, [Waited]))"

definition finish_line :: "line \<Rightarrow> line" where
  "finish_line a = (if ln_closing a \<and> ln_known a \<le> ln_next a then a\<lparr>ln_ended := True\<rparr> else a)"

definition skip_to :: "line \<Rightarrow> nat" where
  "skip_to a = (case ln_held a of [] \<Rightarrow> ln_known a | r # _ \<Rightarrow> fst r)"

definition giveUp_line :: "line \<Rightarrow> line \<times> line_event list" where
  "giveUp_line a =
     (let (a, e1) = (if skip_to a > ln_next a
                     then (a\<lparr>ln_next := skip_to a\<rparr>, GapLost # map Lost [ln_next a ..< skip_to a]) else (a, []));
          (a, e2) = drain_line (ln_held a) a
      in (finish_line a, e1 @ e2))"

definition data_line :: "run \<Rightarrow> line \<Rightarrow> line \<times> line_event list" where
  "data_line r a =
     (if snd r = [] then (finish_line a, [])
      else let (a, e1) = (if fst r > ln_next a \<and> length (ln_held a) \<ge> ln_limit a then giveUp_line a else (a, []))
      in if fst r > ln_next a then let (a, e2) = hold_line r a in (a, e1 @ e2)
         else let (a, e2) = run_line r a; (a, e3) = drain_line (ln_held a) a in (finish_line a, e1 @ e2 @ e3))"

definition line_packet :: "bytes \<Rightarrow> bool \<Rightarrow> bool \<Rightarrow> run \<Rightarrow> line \<Rightarrow> line \<times> line_event list" where
  "line_packet session beat closing r a =
     (if ln_session a \<noteq> None \<and> ln_session a \<noteq> Some session then (a, [Foreign])
      else let (a, e) = data_line r (a\<lparr>ln_session := Some session, ln_known := max (ln_known a) (past r),
                          ln_closing := ln_closing a \<or> closing\<rparr>)
           in (a, Arrived # (if beat then [Heartbeat] else []) @ e))"

section \<open>The class refines it\<close>

definition rep_held :: "held_packet \<Rightarrow> run \<Rightarrow> bool" where
  "rep_held h r \<longleftrightarrow> unat (h_sequence h) = fst r \<and> h_blocks h = frames (snd r) \<and> list_all framable (snd r)
     \<and> unat (h_count h) = length (snd r) \<and> h_count h \<noteq> kEndOfSession \<and> past r < 2 ^ 64"

definition rep :: "sequencer \<Rightarrow> line \<Rightarrow> line_event list \<Rightarrow> bool" where
  "rep q a evs \<longleftrightarrow> unat (sq_next q) = ln_next a \<and> unat (sq_known q) = ln_known a \<and> sq_maxHeld q = ln_limit a
     \<and> list_all2 rep_held (sq_held q) (ln_held a)
     \<and> (sq_haveSession q \<longrightarrow> ln_session a = Some (sq_session q)) \<and> (\<not> sq_haveSession q \<longrightarrow> ln_session a = None)
     \<and> sq_endOfSession q = ln_closing a \<and> sq_ended q = ln_ended a \<and> sq_stats q = stats_of evs"

text \<open>The operation does on the class what \<open>line\<close> does on the line, whatever the callback is.\<close>

definition refines ::
  "('h deliver \<Rightarrow> sequencer \<Rightarrow> 'h \<Rightarrow> (sequencer \<times> 'h) option) \<Rightarrow> (line \<Rightarrow> line \<times> line_event list)
     \<Rightarrow> sequencer \<Rightarrow> line \<Rightarrow> line_event list \<Rightarrow> bool" where
  "refines f g q a evs \<longleftrightarrow> (\<exists>q'. (\<forall>d h. f d q h = map_option (Pair q') (replay d (delivered (snd (g a))) h))
     \<and> rep q' (fst (g a)) (evs @ snd (g a)))"

lemma tally_simps [simp]: "tally P [] = 0" "tally P (e # evs) = (if P e then 1 else 0) + tally P evs"
  "tally P (evs @ evs') = tally P evs + tally P evs'"
  by (simp_all add: tally_def)

lemma delivered_simps [simp]: "delivered (evs @ evs') = delivered evs @ delivered evs'"
  "delivered (map Duplicate ns) = []" "delivered (map Lost ns) = []"
  "delivered (map (\<lambda>(n, m). Delivered n m) l) = l"
proof -
  show "delivered (evs @ evs') = delivered evs @ delivered evs'"
    by (induction evs rule: delivered.induct) auto
  show "delivered (map Duplicate ns) = []" "delivered (map Lost ns) = []" by (induction ns) auto
  show "delivered (map (\<lambda>(n, m). Delivered n m) l) = l" by (induction l) auto
qed

lemma replay_append [simp]: "replay d (l @ l') h = Option.bind (replay d l h) (replay d l')"
  by (induction d l h rule: replay.induct) (auto split: Option.bind_split)

lemma stats_append: "stats_of (evs @ evs') = \<lparr>
     st_packets = st_packets (stats_of evs) + tally ((=) Arrived) evs',
     st_heartbeats = st_heartbeats (stats_of evs) + tally ((=) Heartbeat) evs',
     st_delivered = st_delivered (stats_of evs) + tally is_delivered evs',
     st_duplicates = st_duplicates (stats_of evs) + tally is_duplicate evs',
     st_held = st_held (stats_of evs) + tally ((=) Waited) evs',
     st_gaps = st_gaps (stats_of evs) + tally ((=) GapLost) evs',
     st_lost = st_lost (stats_of evs) + tally is_lost evs',
     st_otherSession = st_otherSession (stats_of evs) + tally ((=) Foreign) evs'\<rparr>"
  by (simp add: stats_of_def)

lemma tally_map [simp]: "tally P (map f l) = of_nat (length (filter (P \<circ> f) l))"
  by (simp add: tally_def filter_map)

lemma refines_seq:
  assumes "refines f g q a evs" and "\<And>q' a' evs'. rep q' a' evs' \<Longrightarrow> refines f' g' q' a' evs'"
  shows "refines (\<lambda>d q h. Option.bind (f d q h) (\<lambda>(q, h). f' d q h))
    (\<lambda>a. let (a, e1) = g a; (a, e2) = g' a in (a, e1 @ e2)) q a evs"
proof -
  from assms(1) obtain q1 where 1: "\<And>d h. f d q h = map_option (Pair q1) (replay d (delivered (snd (g a))) h)"
    "rep q1 (fst (g a)) (evs @ snd (g a))" unfolding refines_def by blast
  from assms(2) [OF 1(2)] obtain q2 where
    2: "\<And>d h. f' d q1 h = map_option (Pair q2) (replay d (delivered (snd (g' (fst (g a))))) h)"
    "rep q2 (fst (g' (fst (g a)))) ((evs @ snd (g a)) @ snd (g' (fst (g a))))" unfolding refines_def by blast
  have "Option.bind (f d q h) (\<lambda>(q, h). f' d q h)
    = map_option (Pair q2) (replay d (delivered (snd (g a) @ snd (g' (fst (g a))))) h)" for d h
    by (cases "replay d (delivered (snd (g a))) h") (simp_all add: 1(1) 2(1))
  then show ?thesis using 2(2) unfolding refines_def by (intro exI [of _ q2]) (simp add: split_beta)
qed

lemma refines_return: "rep q' a' (evs @ e) \<Longrightarrow> g a = (a', e) \<Longrightarrow> delivered e = []
    \<Longrightarrow> (\<And>d h. f d q h = Some (q', h)) \<Longrightarrow> refines f g q a evs"
  unfolding refines_def by (intro exI [of _ q']) simp

lemma pairs_Cons [simp]: "pairs (s, m # ms) = (s, m) # pairs (Suc s, ms)"
  by (simp add: pairs_def upt_conv_Cons del: upt_Suc)

lemma pairs_Nil [simp]: "pairs (s, []) = []"
  by (simp add: pairs_def)

lemma length_pairs [simp]: "length (pairs r) = length (snd r)"
  by (simp add: pairs_def)

lemma fst_pairs [simp]: "map fst (pairs r) = [fst r ..< past r]"
  by (simp add: pairs_def past_def)

lemma past_simp [simp]: "past (s, ms) = s + length ms"
  by (simp add: past_def)

text \<open>\<open>dups\<close> messages dropped and \<open>news\<close> delivered.\<close>

definition advanced :: "nat \<Rightarrow> nat \<Rightarrow> sequencer \<Rightarrow> sequencer" where
  "advanced dups news q = q\<lparr>sq_next := sq_next q + of_nat news,
     sq_stats := (sq_stats q)\<lparr>st_delivered := st_delivered (sq_stats q) + of_nat news,
       st_duplicates := st_duplicates (sq_stats q) + of_nat dups\<rparr>\<rparr>"

lemma advanced_0: "advanced 0 0 q = q"
  by (cases q, cases "sq_stats q") (simp add: advanced_def)

lemma advanced_add: "advanced b y (advanced a x q) = advanced (a + b) (x + y) q"
  by (simp add: advanced_def ac_simps)

lemma unat_Suc64: "Suc (unat (x :: u64)) < 2 ^ 64 \<Longrightarrow> unat (x + 1) = Suc (unat x)"
  by (simp add: unat_word_ariths)

lemma feed_deliver:
  "unat seq = s \<Longrightarrow> s \<le> unat (sq_next q) \<Longrightarrow> s + length ms < 2 ^ 64 \<Longrightarrow>
     feed (deliver_message d) seq ms (q, h)
       = map_option (Pair (advanced (min (unat (sq_next q)) (s + length ms) - s) (s + length ms - unat (sq_next q)) q))
           (replay d (drop (unat (sq_next q) - s) (pairs (s, ms))) h)"
proof (induction ms arbitrary: s seq q h)
  case Nil
  then show ?case by (simp add: advanced_0 min_absorb2)
next
  case (Cons m ms)
  let ?n = "unat (sq_next q)"
  have seq1: "unat (seq + 1) = Suc s" "s + Suc (length ms) < 2 ^ 64"
    using Cons.prems unat_Suc64 [of seq] by simp_all
  show ?case
  proof (cases "s < ?n")
    case True
    then have "seq < sq_next q" using Cons.prems by (simp add: word_less_nat_alt)
    then have "deliver_message d seq m (q, h) = Some (advanced 1 0 q, h)"
      by (simp add: deliver_message_def advanced_def)
    moreover have "sq_next (advanced 1 0 q) = sq_next q" by (simp add: advanced_def)
    moreover have "?n - s = Suc (?n - Suc s)" "1 + (min ?n (Suc s + length ms) - Suc s) = min ?n (s + length (m # ms)) - s"
      using True by simp_all
    ultimately show ?thesis
      using Cons.IH [of "seq + 1" "Suc s" "advanced 1 0 q" h] seq1 True
      by (simp add: advanced_add)
  next
    case False
    then have n: "?n = s" "\<not> seq < sq_next q" "of_nat s = seq"
      using Cons.prems by (auto simp: word_less_nat_alt word_unat_eq_iff)
    have "deliver_message d seq m (q, h) = map_option (Pair (advanced 0 1 q)) (d seq m h)"
      using n by (simp add: deliver_message_def advanced_def Let_def map_conv_bind_option comp_def)
    moreover have "unat (sq_next (advanced 0 1 q)) = Suc s"
      using n seq1 unat_Suc64 [of "sq_next q"] by (simp add: advanced_def)
    ultimately show ?thesis
      using Cons.IH [of "seq + 1" "Suc s" "advanced 0 1 q"] seq1 n
      by (cases "d seq m h") (simp_all add: advanced_add)
  qed
qed

lemma rep_held_carries:
  assumes "rep_held \<lparr>h_sequence = s, h_count = c, h_blocks = b\<rparr> r"
  shows "carries \<lparr>pk_session = sess, pk_sequence = s, pk_count = c, pk_blocks = b\<rparr> (snd r)"
  using assms by (auto simp: rep_held_def carries_def messages_def past_def)

lemma filter_events [simp]:
  "filter (P \<circ> Duplicate) ns = (if P (Duplicate 0) then ns else [])" if "\<And>n. P (Duplicate n) = P (Duplicate 0)" for P
  using that by (auto simp: filter_True filter_False comp_def)

lemma take_run_stats:
  "stats_of (evs @ take_run n (s, ms)) = (stats_of evs)
     \<lparr>st_delivered := st_delivered (stats_of evs) + of_nat (s + length ms - n),
      st_duplicates := st_duplicates (stats_of evs) + of_nat (min n (s + length ms) - s)\<rparr>"
  if "s \<le> n"
proof -
  have "s + length ms - n = length ms - (n - s)" using that by arith
  then show ?thesis by (simp add: stats_append comp_def split_def stats_of_def)
qed

lemma refines_deliver:
  assumes q: "rep q a evs" and r: "rep_held \<lparr>h_sequence = s, h_count = c, h_blocks = b\<rparr> r" and le: "fst r \<le> ln_next a"
  shows "refines (deliverNew s b c :: 'h deliver \<Rightarrow> _) (run_line r) q a evs"
proof -
  have r': "unat s = fst r" "past r < 2 ^ 64" using r by (simp_all add: rep_held_def)
  have n: "unat (sq_next q) = ln_next a" using q by (simp add: rep_def)
  let ?q = "advanced (min (ln_next a) (past r) - fst r) (past r - ln_next a) q"
  have "deliverNew s b c d q h = map_option (Pair ?q) (replay d (drop (ln_next a - fst r) (pairs r)) h)"
    for d :: "'h deliver" and h
    using feed_deliver [of s "fst r" q "snd r" d h] r' le
    by (simp add: deliverNew_def Let_def forEach_carries [OF rep_held_carries [OF r]] n past_def)
  moreover have "drop (ln_next a - fst r) (pairs r) = delivered (snd (run_line r a))"
    by (cases r) (simp add: run_line_def)
  moreover have "rep ?q (fst (run_line r a)) (evs @ snd (run_line r a))"
  proof -
    have "unat (sq_next ?q) = max (ln_next a) (past r)"
    proof -
      have "ln_next a + (past r - ln_next a) = max (ln_next a) (past r)" by simp
      moreover have "max (ln_next a) (past r) < 2 ^ 64" using r'(2) n unat_u64_less [of "sq_next q"] by simp
      ultimately show ?thesis using r'(2) by (simp add: advanced_def unat_word_ariths n unat_of_nat take_bit_eq_mod mod_add_right_eq)
    qed
    moreover have "sq_stats ?q = stats_of (evs @ take_run (ln_next a) r)"
      using q take_run_stats [OF le, of evs "snd r"] by (simp add: advanced_def rep_def past_def)
    ultimately show ?thesis using q by (simp add: rep_def run_line_def advanced_def)
  qed
  ultimately show ?thesis unfolding refines_def by (intro exI [of _ ?q]) simp
qed

lemma refines_cong:
  "refines f0 g0 q0 a0 evs \<Longrightarrow> (\<And>d h. f d q h = f0 d q0 h) \<Longrightarrow> g a = g0 a0 \<Longrightarrow> refines f g q a evs"
  by (simp add: refines_def)

lemma rep_held_held: "rep q a evs \<Longrightarrow> list_all2 rep_held (sq_held q) (ln_held a)"
  by (simp add: rep_def)

lemma rep_next: "rep q a evs \<Longrightarrow> unat (sq_next q) = ln_next a"
  by (simp add: rep_def)

lemma rep_known: "rep q a evs \<Longrightarrow> unat (sq_known q) = ln_known a"
  by (simp add: rep_def)

lemmas rep_fields = rep_held_held rep_next rep_known

lemma refines_drain:
  "list_all2 rep_held xs rs \<Longrightarrow> rep q a evs \<Longrightarrow> refines (\<lambda>d. drain_loop d xs) (drain_line rs) q a evs"
proof (induction xs rs arbitrary: q a evs rule: list_all2_induct)
  case Nil
  then show ?case
    by (intro refines_return [where e = "[]" and q' = "q\<lparr>sq_held := []\<rparr>"]) (simp_all add: rep_def)
next
  case (Cons x xs r rs)
  let ?q = "q\<lparr>sq_held := xs\<rparr>" and ?a = "a\<lparr>ln_held := rs\<rparr>"
  have first: "h_sequence x \<le> sq_next q \<longleftrightarrow> fst r \<le> ln_next a"
    using Cons.hyps Cons.prems by (simp add: rep_held_def rep_def word_le_nat_alt)
  show ?case
  proof (cases "fst r \<le> ln_next a")
    case False
    then show ?thesis using first Cons
      by (intro refines_return [where e = "[]" and q' = "q\<lparr>sq_held := x # xs\<rparr>"]) (simp_all add: rep_def)
  next
    case True
    have "rep ?q ?a evs" using Cons by (simp add: rep_def)
    moreover have "rep_held \<lparr>h_sequence = h_sequence x, h_count = h_count x, h_blocks = h_blocks x\<rparr> r"
      using Cons.hyps(1) by (cases x) simp
    ultimately have "refines (deliverNew (h_sequence x) (h_blocks x) (h_count x) :: 'a deliver \<Rightarrow> _) (run_line r) ?q ?a evs"
      using True by (intro refines_deliver) simp_all
    from refines_seq [OF this Cons.IH] show ?thesis
      by (rule refines_cong) (use True first in \<open>simp_all add: split_def\<close>)
  qed
qed

lemma refines_drainHeld: "rep q a evs \<Longrightarrow> refines drainHeld (\<lambda>a. drain_line (ln_held a) a) q a evs"
  by (rule refines_cong [OF refines_drain [OF rep_held_held]]) (simp_all add: drainHeld_def)

lemma finish_rep: "rep q a evs \<Longrightarrow> rep (finishIfEnded q) (finish_line a) evs"
  by (auto simp: rep_def finishIfEnded_def finish_line_def gapOpen_def word_less_nat_alt)

lemma refines_obtain:
  assumes "refines (f :: 'h deliver \<Rightarrow> _) g q a evs"
  obtains q' where "\<And>d h. f d q h = map_option (Pair q') (replay d (delivered (snd (g a))) h)"
    "rep q' (fst (g a)) (evs @ snd (g a))"
  using assms unfolding refines_def by blast

lemma stats_lost: "stats_of (evs @ GapLost # map Lost [m ..< n]) = (stats_of evs)
    \<lparr>st_gaps := st_gaps (stats_of evs) + 1, st_lost := st_lost (stats_of evs) + of_nat (n - m)\<rparr>"
  by (simp add: stats_append comp_def stats_of_def)

lemma refines_giveUp:
  assumes q: "rep q a evs"
  shows "refines (giveUpGap :: 'h deliver \<Rightarrow> _) giveUp_line q a evs"
proof -
  define t where "t = (case sq_held q of [] \<Rightarrow> sq_known q | x # _ \<Rightarrow> h_sequence x)"
  have t: "unat t = skip_to a"
    using q by (auto simp: t_def skip_to_def rep_def rep_held_def split: list.splits)
  have less: "t > sq_next q \<longleftrightarrow> skip_to a > ln_next a" using t q by (simp add: word_less_nat_alt rep_def)
  define q1 where "q1 = (if t > sq_next q
               then q\<lparr>sq_next := t, sq_stats := (sq_stats q)\<lparr>st_gaps := st_gaps (sq_stats q) + 1,
                        st_lost := st_lost (sq_stats q) + (t - sq_next q)\<rparr>\<rparr> else q)"
  define a1 where "a1 = (if skip_to a > ln_next a then a\<lparr>ln_next := skip_to a\<rparr> else a)"
  define e1 where "e1 = (if skip_to a > ln_next a then GapLost # map Lost [ln_next a ..< skip_to a] else [])"
  have "t - sq_next q = of_nat (skip_to a - ln_next a)" if "t > sq_next q"
  proof -
    have "unat (t - sq_next q) = skip_to a - ln_next a"
      using that q by (simp add: unat_sub t rep_next word_less_nat_alt word_le_nat_alt)
    from this [symmetric] show ?thesis by simp
  qed
  then have "rep q1 a1 (evs @ e1)"
    using q t less by (simp add: rep_def q1_def a1_def e1_def stats_lost)
  then have drain: "refines (drainHeld :: 'h deliver \<Rightarrow> _) (\<lambda>a. drain_line (ln_held a) a) q1 a1 (evs @ e1)"
    by (rule refines_drainHeld)
  have quiet: "delivered e1 = []" by (simp add: e1_def)
  from refines_obtain [OF drain] obtain q2 where
    2: "\<And>d h. drainHeld d q1 h = map_option (Pair q2) (replay (d :: 'h deliver) (delivered (snd (drain_line (ln_held a1) a1))) h)"
    "rep q2 (fst (drain_line (ln_held a1) a1)) ((evs @ e1) @ snd (drain_line (ln_held a1) a1))" by blast
  have line: "giveUp_line a = (finish_line (fst (drain_line (ln_held a1) a1)), e1 @ snd (drain_line (ln_held a1) a1))"
    by (simp add: giveUp_line_def a1_def e1_def Let_def split_def)
  have "giveUpGap d q h = map_option (Pair (finishIfEnded q2)) (replay d (delivered (snd (giveUp_line a))) h)"
    for d :: "'h deliver" and h
  proof -
    have "giveUpGap d q h = map_option (\<lambda>(q, h). (finishIfEnded q, h)) (drainHeld d q1 h)"
      by (simp add: giveUpGap_def q1_def t_def Let_def map_conv_bind_option comp_def split_def)
    then show ?thesis by (simp add: 2(1) line quiet option.map_comp comp_def)
  qed
  moreover have "rep (finishIfEnded q2) (fst (giveUp_line a)) (evs @ snd (giveUp_line a))"
    using finish_rep [OF 2(2)] by (simp add: line)
  ultimately show ?thesis unfolding refines_def by blast
qed

definition rep_packet :: "packet \<Rightarrow> run \<Rightarrow> bool" where
  "rep_packet p r \<longleftrightarrow> carries p (snd r) \<and> unat (pk_sequence p) = fst r"

lemma hold_at_takeWhile: "hold_at s hs = length (takeWhile (\<lambda>h. h_sequence h < s) hs)"
  by (induction hs) simp_all

lemma list_all2_split:
  "list_all2 P xs ys \<Longrightarrow> (\<And>x y. P x y \<Longrightarrow> Q x \<longleftrightarrow> R y) \<Longrightarrow>
     list_all2 P (takeWhile Q xs) (takeWhile R ys) \<and> list_all2 P (dropWhile Q xs) (dropWhile R ys)"
  by (induction xs ys rule: list_all2_induct) auto

lemma rep_packet_held:
  assumes "rep_packet p r" "messages p \<noteq> 0"
  shows "rep_held \<lparr>h_sequence = pk_sequence p, h_count = pk_count p, h_blocks = pk_blocks p\<rparr> r"
    "messages p = pk_count p" "length (snd r) = unat (pk_count p)" "past r < 2 ^ 64"
  using assms by (auto simp: rep_packet_def rep_held_def carries_def messages_def past_def split: if_splits)

lemma refines_hold:
  assumes q: "rep q a evs" and p: "rep_packet p r" "messages p \<noteq> 0"
  shows "refines (\<lambda>d q h. Some (hold p q, h)) (hold_line r) q a evs"
proof -
  let ?x = "\<lparr>h_sequence = pk_sequence p, h_count = pk_count p, h_blocks = pk_blocks p\<rparr>"
  let ?below = "\<lambda>h. h_sequence h < pk_sequence p" and ?lower = "\<lambda>x. fst x < fst r"
  note x = rep_packet_held [OF p]
  have seq: "unat (pk_sequence p) = fst r" using p(1) by (simp add: rep_packet_def)
  have "rep_held h y \<Longrightarrow> ?below h \<longleftrightarrow> ?lower y" for h y
    by (simp add: rep_held_def word_less_nat_alt seq)
  from list_all2_split [OF rep_held_held [OF q], of ?below ?lower, OF this]
  have split: "list_all2 rep_held (takeWhile ?below (sq_held q)) (takeWhile ?lower (ln_held a))"
    "list_all2 rep_held (dropWhile ?below (sq_held q)) (dropWhile ?lower (ln_held a))" by blast+
  let ?at = "hold_at (pk_sequence p) (sq_held q)"
  have parts: "take ?at (sq_held q) = takeWhile ?below (sq_held q)" "drop ?at (sq_held q) = dropWhile ?below (sq_held q)"
    by (simp_all add: hold_at_takeWhile takeWhile_eq_take [symmetric] dropWhile_eq_drop [symmetric])
  have same: "?at \<noteq> length (sq_held q) \<and> h_sequence (sq_held q ! ?at) = pk_sequence p \<and> h_count (sq_held q ! ?at) \<ge> pk_count p
    \<longleftrightarrow> dropWhile ?lower (ln_held a) \<noteq> [] \<and> fst (hd (dropWhile ?lower (ln_held a))) = fst r
        \<and> length (snd (hd (dropWhile ?lower (ln_held a)))) \<ge> length (snd r)"
  proof -
    have "?at \<le> length (sq_held q)" by (simp add: hold_at_takeWhile length_takeWhile_le)
    then have "?at \<noteq> length (sq_held q) \<longleftrightarrow> drop ?at (sq_held q) \<noteq> []" by auto
    moreover have "drop ?at (sq_held q) \<noteq> [] \<Longrightarrow> sq_held q ! ?at = hd (drop ?at (sq_held q))"
      by (simp add: hd_drop_conv_nth)
    moreover have "rep_held h y \<Longrightarrow> h_sequence h = pk_sequence p \<and> h_count h \<ge> pk_count p
        \<longleftrightarrow> fst y = fst r \<and> length (snd y) \<ge> length (snd r)" for h y
      using x(3) seq by (auto simp: rep_held_def word_unat_eq_iff word_le_nat_alt)
    ultimately show ?thesis using split(2) unfolding parts
      by (cases "dropWhile ?below (sq_held q)"; cases "dropWhile ?lower (ln_held a)") auto
  qed
  have waited: "stats_of (evs @ [Waited]) = (stats_of evs)\<lparr>st_held := st_held (stats_of evs) + 1\<rparr>"
    by (simp add: stats_append stats_of_def)
  have dup: "stats_of (evs @ Waited # map Duplicate [fst r ..< past r])
    = (stats_of evs)\<lparr>st_held := st_held (stats_of evs) + 1,
        st_duplicates := st_duplicates (stats_of evs) + ucast (pk_count p)\<rparr>"
    using x(3) by (simp add: stats_append stats_of_def comp_def past_def)
  have "rep (hold p q) (fst (hold_line r a)) (evs @ snd (hold_line r a))"
    using q same split x(1) waited dup
    by (simp add: hold_def hold_line_def Let_def parts rep_def list_all2_appendI del: dropWhile_eq_Nil_conv)
  moreover have "delivered (snd (hold_line r a)) = []" by (simp add: hold_line_def Let_def)
  ultimately show ?thesis unfolding refines_def by (intro exI [of _ "hold p q"]) simp
qed

lemma refines_if:
  "(P \<longleftrightarrow> R) \<Longrightarrow> (R \<Longrightarrow> refines f g q a evs) \<Longrightarrow> (\<not> R \<Longrightarrow> refines f' g' q a evs)
     \<Longrightarrow> refines (\<lambda>d q' h. if P then f d q' h else f' d q' h) (\<lambda>a. if R then g a else g' a) q a evs"
  by (simp add: refines_def)

lemma refines_finish:
  "rep q a evs \<Longrightarrow> refines (\<lambda>d q h. Some (finishIfEnded q, h)) (\<lambda>a. (finish_line a, [])) q a evs"
  by (rule refines_return [where e = "[]"]) (simp_all add: finish_rep)

lemma refines_nothing: "rep q a evs \<Longrightarrow> refines (\<lambda>d q h. Some (q, h)) (\<lambda>a. (a, [])) q a evs"
  by (rule refines_return [where e = "[]"]) simp_all

lemma refines_now:
  assumes q: "rep q a evs" and p: "rep_packet p r" "messages p \<noteq> 0" and le: "fst r \<le> ln_next a"
  shows "refines (\<lambda>d q h. do {
      (q, h) \<leftarrow> deliverNew (pk_sequence p) (pk_blocks p) (messages p) d q h;
      (q, h) \<leftarrow> drainHeld d q h;
      Some (finishIfEnded q, h) } :: (sequencer \<times> 'h) option)
    (\<lambda>a. let (a, e2) = run_line r a; (a, e3) = drain_line (ln_held a) a in (finish_line a, e2 @ e3)) q a evs"
proof -
  note x = rep_packet_held [OF p]
  have 1: "refines (deliverNew (pk_sequence p) (pk_blocks p) (messages p) :: 'h deliver \<Rightarrow> _) (run_line r) q a evs"
    using refines_deliver [OF q x(1) le] by (simp add: x(2))
  have 2: "refines (\<lambda>d q h. Option.bind (drainHeld d q h) (\<lambda>(q, h). Some (finishIfEnded q, h)))
      (\<lambda>a. let (a, e3) = drain_line (ln_held a) a; (a, e4) = (finish_line a, []) in (a, e3 @ e4)) q' a' evs'"
    if "rep q' a' evs'" for q' a' evs'
    using refines_seq [OF refines_drainHeld [OF that] refines_finish] .
  show ?thesis
    using refines_seq [OF 1 2] by (rule refines_cong) (simp_all add: split_def Let_def)
qed

lemma refines_data:
  assumes q: "rep q a evs" and p: "rep_packet p r"
  shows "refines (on_data p :: 'h deliver \<Rightarrow> _) (data_line r) q a evs"
proof (cases "messages p = 0")
  case True
  then have "snd r = []" using p by (simp add: rep_packet_def carries_def)
  then show ?thesis using True
    by (intro refines_cong [OF refines_finish [OF q]]) (simp_all add: on_data_def data_line_def)
next
  case False
  then have some: "snd r \<noteq> []" using rep_packet_held(3) [OF p False] rep_packet_held(2) [OF p False]
    by (auto simp: unat_eq_0)
  have seq: "unat (pk_sequence p) = fst r" using p by (simp add: rep_packet_def)
  have beyond: "pk_sequence p > sq_next q' \<longleftrightarrow> fst r > ln_next a'" if "rep q' a' evs'" for q' a' evs'
    using that seq by (simp add: word_less_nat_alt rep_def)
  have full: "length (sq_held q) \<ge> sq_maxHeld q \<longleftrightarrow> length (ln_held a) \<ge> ln_limit a"
    using list_all2_lengthD [OF rep_held_held [OF q]] q by (simp add: rep_def)
  have 1: "refines (\<lambda>d q' h. if pk_sequence p > sq_next q \<and> length (sq_held q) \<ge> sq_maxHeld q
        then giveUpGap d q' h else Some (q', h) :: (sequencer \<times> 'h) option)
      (\<lambda>a'. if fst r > ln_next a \<and> length (ln_held a) \<ge> ln_limit a then giveUp_line a' else (a', [])) q a evs"
    using q beyond [OF q] full by (intro refines_if refines_giveUp refines_nothing) auto
  have 2: "refines (\<lambda>d q h. if pk_sequence p > sq_next q then Some (hold p q, h)
        else do {
          (q, h) \<leftarrow> deliverNew (pk_sequence p) (pk_blocks p) (messages p) d q h;
          (q, h) \<leftarrow> drainHeld d q h;
          Some (finishIfEnded q, h)
        } :: (sequencer \<times> 'h) option)
      (\<lambda>a. if fst r > ln_next a then hold_line r a
        else let (a, e2) = run_line r a; (a, e3) = drain_line (ln_held a) a in (finish_line a, e2 @ e3)) q' a' evs'"
    if "rep q' a' evs'" for q' a' evs'
    using refines_if [OF beyond [OF that] refines_hold [OF that p False] refines_now [OF that p False]]
    by (rule refines_cong) auto
  show ?thesis
    using refines_seq [OF 1 2] by (rule refines_cong)
      (use False some in \<open>simp_all add: on_data_def data_line_def split_def Let_def\<close>)
qed

text \<open>Whatever the callback, \<open>onPacket\<close> calls it with
  exactly the messages the line delivers, in that order, fails only if the callback fails, and
  leaves the state and the counters of the line's events.\<close>

lemma refines_packet:
  assumes q: "rep q a evs" and p: "rep_packet p r"
  shows "refines (onPacket p :: 'h deliver \<Rightarrow> _)
    (line_packet (pk_session p) (heartbeat p) (endOfSession p) r) q a evs"
proof (cases "sq_haveSession q \<and> pk_session p \<noteq> sq_session q")
  case True
  let ?q = "q\<lparr>sq_stats := (sq_stats q)\<lparr>st_otherSession := st_otherSession (sq_stats q) + 1\<rparr>\<rparr>"
  have "rep ?q a (evs @ [Foreign])" using q by (simp add: rep_def stats_append)
  then show ?thesis using True q
    by (intro refines_return [where e = "[Foreign]" and q' = ?q]) (auto simp: onPacket_def line_packet_def rep_def)
next
  case False
  let ?past = "pk_sequence p + ucast (messages p)"
  let ?q = "q\<lparr>sq_next := sq_next q, sq_known := if ?past > sq_known q then ?past else sq_known q,
     sq_session := pk_session p, sq_haveSession := True, sq_endOfSession := sq_endOfSession q \<or> endOfSession p,
     sq_stats := (sq_stats q)\<lparr>st_packets := st_packets (sq_stats q) + 1,
       st_heartbeats := st_heartbeats (sq_stats q) + (if heartbeat p then 1 else 0)\<rparr>\<rparr>"
  let ?a = "a\<lparr>ln_session := Some (pk_session p), ln_known := max (ln_known a) (past r),
                          ln_closing := ln_closing a \<or> endOfSession p\<rparr>"
  let ?e = "Arrived # (if heartbeat p then [Heartbeat] else [])"
  have "unat ?past = past r"
    using p by (simp add: rep_packet_def carries_def past_def unat_word_ariths unsigned_ucast_eq take_bit_eq_mod)
  then have "rep ?q ?a (evs @ ?e)"
    using q by (simp add: rep_def stats_append word_less_nat_alt max_def)
  from refines_obtain [OF refines_data [OF this p]] obtain q' where
    q': "\<And>d h. on_data p d ?q h = map_option (Pair q') (replay (d :: 'h deliver) (delivered (snd (data_line r ?a))) h)"
      "rep q' (fst (data_line r ?a)) ((evs @ ?e) @ snd (data_line r ?a))" by blast
  have line: "line_packet (pk_session p) (heartbeat p) (endOfSession p) r a
    = (fst (data_line r ?a), ?e @ snd (data_line r ?a))"
    using False q by (auto simp: line_packet_def split_def Let_def rep_def)
  have "onPacket p d q h = on_data p d ?q h" for d :: "'h deliver" and h
    using False by (cases q, cases "sq_stats q") (auto simp: onPacket_def Let_def)
  then show ?thesis using q' unfolding refines_def line
    by (intro exI [of _ q']) simp
qed

section \<open>What the line guarantees\<close>

text \<open>The numbers that an event disposes of, delivered or lost, in order.\<close>

fun spent :: "line_event list \<Rightarrow> nat list" where
  "spent [] = []"
| "spent (Delivered n m # evs) = n # spent evs"
| "spent (Lost n # evs) = n # spent evs"
| "spent (e # evs) = spent evs"

lemma spent_append [simp]: "spent (evs @ evs') = spent evs @ spent evs'"
  by (induction evs rule: spent.induct) auto

lemma spent_simps [simp]: "spent (map Duplicate ns) = []" "spent (map Lost ns) = ns"
  "spent (map (\<lambda>(n, m). Delivered n m) l) = map fst l"
  by (induction ns, auto) (induction l, auto)

definition covered :: "nat \<Rightarrow> run list \<Rightarrow> nat \<Rightarrow> bool" where
  "covered next rs n \<longleftrightarrow> n < next \<or> (\<exists>h\<in>set rs. fst h \<le> n \<and> n < past h)"

definition size_of :: "run list \<Rightarrow> nat" where
  "size_of rs = sum_list (map (\<lambda>r. length (snd r)) rs)"

text \<open>\<open>K\<close> are the runs received so far, \<open>rs\<close> those of them still to be delivered.\<close>

definition line_core :: "nat \<Rightarrow> run list \<Rightarrow> nat \<Rightarrow> run list \<Rightarrow> line_event list \<Rightarrow> bool" where
  "line_core first K next rs evs \<longleftrightarrow> first \<le> next \<and> spent evs = [first ..< next]
     \<and> set (delivered evs) \<subseteq> (\<Union>r\<in>set K. set (pairs r))
     \<and> set rs \<subseteq> set K \<and> sorted (map fst rs) \<and> (\<forall>h\<in>set rs. snd h \<noteq> [])
     \<and> (\<forall>r\<in>set K. \<forall>n. fst r \<le> n \<longrightarrow> n < past r \<longrightarrow> covered next rs n)
     \<and> size_of K = length (filter is_delivered evs) + length (filter is_duplicate evs) + size_of rs"

lemma size_of_simps [simp]: "size_of [] = 0" "size_of (r # rs) = length (snd r) + size_of rs"
  "size_of (rs @ rs') = size_of rs + size_of rs'"
  by (simp_all add: size_of_def)

lemma filter_take_run:
  "fst r \<le> next \<Longrightarrow> length (filter is_delivered (take_run next r)) + length (filter is_duplicate (take_run next r)) = length (snd r)"
  by (cases r) (simp add: filter_map comp_def split_def min_def)

lemma spent_take_run: "fst r \<le> next \<Longrightarrow> spent (take_run next r) = [next ..< max next (past r)]"
proof (cases r)
  case (Pair s ms)
  assume "fst r \<le> next"
  then have "map fst (drop (next - s) (pairs (s, ms))) = [next ..< s + length ms]"
    using Pair by (simp flip: drop_map)
  then show ?thesis using Pair by (simp add: max_def)
qed

lemma upt_join: "i \<le> j \<Longrightarrow> j \<le> k \<Longrightarrow> [i ..< j] @ [j ..< k] = [i ..< k]"
  using upt_add_eq_append [of i j "k - j"] by simp

lemma core_run:
  assumes core: "line_core first K next (r # rs) evs" and le: "fst r \<le> next"
  shows "line_core first K (max next (past r)) rs (evs @ take_run next r)"
proof -
  have "[first ..< next] @ [next ..< max next (past r)] = [first ..< max next (past r)]"
    using core by (intro upt_join) (simp_all add: line_core_def)
  moreover have "set (delivered (take_run next r)) \<subseteq> set (pairs r)"
    by (cases r) (auto dest: in_set_dropD)
  moreover have "covered next (r # rs) n \<Longrightarrow> covered (max next (past r)) rs n" for n
    by (auto simp: covered_def)
  moreover have "length (filter is_delivered (take_run next r)) + length (filter is_duplicate (take_run next r)) = length (snd r)"
    using le by (rule filter_take_run)
  ultimately show ?thesis
    using core spent_take_run [OF le] unfolding line_core_def by (auto simp: max_def) 
qed

definition tidy :: "line \<Rightarrow> bool" where
  "tidy a \<longleftrightarrow> (\<forall>h\<in>set (ln_held a). ln_next a < fst h)"

lemma run_line_held [simp]: "ln_held (fst (run_line r a)) = ln_held a"
  "ln_next (fst (run_line r a)) = max (ln_next a) (past r)" "snd (run_line r a) = take_run (ln_next a) r"
  by (simp_all add: run_line_def)

text \<open>What delivering and draining leave alone.\<close>

definition same_frame :: "line \<Rightarrow> line \<Rightarrow> bool" where
  "same_frame a b \<longleftrightarrow> ln_known a = ln_known b \<and> ln_limit a = ln_limit b \<and> ln_session a = ln_session b
     \<and> ln_closing a = ln_closing b \<and> ln_ended a = ln_ended b"

lemma core_drain:
  "line_core first K (ln_next a) rs evs \<Longrightarrow> drain_line rs a = (a', e) \<Longrightarrow>
     line_core first K (ln_next a') (ln_held a') (evs @ e) \<and> tidy a' \<and> same_frame a' a \<and> ln_next a \<le> ln_next a'
       \<and> (\<forall>x\<in>set e. \<not> is_lost x) \<and> length (ln_held a') \<le> length rs"
proof (induction rs a arbitrary: evs a' e rule: drain_line.induct)
  case (1 a)
  then show ?case by (auto simp: tidy_def same_frame_def)
next
  case (2 r rs a)
  show ?case
  proof (cases "fst r \<le> ln_next a")
    case True
    let ?a = "a\<lparr>ln_held := rs\<rparr>"
    obtain e2 where d: "drain_line rs (fst (run_line r ?a)) = (a', e2)" "e = take_run (ln_next a) r @ e2"
      using 2(3) True by (auto simp: split_def Let_def prod_eq_iff)
    have "line_core first K (ln_next (fst (run_line r ?a))) rs (evs @ take_run (ln_next a) r)"
      using core_run [OF 2(2) True] by simp
    note ih = 2(1) [OF True refl prod.collapse this d(1)]
    have "same_frame (fst (run_line r ?a)) a" by (simp add: same_frame_def run_line_def)
    moreover have "\<not> is_lost x" if "x \<in> set (take_run (ln_next a) r)" for x
      using that by (cases r) auto
    ultimately show ?thesis
      using ih d(2) by (auto simp: same_frame_def)
  next
    case False
    have "\<forall>h\<in>set rs. fst r \<le> fst h" using 2(2) by (simp add: line_core_def)
    then have "\<forall>h\<in>set (r # rs). ln_next a < fst h" using False by fastforce
    moreover have "a' = a\<lparr>ln_held := r # rs\<rparr>" "e = []" using False 2(3) by simp_all
    ultimately show ?thesis using 2(2) by (simp add: tidy_def same_frame_def)
  qed
qed

text \<open>The invariant of the line, with \<open>K\<close> the runs of every packet of the session so far.\<close>

definition line_inv :: "nat \<Rightarrow> run list \<Rightarrow> line \<Rightarrow> line_event list \<Rightarrow> bool" where
  "line_inv first K a evs \<longleftrightarrow> line_core first K (ln_next a) (ln_held a) evs \<and> tidy a
     \<and> ln_known a = Max (insert 0 (past ` set K))
     \<and> (ln_closing a \<longrightarrow> ln_known a \<le> ln_next a \<longrightarrow> ln_ended a)"

lemma line_inv_new: "line_inv first [] (line_new first limit) []"
  by (simp add: line_inv_def line_core_def line_new_def tidy_def)

lemma finish_line_simps [simp]: "ln_next (finish_line a) = ln_next a" "ln_held (finish_line a) = ln_held a"
  "ln_known (finish_line a) = ln_known a" "ln_limit (finish_line a) = ln_limit a"
  "ln_closing (finish_line a) = ln_closing a" "ln_session (finish_line a) = ln_session a"
  "ln_closing a \<longrightarrow> ln_known a \<le> ln_next a \<longrightarrow> ln_ended (finish_line a)"
  "tidy (finish_line a) = tidy a"
  by (simp_all add: finish_line_def tidy_def)

lemma known_above: "r \<in> set K \<Longrightarrow> past r \<le> Max (insert 0 (past ` set K))"
  by simp

text \<open>Giving up a gap skips to the first run held, or to the number announced; what is skipped has
  not been received.\<close>

lemma giveUp_shape:
  "giveUp_line a = (a', e) \<Longrightarrow> \<exists>b e2. drain_line (ln_held a) b = (fst (drain_line (ln_held a) b), e2)
     \<and> ln_held b = ln_held a \<and> same_frame b a \<and> ln_next b = max (ln_next a) (skip_to a)
     \<and> a' = finish_line (fst (drain_line (ln_held a) b))
     \<and> e = (if skip_to a > ln_next a then GapLost # map Lost [ln_next a ..< skip_to a] else []) @ e2"
  by (intro exI [of _ "if skip_to a > ln_next a then a\<lparr>ln_next := skip_to a\<rparr> else a"]
      exI [of _ "snd (drain_line (ln_held a) (if skip_to a > ln_next a then a\<lparr>ln_next := skip_to a\<rparr> else a))"])
    (auto simp: giveUp_line_def Let_def split_def same_frame_def)

lemma core_skip:
  assumes "line_core first K (ln_next a) (ln_held a) evs" "skip_to a > ln_next a"
  shows "line_core first K (skip_to a) (ln_held a) (evs @ GapLost # map Lost [ln_next a ..< skip_to a])"
proof -
  have "[first ..< ln_next a] @ [ln_next a ..< skip_to a] = [first ..< skip_to a]"
    using assms by (intro upt_join) (simp_all add: line_core_def)
  moreover have "covered (ln_next a) (ln_held a) n \<Longrightarrow> covered (skip_to a) (ln_held a) n" for n
    using assms(2) by (auto simp: covered_def)
  ultimately show ?thesis using assms unfolding line_core_def
    by (auto simp: filter_map comp_def)
qed

lemma inv_giveUp:
  assumes inv: "line_core first K (ln_next a) (ln_held a) evs" and g: "giveUp_line a = (a', e)"
  shows "line_core first K (ln_next a') (ln_held a') (evs @ e) \<and> tidy a' \<and> ln_known a' = ln_known a
    \<and> ln_limit a' = ln_limit a \<and> ln_session a' = ln_session a \<and> ln_closing a' = ln_closing a
    \<and> (ln_closing a' \<longrightarrow> ln_known a' \<le> ln_next a' \<longrightarrow> ln_ended a')
    \<and> ln_next a \<le> ln_next a' \<and> skip_to a \<le> ln_next a'
    \<and> filter is_lost e = map Lost [ln_next a ..< skip_to a] \<and> length (ln_held a') \<le> length (ln_held a)"
proof -
  let ?skip = "if skip_to a > ln_next a then GapLost # map Lost [ln_next a ..< skip_to a] else []"
  from giveUp_shape [OF g] obtain b e2 where b: "drain_line (ln_held a) b = (fst (drain_line (ln_held a) b), e2)"
    "ln_held b = ln_held a" "same_frame b a" "ln_next b = max (ln_next a) (skip_to a)"
    "a' = finish_line (fst (drain_line (ln_held a) b))" "e = ?skip @ e2" by blast
  have "line_core first K (ln_next b) (ln_held a) (evs @ ?skip)"
    using inv core_skip [OF inv] b(4) by (auto simp: max_def)
  note d = core_drain [OF this b(1)]
  have "filter is_lost e2 = []" using d by (simp add: filter_empty_conv)
  moreover have "filter is_lost ?skip = map Lost [ln_next a ..< skip_to a]"
    by (simp add: filter_map comp_def)
  ultimately show ?thesis using d b by (simp add: same_frame_def)
qed

lemma core_enter:
  assumes core: "line_core first K next rs evs" and r: "snd r \<noteq> []"
    and sorted: "sorted (map fst (xs @ r # ys))" and rs: "rs = xs @ ys"
  shows "line_core first (K @ [r]) next (xs @ r # ys) evs"
proof -
  have "covered next rs n \<Longrightarrow> covered next (xs @ r # ys) n" for n by (auto simp: covered_def rs)
  moreover have "fst r \<le> n \<Longrightarrow> n < past r \<Longrightarrow> covered next (xs @ r # ys) n" for n by (auto simp: covered_def)
  ultimately show ?thesis
    using core r sorted unfolding line_core_def by (auto simp: rs)
qed

lemma core_drop:
  assumes core: "line_core first K next rs evs" and h: "h \<in> set rs" "fst h = fst r" "length (snd h) \<ge> length (snd r)"
  shows "line_core first (K @ [r]) next rs (evs @ Waited # map Duplicate [fst r ..< past r])"
proof -
  have "fst r \<le> n \<Longrightarrow> n < past r \<Longrightarrow> covered next rs n" for n
    using h by (force simp: covered_def past_def)
  then show ?thesis using core unfolding line_core_def
    by (auto simp: filter_map comp_def past_def)
qed

lemma core_empty: "line_core first K next rs evs \<Longrightarrow> snd r = [] \<Longrightarrow> line_core first (K @ [r]) next rs evs"
  by (auto simp: line_core_def past_def)

text \<open>Events that are no deliveries, losses or duplicates do not matter.\<close>

fun is_note :: "line_event \<Rightarrow> bool" where
  "is_note Arrived = True"
| "is_note Foreign = True"
| "is_note Heartbeat = True"
| "is_note Waited = True"
| "is_note GapLost = True"
| "is_note e = False"

lemma core_note [simp]: "is_note e \<Longrightarrow> line_core first K next rs (evs @ e # evs') = line_core first K next rs (evs @ evs')"
  by (cases e) (simp_all add: line_core_def)

lemma sorted_around:
  "sorted (map fst (rs :: run list)) \<Longrightarrow>
    sorted (map fst (takeWhile (\<lambda>x. fst x < fst r) rs @ r # dropWhile (\<lambda>x. fst x < fst r) rs))"
proof (induction rs)
  case (Cons x xs)
  show ?case
  proof (cases "fst x < fst r")
    case True
    then show ?thesis using Cons by (auto dest: set_takeWhileD set_dropWhileD)
  next
    case False
    then have "fst r \<le> fst x" by simp
    then show ?thesis using Cons.prems by (auto intro: order_trans)
  qed
qed simp

lemma inv_hold:
  assumes core: "line_core first K (ln_next a) (ln_held a) evs" and r: "snd r \<noteq> []" and tidy: "tidy a"
    and beyond: "fst r > ln_next a" and h: "hold_line r a = (a', e)"
  shows "line_core first (K @ [r]) (ln_next a') (ln_held a') (evs @ e) \<and> tidy a' \<and> same_frame a' a
    \<and> ln_next a' = ln_next a \<and> (\<forall>x\<in>set e. \<not> is_lost x) \<and> length (ln_held a') \<le> length (ln_held a) + 1"
proof -
  let ?lower = "takeWhile (\<lambda>x. fst x < fst r) (ln_held a)" and ?upper = "dropWhile (\<lambda>x. fst x < fst r) (ln_held a)"
  have parts: "ln_held a = ?lower @ ?upper" by simp
  show ?thesis
  proof (cases "?upper \<noteq> [] \<and> fst (hd ?upper) = fst r \<and> length (snd (hd ?upper)) \<ge> length (snd r)")
    case True
    have held: "hd ?upper \<in> set (ln_held a)"
      using set_dropWhileD [OF hd_in_set [OF conjunct1 [OF True]]] by blast
    have "hold_line r a = (a, Waited # map Duplicate [fst r ..< past r])"
      using True by (simp add: hold_line_def Let_def del: dropWhile_eq_Nil_conv)
    then have "a' = a" "e = Waited # map Duplicate [fst r ..< past r]" using h by simp_all
    moreover have "\<forall>x\<in>set (Waited # map Duplicate [fst r ..< past r]). \<not> is_lost x" by simp
    ultimately show ?thesis using core_drop [OF core held] True tidy
      by (simp add: same_frame_def del: dropWhile_eq_Nil_conv)
  next
    case False
    then have "hold_line r a = (a\<lparr>ln_held := ?lower @ r # ?upper\<rparr>, [Waited])"
      unfolding hold_line_def Let_def by (rule if_not_P)
    then have a': "a' = a\<lparr>ln_held := ?lower @ r # ?upper\<rparr>" "e = [Waited]" using h by simp_all
    have "sorted (map fst (?lower @ r # ?upper))"
      using core by (intro sorted_around) (simp add: line_core_def)
    from core_enter [OF core r this parts] have "line_core first (K @ [r]) (ln_next a) (?lower @ r # ?upper) (evs @ [])" by simp
    moreover have "length (?lower @ r # ?upper) = length (ln_held a) + 1"
    proof -
      have "length (xs @ r # ys) = length (xs @ ys) + 1" for xs ys by simp
      from this [of ?lower ?upper] show ?thesis by simp
    qed
    moreover have "set (?lower @ r # ?upper) \<subseteq> insert r (set (ln_held a))"
      using set_takeWhileD set_dropWhileD by fastforce
    ultimately show ?thesis using tidy beyond unfolding a' same_frame_def tidy_def
      by (auto dest: set_takeWhileD set_dropWhileD)
  qed
qed

lemma inv_data:
  assumes core: "line_core first K (ln_next a) (ln_held a) evs" and tidy: "tidy a"
    and known: "past r \<le> ln_known a"
    and d: "data_line r a = (a', e)"
  shows "line_core first (K @ [r]) (ln_next a') (ln_held a') (evs @ e) \<and> tidy a' \<and> ln_known a' = ln_known a
    \<and> ln_limit a' = ln_limit a \<and> ln_session a' = ln_session a \<and> ln_closing a' = ln_closing a
    \<and> (ln_closing a' \<longrightarrow> ln_known a' \<le> ln_next a' \<longrightarrow> ln_ended a')
    \<and> (length (ln_held a) < ln_limit a \<longrightarrow> (\<forall>x\<in>set e. \<not> is_lost x))
    \<and> length (ln_held a') \<le> length (ln_held a) + 1"
proof (cases "snd r = []")
  case True
  then show ?thesis using d core_empty [OF core True] tidy by (auto simp: data_line_def)
next
  case some: False
  let ?full = "fst r > ln_next a \<and> length (ln_held a) \<ge> ln_limit a"
  obtain b e1 where b: "(if ?full then giveUp_line a else (a, [])) = (b, e1)" by fastforce
  have b': "line_core first K (ln_next b) (ln_held b) (evs @ e1)" "tidy b" "ln_known b = ln_known a"
    "ln_limit b = ln_limit a" "ln_session b = ln_session a" "ln_closing b = ln_closing a"
    "length (ln_held a) < ln_limit a \<longrightarrow> e1 = []" "length (ln_held b) \<le> length (ln_held a)"
    using b core tidy inv_giveUp [OF core, of b e1] by (auto split: if_splits)
  show ?thesis
  proof (cases "fst r > ln_next b")
    case True
    obtain c e2 where c: "hold_line r b = (c, e2)" by fastforce
    have "a' = c" "e = e1 @ e2" using d some b True c by (auto simp: data_line_def)
    moreover have "ln_next b < past r" using True by (simp add: past_def)
    ultimately show ?thesis using inv_hold [OF b'(1) some b'(2) True c] b'(3-8) known
      by (auto simp: same_frame_def)
  next
    case False
    let ?c = "fst (run_line r b)"
    obtain c e3 where c: "drain_line (ln_held b) ?c = (c, e3)" by fastforce
    have a': "a' = finish_line c" "e = e1 @ take_run (ln_next b) r @ e3"
      using d some b False c by (auto simp: data_line_def split_def)
    have "\<forall>h\<in>set (ln_held b). fst r \<le> fst h" using b'(2) False by (auto simp: tidy_def)
    then have "sorted (map fst ([] @ r # ln_held b))" using b'(1) by (auto simp: line_core_def)
    from core_enter [OF b'(1) some this] have "line_core first (K @ [r]) (ln_next b) (r # ln_held b) (evs @ e1)" by simp
    from core_run [OF this] have "line_core first (K @ [r]) (ln_next ?c) (ln_held b) ((evs @ e1) @ take_run (ln_next b) r)"
      using False by simp
    note e3 = core_drain [OF this c]
    have "same_frame ?c b" by (simp add: same_frame_def run_line_def)
    moreover have "\<not> is_lost x" if "x \<in> set (take_run (ln_next b) r)" for x
      using that by (cases r) auto
    ultimately show ?thesis using e3 b'(3-8) unfolding a'
      by (auto simp: same_frame_def)
  qed
qed

section \<open>Whole runs\<close>

datatype sq_input = InPacket packet | InGiveUp

fun sq_step :: "sq_input \<Rightarrow> 'h deliver \<Rightarrow> sequencer \<Rightarrow> 'h \<Rightarrow> (sequencer \<times> 'h) option" where
  "sq_step (InPacket p) d q h = onPacket p d q h"
| "sq_step InGiveUp d q h = giveUpGap d q h"

fun sq_run :: "sq_input list \<Rightarrow> 'h deliver \<Rightarrow> sequencer \<Rightarrow> 'h \<Rightarrow> (sequencer \<times> 'h) option" where
  "sq_run [] d q h = Some (q, h)"
| "sq_run (i # is) d q h = do { (q, h) \<leftarrow> sq_step i d q h; sq_run is d q h }"

text \<open>The messages of a packet, by its own iterator; a decoded packet carries them.\<close>

definition msgs_of :: "packet \<Rightarrow> bytes list" where
  "msgs_of p = (case forEachMessage (\<lambda>_ m l. Some (l @ [m])) p [] of Some l \<Rightarrow> l | None \<Rightarrow> [])"

definition run_of :: "packet \<Rightarrow> run" where
  "run_of p = (unat (pk_sequence p), msgs_of p)"

fun decoded :: "sq_input \<Rightarrow> bool" where
  "decoded (InPacket p) = carries p (msgs_of p)"
| "decoded InGiveUp = True"

lemma msgs_of_carries: "carries p ms \<Longrightarrow> msgs_of p = ms"
proof -
  have "feed (\<lambda>_ m l. Some (l @ [m])) seq ms acc = Some (acc @ ms)" for seq acc
    by (induction ms arbitrary: seq acc) simp_all
  then show "carries p ms \<Longrightarrow> msgs_of p = ms" by (simp add: msgs_of_def forEach_carries)
qed

lemma decode_decoded: "decode d out = Some (NoError, p) \<Longrightarrow> decoded (InPacket p)"
  using decode_iff msgs_of_carries by fastforce

lemma decoded_rep: "decoded (InPacket p) \<Longrightarrow> rep_packet p (run_of p)"
  by (simp add: rep_packet_def run_of_def)

fun line_step :: "sq_input \<Rightarrow> line \<Rightarrow> line \<times> line_event list" where
  "line_step (InPacket p) a = line_packet (pk_session p) (heartbeat p) (endOfSession p) (run_of p) a"
| "line_step InGiveUp a = giveUp_line a"

fun line_run :: "sq_input list \<Rightarrow> line \<Rightarrow> line \<times> line_event list" where
  "line_run [] a = (a, [])"
| "line_run (i # is) a = (let (a, e1) = line_step i a; (a, e2) = line_run is a in (a, e1 @ e2))"

lemma refines_step: "rep q a evs \<Longrightarrow> decoded i \<Longrightarrow> refines (sq_step i) (line_step i) q a evs"
  by (cases i) (auto intro: refines_cong [OF refines_packet [OF _ decoded_rep]] refines_cong [OF refines_giveUp])

lemma refines_run: "rep q a evs \<Longrightarrow> list_all decoded is \<Longrightarrow> refines (sq_run is) (line_run is) q a evs"
proof (induction "is" arbitrary: q a evs)
  case Nil
  then show ?case by (intro refines_cong [OF refines_nothing]) auto
next
  case (Cons i "is")
  then have i: "decoded i" and rest: "list_all decoded is" by simp_all
  show ?case
    using refines_seq [OF refines_step [OF Cons.prems(1) i] Cons.IH [OF _ rest]]
    by (rule refines_cong) (simp_all add: split_def Let_def)
qed

lemma rep_new: "rep (sequencer_new first limit) (line_new (unat first) limit) []"
  by (simp add: rep_def sequencer_new_def line_new_def stats_of_def no_stats_def)

text \<open>The runs of the packets of the session; the first packet fixes it.\<close>

fun accepted :: "bytes option \<Rightarrow> sq_input list \<Rightarrow> run list" where
  "accepted s [] = []"
| "accepted s (InGiveUp # is) = accepted s is"
| "accepted s (InPacket p # is) =
     (if s = None \<or> s = Some (pk_session p) then run_of p # accepted (Some (pk_session p)) is else accepted s is)"

lemma inv_packet:
  assumes inv: "line_inv first K a evs" and st: "line_packet s beat closing r a = (a', e)"
  shows "line_inv first (if ln_session a = None \<or> ln_session a = Some s then K @ [r] else K) a' (evs @ e)
    \<and> ln_session a' = (if ln_session a = None then Some s else ln_session a) \<and> ln_limit a' = ln_limit a
    \<and> (length (ln_held a) < ln_limit a \<longrightarrow> (\<forall>x\<in>set e. \<not> is_lost x))
    \<and> length (ln_held a') \<le> length (ln_held a) + 1"
proof (cases "ln_session a = None \<or> ln_session a = Some s")
  case True
  let ?a = "a\<lparr>ln_session := Some s, ln_known := max (ln_known a) (past r), ln_closing := ln_closing a \<or> closing\<rparr>"
  obtain e2 where e2: "data_line r ?a = (a', e2)" "e = Arrived # (if beat then [Heartbeat] else []) @ e2"
    using st True by (auto simp: line_packet_def split_def Let_def prod_eq_iff)
  have "line_core first K (ln_next ?a) (ln_held ?a) evs" "tidy ?a" "past r \<le> ln_known ?a"
    using inv by (simp_all add: line_inv_def tidy_def)
  note d = inv_data [OF this e2(1)]
  moreover have "ln_known ?a = Max (insert 0 (past ` set (K @ [r])))"
  proof -
    have "insert 0 (past ` set (K @ [r])) = insert (past r) (insert 0 (past ` set K))" by auto
    moreover have "Max (insert (past r) (insert 0 (past ` set K))) = max (past r) (Max (insert 0 (past ` set K)))"
      by (rule Max_insert) simp_all
    moreover have "ln_known a = Max (insert 0 (past ` set K))" using inv unfolding line_inv_def by blast
    ultimately have "Max (insert 0 (past ` set (K @ [r]))) = max (ln_known a) (past r)"
      by (simp only: max.commute)
    then show ?thesis by simp
  qed
  ultimately show ?thesis using True e2(2) by (auto simp: line_inv_def)
next
  case False
  then have "a' = a" "e = [Foreign]" using st by (auto simp: line_packet_def)
  then show ?thesis using False inv by (auto simp: line_inv_def)
qed

lemma inv_run:
  "line_inv first K a evs \<Longrightarrow> line_run is a = (a', e) \<Longrightarrow>
     line_inv first (K @ accepted (ln_session a) is) a' (evs @ e)
     \<and> (InGiveUp \<notin> set is \<longrightarrow> length (ln_held a) + length is \<le> ln_limit a \<longrightarrow> (\<forall>x\<in>set e. \<not> is_lost x))"
proof (induction "is" arbitrary: K a evs e)
  case Nil
  then show ?case by simp
next
  case (Cons i "is")
  obtain b e1 where b: "line_step i a = (b, e1)" by fastforce
  have "line_run is b = (a', snd (line_run is b))" "e = e1 @ snd (line_run is b)"
    using Cons.prems(2) b by (auto simp: split_def Let_def)
  then obtain e2 where e2: "line_run is b = (a', e2)" "e = e1 @ e2" by blast
  show ?case
  proof (cases i)
    case InGiveUp
    then have "giveUp_line a = (b, e1)" using b by simp
    from inv_giveUp [OF _ this] have "line_inv first K b (evs @ e1)" "ln_session b = ln_session a"
      using Cons.prems(1) by (auto simp: line_inv_def)
    with Cons.IH [OF this(1) e2(1)] show ?thesis using e2(2) InGiveUp by simp
  next
    case (InPacket p)
    then have "line_packet (pk_session p) (heartbeat p) (endOfSession p) (run_of p) a = (b, e1)" using b by simp
    note p = inv_packet [OF Cons.prems(1) this]
    from Cons.IH [OF conjunct1 [OF p] e2(1)] show ?thesis using p e2(2) InPacket
      by (auto split: if_splits)
  qed
qed

lemma run_facts:
  assumes "list_all decoded is"
  obtains q a evs where
    "\<And>d h. sq_run is (d :: 'h deliver) (sequencer_new first limit) h = map_option (Pair q) (replay d (delivered evs) h)"
    "rep q a evs" "line_inv (unat first) (accepted None is) a evs"
    "InGiveUp \<notin> set is \<longrightarrow> length is \<le> limit \<longrightarrow> (\<forall>x\<in>set evs. \<not> is_lost x)"
proof -
  let ?l = "line_new (unat first) limit"
  from refines_obtain [OF refines_run [OF rep_new assms]] obtain q where
    q: "\<And>d h. sq_run is (d :: 'h deliver) (sequencer_new first limit) h
       = map_option (Pair q) (replay d (delivered (snd (line_run is ?l))) h)"
      "rep q (fst (line_run is ?l)) ([] @ snd (line_run is ?l))" by blast
  have "line_inv (unat first) ([] @ accepted (ln_session ?l) is) (fst (line_run is ?l)) ([] @ snd (line_run is ?l))
    \<and> (InGiveUp \<notin> set is \<longrightarrow> length (ln_held ?l) + length is \<le> ln_limit ?l \<longrightarrow> (\<forall>x\<in>set (snd (line_run is ?l)). \<not> is_lost x))"
    by (rule inv_run [OF line_inv_new prod.collapse [symmetric]])
  then have "line_inv (unat first) (accepted None is) (fst (line_run is ?l)) (snd (line_run is ?l))"
    "InGiveUp \<notin> set is \<longrightarrow> length is \<le> limit \<longrightarrow> (\<forall>x\<in>set (snd (line_run is ?l)). \<not> is_lost x)"
    by (simp_all add: line_new_def)
  with q show thesis by (intro that) simp_all
qed

text \<open>The callback that keeps a log.\<close>

definition record_message :: "(nat \<times> bytes) list deliver" where
  "record_message n m log = Some (log @ [(unat n, m)])"

lemma replay_record:
  "\<forall>x\<in>set l. fst x < 2 ^ 64 \<Longrightarrow> replay record_message l log = Some (log @ l)"
  by (induction l arbitrary: log) (auto simp: record_message_def)

fun lost_numbers :: "line_event list \<Rightarrow> nat list" where
  "lost_numbers [] = []"
| "lost_numbers (Lost n # evs) = n # lost_numbers evs"
| "lost_numbers (e # evs) = lost_numbers evs"

lemma spent_split:
  "set (spent evs) = set (map fst (delivered evs)) \<union> set (lost_numbers evs)
   \<and> length (spent evs) = length (delivered evs) + length (lost_numbers evs)
   \<and> (distinct (spent evs) \<longrightarrow> set (map fst (delivered evs)) \<inter> set (lost_numbers evs) = {})
   \<and> (sorted_wrt (<) (spent evs) \<longrightarrow> sorted_wrt (<) (map fst (delivered evs)) \<and> sorted_wrt (<) (lost_numbers evs))"
  by (induction evs rule: spent.induct) auto

lemma count_delivered: "length (filter is_delivered evs) = length (delivered evs)"
  by (induction evs rule: delivered.induct) simp_all

lemma count_lost: "length (filter is_lost evs) = length (lost_numbers evs)"
  "(\<forall>x\<in>set evs. \<not> is_lost x) \<longleftrightarrow> lost_numbers evs = []"
  "lost_numbers evs = [] \<longrightarrow> map fst (delivered evs) = spent evs"
  by (induction evs rule: spent.induct) simp_all

lemmas event_counts = count_delivered count_lost

lemma run_log:
  assumes "list_all decoded is"
  obtains q a evs where
    "sq_run is record_message (sequencer_new first limit) [] = Some (q, delivered evs)"
    "rep q a evs" "line_inv (unat first) (accepted None is) a evs"
    "InGiveUp \<notin> set is \<longrightarrow> length is \<le> limit \<longrightarrow> lost_numbers evs = []"
    "set (map fst (delivered evs)) \<union> set (lost_numbers evs) = {unat first ..< unat (sq_next q)}"
    "set (map fst (delivered evs)) \<inter> set (lost_numbers evs) = {}"
    "sorted_wrt (<) (map fst (delivered evs))" "sorted_wrt (<) (lost_numbers evs)"
    "lost_numbers evs = [] \<longrightarrow> map fst (delivered evs) = [unat first ..< unat (sq_next q)]"
proof -
  obtain q a evs where
    q: "\<And>d h. sq_run is (d :: (nat \<times> bytes) list deliver) (sequencer_new first limit) h = map_option (Pair q) (replay d (delivered evs) h)"
    "rep q a evs" "line_inv (unat first) (accepted None is) a evs"
    "InGiveUp \<notin> set is \<longrightarrow> length is \<le> limit \<longrightarrow> (\<forall>x\<in>set evs. \<not> is_lost x)"
    by (rule run_facts [OF assms, where first = first and limit = limit]) blast
  have next_eq: "ln_next a = unat (sq_next q)" using rep_next [OF q(2)] by simp
  have spent: "spent evs = [unat first ..< unat (sq_next q)]"
    using q(3) unfolding line_inv_def line_core_def next_eq by blast
  have "sorted_wrt (<) (spent evs)" "distinct (spent evs)" by (simp_all add: spent)
  note split = spent_split [of evs]
  have "\<forall>x\<in>set (delivered evs). fst x < 2 ^ 64"
  proof
    fix x assume "x \<in> set (delivered evs)"
    then have "fst x \<in> set (spent evs)" using split by simp
    then show "fst x < 2 ^ 64" using unat_u64_less [of "sq_next q"] by (simp add: spent)
  qed
  then have "sq_run is record_message (sequencer_new first limit) [] = Some (q, delivered evs)"
    by (simp add: q(1) replay_record)
  moreover have "lost_numbers evs = [] \<longrightarrow> map fst (delivered evs) = [unat first ..< unat (sq_next q)]"
    using count_lost(3) [of evs] by (simp only: spent)
  ultimately show thesis
    using q(2-4) split \<open>sorted_wrt (<) (spent evs)\<close> \<open>distinct (spent evs)\<close>
    by (intro that [of q evs a]) (simp_all add: spent event_counts)
qed

lemma pairs_range: "x \<in> set (pairs r) \<Longrightarrow> fst r \<le> fst x \<and> fst x < past r"
  by (cases x) (auto simp: pairs_def past_def dest!: set_zip_leftD)

text \<open>C4. Exactly once and in order. Whatever packets of whatever feeds arrive in whatever order, with
  gaps given up at any time, the numbers delivered strictly increase; with the numbers counted as lost
  they make up exactly the range from the first number to the next one expected; every delivered
  message was carried under its number by a packet of the session; the counters of delivered and
  lost messages are exact; and every message received was delivered, counted as a duplicate, or is
  still held.\<close>

theorem delivers_each_once_in_order:
  assumes "list_all decoded is"
  shows "\<exists>q log lost. sq_run is record_message (sequencer_new first limit) [] = Some (q, log)
    \<and> sorted_wrt (<) (map fst log)
    \<and> set (map fst log) \<union> set lost = {unat first ..< unat (sq_next q)} \<and> set (map fst log) \<inter> set lost = {}
    \<and> (\<forall>x\<in>set log. \<exists>r\<in>set (accepted None is). x \<in> set (pairs r))
    \<and> st_delivered (sq_stats q) = of_nat (length log)
    \<and> sorted_wrt (<) lost \<and> st_lost (sq_stats q) = of_nat (length lost)
    \<and> of_nat (size_of (accepted None is)) = st_delivered (sq_stats q) + st_duplicates (sq_stats q)
        + of_nat (sum_list (map (\<lambda>h. unat (h_count h)) (sq_held q)))"
proof -
  obtain q a evs where
    q: "sq_run is record_message (sequencer_new first limit) [] = Some (q, delivered evs)"
    "rep q a evs" "line_inv (unat first) (accepted None is) a evs"
    "InGiveUp \<notin> set is \<longrightarrow> length is \<le> limit \<longrightarrow> lost_numbers evs = []"
    "set (map fst (delivered evs)) \<union> set (lost_numbers evs) = {unat first ..< unat (sq_next q)}"
    "set (map fst (delivered evs)) \<inter> set (lost_numbers evs) = {}"
    "sorted_wrt (<) (map fst (delivered evs))" "sorted_wrt (<) (lost_numbers evs)"
    "lost_numbers evs = [] \<longrightarrow> map fst (delivered evs) = [unat first ..< unat (sq_next q)]"
    by (rule run_log [OF assms, where first = first and limit = limit])
  have stats: "sq_stats q = stats_of evs" using q(2) by (simp add: rep_def)
  have "list_all2 rep_held hs rs \<Longrightarrow> size_of rs = sum_list (map (\<lambda>h. unat (h_count h)) hs)" for hs rs
    by (induction hs rs rule: list_all2_induct) (auto simp: rep_held_def)
  from this [OF rep_held_held [OF q(2)]]
  have "size_of (accepted None is) = length (filter is_delivered evs) + length (filter is_duplicate evs)
      + sum_list (map (\<lambda>h. unat (h_count h)) (sq_held q))"
    using q(3) by (simp add: line_inv_def line_core_def)
  moreover have "\<forall>x\<in>set (delivered evs). \<exists>r\<in>set (accepted None is). x \<in> set (pairs r)"
    using q(3) unfolding line_inv_def line_core_def by blast
  ultimately show ?thesis using q
    by (intro exI [of _ q] exI [of _ "delivered evs"] exI [of _ "lost_numbers evs"])
      (simp add: stats stats_of_def tally_def event_counts)
qed

text \<open>C11. Nothing is lost by waiting. If no gap is given up and no more packets arrive than may be
  held, the numbers delivered are all those from the first on up to the first that no packet carried.\<close>

theorem delivers_received_prefix:
  assumes "list_all decoded is" "InGiveUp \<notin> set is" "length is \<le> limit"
  shows "\<exists>q log. sq_run is record_message (sequencer_new first limit) [] = Some (q, log)
    \<and> map fst log = [unat first ..< unat (sq_next q)]
    \<and> (\<forall>n. unat first \<le> n \<longrightarrow> n < unat (sq_next q) \<longrightarrow> (\<exists>r\<in>set (accepted None is). fst r \<le> n \<and> n < past r))
    \<and> (\<forall>r\<in>set (accepted None is). \<not> (fst r \<le> unat (sq_next q) \<and> unat (sq_next q) < past r))
    \<and> st_lost (sq_stats q) = 0 \<and> st_delivered (sq_stats q) = of_nat (length log)"
proof -
  obtain q a evs where
    facts: "sq_run is record_message (sequencer_new first limit) [] = Some (q, delivered evs)"
    "rep q a evs" "line_inv (unat first) (accepted None is) a evs"
    "InGiveUp \<notin> set is \<longrightarrow> length is \<le> limit \<longrightarrow> lost_numbers evs = []"
    "set (map fst (delivered evs)) \<union> set (lost_numbers evs) = {unat first ..< unat (sq_next q)}"
    "set (map fst (delivered evs)) \<inter> set (lost_numbers evs) = {}"
    "sorted_wrt (<) (map fst (delivered evs))" "sorted_wrt (<) (lost_numbers evs)"
    "lost_numbers evs = [] \<longrightarrow> map fst (delivered evs) = [unat first ..< unat (sq_next q)]"
    by (rule run_log [OF assms(1), where first = first and limit = limit])
  then have q: "sq_run is record_message (sequencer_new first limit) [] = Some (q, delivered evs)"
    "rep q a evs" "line_inv (unat first) (accepted None is) a evs" "lost_numbers evs = []"
    "map fst (delivered evs) = [unat first ..< unat (sq_next q)]" using assms(2,3) by simp_all
  have next_eq: "ln_next a = unat (sq_next q)" using rep_next [OF q(2)] by simp
  have core: "line_core (unat first) (accepted None is) (unat (sq_next q)) (ln_held a) evs" "tidy a"
    using q(3) by (simp_all add: line_inv_def next_eq)
  have "\<exists>r\<in>set (accepted None is). fst r \<le> n \<and> n < past r" if n: "unat first \<le> n" "n < unat (sq_next q)" for n
  proof -
    have "n \<in> set (map fst (delivered evs))" using n by (simp add: q(5))
    then obtain x where x: "x \<in> set (delivered evs)" "n = fst x" unfolding set_map by blast
    have "set (delivered evs) \<subseteq> (\<Union>r\<in>set (accepted None is). set (pairs r))"
      using core(1) unfolding line_core_def by blast
    then obtain r where "r \<in> set (accepted None is)" "x \<in> set (pairs r)" using x(1) by blast
    then show ?thesis using pairs_range x(2) by blast
  qed
  moreover have "\<not> (fst r \<le> unat (sq_next q) \<and> unat (sq_next q) < past r)" if "r \<in> set (accepted None is)" for r
    using core that by (fastforce simp: line_core_def covered_def tidy_def next_eq)
  moreover have "sq_stats q = stats_of evs" using q(2) by (simp add: rep_def)
  ultimately show ?thesis using q
    by (intro exI [of _ q] exI [of _ "delivered evs"]) (simp add: stats_of_def tally_def event_counts)
qed

text \<open>C25. Giving up is the only loss and loses only what never came. \<open>giveUpGap\<close> after any run moves
  past the gap if one is open; the numbers it adds to the lost ones are those from the next expected
  number to where delivery resumes, and no packet of the session carried any of them.\<close>

theorem giveUp_loses_only_missing:
  assumes "list_all decoded is"
  shows "\<exists>q log q' new. sq_run is record_message (sequencer_new first limit) [] = Some (q, log)
    \<and> giveUpGap record_message q log = Some (q', log @ new)
    \<and> (gapOpen q \<longrightarrow> sq_next q < sq_next q')
    \<and> (\<exists>target. st_lost (sq_stats q') = st_lost (sq_stats q) + of_nat (target - unat (sq_next q))
        \<and> target \<le> unat (sq_next q')
        \<and> (\<forall>r\<in>set (accepted None is). \<forall>n. unat (sq_next q) \<le> n \<longrightarrow> n < target \<longrightarrow> \<not> (fst r \<le> n \<and> n < past r)))"
proof -
  obtain q a evs where
    q: "sq_run is record_message (sequencer_new first limit) [] = Some (q, delivered evs)"
    "rep q a evs" "line_inv (unat first) (accepted None is) a evs"
    "InGiveUp \<notin> set is \<longrightarrow> length is \<le> limit \<longrightarrow> lost_numbers evs = []"
    "set (map fst (delivered evs)) \<union> set (lost_numbers evs) = {unat first ..< unat (sq_next q)}"
    "set (map fst (delivered evs)) \<inter> set (lost_numbers evs) = {}"
    "sorted_wrt (<) (map fst (delivered evs))" "sorted_wrt (<) (lost_numbers evs)"
    "lost_numbers evs = [] \<longrightarrow> map fst (delivered evs) = [unat first ..< unat (sq_next q)]"
    by (rule run_log [OF assms, where first = first and limit = limit])
  note fields = rep_next [OF q(2)] rep_known [OF q(2)]
  have core: "line_core (unat first) (accepted None is) (ln_next a) (ln_held a) evs" "tidy a"
    and known: "ln_known a = Max (insert 0 (past ` set (accepted None is)))"
    using q(3) by (simp_all add: line_inv_def)
  obtain b e where b: "giveUp_line a = (b, e)" by fastforce
  note g = inv_giveUp [OF core(1) b]
  from refines_obtain [OF refines_giveUp [OF q(2)]] obtain q' where
    q': "\<And>d h. giveUpGap d q h = map_option (Pair q') (replay (d :: (nat \<times> bytes) list deliver) (delivered e) h)"
    "rep q' b (evs @ e)" unfolding b fst_conv snd_conv by blast
  have "\<forall>x\<in>set (delivered e). fst x < 2 ^ 64"
  proof
    fix x assume "x \<in> set (delivered e)"
    then have "fst x \<in> set (spent (evs @ e))" using spent_split [of "evs @ e"] by simp
    moreover have "spent (evs @ e) = [unat first ..< ln_next b]" using g unfolding line_core_def by blast
    ultimately have "fst x \<in> set [unat first ..< ln_next b]" by (simp only:)
    then have "fst x < ln_next b" by simp
    then show "fst x < 2 ^ 64" using unat_u64_less [of "sq_next q'"] rep_next [OF q'(2)] by simp
  qed
  then have run: "giveUpGap record_message q (delivered evs) = Some (q', delivered evs @ delivered e)"
    by (simp add: q'(1) replay_record)
  have beyond: "\<forall>h\<in>set (ln_held a). skip_to a \<le> fst h"
    using core(1) by (cases "ln_held a") (auto simp: skip_to_def line_core_def)
  have missing: "\<not> (fst r \<le> n \<and> n < past r)"
    if r: "r \<in> set (accepted None is)" "ln_next a \<le> n" "n < skip_to a" for r n
  proof
    assume "fst r \<le> n \<and> n < past r"
    then have "covered (ln_next a) (ln_held a) n" using core(1) r(1) unfolding line_core_def by blast
    then show False using r beyond by (force simp: covered_def)
  qed
  have "st_lost (sq_stats q') = st_lost (sq_stats q) + of_nat (skip_to a - ln_next a)"
  proof -
    have "length (filter is_lost e) = skip_to a - ln_next a" using g by simp
    then show ?thesis using q(2) q'(2) by (simp add: rep_def stats_of_def tally_def)
  qed
  moreover have "sq_next q < sq_next q'" if "gapOpen q"
  proof -
    have "ln_next a < skip_to a"
      using that core fields by (auto simp: gapOpen_def word_less_nat_alt skip_to_def tidy_def split: list.split)
    then show ?thesis using g rep_next [OF q'(2)] fields by (simp add: word_less_nat_alt)
  qed
  ultimately show ?thesis using q(1) run missing g rep_next [OF q'(2)] fields
    by (intro exI [of _ q] exI [of _ "delivered evs"] exI [of _ q'] exI [of _ "delivered e"] conjI
        exI [of _ "skip_to a"]) simp_all
qed

text \<open>C33. \<open>gapOpen\<close> says whether a number that was announced (by a message, a heartbeat or the end of
  the session) has not been disposed of; and once the end of the session has been announced,
  \<open>ended\<close> is set as soon as no gap is open.\<close>

theorem gapOpen_exact:
  assumes "list_all decoded is"
  shows "\<exists>q log. sq_run is record_message (sequencer_new first limit) [] = Some (q, log)
    \<and> (gapOpen q \<longleftrightarrow> (\<exists>r\<in>set (accepted None is). unat (sq_next q) < past r))
    \<and> (sq_endOfSession q \<and> \<not> gapOpen q \<longrightarrow> sq_ended q)
    \<and> (sq_held q \<noteq> [] \<longrightarrow> gapOpen q)"
proof -
  obtain q a evs where
    q: "sq_run is record_message (sequencer_new first limit) [] = Some (q, delivered evs)"
    "rep q a evs" "line_inv (unat first) (accepted None is) a evs"
    "InGiveUp \<notin> set is \<longrightarrow> length is \<le> limit \<longrightarrow> lost_numbers evs = []"
    "set (map fst (delivered evs)) \<union> set (lost_numbers evs) = {unat first ..< unat (sq_next q)}"
    "set (map fst (delivered evs)) \<inter> set (lost_numbers evs) = {}"
    "sorted_wrt (<) (map fst (delivered evs))" "sorted_wrt (<) (lost_numbers evs)"
    "lost_numbers evs = [] \<longrightarrow> map fst (delivered evs) = [unat first ..< unat (sq_next q)]"
    by (rule run_log [OF assms, where first = first and limit = limit])
  note fields = rep_next [OF q(2)] rep_known [OF q(2)]
  let ?K = "accepted None is"
  have known: "ln_known a = Max (insert 0 (past ` set ?K))" using q(3) unfolding line_inv_def by blast
  have gap: "gapOpen q \<longleftrightarrow> ln_next a < ln_known a" using fields by (simp add: gapOpen_def word_less_nat_alt)
  also have "\<dots> \<longleftrightarrow> (\<exists>r\<in>set ?K. ln_next a < past r)"
    unfolding known by (subst Max_gr_iff) auto
  finally have "gapOpen q \<longleftrightarrow> (\<exists>r\<in>set ?K. unat (sq_next q) < past r)" by (simp add: fields)
  moreover have "sq_endOfSession q \<and> \<not> gapOpen q \<longrightarrow> sq_ended q"
    using q(2,3) gap by (auto simp: rep_def line_inv_def)
  moreover have "sq_held q \<noteq> [] \<longrightarrow> (\<exists>r\<in>set ?K. ln_next a < past r)"
  proof
    assume "sq_held q \<noteq> []"
    then obtain h where "h \<in> set (ln_held a)" using rep_held_held [OF q(2)] by (cases "ln_held a") auto
    then have "h \<in> set ?K" "ln_next a < fst h" using q(3) by (auto simp: line_inv_def line_core_def tidy_def)
    then show "\<exists>r\<in>set ?K. ln_next a < past r" by (intro bexI [of _ h]) (simp_all add: past_def)
  qed
  ultimately show ?thesis using q(1) by (intro exI [of _ q] exI [of _ "delivered evs"]) (simp add: fields)
qed

text \<open>C18. The sequencer refines its contract: whatever the callback, a run calls it with exactly the
  messages the line delivers, in that order, stops only if the callback does, and leaves the fields and
  the counters that the line and its events say.\<close>

theorem sequencer_refines_line:
  assumes "list_all decoded is"
  shows "\<exists>q. (\<forall>(d :: 'h deliver) h. sq_run is d (sequencer_new first limit) h
      = map_option (Pair q) (replay d (delivered (snd (line_run is (line_new (unat first) limit)))) h))
    \<and> rep q (fst (line_run is (line_new (unat first) limit))) (snd (line_run is (line_new (unat first) limit)))"
  using refines_run [OF rep_new assms, of first limit] unfolding refines_def append_Nil .

section \<open>Runs on concrete packets\<close>

definition data_packet :: "u64 \<Rightarrow> bytes list \<Rightarrow> packet" where
  "data_packet sequence ms = \<lparr>pk_session = replicate kSessionBytes 32, pk_sequence = sequence,
     pk_count = of_nat (length ms), pk_blocks = frames ms\<rparr>"

lemma data_packet_carries:
  assumes "list_all framable ms" "length ms < 65535" "unat sequence + length ms < 2 ^ 64"
  shows "carries (data_packet sequence ms) ms" "decoded (InPacket (data_packet sequence ms))"
    "run_of (data_packet sequence ms) = (unat sequence, ms)"
proof -
  have "messages (data_packet sequence ms) = of_nat (length ms)"
    using assms(2) by (simp add: messages_def kEndOfSession_def data_packet_def of_nat_u16_iff)
  then show c: "carries (data_packet sequence ms) ms"
    using assms by (simp add: carries_def data_packet_def unat_of_nat take_bit_eq_mod)
  then show "decoded (InPacket (data_packet sequence ms))" by (simp add: msgs_of_carries)
  show "run_of (data_packet sequence ms) = (unat sequence, ms)"
    using msgs_of_carries [OF c] by (simp add: run_of_def data_packet_def)
qed

lemma line_step_data:
  assumes "list_all framable ms" "length ms < 65535" "unat sequence + length ms < 2 ^ 64"
  shows "line_step (InPacket (data_packet sequence ms)) a
    = line_packet (replicate kSessionBytes 32) (ms = []) False (unat sequence, ms) a"
  using data_packet_carries(3) [OF assms] assms(2)
  by (simp add: data_packet_def heartbeat_def endOfSession_def kHeartbeat_def kEndOfSession_def of_nat_u16_iff)

text \<open>Two packets out of order and one twice.\<close>

definition sample_feed :: "sq_input list" where
  "sample_feed = [InPacket (data_packet 3 [[67]]), InPacket (data_packet 1 [[65], [66]]),
     InPacket (data_packet 3 [[67]]), InPacket (data_packet 0xFFFF [])]"

lemma sample_decoded: "list_all decoded sample_feed"
  by (simp add: sample_feed_def data_packet_carries framable_def del: decoded.simps(1))

lemma sequencer_refines_line_witness:
  "\<exists>q. (\<forall>(d :: nat deliver) h. sq_run sample_feed d (sequencer_new 1 4096) h
      = map_option (Pair q) (replay d (delivered (snd (line_run sample_feed (line_new (unat (1 :: u64)) 4096)))) h))
    \<and> rep q (fst (line_run sample_feed (line_new (unat (1 :: u64)) 4096)))
        (snd (line_run sample_feed (line_new (unat (1 :: u64)) 4096)))"
  by (rule sequencer_refines_line [OF sample_decoded])

lemma delivers_each_once_in_order_witness:
  "\<exists>q log lost. sq_run (sample_feed @ [InGiveUp]) record_message (sequencer_new 1 4096) [] = Some (q, log)
    \<and> sorted_wrt (<) (map fst log)
    \<and> set (map fst log) \<union> set lost = {unat (1 :: u64) ..< unat (sq_next q)} \<and> set (map fst log) \<inter> set lost = {}
    \<and> (\<forall>x\<in>set log. \<exists>r\<in>set (accepted None (sample_feed @ [InGiveUp])). x \<in> set (pairs r))
    \<and> st_delivered (sq_stats q) = of_nat (length log)
    \<and> sorted_wrt (<) lost \<and> st_lost (sq_stats q) = of_nat (length lost)
    \<and> of_nat (size_of (accepted None (sample_feed @ [InGiveUp]))) = st_delivered (sq_stats q) + st_duplicates (sq_stats q)
        + of_nat (sum_list (map (\<lambda>h. unat (h_count h)) (sq_held q)))"
  by (rule delivers_each_once_in_order) (simp add: sample_decoded)

lemma delivers_received_prefix_witness:
  "\<exists>q log. sq_run sample_feed record_message (sequencer_new 1 4096) [] = Some (q, log)
    \<and> map fst log = [unat (1 :: u64) ..< unat (sq_next q)]
    \<and> (\<forall>n. unat (1 :: u64) \<le> n \<longrightarrow> n < unat (sq_next q) \<longrightarrow> (\<exists>r\<in>set (accepted None sample_feed). fst r \<le> n \<and> n < past r))
    \<and> (\<forall>r\<in>set (accepted None sample_feed). \<not> (fst r \<le> unat (sq_next q) \<and> unat (sq_next q) < past r))
    \<and> st_lost (sq_stats q) = 0 \<and> st_delivered (sq_stats q) = of_nat (length log)"
  by (rule delivers_received_prefix [OF sample_decoded]) (simp_all add: sample_feed_def)

lemma giveUp_loses_only_missing_witness:
  "\<exists>q log q' new. sq_run sample_feed record_message (sequencer_new 1 4096) [] = Some (q, log)
    \<and> giveUpGap record_message q log = Some (q', log @ new)
    \<and> (gapOpen q \<longrightarrow> sq_next q < sq_next q')
    \<and> (\<exists>target. st_lost (sq_stats q') = st_lost (sq_stats q) + of_nat (target - unat (sq_next q))
        \<and> target \<le> unat (sq_next q')
        \<and> (\<forall>r\<in>set (accepted None sample_feed). \<forall>n. unat (sq_next q) \<le> n \<longrightarrow> n < target \<longrightarrow> \<not> (fst r \<le> n \<and> n < past r)))"
  by (rule giveUp_loses_only_missing [OF sample_decoded])

lemma gapOpen_exact_witness:
  "\<exists>q log. sq_run sample_feed record_message (sequencer_new 1 4096) [] = Some (q, log)
    \<and> (gapOpen q \<longleftrightarrow> (\<exists>r\<in>set (accepted None sample_feed). unat (sq_next q) < past r))
    \<and> (sq_endOfSession q \<and> \<not> gapOpen q \<longrightarrow> sq_ended q)
    \<and> (sq_held q \<noteq> [] \<longrightarrow> gapOpen q)"
  by (rule gapOpen_exact [OF sample_decoded])

text \<open>When giving up leaves a gap behind, what is delivered then lies beyond the gap.\<close>

lemma giveUp_beyond:
  assumes core: "line_core first K (ln_next a) (ln_held a) evs" and gap: "ln_next a < skip_to a" and g: "giveUp_line a = (b, e)"
  shows "\<forall>x\<in>set (delivered e). skip_to a \<le> fst x"
proof -
  let ?skip = "GapLost # map Lost [ln_next a ..< skip_to a]"
  from giveUp_shape [OF g] gap obtain c e2 where c: "drain_line (ln_held a) c = (fst (drain_line (ln_held a) c), e2)"
    "ln_next c = max (ln_next a) (skip_to a)" "e = ?skip @ e2" by auto
  have "line_core first K (ln_next c) (ln_held a) (evs @ ?skip)" using core_skip [OF core gap] c(2) gap by (simp add: max_def)
  note d = core_drain [OF this c(1)]
  have sp: "spent (evs @ ?skip) = [first ..< skip_to a]" using core_skip [OF core gap] unfolding line_core_def by blast
  have "spent ((evs @ ?skip) @ e2) = [first ..< ln_next (fst (drain_line (ln_held a) c))]" using d unfolding line_core_def by blast
  then have "distinct (spent (evs @ ?skip) @ spent e2)" "set (spent e2) \<subseteq> {first ..< ln_next (fst (drain_line (ln_held a) c))}"
    unfolding spent_append by (simp, metis set_append set_upt sup_ge2)
  then have "\<forall>n\<in>set (spent e2). skip_to a \<le> n" unfolding sp by fastforce
  moreover have "delivered ?skip = []" by simp
  ultimately show ?thesis using spent_split [of e2] c(3) by auto
qed

text \<open>A packet that would fill part of the oldest gap, when as many are held as may be.\<close>

lemma full_line:
  assumes inv: "line_inv first K a evs" and held: "ln_held a = h # hs" and full: "ln_limit a \<le> length (ln_held a)"
    and s: "ln_session a = Some session"
    and r: "snd r \<noteq> []" "ln_next a < fst r" "past r \<le> fst h" and st: "line_packet session beat closing r a = (b, e)"
  shows "(\<forall>x\<in>set (delivered e). fst h \<le> fst x) \<and> tally is_lost e = of_nat (fst h - ln_next a) \<and> fst h \<le> ln_next b"
proof -
  let ?a = "a\<lparr>ln_session := Some session, ln_known := max (ln_known a) (past r), ln_closing := ln_closing a \<or> closing\<rparr>"
  obtain e2 where e2: "data_line r ?a = (b, e2)" "e = Arrived # (if beat then [Heartbeat] else []) @ e2"
    using st s by (auto simp: line_packet_def split_def Let_def prod_eq_iff)
  have skip: "skip_to ?a = fst h" using held by (simp add: skip_to_def)
  obtain c e1 where c: "giveUp_line ?a = (c, e1)" by fastforce
  have core: "line_core first K (ln_next ?a) (ln_held ?a) evs" using inv by (simp add: line_inv_def)
  note g = inv_giveUp [OF core c]
  have past_c: "past r \<le> ln_next c" using g skip r(3) by simp
  moreover have "fst r < past r" using r(1) by (simp add: past_def)
  ultimately have "\<not> ln_next c < fst r" by simp
  then have b: "b = finish_line (fst (drain_line (ln_held c) (fst (run_line r c))))"
    "e2 = e1 @ take_run (ln_next c) r @ snd (drain_line (ln_held c) (fst (run_line r c)))"
    using e2(1) r(1,2) full c by (auto simp: data_line_def split_def Let_def)
  have run: "fst (run_line r c) = c" using past_c by (simp add: run_line_def max_def)
  have drain: "drain_line (ln_held c) c = (c, [])"
    using g by (cases "ln_held c") (auto simp: tidy_def)
  have "delivered (take_run (ln_next c) r) = []" "tally is_lost (take_run (ln_next c) r) = 0"
    using past_c by (cases r; simp add: past_def)+
  moreover have "delivered e = delivered e1" "tally is_lost e = tally is_lost e1"
    using e2(2) b(2) run drain calculation by simp_all
  moreover have "tally is_lost e1 = of_nat (fst h - ln_next a)" using g skip by (simp add: tally_def)
  moreover have "ln_next b = ln_next c" using b(1) run drain by simp
  ultimately show ?thesis using giveUp_beyond [OF core _ c] skip g r by (simp add: past_def)
qed

text \<open>C40. When as many packets are held as may be, a packet that would fill part of the oldest gap is given
  up with it. After any run, let the held packets have reached the limit, and let a packet of the session
  carry messages that are all missing, between the next number due and the first packet held. Then
  \<open>onPacket\<close> skips to the first packet held before it looks at the packet: none of its messages is delivered, its
  numbers are among those counted as lost, and the next number due has passed them, so that no later
  packet can deliver them either.\<close>

theorem full_hold_loses_message_in_hand:
  assumes "list_all decoded is" and "sq_run is record_message (sequencer_new first limit) [] = Some (q, log)"
    and "sq_held q = h # hs" "sq_maxHeld q \<le> length (sq_held q)"
    and "decoded (InPacket p)" "sq_haveSession q" "pk_session p = sq_session q" "msgs_of p \<noteq> []"
    and "sq_next q < pk_sequence p" "unat (pk_sequence p) + length (msgs_of p) \<le> unat (h_sequence h)"
  shows "\<exists>q' new. onPacket p record_message q log = Some (q', log @ new)
    \<and> (\<forall>x\<in>set new. unat (pk_sequence p) + length (msgs_of p) \<le> fst x)
    \<and> st_lost (sq_stats q') = st_lost (sq_stats q) + (h_sequence h - sq_next q)
    \<and> unat (pk_sequence p) + length (msgs_of p) \<le> unat (sq_next q')"
proof -
  obtain q0 a evs where q0: "sq_run is record_message (sequencer_new first limit) [] = Some (q0, delivered evs)"
    "rep q0 a evs" "line_inv (unat first) (accepted None is) a evs" by (rule run_log [OF assms(1)]) blast
  then have q: "rep q a evs" "log = delivered evs" using assms(2) by simp_all
  obtain h' hs' where held: "ln_held a = h' # hs'" "unat (h_sequence h) = fst h'"
    using rep_held_held [OF q(1)] assms(3) by (cases "ln_held a") (auto simp: rep_held_def)
  have full: "ln_limit a \<le> length (ln_held a)"
    using list_all2_lengthD [OF rep_held_held [OF q(1)]] q(1) assms(4) by (simp add: rep_def)
  have s: "ln_session a = Some (pk_session p)" using q(1) assms(6,7) by (auto simp: rep_def)
  have r: "snd (run_of p) \<noteq> []" "ln_next a < fst (run_of p)" "past (run_of p) \<le> fst h'"
    using assms(8-10) held(2) rep_next [OF q(1)] by (simp_all add: run_of_def word_less_nat_alt)
  obtain b e where st: "line_packet (pk_session p) (heartbeat p) (endOfSession p) (run_of p) a = (b, e)" by fastforce
  note line = full_line [OF q0(3) held(1) full s r st]
  from refines_obtain [OF refines_packet [OF q(1) decoded_rep [OF assms(5)]]] obtain q' where
    q': "\<And>d h. onPacket p (d :: (nat \<times> bytes) list deliver) q h = map_option (Pair q') (replay d (delivered e) h)"
      "rep q' b (evs @ e)" unfolding st by auto
  have "line_inv (unat first) (accepted None is @ [run_of p]) b (evs @ e)" using inv_packet [OF q0(3) st] s by simp
  then have "spent (evs @ e) = [unat first ..< unat (sq_next q')]"
    using rep_next [OF q'(2)] unfolding line_inv_def line_core_def by metis
  from arg_cong [OF this, of set] have "set (spent e) \<subseteq> {..< unat (sq_next q')}" by auto
  then have "\<forall>x\<in>set (delivered e). fst x < 2 ^ 64"
    using spent_split [of e] unat_u64_less [of "sq_next q'"] by fastforce
  then have "onPacket p record_message q log = Some (q', log @ delivered e)" by (simp add: q'(1) replay_record)
  moreover have "\<forall>x\<in>set (delivered e). unat (pk_sequence p) + length (msgs_of p) \<le> fst x"
    using line assms(10) held(2) by fastforce
  moreover have "st_lost (sq_stats q') = st_lost (sq_stats q) + (h_sequence h - sq_next q)"
  proof -
    have "unat (sq_next q) \<le> unat (h_sequence h)" using assms(9,10) by (simp add: word_less_nat_alt)
    then have "of_nat (unat (h_sequence h) - unat (sq_next q)) = h_sequence h - sq_next q" by (simp add: of_nat_diff)
    then have "of_nat (fst h' - ln_next a) = h_sequence h - sq_next q" by (simp only: held(2) rep_next [OF q(1)])
    then show ?thesis using q(1) q'(2) line by (simp add: rep_def stats_of_def)
  qed
  moreover have "unat (pk_sequence p) + length (msgs_of p) \<le> unat (sq_next q')"
    using line assms(10) held(2) rep_next [OF q'(2)] by simp
  ultimately show ?thesis by blast
qed

lemma full_hold_loses_message_in_hand_witness:
  "\<exists>q log q' new. sq_run [InPacket (data_packet 10 [[74]])] record_message (sequencer_new 1 1) [] = Some (q, log)
    \<and> onPacket (data_packet 5 [[69]]) record_message q log = Some (q', log @ new)
    \<and> 5 \<notin> fst ` set new \<and> st_lost (sq_stats q') = 9"
proof -
  let ?in = "[InPacket (data_packet 10 [[74]])]" and ?l = "line_new (unat (1 :: u64)) 1" and ?p = "data_packet 5 [[69]]"
  have dec: "list_all decoded ?in" by (simp add: data_packet_carries framable_def del: decoded.simps(1))
  from refines_obtain [OF refines_run [OF rep_new dec]] obtain q where
    q: "\<And>d h. sq_run ?in (d :: (nat \<times> bytes) list deliver) (sequencer_new 1 1) h
        = map_option (Pair q) (replay d (delivered (snd (line_run ?in ?l))) h)"
      "rep q (fst (line_run ?in ?l)) ([] @ snd (line_run ?in ?l))" by blast
  let ?l1 = "\<lparr>ln_next = 1, ln_known = 11, ln_limit = 1, ln_held = [(10, [[74]])], ln_session = Some (replicate 10 32),
     ln_closing = False, ln_ended = False\<rparr>"
  have "line_step (InPacket (data_packet 10 [[74]])) ?l = (?l1, [Arrived, Waited])"
    by (simp add: line_step_data framable_def line_packet_def data_line_def hold_line_def line_new_def del: line_step.simps)
  then have line: "line_run ?in ?l = (?l1, [Arrived, Waited])" by (simp only: line_run.simps Let_def prod.case append_Nil2)
  have run: "sq_run ?in record_message (sequencer_new 1 1) [] = Some (q, [])"
    using q(1) [of record_message "[]"] unfolding line by (simp del: sq_run.simps)
  have r: "rep q ?l1 [Arrived, Waited]" using q(2) unfolding line by simp
  then obtain h where h: "sq_held q = [h]" "unat (h_sequence h) = 10"
    by (auto simp: rep_def rep_held_def list_all2_Cons2)
  have next1: "sq_next q = 1" and lost0: "st_lost (sq_stats q) = 0" using r by (simp_all add: rep_def word_unat_eq_iff stats_of_def)
  have p: "decoded (InPacket ?p)" "run_of ?p = (5, [[69]])"
    using data_packet_carries [of "[[69]]" 5] by (simp_all add: framable_def)
  then have msgs: "msgs_of ?p = [[69]]" "pk_sequence ?p = 5" by (simp_all add: run_of_def data_packet_def)
  have sess: "sq_haveSession q" "pk_session ?p = sq_session q" "sq_maxHeld q \<le> length (sq_held q)"
    using r h(1) by (auto simp: rep_def data_packet_def kSessionBytes_def)
  have small: "msgs_of ?p \<noteq> []" "sq_next q < pk_sequence ?p" "unat (pk_sequence ?p) + length (msgs_of ?p) \<le> unat (h_sequence h)"
    using h(2) by (simp_all add: msgs next1)
  from full_hold_loses_message_in_hand [OF dec run h(1) sess(3) p(1) sess(1,2) small] obtain q' new where
    q': "onPacket ?p record_message q [] = Some (q', [] @ new)" "\<forall>x\<in>set new. unat (pk_sequence ?p) + length (msgs_of ?p) \<le> fst x"
      "st_lost (sq_stats q') = st_lost (sq_stats q) + (h_sequence h - sq_next q)" by blast
  have "h_sequence h = 10" using h(2) by (simp add: word_unat_eq_iff)
  then have "st_lost (sq_stats q') = 9" using q'(3) next1 lost0 by simp
  moreover have "5 \<notin> fst ` set new" using q'(2) by (auto simp: msgs)
  ultimately show ?thesis using run q'(1) by blast
qed

end
