(* ===== verification/ItchReader.thy ===== *)
theory ItchReader
  imports ItchMessages Framing
begin

text \<open>
  The file reader of \<open>include/ItchParser.hpp\<close>: \<open>ensure\<close> keeps the buffer filled from the file
  and \<open>next\<close> returns the next well-formed message.

  A file is the bytes that are left to read and the sizes that successive calls of \<open>fread\<close> are
  willing to return: of a request for \<open>n\<close> bytes, \<open>fread\<close> returns at least one and at most \<open>n\<close>
  of what is left, and nothing only at the end (or for \<open>n = 0\<close>). A read error ends the bytes.
  The theorems hold for every such schedule and every buffer size, so neither shows in the result:
  \<open>split_frames\<close>, which cuts the whole input at its length prefixes, says what is read.
\<close>

section \<open>The file\<close>

record byte_file =
  fl_rest :: bytes
  fl_caps :: "nat list"

definition fread :: "nat \<Rightarrow> byte_file \<Rightarrow> bytes \<times> byte_file" where
  "fread n f =
     (let k = (case fl_caps f of [] \<Rightarrow> n | c # _ \<Rightarrow> min n (Suc c))
      in (take k (fl_rest f), f\<lparr>fl_rest := drop k (fl_rest f), fl_caps := tl (fl_caps f)\<rparr>))"

lemma fread_some: "0 < n \<Longrightarrow> fl_rest f \<noteq> [] \<Longrightarrow> fst (fread n f) \<noteq> []"
  by (simp add: fread_def Let_def split: list.split)

lemma fread_parts: "fst (fread n f) @ fl_rest (snd (fread n f)) = fl_rest f" "length (fst (fread n f)) \<le> n"
  by (auto simp: fread_def Let_def min_def split: list.split)

section \<open>The reader\<close>

record itch_reader =
  ir_file :: byte_file
  ir_buffer :: bytes
  ir_begin :: nat
  ir_end :: nat
  ir_eof :: bool
  ir_truncated :: bool
  ir_messages :: u64
  ir_bytes :: u64
  ir_unknownTypes :: u64
  ir_lengthMismatches :: u64

definition reader_new :: "byte_file \<Rightarrow> nat \<Rightarrow> itch_reader" where
  "reader_new f bufferBytes =
     \<lparr>ir_file = f, ir_buffer = replicate bufferBytes 0, ir_begin = 0, ir_end = 0, ir_eof = False,
      ir_truncated = False, ir_messages = 0, ir_bytes = 0, ir_unknownTypes = 0, ir_lengthMismatches = 0\<rparr>"

text \<open>The refill loop of \<open>ensure\<close>.\<close>

function refill :: "nat \<Rightarrow> itch_reader \<Rightarrow> itch_reader option" where
  "refill need r =
     (if ir_end r < need \<and> \<not> ir_eof r
      then do {
        let n = fst (fread (length (ir_buffer r) - ir_end r) (ir_file r));
        b \<leftarrow> wr (ir_buffer r) (ir_end r) n;
        refill need (r\<lparr>ir_file := snd (fread (length (ir_buffer r) - ir_end r) (ir_file r)), ir_buffer := b,
          ir_eof := (n = []), ir_end := ir_end r + length n\<rparr>)
      }
      else Some r)"
  by pat_completeness auto

termination
  by (relation "measure (\<lambda>(need, r). (need - ir_end r) + (if ir_eof r then 0 else 1))")
    (auto simp flip: length_greater_0_conv)

declare refill.simps [simp del]

definition ensure :: "nat \<Rightarrow> itch_reader \<Rightarrow> (bool \<times> itch_reader) option" where
  "ensure need r =
     (if ir_end r - ir_begin r \<ge> need then Some (True, r)
      else do {
        let r = (if need > length (ir_buffer r)
                 then r\<lparr>ir_buffer := ir_buffer r @ replicate (need - length (ir_buffer r)) 0\<rparr> else r);
        r \<leftarrow> (if ir_begin r > 0
              then do {
                held \<leftarrow> rd (ir_buffer r) (ir_begin r) (ir_end r - ir_begin r);
                b \<leftarrow> wr (ir_buffer r) 0 held;
                Some (r\<lparr>ir_buffer := b, ir_end := ir_end r - ir_begin r, ir_begin := 0\<rparr>)
              }
              else Some r);
        r \<leftarrow> refill need r;
        Some (ir_end r - ir_begin r \<ge> need, r)
      })"

partial_function (option) next_message :: "itch_reader \<Rightarrow> (bytes \<times> itch_reader) option" where
  "next_message r = do {
     (ok, r) \<leftarrow> ensure 2 r;
     if \<not> ok then Some ([], r\<lparr>ir_truncated := ir_end r > ir_begin r\<rparr>)
     else do {
       w \<leftarrow> be16 (ir_buffer r) (ir_begin r);
       let len = unat w;
       (ok, r) \<leftarrow> ensure (2 + len) r;
       if \<not> ok then Some ([], r\<lparr>ir_truncated := True\<rparr>)
       else do {
         message \<leftarrow> rd (ir_buffer r) (ir_begin r + 2) len;
         let r = r\<lparr>ir_begin := ir_begin r + (2 + len), ir_messages := ir_messages r + 1,
                  ir_bytes := ir_bytes r + of_nat (2 + len)\<rparr>;
         if len = 0 then next_message (r\<lparr>ir_lengthMismatches := ir_lengthMismatches r + 1\<rparr>)
         else do {
           t \<leftarrow> byte_at message 0;
           let expected = messageLength (char_of_byte t);
           if expected = 0 then next_message (r\<lparr>ir_unknownTypes := ir_unknownTypes r + 1\<rparr>)
           else if expected \<noteq> len then next_message (r\<lparr>ir_lengthMismatches := ir_lengthMismatches r + 1\<rparr>)
           else Some (message, r)
         }
       }
     }
   }"

text \<open>The loop of the reader's clients: \<open>for (m = next(); !m.empty(); m = next())\<close>.\<close>

partial_function (option) read_all :: "itch_reader \<Rightarrow> (bytes list \<times> itch_reader) option" where
  "read_all r = do {
     (m, r) \<leftarrow> next_message r;
     if m = [] then Some ([], r)
     else do { (ms, r) \<leftarrow> read_all r; Some (m # ms, r) }
   }"

section \<open>ensure\<close>

definition reader_ok :: "itch_reader \<Rightarrow> bool" where
  "reader_ok r \<longleftrightarrow> ir_begin r \<le> ir_end r \<and> ir_end r \<le> length (ir_buffer r) \<and> (ir_eof r \<longrightarrow> fl_rest (ir_file r) = [])"

text \<open>The bytes that the reader has yet to look at.\<close>

definition avail :: "itch_reader \<Rightarrow> bytes" where
  "avail r = take (ir_end r - ir_begin r) (drop (ir_begin r) (ir_buffer r))"

definition stream :: "itch_reader \<Rightarrow> bytes" where
  "stream r = avail r @ fl_rest (ir_file r)"

definition counters :: "itch_reader \<Rightarrow> u64 \<times> u64 \<times> u64 \<times> u64 \<times> bool" where
  "counters r = (ir_messages r, ir_bytes r, ir_unknownTypes r, ir_lengthMismatches r, ir_truncated r)"

lemma length_avail: "reader_ok r \<Longrightarrow> length (avail r) = ir_end r - ir_begin r"
  by (auto simp: reader_ok_def avail_def min_def)

lemma refill_correct:
  "reader_ok r \<Longrightarrow> ir_begin r = 0 \<Longrightarrow> need \<le> length (ir_buffer r) \<Longrightarrow>
     \<exists>r'. refill need r = Some r' \<and> reader_ok r' \<and> ir_begin r' = 0 \<and> stream r' = stream r
       \<and> counters r' = counters r \<and> (need \<le> ir_end r' \<or> fl_rest (ir_file r') = [])"
proof (induction need r rule: refill.induct)
  case (1 need r)
  show ?case
  proof (cases "ir_end r < need \<and> \<not> ir_eof r")
    case False
    then show ?thesis using 1 by (subst refill.simps) (auto simp: reader_ok_def)
  next
    case True
    let ?n = "fst (fread (length (ir_buffer r) - ir_end r) (ir_file r))"
      and ?f = "snd (fread (length (ir_buffer r) - ir_end r) (ir_file r))"
    let ?b = "blit (ir_buffer r) (ir_end r) ?n"
    let ?r = "r\<lparr>ir_file := ?f, ir_buffer := ?b, ir_eof := (?n = []), ir_end := ir_end r + length ?n\<rparr>"
    have fits: "ir_end r + length ?n \<le> length (ir_buffer r)"
      using fread_parts(2) [of "length (ir_buffer r) - ir_end r" "ir_file r"] 1(2)
    unfolding reader_ok_def by linarith
    have parts: "?n @ fl_rest ?f = fl_rest (ir_file r)" by (rule fread_parts)
    have eof: "?n = [] \<longrightarrow> fl_rest (ir_file r) = []"
      using fread_some [of "length (ir_buffer r) - ir_end r" "ir_file r"] True 1(4) by auto
    have ok: "reader_ok ?r"
      using 1(2) fits eof parts by (auto simp: reader_ok_def length_blit)
    have "avail ?r = avail r @ ?n"
      using fits 1(3) by (simp add: avail_def blit_in_range)
    then have str: "stream ?r = stream r" using parts by (simp add: stream_def)
    have "wr (ir_buffer r) (ir_end r) ?n = Some ?b" by (rule wr_Some [OF fits])
    from 1(1) [OF True refl this ok] 1(3,4) have "\<exists>r'. refill need ?r = Some r' \<and> reader_ok r' \<and> ir_begin r' = 0
        \<and> stream r' = stream ?r \<and> counters r' = counters ?r \<and> (need \<le> ir_end r' \<or> fl_rest (ir_file r') = [])"
      by (simp add: length_blit)
    moreover have "refill need r = refill need ?r"
      using True wr_Some [OF fits] by (subst refill.simps) (simp add: Let_def)
    ultimately show ?thesis by (simp add: str counters_def)
  qed
qed

text \<open>\<open>ensure\<close> makes the bytes available exactly if the input has them, and changes nothing that
  shows.\<close>

lemma ensure_correct:
  assumes ok: "reader_ok r"
  shows "\<exists>r'. ensure need r = Some (need \<le> length (stream r), r') \<and> reader_ok r' \<and> stream r' = stream r
    \<and> counters r' = counters r
    \<and> (if need \<le> length (stream r) then need \<le> length (avail r') else avail r' = stream r)"
proof (cases "ir_end r - ir_begin r \<ge> need")
  case True
  then have "need \<le> length (avail r)" by (simp add: length_avail [OF ok])
  then show ?thesis using True ok by (intro exI [of _ r]) (simp add: ensure_def stream_def)
next
  case False
  let ?b = "if need > length (ir_buffer r) then ir_buffer r @ replicate (need - length (ir_buffer r)) 0 else ir_buffer r"
  let ?r = "r\<lparr>ir_buffer := ?b\<rparr>"
  have ok1: "reader_ok ?r" and big: "need \<le> length ?b" and ends: "ir_begin r \<le> ir_end r" "ir_end r \<le> length ?b"
    using ok by (auto simp: reader_ok_def)
  have av1: "avail ?r = avail r" using ok by (auto simp: avail_def reader_ok_def)
  let ?c = "if ir_begin r > 0 then ?r\<lparr>ir_buffer := blit ?b 0 (avail r), ir_end := ir_end r - ir_begin r, ir_begin := 0\<rparr> else ?r"
  have compact: "(if ir_begin ?r > 0
      then do { held \<leftarrow> rd (ir_buffer ?r) (ir_begin ?r) (ir_end ?r - ir_begin ?r);
                b \<leftarrow> wr (ir_buffer ?r) 0 held;
                Some (?r\<lparr>ir_buffer := b, ir_end := ir_end ?r - ir_begin ?r, ir_begin := 0\<rparr>) }
      else Some ?r) = Some ?c"
  proof (cases "ir_begin r > 0")
    case True
    have "rd ?b (ir_begin r) (ir_end r - ir_begin r) = Some (avail r)"
      using ends av1 by (simp add: rd_def avail_def del: if_split)
    moreover have "wr ?b 0 (avail r) = Some (blit ?b 0 (avail r))"
      using ends by (intro wr_Some) (simp add: length_avail [OF ok])
    ultimately show ?thesis using True by simp
  qed simp
  have c: "reader_ok ?c" "ir_begin ?c = 0" "need \<le> length (ir_buffer ?c)" "avail ?c = avail r"
    "ir_file ?c = ir_file r" "counters ?c = counters r"
    using ok1 big av1 ends length_avail [OF ok]
    by (auto simp: reader_ok_def avail_def counters_def length_blit blit_in_range)
  from refill_correct [OF c(1-3)] obtain r' where r': "refill need ?c = Some r'" "reader_ok r'" "ir_begin r' = 0"
    "stream r' = stream r" "counters r' = counters r" "need \<le> ir_end r' \<or> fl_rest (ir_file r') = []"
    by (auto simp: stream_def c(4-6))
  have len: "length (avail r') = ir_end r'" using length_avail [OF r'(2)] r'(3) by simp
  have "ensure need r = Some (ir_end r' - ir_begin r' \<ge> need, r')"
  proof -
    have "(if need > length (ir_buffer r)
        then r\<lparr>ir_buffer := ir_buffer r @ replicate (need - length (ir_buffer r)) 0\<rparr> else r) = ?r" by simp
    then show ?thesis using False by (simp only: ensure_def Let_def compact r'(1) if_False bind.bind_lunit)
  qed
  moreover have "ir_end r' - ir_begin r' \<ge> need \<longleftrightarrow> need \<le> length (stream r)"
    using r'(3,6) len unfolding r'(4) [symmetric] by (auto simp: stream_def)
  moreover have "need \<le> length (stream r) \<or> avail r' = stream r"
    using r'(6) len unfolding r'(4) [symmetric] by (auto simp: stream_def)
  moreover have "need \<le> length (stream r) \<longrightarrow> need \<le> length (avail r')"
    using calculation(2) r'(3) len by simp
  ultimately show ?thesis using r'(2,4,5) by (intro exI [of _ r']) auto
qed

section \<open>The whole input\<close>

text \<open>The input cut at its length prefixes, and whether it ends inside a frame.\<close>

function split_frames :: "bytes \<Rightarrow> bytes list \<times> bool" where
  "split_frames d =
     (if length d < 2 then ([], d \<noteq> [])
      else if length d < 2 + unat (dec16 (take 2 d)) then ([], True)
      else let (ms, t) = split_frames (drop (2 + unat (dec16 (take 2 d))) d)
           in (take (unat (dec16 (take 2 d))) (drop 2 d) # ms, t))"
  by pat_completeness auto

termination
  by (relation "measure length") auto

declare split_frames.simps [simp del]

definition unknown_frame :: "bytes \<Rightarrow> bool" where
  "unknown_frame m \<longleftrightarrow> m \<noteq> [] \<and> messageLength (char_of_byte (m ! 0)) = 0"

lemma well_framed_at: "well_framed m \<longleftrightarrow> m \<noteq> [] \<and> messageLength (char_of_byte (m ! 0)) = length m"
  by (cases m) (auto simp: well_framed_def)

definition bad_length :: "bytes \<Rightarrow> bool" where
  "bad_length m \<longleftrightarrow> \<not> unknown_frame m \<and> \<not> well_framed m"

fun count_frame :: "bytes \<Rightarrow> u64 \<times> u64 \<times> u64 \<times> u64 \<times> bool \<Rightarrow> u64 \<times> u64 \<times> u64 \<times> u64 \<times> bool" where
  "count_frame m (a, b, u, l, t) =
     (a + 1, b + of_nat (2 + length m), u + (if unknown_frame m then 1 else 0),
      l + (if bad_length m then 1 else 0), t)"

fun set_truncated :: "bool \<Rightarrow> u64 \<times> u64 \<times> u64 \<times> u64 \<times> bool \<Rightarrow> u64 \<times> u64 \<times> u64 \<times> u64 \<times> bool" where
  "set_truncated t' (a, b, u, l, t) = (a, b, u, l, t')"

lemma split_frames_empty:
  "split_frames d = ([], t) \<Longrightarrow> length d < 2 \<and> t = (d \<noteq> [])
     \<or> 2 \<le> length d \<and> length d < 2 + unat (dec16 (take 2 d)) \<and> t"
  by (subst (asm) split_frames.simps) (auto simp: Let_def split: if_splits prod.splits)

lemma split_frames_Cons:
  "split_frames d = (m # ms, t) \<Longrightarrow> 2 + length m \<le> length d \<and> unat (dec16 (take 2 d)) = length m
     \<and> m = take (length m) (drop 2 d) \<and> split_frames (drop (2 + length m) d) = (ms, t)"
  by (subst (asm) split_frames.simps) (auto simp: Let_def min_def split: if_splits prod.splits)

text \<open>The next frame of the stream, as the two calls of \<open>ensure\<close> see it.\<close>

lemma ensure_two:
  assumes ok: "reader_ok r" and two: "2 \<le> length (stream r)"
  shows "\<exists>r'. ensure 2 r = Some (True, r') \<and> reader_ok r' \<and> stream r' = stream r \<and> counters r' = counters r
    \<and> be16 (ir_buffer r') (ir_begin r') = Some (dec16 (take 2 (stream r)))"
proof -
  from ensure_correct [OF ok, of 2] two obtain r' where r': "ensure 2 r = Some (True, r')" "reader_ok r'"
    "stream r' = stream r" "counters r' = counters r" "2 \<le> length (avail r')" by auto
  have "ir_begin r' + 2 \<le> length (ir_buffer r')"
    using r'(2,5) length_avail [OF r'(2)] unfolding reader_ok_def by linarith
  then have "be16 (ir_buffer r') (ir_begin r') = Some (dec16 (take 2 (drop (ir_begin r') (ir_buffer r'))))"
    by (rule be16.get_in_range)
  moreover have "stream r = avail r' @ fl_rest (ir_file r')" using r'(3) by (simp add: stream_def [of r'])
  then have "take 2 (stream r) = take 2 (avail r')" using r'(5) by simp
  moreover have "take 2 (avail r') = take 2 (drop (ir_begin r') (ir_buffer r'))"
    using r'(5) length_avail [OF r'(2)] by (simp add: avail_def min_def)
  ultimately show ?thesis using r' by auto
qed

lemma ensure_frame:
  assumes ok: "reader_ok r" and fits: "2 + n \<le> length (stream r)"
  shows "\<exists>r'. ensure (2 + n) r = Some (True, r') \<and> reader_ok r' \<and> stream r' = stream r \<and> counters r' = counters r
    \<and> rd (ir_buffer r') (ir_begin r' + 2) n = Some (take n (drop 2 (stream r)))
    \<and> reader_ok (r'\<lparr>ir_begin := ir_begin r' + (2 + n)\<rparr>)
    \<and> stream (r'\<lparr>ir_begin := ir_begin r' + (2 + n)\<rparr>) = drop (2 + n) (stream r)"
proof -
  from ensure_correct [OF ok, of "2 + n"] fits obtain r' where r': "ensure (2 + n) r = Some (True, r')" "reader_ok r'"
    "stream r' = stream r" "counters r' = counters r" "2 + n \<le> length (avail r')" by auto
  have ends: "ir_begin r' + (2 + n) \<le> ir_end r'" "ir_end r' \<le> length (ir_buffer r')"
    using r'(2,5) length_avail [OF r'(2)] unfolding reader_ok_def by linarith+
  have whole: "stream r = avail r' @ fl_rest (ir_file r')" using r'(3) by (simp add: stream_def [of r'])
  then have "take n (drop 2 (stream r)) = take n (drop 2 (avail r'))" using r'(5) by simp
  also have "\<dots> = take n (drop (ir_begin r' + 2) (ir_buffer r'))"
    using ends by (simp add: avail_def drop_take add.commute)
  finally have "rd (ir_buffer r') (ir_begin r' + 2) n = Some (take n (drop 2 (stream r)))"
    using ends by (simp add: rd_def)
  moreover have "reader_ok (r'\<lparr>ir_begin := ir_begin r' + (2 + n)\<rparr>)"
    using r'(2) ends by (simp add: reader_ok_def)
  moreover have "stream (r'\<lparr>ir_begin := ir_begin r' + (2 + n)\<rparr>) = drop (2 + n) (stream r)"
    using r'(5) by (simp add: whole) (simp add: stream_def avail_def drop_take ac_simps)
  ultimately show ?thesis using r' by auto
qed

text \<open>One turn of the loop of \<open>next\<close> over a whole frame.\<close>

lemma next_turn:
  assumes ok: "reader_ok r" and frames: "split_frames (stream r) = (m # ms, t)"
  shows "\<exists>r'. reader_ok r' \<and> split_frames (stream r') = (ms, t) \<and> counters r' = count_frame m (counters r)
    \<and> next_message r = (if well_framed m then Some (m, r') else next_message r')"
proof -
  note f = split_frames_Cons [OF frames]
  then have len: "unat (dec16 (take 2 (stream r))) = length m" and "2 \<le> length (stream r)" by simp_all
  from ensure_two [OF ok this(2)] obtain r1 where r1: "ensure 2 r = Some (True, r1)" "reader_ok r1" "stream r1 = stream r"
    "counters r1 = counters r" "be16 (ir_buffer r1) (ir_begin r1) = Some (dec16 (take 2 (stream r)))" by blast
  have "2 + length m \<le> length (stream r1)" using f r1(3) by simp
  from ensure_frame [OF r1(2) this] obtain r2 where r2: "ensure (2 + length m) r1 = Some (True, r2)"
    "counters r2 = counters r1" "rd (ir_buffer r2) (ir_begin r2 + 2) (length m) = Some (take (length m) (drop 2 (stream r1)))"
    "reader_ok (r2\<lparr>ir_begin := ir_begin r2 + (2 + length m)\<rparr>)"
    "stream (r2\<lparr>ir_begin := ir_begin r2 + (2 + length m)\<rparr>) = drop (2 + length m) (stream r1)" by blast
  have message: "rd (ir_buffer r2) (ir_begin r2 + 2) (length m) = Some m" using r2(3) f r1(3) by simp
  let ?r = "r2\<lparr>ir_begin := ir_begin r2 + (2 + length m), ir_messages := ir_messages r2 + 1,
    ir_bytes := ir_bytes r2 + of_nat (2 + length m)\<rparr>"
  let ?r' = "?r\<lparr>ir_unknownTypes := ir_unknownTypes r2 + (if unknown_frame m then 1 else 0),
    ir_lengthMismatches := ir_lengthMismatches r2 + (if bad_length m then 1 else 0)\<rparr>"
  have same: "reader_ok ?r' = reader_ok (r2\<lparr>ir_begin := ir_begin r2 + (2 + length m)\<rparr>)"
    "stream ?r' = stream (r2\<lparr>ir_begin := ir_begin r2 + (2 + length m)\<rparr>)"
    by (simp_all add: reader_ok_def stream_def avail_def)
  have "next_message r = (if length m = 0 then next_message (?r\<lparr>ir_lengthMismatches := ir_lengthMismatches r2 + 1\<rparr>)
      else do {
        t \<leftarrow> byte_at m 0;
        let expected = messageLength (char_of_byte t);
        if expected = 0 then next_message (?r\<lparr>ir_unknownTypes := ir_unknownTypes r2 + 1\<rparr>)
        else if expected \<noteq> length m then next_message (?r\<lparr>ir_lengthMismatches := ir_lengthMismatches r2 + 1\<rparr>)
        else Some (m, ?r)
      })"
    by (subst next_message.simps) (simp only: r1(1,5) len r2(1) message Let_def bind.bind_lunit
        prod.case not_True_eq_False if_False itch_reader.select_convs itch_reader.simps, simp cong: if_cong)
  also have "\<dots> = (if well_framed m then Some (m, ?r') else next_message ?r')"
  proof -
    have bad: "?r\<lparr>ir_lengthMismatches := ir_lengthMismatches r2 + 1\<rparr> = ?r'" if "bad_length m"
      using that by (cases r2) (simp add: bad_length_def)
    have unknown: "?r\<lparr>ir_unknownTypes := ir_unknownTypes r2 + 1\<rparr> = ?r'" if "unknown_frame m"
      using that by (cases r2) (simp add: bad_length_def)
    have good: "?r = ?r'" if "well_framed m"
      using that by (cases r2) (simp add: bad_length_def well_framed_at unknown_frame_def)
    show ?thesis
    proof (cases "m = []")
      case True
      then have k: "bad_length m" "\<not> well_framed m" by (simp_all add: bad_length_def well_framed_at unknown_frame_def)
      show ?thesis unfolding bad [OF k(1)] using True k(2) by simp
    next
      case False
      then have first: "byte_at m 0 = Some (m ! 0)" by (simp add: byte_at_def)
      consider "unknown_frame m" "\<not> well_framed m" | "well_framed m" "\<not> unknown_frame m" | "bad_length m" "\<not> well_framed m" "\<not> unknown_frame m"
        using False by (auto simp: bad_length_def well_framed_at unknown_frame_def)
      then show ?thesis
      proof cases
        case 1
        then show ?thesis using False first unknown [OF 1(1)] by (simp add: unknown_frame_def Let_def)
      next
        case 2
        then show ?thesis using False first good [OF 2(1)] by (simp add: unknown_frame_def well_framed_at Let_def)
      next
        case 3
        then show ?thesis using False first bad [OF 3(1)] by (simp add: unknown_frame_def well_framed_at Let_def)
      qed
    qed
  qed
  finally have "next_message r = (if well_framed m then Some (m, ?r') else next_message ?r')" .
  moreover have "counters ?r' = count_frame m (counters r)" using r1(4) r2(2) by (simp add: counters_def)
  ultimately show ?thesis
    using r2(4,5) f r1(3) unfolding same [symmetric] by (intro exI [of _ ?r']) simp
qed

lemma next_end:
  assumes ok: "reader_ok r" and frames: "split_frames (stream r) = ([], t)"
  shows "\<exists>r'. next_message r = Some ([], r') \<and> reader_ok r' \<and> stream r' = stream r
    \<and> counters r' = set_truncated t (counters r)"
proof (cases "length (stream r) < 2")
  case True
  then have t: "t = (stream r \<noteq> [])" using split_frames_empty [OF frames] by auto
  from ensure_correct [OF ok, of 2] True obtain r1 where r1: "ensure 2 r = Some (False, r1)" "reader_ok r1"
    "stream r1 = stream r" "counters r1 = counters r" "avail r1 = stream r" by auto
  have "ir_begin r1 < ir_end r1 \<longleftrightarrow> stream r \<noteq> []"
    using length_avail [OF r1(2)] unfolding r1(5) by (metis length_greater_0_conv zero_less_diff)
  then show ?thesis using r1 t
    by (intro exI [of _ "r1\<lparr>ir_truncated := t\<rparr>"])
      (subst next_message.simps, auto simp: reader_ok_def stream_def avail_def counters_def)
next
  case False
  then have t: "t" and short: "length (stream r) < 2 + unat (dec16 (take 2 (stream r)))"
    using split_frames_empty [OF frames] by auto
  from ensure_two [OF ok] False obtain r1 where r1: "ensure 2 r = Some (True, r1)" "reader_ok r1" "stream r1 = stream r"
    "counters r1 = counters r" "be16 (ir_buffer r1) (ir_begin r1) = Some (dec16 (take 2 (stream r)))" by auto
  from ensure_correct [OF r1(2), of "2 + unat (dec16 (take 2 (stream r)))"] short obtain r2 where
    r2: "ensure (2 + unat (dec16 (take 2 (stream r)))) r1 = Some (False, r2)" "reader_ok r2" "stream r2 = stream r"
    "counters r2 = counters r" by (auto simp: r1(3,4))
  then show ?thesis using r1 t
    by (intro exI [of _ "r2\<lparr>ir_truncated := t\<rparr>"])
      (subst next_message.simps, auto simp: Let_def reader_ok_def stream_def avail_def counters_def)
qed

text \<open>\<open>next\<close> skips to the first good frame.\<close>

lemma next_correct:
  "reader_ok r \<Longrightarrow> split_frames (stream r) = (ms, t) \<Longrightarrow>
    \<exists>m r'. next_message r = Some (m, r') \<and> reader_ok r'
      \<and> (case dropWhile (\<lambda>m. \<not> well_framed m) ms of
           [] \<Rightarrow> m = [] \<and> split_frames (stream r') = ([], t) \<and> counters r' = set_truncated t (fold count_frame ms (counters r))
         | x # xs \<Rightarrow> m = x \<and> split_frames (stream r') = (xs, t)
             \<and> counters r' = fold count_frame (takeWhile (\<lambda>m. \<not> well_framed m) ms @ [x]) (counters r))"
proof (induction ms arbitrary: r)
  case Nil
  from next_end [OF Nil] show ?case using Nil(2) by auto
next
  case (Cons m ms)
  from next_turn [OF Cons.prems] obtain r1 where r1: "reader_ok r1" "split_frames (stream r1) = (ms, t)"
    "counters r1 = count_frame m (counters r)" "next_message r = (if well_framed m then Some (m, r1) else next_message r1)"
    by blast
  show ?case
  proof (cases "well_framed m")
    case True
    then show ?thesis using r1 by simp
  next
    case False
    then show ?thesis using Cons.IH [OF r1(1,2)] r1(3,4) by (simp cong: list.case_cong)
  qed
qed

lemma good_not_empty: "well_framed m \<Longrightarrow> m \<noteq> []"
  by (simp add: well_framed_at)

lemma read_all_correct:
  "reader_ok r \<Longrightarrow> split_frames (stream r) = (ms, t) \<Longrightarrow>
    \<exists>r'. read_all r = Some (filter well_framed ms, r') \<and> counters r' = set_truncated t (fold count_frame ms (counters r))"
proof (induction "length ms" arbitrary: ms r rule: less_induct)
  case less
  let ?bad = "\<lambda>m. \<not> well_framed m"
  from next_correct [OF less.prems] obtain m r1 where r1: "next_message r = Some (m, r1)" "reader_ok r1"
    "case dropWhile ?bad ms of
       [] \<Rightarrow> m = [] \<and> split_frames (stream r1) = ([], t) \<and> counters r1 = set_truncated t (fold count_frame ms (counters r))
     | x # xs \<Rightarrow> m = x \<and> split_frames (stream r1) = (xs, t)
         \<and> counters r1 = fold count_frame (takeWhile ?bad ms @ [x]) (counters r)" by blast
  show ?case
  proof (cases "dropWhile ?bad ms")
    case Nil
    then have "filter well_framed ms = []" by (auto simp: filter_empty_conv)
    with r1(1) r1(3) [unfolded Nil list.case] show ?thesis by (subst read_all.simps) simp
  next
    case (Cons x xs)
    have ms: "ms = takeWhile ?bad ms @ x # xs" unfolding Cons [symmetric] by simp
    have good: "well_framed x" using Cons hd_dropWhile [of ?bad ms] by force
    have "filter well_framed (takeWhile ?bad ms) = []" by (auto simp: filter_empty_conv dest: set_takeWhileD)
    then have kept: "filter well_framed ms = x # filter well_framed xs" by (subst ms) (simp add: good)
    have "length xs < length ms" by (subst ms) simp
    from less.hyps [OF this r1(2)] r1(3) obtain r2 where
      r2: "read_all r1 = Some (filter well_framed xs, r2)" "counters r2 = set_truncated t (fold count_frame xs (counters r1))"
      by (auto simp: Cons)
    moreover have "fold count_frame ms (counters r) = fold count_frame xs (counters r1)"
      using r1(3) by (subst ms) (simp add: Cons)
    moreover have "read_all r = Some (filter well_framed ms, r2)"
      using r1(1,3) r2(1) good_not_empty [OF good] by (subst read_all.simps) (simp add: Cons kept)
    ultimately show ?thesis by simp
  qed
qed

lemma fold_count_frame:
  "fold count_frame ms (a, b, u, l, t) = (a + of_nat (length ms), b + of_nat (length (frames ms)),
     u + of_nat (length (filter unknown_frame ms)), l + of_nat (length (filter bad_length ms)), t)"
  by (induction ms arbitrary: a b u l) (simp_all add: length_frame)

lemma frame_kinds:
  "length ms = length (filter well_framed ms) + length (filter unknown_frame ms) + length (filter bad_length ms)"
  by (induction ms) (auto simp: bad_length_def well_framed_at unknown_frame_def)

lemma reader_new_ok: "reader_ok (reader_new f n)" "stream (reader_new f n) = fl_rest f"
  "counters (reader_new f n) = (0, 0, 0, 0, False)"
  by (simp_all add: reader_new_def reader_ok_def stream_def avail_def counters_def)

text \<open>C9. Whatever the size of the buffer and however the file hands out its bytes, reading until
  the empty span ends, reads nothing outside the buffer, and returns exactly the well-formed ones of
  the frames of the input, in order; the counters are those of the frames, each of which is returned,
  counted as unknown or counted as of the wrong length, and \<open>truncated\<close> says whether the input
  ended inside a frame.\<close>

theorem reader_reads_frames:
  "\<exists>r. read_all (reader_new f bufferBytes) = Some (filter well_framed (fst (split_frames (fl_rest f))), r)
    \<and> ir_messages r = of_nat (length (fst (split_frames (fl_rest f))))
    \<and> ir_bytes r = of_nat (length (frames (fst (split_frames (fl_rest f)))))
    \<and> ir_unknownTypes r = of_nat (length (filter unknown_frame (fst (split_frames (fl_rest f)))))
    \<and> ir_messages r = of_nat (length (filter well_framed (fst (split_frames (fl_rest f)))))
        + ir_unknownTypes r + ir_lengthMismatches r
    \<and> ir_truncated r = snd (split_frames (fl_rest f))"
proof -
  obtain ms t where ms: "split_frames (fl_rest f) = (ms, t)" by fastforce
  from read_all_correct [OF reader_new_ok(1), of f bufferBytes ms t] ms obtain r where
    "read_all (reader_new f bufferBytes) = Some (filter well_framed ms, r)"
    "counters r = set_truncated t (fold count_frame ms (0, 0, 0, 0, False))"
    by (auto simp: reader_new_ok)
  moreover have "of_nat (length ms) = (of_nat (length (filter well_framed ms))
      + of_nat (length (filter unknown_frame ms)) + of_nat (length (filter bad_length ms)) :: u64)"
    using arg_cong [OF frame_kinds [of ms], of "of_nat :: nat \<Rightarrow> u64"] by simp
  ultimately show ?thesis
    by (intro exI [of _ r]) (simp add: ms fold_count_frame counters_def)
qed

text \<open>What the framing writes, \<open>split_frames\<close> cuts.\<close>

lemma split_frames_frames:
  "\<forall>m\<in>set ms. length m < 65536 \<Longrightarrow> split_frames (frames ms) = (ms, False)"
proof (induction ms)
  case Nil
  then show ?case by (subst split_frames.simps) simp
next
  case (Cons m ms)
  have "unat (of_nat (length m) :: u16) = length m" using Cons.prems by (simp add: unat_of_nat take_bit_eq_mod)
  then have "split_frames (frames (m # ms)) = (let (ms, t) = split_frames (frames ms) in (m # ms, t))"
    by (subst split_frames.simps) (simp add: frame_def)
  then show ?case using Cons by simp
qed

lemma framed_file_read:
  assumes "\<forall>m\<in>set ms. well_framed m" "fl_rest f = frames ms"
  shows "\<exists>r. read_all (reader_new f bufferBytes) = Some (ms, r) \<and> \<not> ir_truncated r
    \<and> ir_messages r = of_nat (length ms) \<and> ir_bytes r = of_nat (length (fl_rest f))
    \<and> ir_unknownTypes r = 0 \<and> ir_lengthMismatches r = 0"
proof -
  have "messageLength t < 65536" for t by (simp add: messageLength_def)
  then have "\<forall>m\<in>set ms. length m < 65536" using assms(1) by (auto simp: well_framed_def)
  then have split: "split_frames (fl_rest f) = (ms, False)" by (simp add: assms(2) split_frames_frames)
  have "filter well_framed ms = ms" "filter unknown_frame ms = []" "filter bad_length ms = []"
    using assms(1) by (auto simp: filter_id_conv filter_empty_conv bad_length_def unknown_frame_def well_framed_at)
  moreover from read_all_correct [OF reader_new_ok(1), of f bufferBytes ms False] split obtain r where
    "read_all (reader_new f bufferBytes) = Some (filter well_framed ms, r)"
    "counters r = set_truncated False (fold count_frame ms (0, 0, 0, 0, False))"
    by (auto simp: reader_new_ok)
  ultimately show ?thesis
    by (intro exI [of _ r]) (simp add: fold_count_frame counters_def assms(2))
qed

text \<open>A file of framed messages, each as long as its type requires, is read back whole,
  with nothing counted as skipped and no truncation.\<close>

theorem reader_roundtrip:
  assumes "\<forall>m\<in>set ms. well_framed m" "fl_rest f = frames ms"
  shows "\<exists>r. read_all (reader_new f bufferBytes) = Some (ms, r) \<and> \<not> ir_truncated r
    \<and> ir_messages r = of_nat (length ms) \<and> ir_bytes r = of_nat (length (fl_rest f))
    \<and> ir_unknownTypes r = 0 \<and> ir_lengthMismatches r = 0"
  using framed_file_read [OF assms] .

lemma reader_roundtrip_witness:
  "\<exists>r. read_all (reader_new \<lparr>fl_rest = frames [byte_of_char CHR ''S'' # replicate 11 0], fl_caps = [0, 4]\<rparr> 3) = Some ([byte_of_char CHR ''S'' # replicate 11 0], r)
    \<and> \<not> ir_truncated r
    \<and> ir_messages r = of_nat (length [byte_of_char CHR ''S'' # replicate 11 (0 :: u8)])
    \<and> ir_bytes r = of_nat (length (fl_rest \<lparr>fl_rest = frames [byte_of_char CHR ''S'' # replicate 11 0], fl_caps = [0, 4]\<rparr>))
    \<and> ir_unknownTypes r = 0 \<and> ir_lengthMismatches r = 0"
  by (rule reader_roundtrip) (simp_all add: well_framed_def)

end
