(* ===== verification/GenItch.thy ===== *)
theory GenItch
  imports BookSpec ItchReader
begin

text \<open>
  The feed generator \<open>src/gen_itch.cpp\<close> and the replay program \<open>src/itch_test.cpp\<close>.

  \<open>gen_events\<close> is the sequence of messages the generator writes (what each call of \<open>emit\<close>
  encodes), \<open>gen_file\<close> the bytes of its file; \<open>itch_test\<close> reads a file and builds the books.
  The generator promises that every event refers to a live order and that the best prices of
  the book it writes by hand stay the best; both are proved for every number of orders up to
  \<open>2^30\<close> (far beyond what a 64-bit timestamp of one trading day leaves room for is not claimed:
  the bound is that of the book builder, \<open>2^32\<close> events).
\<close>

section \<open>The generator\<close>

definition kGoogl :: u16 where
  "kGoogl = 1"

definition kHour :: u64 where
  "kHour = 3600000000000"

definition googl :: string where
  "googl = ''GOOGL   ''"

text \<open>\<open>emit\<close>: encode into a zeroed buffer of 64 bytes, then write the prefix and the message.\<close>

definition emit :: "itch_event \<Rightarrow> bytes \<Rightarrow> bytes option" where
  "emit e out = do {
     (n, message) \<leftarrow> encode (replicate 64 0) e;
     prefix \<leftarrow> putBe16 [0, 0] 0 (of_nat n);
     m \<leftarrow> rd message 0 n;
     Some (out @ prefix @ m)
   }"

text \<open>Ten resting orders around 150 dollars.\<close>

definition resting_order :: "u64 \<Rightarrow> nat \<Rightarrow> itch_event" where
  "resting_order ts i =
     (let bid = (i mod 2 = 0);
          price = (if bid then 1499900 - of_nat (i div 2) * 100 else 1500100 + of_nat (i div 2) * 100)
      in EvAdd kGoogl (ts + of_nat i) \<lparr>ao_ref = 1000 + of_nat i, ao_side = (if bid then CHR ''B'' else CHR ''S''),
           ao_shares = 100, ao_stock = googl, ao_price = price\<rparr>)"

definition hand_events :: "u64 \<Rightarrow> itch_event list" where
  "hand_events ts = map (resting_order ts) [0 ..< 10] @
     [EvExecuted kGoogl (ts + 20) \<lparr>oe_ref = 1000, oe_shares = 60, oe_match = 1\<rparr>,
      EvCancel kGoogl (ts + 21) \<lparr>oc_ref = 1001, oc_shares = 20\<rparr>,
      EvReplace kGoogl (ts + 22) \<lparr>or_oldRef = 1002, or_newRef = 2002, or_shares = 150, or_price = 1500000\<rparr>,
      EvDelete kGoogl (ts + 23) \<lparr>od_ref = 1003\<rparr>,
      EvTrade kGoogl (ts + 24) \<lparr>tr_ref = 0, tr_side = CHR ''B'', tr_shares = 50, tr_stock = googl,
        tr_price = 1500050, tr_match = 2\<rparr>]"

definition kWindow :: nat where
  "kWindow = 100"

definition kFirstRef :: u64 where
  "kFirstRef = 1000000"

text \<open>One round of the order flow.\<close>

definition flow_round :: "u64 \<Rightarrow> nat \<Rightarrow> itch_event list" where
  "flow_round ts i =
     (let t = ts + 100 + of_nat i;
          bid = (i mod 2 = 0);
          ticks = of_nat (10 + i mod 40);
          price = (if bid then 1500000 - ticks * 100 else 1500000 + ticks * 100);
          oldest = kFirstRef + of_nat (i - kWindow)
      in EvAdd kGoogl t \<lparr>ao_ref = kFirstRef + of_nat i, ao_side = (if bid then CHR ''B'' else CHR ''S''),
           ao_shares = 100, ao_stock = googl, ao_price = price\<rparr>
         # (if i < kWindow then []
            else if i mod 2 = 0 then [EvDelete kGoogl t \<lparr>od_ref = oldest\<rparr>]
            else [EvExecuted kGoogl t \<lparr>oe_ref = oldest, oe_shares = 100, oe_match = of_nat i\<rparr>]))"

definition gen_events :: "nat \<Rightarrow> itch_event list" where
  "gen_events rounds =
     [EvSystemEvent 0 (4 * kHour) \<lparr>se_code = CHR ''O''\<rparr>,
      EvStockDirectory kGoogl (4 * kHour) \<lparr>sd_stock = googl\<rparr>,
      EvSystemEvent 0 (9 * kHour + kHour div 2) \<lparr>se_code = CHR ''Q''\<rparr>]
     @ hand_events (9 * kHour + kHour div 2)
     @ concat (map (flow_round (9 * kHour + kHour div 2)) [0 ..< rounds])
     @ [EvSystemEvent 0 (16 * kHour) \<lparr>se_code = CHR ''M''\<rparr>,
        EvSystemEvent 0 (16 * kHour + 1) \<lparr>se_code = CHR ''C''\<rparr>]"

fun emit_all :: "itch_event list \<Rightarrow> bytes \<Rightarrow> bytes option" where
  "emit_all [] out = Some out"
| "emit_all (e # es) out = do { out \<leftarrow> emit e out; emit_all es out }"

definition gen_file :: "nat \<Rightarrow> bytes option" where
  "gen_file rounds = emit_all (gen_events rounds) []"

section \<open>The replay program\<close>

text \<open>The loop of \<open>main\<close>: the header of each message is decoded (to be printed) and the message
  dispatched.\<close>

partial_function (option) replay_loop ::
    "itch_reader \<Rightarrow> unit builder \<Rightarrow> (itch_reader \<times> unit builder) option" where
  "replay_loop r s = do {
     (m, r) \<leftarrow> next_message r;
     if m = [] then Some (r, s)
     else do {
       _ \<leftarrow> decodeHeader m;
       (_, s) \<leftarrow> dispatch (builder_handler None) m s;
       replay_loop r s
     }
   }"

text \<open>The exit code, and the final state.\<close>

definition itch_test :: "byte_file \<Rightarrow> (nat \<times> unit builder) option" where
  "itch_test f = do {
     s \<leftarrow> builder_new 1024 ();
     (r, s) \<leftarrow> replay_loop (reader_new f (2 ^ 20)) s;
     if locateOf ''GOOGL'' s < 0 then Some (1, s)
     else Some (if ir_lengthMismatches r = 0 \<and> unknownRefs (stats (core s)) = 0 then 0 else 1, s)
   }"

section \<open>What the file holds\<close>

definition message_of :: "itch_event \<Rightarrow> bytes" where
  "message_of e = take (messageLength (typeOf e)) (encoded (replicate 64 0) e)"

lemma messageLength_64: "messageLength (typeOf e) \<le> length (replicate 64 (0 :: u8))"
  by (cases e) simp_all

lemma message_of_length: "encodable e \<Longrightarrow> length (message_of e) = messageLength (typeOf e)"
  using encode_defined [OF messageLength_64 [of e]] messageLength_64 [of e] by (simp add: message_of_def)

lemma message_of_framed:
  assumes "encodable e"
  shows "well_framed (message_of e)"
proof -
  have "byte_at (message_of e) 0 = Some (byte_of_char (typeOf e))"
    using encoded_type [OF messageLength_64 assms] by (simp add: message_of_def)
  then have "message_of e \<noteq> []" "message_of e ! 0 = byte_of_char (typeOf e)" by (auto simp: byte_at_def split: if_splits)
  then show ?thesis using message_of_length [OF assms] by (simp add: well_framed_at)
qed

lemma dispatch_message_of: "encodable e \<Longrightarrow> dispatch H (message_of e) h = map_option (Pair True) (handle H e h)"
  using dispatch_encode [OF messageLength_64 [of e], of H h] encode_defined [OF messageLength_64 [of e]]
  by (auto simp: message_of_def)

lemma emit_frame:
  assumes "encodable e"
  shows "emit e out = Some (out @ frame (message_of e))"
proof -
  note d = encode_defined [OF messageLength_64 [of e] assms]
  have "rd (encoded (replicate 64 0) e) 0 (messageLength (typeOf e)) = Some (message_of e)"
    using d messageLength_64 [of e] by (simp add: rd_def message_of_def)
  moreover have "putBe16 [0, 0] 0 w = Some (bytes16 w)" for w
    by (simp add: putBe16_wr wr_def blit_in_range)
  ultimately show ?thesis
    using d message_of_length [OF assms] by (simp add: emit_def frame_def)
qed

lemma emit_all_frames: "list_all encodable es \<Longrightarrow> emit_all es out = Some (out @ frames (map message_of es))"
  by (induction es arbitrary: out) (simp_all add: emit_frame)

lemma fits48_small: "unat t < 2 ^ 48 \<Longrightarrow> fits48 t"
  by (simp add: fits48_def word_less_nat_alt)

lemma dispatch_handle_all:
  "list_all encodable es \<Longrightarrow> dispatch_all H (map message_of es) h = handle_all H es h"
  by (induction es arbitrary: h) (auto simp: dispatch_message_of split: Option.bind_split)

section \<open>Every event refers to a live order\<close>

text \<open>The counters that say a feed was inconsistent.\<close>

definition faults :: "'l builder_core \<Rightarrow> u64 \<times> u64 \<times> u64" where
  "faults k = (unknownRefs (stats k), duplicateRefs (stats k), overExecutions (stats k))"

text \<open>An event that refers to what is there (and takes no more than is there), and the live orders
  after it.\<close>

definition take_shares :: "u64 \<Rightarrow> u32 \<Rightarrow> book_order list \<Rightarrow> book_order list" where
  "take_shares r n B = (case spec_find r B of None \<Rightarrow> B | Some x \<Rightarrow>
     if o_shares x \<le> n then drop_ref r B
     else map (\<lambda>y. if o_ref y = r then y\<lparr>o_shares := o_shares y - n\<rparr> else y) B)"

definition can_take :: "u64 \<Rightarrow> u32 \<Rightarrow> book_order list \<Rightarrow> bool" where
  "can_take r n B \<longleftrightarrow> (case spec_find r B of None \<Rightarrow> False | Some x \<Rightarrow> n \<le> o_shares x)"

definition can_add :: "u64 \<Rightarrow> book_order list \<Rightarrow> bool" where
  "can_add r B \<longleftrightarrow> r \<noteq> kEmpty \<and> r \<notin> o_ref ` set B"

definition new_order :: "u16 \<Rightarrow> u64 \<Rightarrow> BookSide \<Rightarrow> u32 \<Rightarrow> u32 \<Rightarrow> book_order" where
  "new_order l r s n p = \<lparr>o_ref = r, o_price = p, o_shares = n, o_locate = l, o_side = s, o_prev = None, o_next = None\<rparr>"

fun consistent :: "itch_event \<Rightarrow> book_order list \<Rightarrow> bool" where
  "consistent (EvAdd l ts m) B \<longleftrightarrow> can_add (ao_ref m) B"
| "consistent (EvExecuted l ts m) B \<longleftrightarrow> can_take (oe_ref m) (oe_shares m) B"
| "consistent (EvExecutedWithPrice l ts m) B \<longleftrightarrow> can_take (oewp_ref m) (oewp_shares m) B"
| "consistent (EvCancel l ts m) B \<longleftrightarrow> can_take (oc_ref m) (oc_shares m) B"
| "consistent (EvDelete l ts m) B \<longleftrightarrow> spec_find (od_ref m) B \<noteq> None"
| "consistent (EvReplace l ts m) B \<longleftrightarrow> spec_find (or_oldRef m) B \<noteq> None \<and> can_add (or_newRef m) (drop_ref (or_oldRef m) B)"
| "consistent e B \<longleftrightarrow> True"

fun live_after :: "itch_event \<Rightarrow> book_order list \<Rightarrow> book_order list" where
  "live_after (EvAdd l ts m) B = B @ [new_order l (ao_ref m) (side_of_char (ao_side m)) (ao_shares m) (ao_price m)]"
| "live_after (EvExecuted l ts m) B = take_shares (oe_ref m) (oe_shares m) B"
| "live_after (EvExecutedWithPrice l ts m) B = take_shares (oewp_ref m) (oewp_shares m) B"
| "live_after (EvCancel l ts m) B = take_shares (oc_ref m) (oc_shares m) B"
| "live_after (EvDelete l ts m) B = drop_ref (od_ref m) B"
| "live_after (EvReplace l ts m) B = (case spec_find (or_oldRef m) B of None \<Rightarrow> B | Some x \<Rightarrow>
     drop_ref (or_oldRef m) B @ [new_order (o_locate x) (or_newRef m) (o_side x) (or_shares m) (or_price m)])"
| "live_after e B = B"

fun consistent_run :: "itch_event list \<Rightarrow> book_order list \<Rightarrow> bool" where
  "consistent_run [] B \<longleftrightarrow> True"
| "consistent_run (e # es) B \<longleftrightarrow> consistent e B \<and> consistent_run es (live_after e B)"

fun live_run :: "itch_event list \<Rightarrow> book_order list \<Rightarrow> book_order list" where
  "live_run [] B = B"
| "live_run (e # es) B = live_run es (live_after e B)"

lemma run_append: "consistent_run (es @ es') B \<longleftrightarrow> consistent_run es B \<and> consistent_run es' (live_run es B)"
  "live_run (es @ es') B = live_run es' (live_run es B)"
  by (induction es arbitrary: B) simp_all

lemma faults_simps [simp]:
  "faults (recordDepth d k) = faults k" "faults (countLive k) = faults k" "faults (noteCrossed l ts k) = faults k"
  "faults (count_stat (\<lambda>st. st\<lparr>liveOrders := f1 st\<rparr>) k) = faults k"
  "faults (count_stat (\<lambda>st. st\<lparr>adds := f1 st\<rparr>) k) = faults k"
  "faults (count_stat (\<lambda>st. st\<lparr>executions := f1 st\<rparr>) k) = faults k"
  "faults (count_stat (\<lambda>st. st\<lparr>cancels := f1 st\<rparr>) k) = faults k"
  "faults (count_stat (\<lambda>st. st\<lparr>deletes := f1 st\<rparr>) k) = faults k"
  "faults (count_stat (\<lambda>st. st\<lparr>replaces := f1 st\<rparr>) k) = faults k"
  "faults (core_onTrade l m1 k) = faults k" "faults (core_onStockDirectory l m2 k) = faults k"
  "faults (core_onSystemEvent m3 k) = faults k" "faults (core_onTradingAction l ts m4 k) = faults k"
  "faults (k\<lparr>lastPrice := p\<rparr>) = faults k"
  by (simp_all add: faults_def recordDepth_def countLive_def noteCrossed_def count_stat_def core_onTrade_def
      core_onStockDirectory_def core_onSystemEvent_def core_onTradingAction_def Let_def)

lemma spec_find_ref: "spec_find r B = Some x \<Longrightarrow> o_ref x = r"
  using find_ref by blast

lemma spec_add_ok:
  "can_add r B \<Longrightarrow> snd (spec_add l ts r s n p (k, B)) = B @ [new_order l r s n p]
     \<and> faults (fst (spec_add l ts r s n p (k, B))) = faults k"
  by (simp add: can_add_def new_order_def Let_def)

lemma spec_take_ok:
  "spec_find r B = Some x \<Longrightarrow> n \<le> o_shares x \<Longrightarrow> snd (spec_take x n (k, B)) = take_shares r n B
     \<and> faults (fst (spec_take x n (k, B))) = faults k"
  by (auto simp: take_shares_def spec_find_ref)

lemma no_listener [simp]: "spec_change None l ts f st = f st"
  by (simp add: spec_change_def)

lemma spec_consistent:
  "consistent e B \<Longrightarrow> snd (spec_event None e (k, B)) = live_after e B
     \<and> faults (fst (spec_event None e (k, B))) = faults k"
  by (cases e)
    (auto simp: map_core_def can_take_def spec_add_ok spec_take_ok spec_find_ref take_shares_def
      simp del: spec_add.simps spec_take.simps split: option.splits)

lemma spec_consistent_run:
  "consistent_run es B \<Longrightarrow> snd (spec_run_events None es (k, B)) = live_run es B
     \<and> faults (fst (spec_run_events None es (k, B))) = faults k"
proof (induction es arbitrary: k B)
  case (Cons e es)
  obtain k' B' where st: "spec_event None e (k, B) = (k', B')" by fastforce
  then have "B' = live_after e B" "faults k' = faults k"
    using spec_consistent [of e B k] Cons.prems by auto
  then show ?case using Cons.IH [of B' k'] Cons.prems by (simp add: st)
qed simp

section \<open>The generated feed\<close>

text \<open>The book written by hand.\<close>

definition hand_book :: "book_order list" where
  "hand_book = [new_order 1 1000 Bid 40 1499900, new_order 1 1001 Ask 80 1500100,
     new_order 1 1004 Bid 100 1499700, new_order 1 1005 Ask 100 1500300,
     new_order 1 1006 Bid 100 1499600, new_order 1 1007 Ask 100 1500400,
     new_order 1 1008 Bid 100 1499500, new_order 1 1009 Ask 100 1500500,
     new_order 1 2002 Bid 150 1500000]"

lemma hand_run: "consistent_run (hand_events ts) []" "live_run (hand_events ts) [] = hand_book"
  by (simp_all add: hand_events_def resting_order_def hand_book_def can_add_def can_take_def take_shares_def
      spec_find_def drop_ref_def new_order_def kEmpty_def kGoogl_def side_of_char_def upt_rec Let_def)

definition flow_order :: "nat \<Rightarrow> book_order" where
  "flow_order i = new_order kGoogl (kFirstRef + of_nat i) (if i mod 2 = 0 then Bid else Ask) 100
     (if i mod 2 = 0 then 1500000 - of_nat (10 + i mod 40) * 100 else 1500000 + of_nat (10 + i mod 40) * 100)"

definition flow_book :: "nat \<Rightarrow> book_order list" where
  "flow_book i = hand_book @ map flow_order [i - kWindow ..< i]"

definition flow_bound :: nat where
  "flow_bound = 2 ^ 30"

lemma flow_ref [simp]: "o_ref (flow_order i) = kFirstRef + of_nat i" "o_shares (flow_order i) = 100"
  by (simp_all add: flow_order_def new_order_def)

lemma flow_ref_nat: "i < flow_bound \<Longrightarrow> unat (o_ref (flow_order i)) = 1000000 + i"
  by (simp add: kFirstRef_def unat_word_ariths flow_bound_def unat_of_nat take_bit_eq_mod)

lemma hand_ref_nat: "x \<in> set hand_book \<Longrightarrow> unat (o_ref x) < 1000000"
  by (auto simp: hand_book_def new_order_def)

lemma flow_ref_eq: "i < flow_bound \<Longrightarrow> j < flow_bound \<Longrightarrow> o_ref (flow_order i) = o_ref (flow_order j) \<longleftrightarrow> i = j"
  using flow_ref_nat [of i] flow_ref_nat [of j] by (metis add_left_cancel)

lemma flow_ref_hand: "i < flow_bound \<Longrightarrow> x \<in> set hand_book \<Longrightarrow> o_ref x \<noteq> o_ref (flow_order i)"
  using flow_ref_nat [of i] hand_ref_nat [of x] by auto

lemma find_append_flow:
  assumes "i < flow_bound" "i \<in> set js" "\<forall>j\<in>set js. j < flow_bound"
  shows "spec_find (o_ref (flow_order i)) (hand_book @ map flow_order js) = Some (flow_order i)"
proof -
  have "List.find (\<lambda>x. o_ref x = o_ref (flow_order i)) hand_book = None"
    using flow_ref_hand [OF assms(1)] by (simp add: find_None_iff)
  moreover have "List.find (\<lambda>x. o_ref x = o_ref (flow_order i)) (map flow_order js) = Some (flow_order i)"
    using assms(2,3)
  proof (induction js)
    case (Cons j js)
    show ?case
    proof (cases "j = i")
      case False
      then have "o_ref (flow_order j) \<noteq> o_ref (flow_order i)" using flow_ref_eq assms(1) Cons.prems by auto
      then show ?thesis using Cons False by (simp del: flow_ref)
    qed simp
  qed simp
  moreover have "List.find P (xs @ ys) = (case List.find P xs of None \<Rightarrow> List.find P ys | Some x \<Rightarrow> Some x)"
    for P and xs ys :: "book_order list" by (induction xs) simp_all
  ultimately show ?thesis by (simp add: spec_find_def)
qed

lemma drop_flow:
  assumes "i < flow_bound" "\<forall>j\<in>set js. j < flow_bound"
  shows "drop_ref (o_ref (flow_order i)) (hand_book @ map flow_order js) = hand_book @ map flow_order (filter (\<lambda>j. j \<noteq> i) js)"
proof -
  have "filter (\<lambda>x. o_ref x \<noteq> o_ref (flow_order i)) hand_book = hand_book"
    using flow_ref_hand [OF assms(1)] by (simp add: filter_id_conv)
  moreover have "filter (\<lambda>x. o_ref x \<noteq> o_ref (flow_order i)) (map flow_order js) = map flow_order (filter (\<lambda>j. j \<noteq> i) js)"
    using assms(2) by (induction js) (auto simp: flow_ref_eq [OF _ assms(1)] simp del: flow_ref)
  ultimately show ?thesis by (simp add: drop_ref_def)
qed

lemma flow_round_run:
  assumes i: "i < flow_bound"
  shows "consistent_run (flow_round ts i) (flow_book i) \<and> live_run (flow_round ts i) (flow_book i) = flow_book (Suc i)"
proof -
  let ?B = "hand_book @ map flow_order [i - kWindow ..< Suc i]"
  have later: "\<forall>j\<in>set [i - kWindow ..< Suc i]. j < flow_bound" using i by auto
  have new: "can_add (o_ref (flow_order i)) (flow_book i)"
  proof -
    have "o_ref (flow_order i) \<noteq> kEmpty"
      using flow_ref_nat [OF i] i by (auto simp: kEmpty_def flow_bound_def unsigned_minus_1_eq_mask mask_eq_exp_minus_1 simp del: flow_ref)
    moreover have "o_ref (flow_order i) \<notin> o_ref ` set (flow_book i)"
    proof
      assume "o_ref (flow_order i) \<in> o_ref ` set (flow_book i)"
      then obtain x where x: "x \<in> set (flow_book i)" "o_ref x = o_ref (flow_order i)" by (metis imageE)
      then consider "x \<in> set hand_book" | j where "j < i" "x = flow_order j" by (auto simp: flow_book_def)
      then show False
      proof cases
        case 1
        then show ?thesis using flow_ref_hand [OF i] x(2) by blast
      next
        case 2
        then show ?thesis using flow_ref_eq [of j i] i x(2) by simp
      qed
    qed
    ultimately show ?thesis by (simp add: can_add_def)
  qed
  have add: "flow_book i @ [flow_order i] = ?B" by (simp add: flow_book_def)
  let ?t = "ts + 100 + of_nat i" and ?o = "i - kWindow"
  obtain e where round: "flow_round ts i = e # (if i < kWindow then []
      else if i mod 2 = 0 then [EvDelete kGoogl ?t \<lparr>od_ref = o_ref (flow_order ?o)\<rparr>]
      else [EvExecuted kGoogl ?t \<lparr>oe_ref = o_ref (flow_order ?o), oe_shares = 100, oe_match = of_nat i\<rparr>])"
    and e: "consistent e (flow_book i)" "live_after e (flow_book i) = ?B"
  proof (rule that)
    show "flow_round ts i = hd (flow_round ts i) # (if i < kWindow then []
      else if i mod 2 = 0 then [EvDelete kGoogl ?t \<lparr>od_ref = o_ref (flow_order ?o)\<rparr>]
      else [EvExecuted kGoogl ?t \<lparr>oe_ref = o_ref (flow_order ?o), oe_shares = 100, oe_match = of_nat i\<rparr>])"
      by (simp add: flow_round_def Let_def)
    show "consistent (hd (flow_round ts i)) (flow_book i)" using new by (simp add: flow_round_def Let_def)
    show "live_after (hd (flow_round ts i)) (flow_book i) = ?B"
      unfolding add [symmetric] by (simp add: flow_round_def Let_def flow_order_def side_of_char_def)
  qed
  show ?thesis
  proof (cases "i < kWindow")
    case True
    then have "flow_book (Suc i) = ?B" by (simp add: flow_book_def)
    then show ?thesis using True e by (simp add: round del: upt_Suc)
  next
    case False
    have o: "?o < flow_bound" "?o \<in> set [?o ..< Suc i]" using i by auto
    have "filter (\<lambda>j. j \<noteq> ?o) [?o ..< Suc i] = [Suc ?o ..< Suc i]"
    proof -
      have "[?o ..< Suc i] = ?o # [Suc ?o ..< Suc i]" by (simp add: upt_conv_Cons del: upt_Suc)
      then show ?thesis by (simp del: upt_Suc)
    qed
    moreover have "Suc i - kWindow = Suc ?o" using False by simp
    ultimately have dropped: "drop_ref (o_ref (flow_order ?o)) ?B = flow_book (Suc i)"
      unfolding drop_flow [OF o(1) later] by (simp add: flow_book_def del: upt_Suc)
    note found = find_append_flow [OF o later]
    have taken: "take_shares (o_ref (flow_order ?o)) 100 ?B = flow_book (Suc i)" "can_take (o_ref (flow_order ?o)) 100 ?B"
      using found dropped by (simp_all add: take_shares_def can_take_def del: flow_ref(1) upt_Suc)
    show ?thesis
      using False e found dropped taken by (simp add: round del: upt_Suc flow_ref(1))
  qed
qed

lemma flow_run:
  "n \<le> flow_bound \<Longrightarrow> consistent_run (concat (map (flow_round ts) [0 ..< n])) hand_book
     \<and> live_run (concat (map (flow_round ts) [0 ..< n])) hand_book = flow_book n"
proof (induction n)
  case 0
  then show ?case by (simp add: flow_book_def)
next
  case (Suc n)
  then show ?case using flow_round_run [of n ts] by (simp add: run_append)
qed

lemma gen_run:
  assumes "n \<le> flow_bound"
  shows "consistent_run (gen_events n) [] \<and> live_run (gen_events n) [] = flow_book n"
  using flow_run [OF assms] hand_run by (simp add: gen_events_def run_append)

text \<open>The encoders take every event.\<close>

definition kOpen :: u64 where
  "kOpen = 34200000000000"

lemma open_time: "9 * kHour + kHour div 2 = kOpen"
  by (simp add: kHour_def kOpen_def)

lemma kOpen_later: "n < 2 ^ 40 \<Longrightarrow> fits48 (kOpen + of_nat n)"
  by (intro fits48_small) (simp add: kOpen_def unat_word_ariths unat_of_nat take_bit_eq_mod)

lemma encodable_hand: "list_all encodable (hand_events kOpen)"
  using kOpen_later [of 20] kOpen_later [of 21] kOpen_later [of 22] kOpen_later [of 23] kOpen_later [of 24]
    kOpen_later [of 0] kOpen_later [of 1] kOpen_later [of 2] kOpen_later [of 3] kOpen_later [of 4] kOpen_later [of 5]
    kOpen_later [of 6] kOpen_later [of 7] kOpen_later [of 8] kOpen_later [of 9]
  by (simp add: hand_events_def resting_order_def googl_def upt_rec Let_def)

lemma encodable_round: "i < flow_bound \<Longrightarrow> list_all encodable (flow_round kOpen i)"
proof -
  assume "i < flow_bound"
  then have "fits48 (kOpen + of_nat (100 + i))" by (intro kOpen_later) (simp add: flow_bound_def)
  then have "fits48 (kOpen + 100 + of_nat i)" by (simp add: ac_simps)
  then show ?thesis by (simp add: flow_round_def googl_def Let_def)
qed

lemma encodable_gen: "n \<le> flow_bound \<Longrightarrow> list_all encodable (gen_events n)"
proof -
  assume n: "n \<le> flow_bound"
  have "\<forall>i<n. list_all encodable (flow_round kOpen i)" using encodable_round n by (meson less_le_trans)
  then have "list_all encodable (concat (map (flow_round kOpen) [0 ..< n]))" by (auto simp: list_all_iff)
  moreover have "fits48 (4 * kHour)" "fits48 (16 * kHour)" "fits48 (16 * kHour + 1)" "fits48 kOpen"
    by (simp_all add: kHour_def kOpen_def fits48_def)
  ultimately show ?thesis
    using encodable_hand by (simp add: gen_events_def open_time googl_def)
qed

lemma length_gen: "length (gen_events n) \<le> 20 + 2 * n"
proof -
  have "length (concat (map (flow_round ts) [0 ..< n])) \<le> 2 * n" for ts
    by (induction n) (auto simp: flow_round_def Let_def)
  from this [of "9 * kHour + kHour div 2"] show ?thesis by (simp add: gen_events_def hand_events_def)
qed

section \<open>The replay\<close>

text \<open>The symbols of a run are those of its directory messages.\<close>

lemma symbols_simps [simp]:
  "symbols (recordDepth d k) = symbols k" "symbols (countLive k) = symbols k" "symbols (noteCrossed l ts k) = symbols k"
  "symbols (count_stat f k) = symbols k" "symbols (core_onTrade l m1 k) = symbols k"
  "symbols (core_onSystemEvent m3 k) = symbols k" "symbols (core_onTradingAction l ts m4 k) = symbols k"
  by (simp_all add: recordDepth_def countLive_def noteCrossed_def count_stat_def core_onTrade_def
      core_onSystemEvent_def core_onTradingAction_def Let_def)

lemma spec_symbols:
  "(\<forall>l ts m. e \<noteq> EvStockDirectory l ts m) \<Longrightarrow> symbols (fst (spec_event None e (k, B))) = symbols k"
  by (cases e) (auto simp: map_core_def Let_def split: option.splits)

lemma spec_run_symbols:
  "\<forall>e\<in>set es. \<forall>l ts m. e \<noteq> EvStockDirectory l ts m \<Longrightarrow>
     symbols (fst (spec_run_events None es (k, B))) = symbols k"
proof (induction es arbitrary: k B)
  case (Cons e es)
  obtain k' B' where st: "spec_event None e (k, B) = (k', B')" by fastforce
  then have "symbols k' = symbols k" using spec_symbols [of e k B] Cons.prems by simp
  then show ?case using Cons.IH [of k' B'] Cons.prems by (simp add: st)
qed simp

lemma gen_symbols: "symbols (fst (spec_run_events None (gen_events n) (new_core l, []))) kGoogl = ''GOOGL''"
proof -
  let ?rest = "[EvSystemEvent 0 (9 * kHour + kHour div 2) \<lparr>se_code = CHR ''Q''\<rparr>]
     @ hand_events (9 * kHour + kHour div 2)
     @ concat (map (flow_round (9 * kHour + kHour div 2)) [0 ..< n])
     @ [EvSystemEvent 0 (16 * kHour) \<lparr>se_code = CHR ''M''\<rparr>,
        EvSystemEvent 0 (16 * kHour + 1) \<lparr>se_code = CHR ''C''\<rparr>]"
  have no: "\<forall>e\<in>set ?rest. \<forall>l ts m. e \<noteq> EvStockDirectory l ts m"
    by (auto simp: hand_events_def resting_order_def flow_round_def Let_def split: if_splits)
  define st where "st = spec_event None (EvStockDirectory kGoogl (4 * kHour) \<lparr>sd_stock = googl\<rparr>)
      (spec_event None (EvSystemEvent 0 (4 * kHour) \<lparr>se_code = CHR ''O''\<rparr>) (new_core l, []))"
  have "spec_run_events None (gen_events n) (new_core l, []) = spec_run_events None ?rest st"
    unfolding gen_events_def st_def by simp
  moreover have "symbols (fst (spec_run_events None ?rest st)) = symbols (fst st)"
    using spec_run_symbols [OF no, of "fst st" "snd st"] by simp
  moreover have "symbols (fst st) kGoogl = ''GOOGL''"
    by (simp add: st_def map_core_def core_onStockDirectory_def googl_def)
  ultimately show ?thesis by simp
qed

text \<open>Reading and dispatching in turn is reading all, then dispatching all.\<close>

lemma header_framed: "well_framed m \<Longrightarrow> \<exists>h. decodeHeader m = Some h"
proof -
  assume "well_framed m"
  then have "11 \<le> length m" "m \<noteq> []" by (auto simp: well_framed_def messageLength_def split: if_splits)
  then show ?thesis
    using be16.get_in_range [of 1 m] be16.get_in_range [of 3 m] be48.get_in_range [of 5 m]
    by (simp add: decodeHeader_def byte_at_def)
qed

lemma replay_loop_dispatch:
  "read_all r = Some (ms, r') \<Longrightarrow> \<forall>m\<in>set ms. well_framed m \<Longrightarrow>
     replay_loop r s = map_option (Pair r') (dispatch_all (builder_handler None) ms s)"
proof (induction ms arbitrary: r s)
  case Nil
  then have "next_message r = Some ([], r')"
    by (subst (asm) read_all.simps) (auto simp: bind_Some_iff split: if_splits)
  then show ?case by (subst replay_loop.simps) simp
next
  case (Cons m ms)
  from Cons.prems(1) obtain r1 where r1: "next_message r = Some (m, r1)" "m \<noteq> []" "read_all r1 = Some (ms, r')"
    by (subst (asm) read_all.simps) (auto simp: bind_Some_iff split: if_splits)
  obtain hd where "decodeHeader m = Some hd" using header_framed Cons.prems(2) by auto
  then have "replay_loop r s = Option.bind (dispatch (builder_handler None) m s) (\<lambda>(_, s). replay_loop r1 s)"
    using r1(1,2) by (subst replay_loop.simps) simp
  then show ?case using Cons.IH [OF r1(3)] Cons.prems(2)
    by (cases "dispatch (builder_handler None) m s") (auto simp: split_def)
qed

section \<open>The best prices\<close>

lemma flow_price_range:
  "o_locate (flow_order i) = 1 \<and> (o_side (flow_order i) = Bid \<longrightarrow> unat (o_price (flow_order i)) < 1500000)
     \<and> (o_side (flow_order i) = Ask \<longrightarrow> 1500100 < unat (o_price (flow_order i)))"
proof -
  let ?k = "10 + i mod 40"
  have "i mod 40 < 40" by simp
  then have k: "10 \<le> ?k" "?k < 50" by linarith+
  have down: "unat (1500000 - of_nat ?k * 100 :: u32) = 1500000 - ?k * 100"
  proof -
    have off: "unat (of_nat ?k * 100 :: u32) = ?k * 100"
      using k by (simp add: unat_word_ariths unat_of_nat take_bit_eq_mod)
    have "of_nat ?k * 100 \<le> (1500000 :: u32)" using k by (simp only: word_le_nat_alt off) simp
    then show ?thesis by (simp only: unat_sub off) simp
  qed
  have up: "unat (1500000 + of_nat ?k * 100 :: u32) = 1500000 + ?k * 100"
    using k by (simp add: unat_word_ariths unat_of_nat take_bit_eq_mod)
  show ?thesis
    using k down up by (auto simp: flow_order_def new_order_def kGoogl_def)
qed

lemma queue_of_append: "queue_of (A @ B) l s p = queue_of A l s p @ queue_of B l s p"
  by (simp add: queue_of_def)

lemma side_of_append: "side_of_book (A @ B) l s = side_of_book A l s @ side_of_book B l s"
  by (simp add: side_of_book_def)

lemma last_sorted:
  assumes "finite P" "p \<in> P" "\<forall>x\<in>P. x \<le> p"
  shows "last (sorted_list_of_set P) = (p :: 'a :: linorder)"
proof -
  let ?xs = "sorted_list_of_set P"
  have set: "set ?xs = P" using assms(1) by simp
  then obtain i where i: "i < length ?xs" "?xs ! i = p" using assms(2) by (metis in_set_conv_nth)
  have ne: "?xs \<noteq> []" using set assms(2) by (metis empty_iff list.set(1))
  have "p \<le> last ?xs"
    using sorted_nth_mono [of ?xs i "length ?xs - 1"] i ne by (simp add: last_conv_nth)
  moreover have "last ?xs \<le> p" using assms(3) set last_in_set [OF ne] by blast
  ultimately show ?thesis by (rule antisym [rotated])
qed

lemma best_level:
  assumes "p \<in> o_price ` set (side_of_book B l s)"
    and "\<forall>x\<in>set (side_of_book B l s). (case s of Bid \<Rightarrow> o_price x \<le> p | Ask \<Rightarrow> p \<le> o_price x)"
  shows "vec_back (book_levels B l s) = Some (p, of_nat (length (queue_of B l s p)),
     of_nat (sum_list (map (\<lambda>x. unat (o_shares x)) (queue_of B l s p))))"
proof -
  let ?P = "o_price ` set (side_of_book B l s)"
  have "?P \<noteq> {}" using assms(1) by auto
  have "last (price_list s ?P) = p"
  proof (cases s)
    case Bid
    then show ?thesis using assms by (simp add: price_list_def last_sorted)
  next
    case Ask
    have "Min ?P = p" using assms Ask by (intro Min_eqI) auto
    then show ?thesis using Ask \<open>?P \<noteq> {}\<close> by (simp add: price_list_def last_rev sorted_list_of_set_nonempty)
  qed
  moreover have "price_list s ?P \<noteq> []" using \<open>?P \<noteq> {}\<close> by (cases s) (auto simp: price_list_def)
  ultimately show ?thesis
    by (simp add: vec_back_def book_levels_def book_prices_def last_map)
qed

lemma flow_price_word:
  "o_side (flow_order i) = Bid \<Longrightarrow> o_price (flow_order i) < 1500000"
  "o_side (flow_order i) = Ask \<Longrightarrow> 1500100 < o_price (flow_order i)"
  using flow_price_range [of i] by (simp_all add: word_less_nat_alt)

lemma hand_sides:
  "side_of_book hand_book 1 Bid = [new_order 1 1000 Bid 40 1499900, new_order 1 1004 Bid 100 1499700,
     new_order 1 1006 Bid 100 1499600, new_order 1 1008 Bid 100 1499500, new_order 1 2002 Bid 150 1500000]"
  "side_of_book hand_book 1 Ask = [new_order 1 1001 Ask 80 1500100, new_order 1 1005 Ask 100 1500300,
     new_order 1 1007 Ask 100 1500400, new_order 1 1009 Ask 100 1500500]"
  "queue_of hand_book 1 Bid 1500000 = [new_order 1 2002 Bid 150 1500000]"
  "queue_of hand_book 1 Ask 1500100 = [new_order 1 1001 Ask 80 1500100]"
  by (simp_all add: hand_book_def side_of_book_def queue_of_def new_order_def)

lemma flow_best:
  "vec_back (book_levels (flow_book n) 1 Bid) = Some (1500000, 1, 150)"
  "vec_back (book_levels (flow_book n) 1 Ask) = Some (1500100, 1, 80)"
proof -
  let ?js = "[n - kWindow ..< n]"
  have bids: "queue_of (map flow_order js) 1 Bid 1500000 = []" "queue_of (map flow_order js) 1 Ask 1500100 = []" for js
    using flow_price_word by (fastforce simp: queue_of_def filter_empty_conv)+
  have sides: "x \<in> set (side_of_book (map flow_order js) 1 Bid) \<Longrightarrow> o_price x < 1500000"
    "x \<in> set (side_of_book (map flow_order js) 1 Ask) \<Longrightarrow> 1500100 < o_price x" for x js
    using flow_price_word by (auto simp: side_of_book_def)
  have "1500000 \<in> o_price ` set (side_of_book (flow_book n) 1 Bid)"
    "\<forall>x\<in>set (side_of_book (flow_book n) 1 Bid). o_price x \<le> 1500000"
    "1500100 \<in> o_price ` set (side_of_book (flow_book n) 1 Ask)"
    "\<forall>x\<in>set (side_of_book (flow_book n) 1 Ask). 1500100 \<le> o_price x"
    using sides [of _ ?js] by (auto simp: flow_book_def side_of_append hand_sides new_order_def intro: less_imp_le)
  note best = best_level [of 1500000 "flow_book n" 1 Bid] best_level [of 1500100 "flow_book n" 1 Ask] this
  then show "vec_back (book_levels (flow_book n) 1 Bid) = Some (1500000, 1, 150)"
    "vec_back (book_levels (flow_book n) 1 Ask) = Some (1500100, 1, 80)"
    by (simp_all add: flow_book_def queue_of_append bids hand_sides new_order_def)
qed

text \<open>A builder whose books show \<open>B\<close>: the levels of every side, and the orders in the chain of each.\<close>

definition shows_book :: "unit builder \<Rightarrow> book_order list \<Rightarrow> bool" where
  "shows_book s B \<longleftrightarrow> (\<forall>l sd. map level_view (sideOf (books s l) sd) = book_levels B l sd
     \<and> map (\<lambda>lv. map_option (map (\<lambda>a. the (payloads (mem s) a))) (walk (mem s) (l_head lv))) (sideOf (books s l) sd)
       = map (\<lambda>p. Some (queue_of B l sd p)) (book_prices B l sd))
     \<and> unat (liveOrders (stats (core s))) = length B"

lemma builder_gen:
  assumes "rounds \<le> flow_bound" "n \<le> 2 ^ 61"
  shows "\<exists>s s'. builder_new n () = Some s \<and> handle_all (builder_handler None) (gen_events rounds) s = Some s'
    \<and> faults (core s') = (0, 0, 0) \<and> symbols (core s') kGoogl = ''GOOGL'' \<and> shows_book s' (flow_book rounds)"
proof -
  from new_builder_rep [OF assms(2), of "()"] obtain s where s: "builder_new n () = Some s" "builder_rep s []" by (elim exE conjE)
  have few: "length (gen_events rounds) \<le> 2 ^ 32"
    using length_gen [of rounds] assms(1) by (simp add: flow_bound_def)
  then have "length ([] :: addr list) + length (gen_events rounds) \<le> 2 ^ 32" by simp
  from builder_run_refines [OF s(2) this, of None] obtain s' where
    s': "handle_all (builder_handler None) (gen_events rounds) s = Some s'" by blast
  from builder_run [OF assms(2) few s(1) s'] obtain L where
    L: "builder_rep s' L" "(core s', orders s' L) = spec_run_events None (gen_events rounds) (new_core (), [])"
      "length L \<le> 2 ^ 32" by blast
  have run: "orders s' L = flow_book rounds" "faults (core s') = faults (new_core ())"
    using spec_consistent_run [of "gen_events rounds" "[]" "new_core ()"] gen_run [OF assms(1)] by (simp_all flip: L(2))
  have "counted (core s', orders s' L)" unfolding L(2) by (rule counted_run [OF new_state_ok(2,1)])
  then have "liveOrders (stats (core s')) = of_nat (length (flow_book rounds))" by (simp add: counted_def run(1))
  moreover have "length (flow_book rounds) < 2 ^ 64"
    using L(3) arg_cong [OF run(1), of length] by (simp add: orders_def)
  ultimately have "unat (liveOrders (stats (core s'))) = length (flow_book rounds)" by simp
  then have "shows_book s' (flow_book rounds)"
    using rep_levels [OF L(1)] rep_queues [OF L(1)] unfolding shows_book_def run(1) by blast
  moreover have "faults (core s') = (0, 0, 0)" unfolding run(2) by (simp add: faults_def new_core_def zero_stats_def)
  moreover have "symbols (core s') kGoogl = ''GOOGL''" using gen_symbols [of rounds "()"] by (simp flip: L(2))
  ultimately show ?thesis using s(1) s' by blast
qed

lemma shows_best:
  assumes "shows_book s (flow_book rounds)"
  shows "map_option level_view (bestBid (books s kGoogl)) = Some (1500000, 1, 150)"
    "map_option level_view (bestAsk (books s kGoogl)) = Some (1500100, 1, 80)"
proof -
  have "vec_back (map level_view (sideOf (books s kGoogl) sd)) = vec_back (book_levels (flow_book rounds) 1 sd)" for sd
    using assms by (simp add: shows_book_def kGoogl_def)
  from this [of Bid] this [of Ask] show "map_option level_view (bestBid (books s kGoogl)) = Some (1500000, 1, 150)"
    "map_option level_view (bestAsk (books s kGoogl)) = Some (1500100, 1, 80)"
    by (simp_all add: vec_back_map flow_best bestBid_def bestAsk_def)
qed

lemma locateOf_defined:
  assumes "symbols (core s) w = symb"
  shows "0 \<le> locateOf symb s"
proof -
  have "unat w < kMaxLocates" using unat_u16_less [of w] by (simp add: kMaxLocates_def)
  then have "List.find (\<lambda>i. symbols (core s) (of_nat i) = symb) [0..<kMaxLocates] \<noteq> None"
    using assms by (auto simp: find_upt_None intro!: exI [of _ "unat w"])
  then show ?thesis by (auto simp: locateOf_def)
qed

text \<open>C17. The generator keeps its promises. For every number of rounds up to \<open>2^30\<close> it writes a file
  that \<open>itch_test\<close>, whatever the sizes in which the file is read, replays with exit code 0: no reference
  is unknown, reused or over-executed. The books it ends with are exactly the nine orders left of the
  hand-written book and the orders of the last 100 rounds, or of all if there are fewer: every level of
  every instrument and side with its price, count and size, and in each level these orders first come
  first; the count of live orders is theirs. So the best bid and ask stay those of the hand-written book.\<close>

theorem generated_feed_replays:
  assumes "rounds \<le> 2 ^ 30" "gen_file rounds = Some d" "fl_rest f = d"
  shows "\<exists>s. itch_test f = Some (0, s) \<and> faults (core s) = (0, 0, 0)
    \<and> (let B = hand_book @ map flow_order [rounds - 100 ..< rounds] in
        (\<forall>l sd. map level_view (sideOf (books s l) sd) = book_levels B l sd
          \<and> map (\<lambda>lv. map_option (map (\<lambda>a. the (payloads (mem s) a))) (walk (mem s) (l_head lv))) (sideOf (books s l) sd)
            = map (\<lambda>p. Some (queue_of B l sd p)) (book_prices B l sd))
        \<and> unat (liveOrders (stats (core s))) = 9 + min rounds 100)
    \<and> map_option level_view (bestBid (books s kGoogl)) = Some (1500000, 1, 150)
    \<and> map_option level_view (bestAsk (books s kGoogl)) = Some (1500100, 1, 80)"
proof -
  have bound: "rounds \<le> flow_bound" using assms(1) by (simp add: flow_bound_def)
  let ?ms = "map message_of (gen_events rounds)"
  have enc: "list_all encodable (gen_events rounds)" by (rule encodable_gen [OF bound])
  have content: "fl_rest f = frames ?ms" using assms(2,3) emit_all_frames [OF enc, of "[]"] by (simp add: gen_file_def)
  have framed: "\<forall>m\<in>set ?ms. well_framed m" using enc by (auto simp: list_all_iff message_of_framed)
  from framed_file_read [OF framed content, of "2 ^ 20"] obtain r where
    r: "read_all (reader_new f (2 ^ 20)) = Some (?ms, r)" "ir_lengthMismatches r = 0" by blast
  from builder_gen [OF bound, of 1024] obtain s s' where
    s: "builder_new 1024 () = Some s" "handle_all (builder_handler None) (gen_events rounds) s = Some s'"
    "faults (core s') = (0, 0, 0)" "symbols (core s') kGoogl = ''GOOGL''" "shows_book s' (flow_book rounds)" by auto
  have "replay_loop (reader_new f (2 ^ 20)) s = Some (r, s')"
    using replay_loop_dispatch [OF r(1) framed, of s] dispatch_handle_all [OF enc, of "builder_handler None" s] s(2) by simp
  moreover have "\<not> locateOf ''GOOGL'' s' < 0" using locateOf_defined [OF s(4)] by simp
  ultimately have "itch_test f = Some (0, s')"
    using s(1,3) r(2) by (simp add: itch_test_def faults_def)
  moreover have "length (hand_book @ map flow_order [rounds - 100 ..< rounds]) = 9 + min rounds 100"
    by (simp add: hand_book_def)
  moreover note s(5) [unfolded shows_book_def flow_book_def kWindow_def]
  ultimately show ?thesis using s(3) shows_best [OF s(5)] unfolding Let_def by (intro exI [of _ s']) presburger
qed

lemma generated_feed_replays_witness:
  "\<exists>d s. gen_file 250 = Some d \<and> itch_test \<lparr>fl_rest = d, fl_caps = [6, 0]\<rparr> = Some (0, s) \<and> faults (core s) = (0, 0, 0)
    \<and> unat (liveOrders (stats (core s))) = 109
    \<and> map level_view (sideOf (books s kGoogl) Bid) = book_levels (hand_book @ map flow_order [150 ..< 250]) kGoogl Bid"
proof -
  have n: "(250 :: nat) \<le> 2 ^ 30" "250 \<le> flow_bound" by (simp_all add: flow_bound_def)
  from emit_all_frames [OF encodable_gen [OF n(2)], of "[]"] obtain d where d: "gen_file 250 = Some d" by (simp add: gen_file_def)
  let ?f = "\<lparr>fl_rest = d, fl_caps = [6, 0]\<rparr>"
  have window: "(250 :: nat) - 100 = 150" "9 + min (250 :: nat) 100 = 109" by simp_all
  from generated_feed_replays [OF n(1) d, of ?f] obtain s where
    "itch_test ?f = Some (0, s)" "faults (core s) = (0, 0, 0)" "unat (liveOrders (stats (core s))) = 109"
    "map level_view (sideOf (books s kGoogl) Bid) = book_levels (hand_book @ map flow_order [150 ..< 250]) kGoogl Bid"
    unfolding window Let_def by (metis byte_file.select_convs(1))
  then show ?thesis using d by blast
qed

end
