(* ===== verification/FeedSender.thy ===== *)
theory FeedSender
  imports ItchReader MoldUdp64
begin

text \<open>
  The feed simulator \<open>src/mold_send.cpp\<close>: the file is read with \<open>ItchReader\<close>, its messages are packed
  into datagrams with \<open>PacketWriter\<close>, and each datagram goes to feed A and feed B. The state of \<open>main\<close>
  and its two lambdas \<open>send\<close> and \<open>flush\<close> are the record \<open>sender\<close> and the functions of the same names;
  \<open>takes n\<close> says whether the kernel takes the \<open>n\<close>-th datagram it is given, and the datagrams it took
  are collected per feed. \<open>mold_send_correct\<close> says what is on the feeds at the end.
\<close>

section \<open>The sender\<close>

record sender =
  ms_writer :: packet_writer
  ms_packets :: u64
  ms_messages :: u64
  ms_dropped :: u64
  ms_refused :: u64
  ms_nextSequence :: u64
  ms_feedA :: "bytes list"
  ms_feedB :: "bytes list"
  ms_attempts :: nat

record send_args =
  sa_maxBytes :: nat
  sa_session :: bytes
  sa_dropA :: u64
  sa_hasB :: bool

definition sendTo :: "(nat \<Rightarrow> bool) \<Rightarrow> bool \<Rightarrow> bytes \<Rightarrow> sender \<Rightarrow> sender" where
  "sendTo takes toB datagram s =
     (let ok = takes (ms_attempts s);
          s = s\<lparr>ms_attempts := ms_attempts s + 1\<rparr>
      in if \<not> ok then s\<lparr>ms_refused := ms_refused s + 1\<rparr>
         else if toB then s\<lparr>ms_feedB := ms_feedB s @ [datagram]\<rparr>
         else s\<lparr>ms_feedA := ms_feedA s @ [datagram]\<rparr>)"

definition send :: "(nat \<Rightarrow> bool) \<Rightarrow> send_args \<Rightarrow> bytes \<Rightarrow> bool \<Rightarrow> sender \<Rightarrow> sender" where
  "send takes ar datagram mayDrop s =
     (let s = s\<lparr>ms_packets := ms_packets s + 1\<rparr>;
          s = (if mayDrop \<and> sa_dropA ar > 0 \<and> ms_packets s mod sa_dropA ar = 0
               then s\<lparr>ms_dropped := ms_dropped s + 1\<rparr>
               else sendTo takes False datagram s)
      in if sa_hasB ar then sendTo takes True datagram s else s)"

definition flush :: "(nat \<Rightarrow> bool) \<Rightarrow> send_args \<Rightarrow> sender \<Rightarrow> sender option" where
  "flush takes ar s =
     (if w_count (ms_writer s) = 0 then Some s
      else do {
        let count = w_count (ms_writer s);
        (d, w) \<leftarrow> writer_finish (ms_writer s);
        let s = send takes ar d True (s\<lparr>ms_writer := w\<rparr>);
        let s = s\<lparr>ms_nextSequence := ms_nextSequence s + ucast count\<rparr>;
        Some (s\<lparr>ms_writer := writer_begin (ms_nextSequence s) (ms_writer s)\<rparr>)
      })"

text \<open>One message of the loop: \<open>False\<close> when it does not fit into an empty datagram.\<close>

definition send_message :: "(nat \<Rightarrow> bool) \<Rightarrow> send_args \<Rightarrow> bytes \<Rightarrow> sender \<Rightarrow> (bool \<times> sender) option" where
  "send_message takes ar m s = do {
     (ok, w) \<leftarrow> writer_add m (ms_writer s);
     let s = s\<lparr>ms_writer := w\<rparr>;
     (ok, s) \<leftarrow> (if ok then Some (True, s) else do {
       s \<leftarrow> flush takes ar s;
       (ok, w) \<leftarrow> writer_add m (ms_writer s);
       Some (ok, s\<lparr>ms_writer := w\<rparr>)
     });
     Some (ok, if ok then s\<lparr>ms_messages := ms_messages s + 1\<rparr> else s)
   }"

text \<open>A pass over a file.\<close>

partial_function (option) send_pass ::
    "(nat \<Rightarrow> bool) \<Rightarrow> send_args \<Rightarrow> itch_reader \<Rightarrow> sender \<Rightarrow> (bool \<times> sender) option" where
  "send_pass takes ar r s = do {
     (m, r) \<leftarrow> next_message r;
     if m = [] then Some (True, s)
     else do {
       (ok, s) \<leftarrow> send_message takes ar m s;
       if ok then send_pass takes ar r s else Some (False, s)
     }
   }"

text \<open>The passes: the file as each \<open>fopen\<close> finds it, or not at all.\<close>

fun send_passes ::
    "(nat \<Rightarrow> bool) \<Rightarrow> send_args \<Rightarrow> byte_file option list \<Rightarrow> sender \<Rightarrow> (bool \<times> sender) option" where
  "send_passes takes ar [] s = Some (True, s)"
| "send_passes takes ar (None # fs) s = Some (False, s)"
| "send_passes takes ar (Some f # fs) s = do {
     (ok, s) \<leftarrow> send_pass takes ar (reader_new f (2 ^ 20)) s;
     if ok then send_passes takes ar fs s else Some (False, s)
   }"

definition send_control :: "(nat \<Rightarrow> bool) \<Rightarrow> send_args \<Rightarrow> sender \<Rightarrow> sender option" where
  "send_control takes ar s = do {
     (d, w) \<leftarrow> writer_control (ms_nextSequence s) kEndOfSession (ms_writer s);
     Some (send takes ar d False (s\<lparr>ms_writer := w\<rparr>))
   }"

definition sender_new :: "send_args \<Rightarrow> sender" where
  "sender_new ar =
     \<lparr>ms_writer = writer_begin 1 (writer_new (replicate (sa_maxBytes ar) 0) (sa_session ar)),
      ms_packets = 0, ms_messages = 0, ms_dropped = 0, ms_refused = 0, ms_nextSequence = 1,
      ms_feedA = [], ms_feedB = [], ms_attempts = 0\<rparr>"

text \<open>\<open>main\<close>, from the check of the arguments on: the exit code and the final state.\<close>

definition mold_send :: "(nat \<Rightarrow> bool) \<Rightarrow> send_args \<Rightarrow> byte_file option list \<Rightarrow> (nat \<times> sender) option" where
  "mold_send takes ar files =
     (if sa_maxBytes ar < kHeaderBytes + 2 + 64 \<or> sa_maxBytes ar > 65000 then Some (2, sender_new ar)
      else do {
        (ok, s) \<leftarrow> send_passes takes ar files (sender_new ar);
        if \<not> ok then Some (1, s)
        else do {
          s \<leftarrow> flush takes ar s;
          s \<leftarrow> send_control takes ar s;
          s \<leftarrow> send_control takes ar s;
          s \<leftarrow> send_control takes ar s;
          Some (if ms_refused s > 0 then 1 else 0, s)
        }
      })"

section \<open>What the sender sends\<close>

definition padded :: "bytes \<Rightarrow> bytes" where
  "padded session = take 10 (session @ replicate 10 32)"

definition datagram_of :: "bytes \<Rightarrow> nat \<Rightarrow> u16 \<Rightarrow> bytes list \<Rightarrow> bytes" where
  "datagram_of session seq count ms = padded session @ bytes64 (of_nat seq) @ bytes16 count @ frames ms"

text \<open>The datagrams that carry the groups of messages, numbered on from \<open>seq\<close>.\<close>

fun datagrams :: "bytes \<Rightarrow> nat \<Rightarrow> bytes list list \<Rightarrow> bytes list" where
  "datagrams session seq [] = []"
| "datagrams session seq (g # G) =
     datagram_of session seq (of_nat (length g)) g # datagrams session (seq + length g) G"

lemma datagrams_append:
  "datagrams session seq (G @ G') = datagrams session seq G @ datagrams session (seq + length (concat G)) G'"
  by (induction G arbitrary: seq) (simp_all add: add.assoc)

text \<open>\<open>D\<close> are the datagrams sent so far; a feed that refuses and drops nothing has them all.\<close>

definition feeds_ok :: "(nat \<Rightarrow> bool) \<Rightarrow> send_args \<Rightarrow> bytes list \<Rightarrow> sender \<Rightarrow> bool" where
  "feeds_ok takes ar D s \<longleftrightarrow> set (ms_feedA s) \<subseteq> set D \<and> set (ms_feedB s) \<subseteq> set D
     \<and> (range takes = {True} \<longrightarrow> ms_refused s = 0
          \<and> (sa_dropA ar = 0 \<longrightarrow> ms_feedA s = D) \<and> (sa_hasB ar \<longrightarrow> ms_feedB s = D))"

definition sender_inv :: "(nat \<Rightarrow> bool) \<Rightarrow> send_args \<Rightarrow> bytes list list \<Rightarrow> bytes list \<Rightarrow> sender \<Rightarrow> bool" where
  "sender_inv takes ar G ms s \<longleftrightarrow> writes (ms_writer s) ms \<and> length (w_buffer (ms_writer s)) = sa_maxBytes ar
     \<and> w_sequence (ms_writer s) = ms_nextSequence s \<and> w_session (ms_writer s) = padded (sa_session ar)
     \<and> ms_nextSequence s = of_nat (1 + length (concat G))
     \<and> (\<forall>g\<in>set G. g \<noteq> [] \<and> list_all framable g \<and> length g < 65535)
     \<and> feeds_ok takes ar (datagrams (sa_session ar) 1 G) s"

lemma sendTo_writer [simp]: "ms_writer (sendTo takes b d s) = ms_writer s"
  "ms_nextSequence (sendTo takes b d s) = ms_nextSequence s"
  by (simp_all add: sendTo_def Let_def)

lemma send_writer [simp]: "ms_writer (send takes ar d b s) = ms_writer s"
  "ms_nextSequence (send takes ar d b s) = ms_nextSequence s"
  by (simp_all add: send_def Let_def)

lemma send_feeds:
  assumes "feeds_ok takes ar D s"
  shows "feeds_ok takes ar (D @ [d]) (send takes ar d b s)"
proof -
  have "takes n" if "range takes = {True}" for n using that by (metis rangeI singletonD)
  then show ?thesis
    using assms by (auto simp: feeds_ok_def send_def sendTo_def Let_def)
qed

lemma feeds_ok_fields:
  "feeds_ok takes ar D (s\<lparr>ms_writer := w\<rparr>) = feeds_ok takes ar D s"
  "feeds_ok takes ar D (s\<lparr>ms_nextSequence := n\<rparr>) = feeds_ok takes ar D s"
  "feeds_ok takes ar D (s\<lparr>ms_messages := n\<rparr>) = feeds_ok takes ar D s"
  by (simp_all add: feeds_ok_def)

lemma finish_buffer: "writer_finish w = Some (d, w') \<Longrightarrow> length (w_buffer w') = length (w_buffer w)
    \<and> w_sequence w' = w_sequence w \<and> w_session w' = w_session w"
  by (auto simp: writer_finish_def finishWithCount_def bind_Some_iff putBe64_wr putBe16_wr wr_def length_blit split: if_splits)

lemma begin_again: "writes w ms \<Longrightarrow> writes (writer_begin seq w) []"
  by (auto simp: writes_def writer_begin_def)

lemma writes_count: "writes w ms \<Longrightarrow> w_count w = 0 \<longleftrightarrow> ms = []"
  using of_nat_u16_iff [of "length ms" 0] by (simp add: writes_def)

lemma flush_inv:
  assumes inv: "sender_inv takes ar G ms s"
  shows "\<exists>s'. flush takes ar s = Some s' \<and> sender_inv takes ar (if ms = [] then G else G @ [ms]) [] s'"
proof (cases "ms = []")
  case True
  then show ?thesis using inv writes_count [of "ms_writer s" ms] by (simp add: flush_def sender_inv_def)
next
  case False
  have w: "writes (ms_writer s) ms" using inv by (simp add: sender_inv_def)
  from finish_writes [OF w] obtain w' where
    f: "writer_finish (ms_writer s) = Some (w_session (ms_writer s) @ bytes64 (w_sequence (ms_writer s))
        @ bytes16 (of_nat (length ms)) @ frames ms, w')" "writes w' ms" by blast
  let ?d = "w_session (ms_writer s) @ bytes64 (w_sequence (ms_writer s)) @ bytes16 (of_nat (length ms)) @ frames ms"
  have d: "?d = datagram_of (sa_session ar) (1 + length (concat G)) (of_nat (length ms)) ms"
    using inv by (simp add: sender_inv_def datagram_of_def)
  have count: "ucast (w_count (ms_writer s)) = (of_nat (length ms) :: u64)"
    using w by (simp add: writes_def word_unat_eq_iff unsigned_ucast_eq unat_of_nat take_bit_eq_mod)
  let ?s = "send takes ar ?d True (s\<lparr>ms_writer := w'\<rparr>)"
  let ?n = "ms_nextSequence s + of_nat (length ms)"
  let ?s' = "?s\<lparr>ms_nextSequence := ?n, ms_writer := writer_begin ?n w'\<rparr>"
  have "flush takes ar s = Some ?s'"
    using False writes_count [OF w] f(1) count by (simp add: flush_def Let_def)
  moreover have "sender_inv takes ar (G @ [ms]) [] ?s'"
  proof -
    have "feeds_ok takes ar (datagrams (sa_session ar) 1 G @ [?d]) ?s"
      using inv by (intro send_feeds) (simp add: feeds_ok_fields sender_inv_def)
    then have "feeds_ok takes ar (datagrams (sa_session ar) 1 (G @ [ms])) ?s'"
      by (simp add: datagrams_append d feeds_ok_fields)
    moreover have "list_all framable ms" "length ms < 65535" using w by (simp_all add: writes_def)
    ultimately show ?thesis
      using inv False begin_again [OF f(2)] finish_buffer [OF f(1)]
      by (simp add: sender_inv_def writer_begin_def ac_simps)
  qed
  ultimately show ?thesis using False by simp
qed

lemma inv_messages: "sender_inv takes ar G ms (s\<lparr>ms_messages := n\<rparr>) = sender_inv takes ar G ms s"
  by (simp add: sender_inv_def feeds_ok_fields)

lemma add_inv:
  assumes inv: "sender_inv takes ar G ms s"
  shows "\<exists>ok w. writer_add m (ms_writer s) = Some (ok, w)
    \<and> (ok \<longleftrightarrow> framable m \<and> length ms < 65534 \<and> 20 + length (frames ms) + length (frame m) \<le> sa_maxBytes ar)
    \<and> sender_inv takes ar G (if ok then ms @ [m] else ms) (s\<lparr>ms_writer := w\<rparr>)"
proof -
  have w: "writes (ms_writer s) ms" using inv by (simp add: sender_inv_def)
  from add_writes [OF w, of m] obtain ok w' where w': "writer_add m (ms_writer s) = Some (ok, w')"
    "ok \<longleftrightarrow> framable m \<and> length ms < 65534 \<and> w_size (ms_writer s) + length (frame m) \<le> length (w_buffer (ms_writer s))"
    "writes w' (if ok then ms @ [m] else ms)" "w_sequence w' = w_sequence (ms_writer s)"
    "w_session w' = w_session (ms_writer s)" "length (w_buffer w') = length (w_buffer (ms_writer s))" by blast
  have "w_size (ms_writer s) = 20 + length (frames ms)" using w by (simp add: writes_def)
  then show ?thesis using inv w' by (intro exI [of _ ok] exI [of _ w']) (simp add: sender_inv_def feeds_ok_fields)
qed

text \<open>A message of at most 64 bytes always goes into some datagram.\<close>

lemma send_message_inv:
  assumes inv: "sender_inv takes ar G ms s" and big: "86 \<le> sa_maxBytes ar" and m: "m \<noteq> []" "length m \<le> 64"
  shows "\<exists>s' G' ms'. send_message takes ar m s = Some (True, s') \<and> sender_inv takes ar G' ms' s'
    \<and> concat G' @ ms' = concat G @ ms @ [m]"
proof -
  have framable: "framable m" using m by (simp add: framable_def)
  from add_inv [OF inv, of m] obtain ok w where w: "writer_add m (ms_writer s) = Some (ok, w)"
    "sender_inv takes ar G (if ok then ms @ [m] else ms) (s\<lparr>ms_writer := w\<rparr>)" by blast
  show ?thesis
  proof (cases ok)
    case True
    then show ?thesis using w
      by (intro exI [of _ "s\<lparr>ms_writer := w, ms_messages := ms_messages s + 1\<rparr>"] exI [of _ G] exI [of _ "ms @ [m]"])
        (simp add: send_message_def inv_messages)
  next
    case False
    let ?G = "if ms = [] then G else G @ [ms]"
    from w(2) False flush_inv obtain s1 where s1: "flush takes ar (s\<lparr>ms_writer := w\<rparr>) = Some s1"
      "sender_inv takes ar ?G [] s1" by fastforce
    from add_inv [OF s1(2), of m] framable big m obtain w1 where w1: "writer_add m (ms_writer s1) = Some (True, w1)"
      "sender_inv takes ar ?G [m] (s1\<lparr>ms_writer := w1\<rparr>)" by (auto simp: length_frame)
    then show ?thesis using w s1(1) False
      by (intro exI [of _ "s1\<lparr>ms_writer := w1, ms_messages := ms_messages s1 + 1\<rparr>"] exI [of _ ?G] exI [of _ "[m]"])
        (simp add: send_message_def inv_messages)
  qed
qed

lemma framed_short: "well_framed m \<Longrightarrow> m \<noteq> [] \<and> length m \<le> 64"
  by (simp add: well_framed_def messageLength_def)

lemma send_pass_inv:
  "read_all r = Some (new, r') \<Longrightarrow> \<forall>m\<in>set new. well_framed m \<Longrightarrow> sender_inv takes ar G ms s \<Longrightarrow> 86 \<le> sa_maxBytes ar \<Longrightarrow>
     \<exists>s' G' ms'. send_pass takes ar r s = Some (True, s') \<and> sender_inv takes ar G' ms' s'
       \<and> concat G' @ ms' = concat G @ ms @ new"
proof (induction new arbitrary: r s G ms)
  case Nil
  then have "next_message r = Some ([], r')"
    by (subst (asm) read_all.simps) (auto simp: bind_Some_iff split: if_splits)
  then show ?case using Nil by (subst send_pass.simps) auto
next
  case (Cons m new)
  from Cons.prems(1) obtain r1 where r1: "next_message r = Some (m, r1)" "m \<noteq> []" "read_all r1 = Some (new, r')"
    by (subst (asm) read_all.simps) (auto simp: bind_Some_iff split: if_splits)
  have m: "m \<noteq> []" "length m \<le> 64" using framed_short Cons.prems(2) by auto
  from send_message_inv [OF Cons.prems(3,4) m] obtain s1 G1 ms1 where s1: "send_message takes ar m s = Some (True, s1)"
    "sender_inv takes ar G1 ms1 s1" "concat G1 @ ms1 = concat G @ ms @ [m]" by blast
  have "send_pass takes ar r s = send_pass takes ar r1 s1"
    using r1(1,2) s1(1) by (subst send_pass.simps) simp
  moreover have "\<forall>m\<in>set new. well_framed m" using Cons.prems(2) by simp
  from Cons.IH [OF r1(3) this s1(2) Cons.prems(4)] obtain s2 G2 ms2 where
    "send_pass takes ar r1 s1 = Some (True, s2)" "sender_inv takes ar G2 ms2 s2"
    "concat G2 @ ms2 = (concat G1 @ ms1) @ new" by auto
  ultimately show ?case using s1(3) by (intro exI [of _ s2] exI [of _ G2] exI [of _ ms2]) simp
qed

text \<open>The well-formed messages of a file.\<close>

definition messages_of :: "byte_file \<Rightarrow> bytes list" where
  "messages_of f = filter well_framed (fst (split_frames (fl_rest f)))"

lemma read_messages_of: "\<exists>r. read_all (reader_new f n) = Some (messages_of f, r)"
  using read_all_correct [OF reader_new_ok(1), of f n] by (cases "split_frames (fl_rest f)") (auto simp: reader_new_ok messages_of_def)

lemma messages_of_framed: "\<forall>m\<in>set (messages_of f). well_framed m"
  by (simp add: messages_of_def)

lemma send_passes_inv:
  "sender_inv takes ar G ms s \<Longrightarrow> 86 \<le> sa_maxBytes ar \<Longrightarrow>
     \<exists>s' G' ms'. send_passes takes ar (map Some fs) s = Some (True, s') \<and> sender_inv takes ar G' ms' s'
       \<and> concat G' @ ms' = concat G @ ms @ concat (map messages_of fs)"
proof (induction fs arbitrary: s G ms)
  case Nil
  then show ?case by auto
next
  case (Cons f fs)
  obtain r where r: "read_all (reader_new f (2 ^ 20)) = Some (messages_of f, r)" using read_messages_of by blast
  from send_pass_inv [OF r messages_of_framed Cons.prems] obtain s1 G1 ms1 where
    s1: "send_pass takes ar (reader_new f (2 ^ 20)) s = Some (True, s1)" "sender_inv takes ar G1 ms1 s1"
    "concat G1 @ ms1 = concat G @ ms @ messages_of f" by blast
  from Cons.IH [OF s1(2) Cons.prems(2)] obtain s2 G2 ms2 where
    "send_passes takes ar (map Some fs) s1 = Some (True, s2)" "sender_inv takes ar G2 ms2 s2"
    "concat G2 @ ms2 = (concat G1 @ ms1) @ concat (map messages_of fs)" by auto
  then show ?case using s1 by (intro exI [of _ s2] exI [of _ G2] exI [of _ ms2]) simp
qed

lemma sender_new_inv: "86 \<le> sa_maxBytes ar \<Longrightarrow> sa_maxBytes ar \<le> 65000 \<Longrightarrow> sender_inv takes ar [] [] (sender_new ar)"
  using begin_writes [of "replicate (sa_maxBytes ar) 0" 1 "sa_session ar"]
    writer_session [of 1 "replicate (sa_maxBytes ar) 0" "sa_session ar"]
  by (simp add: sender_inv_def sender_new_def feeds_ok_def padded_def) (simp add: writer_begin_def writer_new_def)

text \<open>The end of the session.\<close>

definition eos_datagram :: "bytes \<Rightarrow> nat \<Rightarrow> bytes" where
  "eos_datagram session seq = datagram_of session seq kEndOfSession []"

lemma control_inv:
  assumes w: "writes (ms_writer s) ms" "w_session (ms_writer s) = padded (sa_session ar)"
    and n: "ms_nextSequence s = of_nat n" and feeds: "feeds_ok takes ar D s"
  shows "\<exists>s'. send_control takes ar s = Some s' \<and> writes (ms_writer s') [] \<and> w_session (ms_writer s') = padded (sa_session ar)
    \<and> ms_nextSequence s' = of_nat n \<and> feeds_ok takes ar (D @ [eos_datagram (sa_session ar) n]) s'"
proof -
  from control_writes [OF w(1), of "ms_nextSequence s" kEndOfSession] obtain w' where
    w': "writer_control (ms_nextSequence s) kEndOfSession (ms_writer s)
      = Some (w_session (ms_writer s) @ bytes64 (ms_nextSequence s) @ bytes16 kEndOfSession, w')" "writes w' []" by blast
  have "w_session w' = w_session (ms_writer s)"
    using w'(1) by (auto simp: writer_control_def writer_begin_def finishWithCount_def bind_Some_iff)
  moreover have "w_session (ms_writer s) @ bytes64 (ms_nextSequence s) @ bytes16 kEndOfSession = eos_datagram (sa_session ar) n"
    by (simp add: eos_datagram_def datagram_of_def w(2) n)
  ultimately show ?thesis
    using w' w(2) n send_feeds [of takes ar D "s\<lparr>ms_writer := w'\<rparr>"] feeds
    by (simp add: send_control_def feeds_ok_fields)
qed

lemma mold_send_correct:
  assumes size: "86 \<le> sa_maxBytes ar" "sa_maxBytes ar \<le> 65000"
  shows "\<exists>s G. mold_send takes ar (map Some fs) = Some (if ms_refused s > 0 then 1 else 0, s)
    \<and> concat G = concat (map messages_of fs)
    \<and> (\<forall>g\<in>set G. g \<noteq> [] \<and> list_all framable g \<and> length g < 65535)
    \<and> feeds_ok takes ar (datagrams (sa_session ar) 1 G @ replicate 3 (eos_datagram (sa_session ar) (1 + length (concat G)))) s"
proof -
  from send_passes_inv [OF sender_new_inv [OF size] size(1), of takes fs] obtain s1 G1 ms1 where
    s1: "send_passes takes ar (map Some fs) (sender_new ar) = Some (True, s1)" "sender_inv takes ar G1 ms1 s1"
    "concat G1 @ ms1 = concat (map messages_of fs)" by auto
  define G where "G = (if ms1 = [] then G1 else G1 @ [ms1])"
  from flush_inv [OF s1(2)] obtain s2 where s2: "flush takes ar s1 = Some s2" "sender_inv takes ar G [] s2"
    unfolding G_def by blast
  have content: "concat G = concat (map messages_of fs)" using s1(3) by (auto simp: G_def)
  let ?D = "datagrams (sa_session ar) 1 G" and ?e = "eos_datagram (sa_session ar) (1 + length (concat G))"
  have w2: "writes (ms_writer s2) []" "w_session (ms_writer s2) = padded (sa_session ar)"
    "ms_nextSequence s2 = of_nat (1 + length (concat G))" "feeds_ok takes ar ?D s2"
    using s2(2) unfolding sender_inv_def by blast+
  from control_inv [OF w2] obtain s3 where s3: "send_control takes ar s2 = Some s3" "writes (ms_writer s3) []"
    "w_session (ms_writer s3) = padded (sa_session ar)" "ms_nextSequence s3 = of_nat (1 + length (concat G))"
    "feeds_ok takes ar (?D @ [?e]) s3" by blast
  from control_inv [OF s3(2-5)] obtain s4 where s4: "send_control takes ar s3 = Some s4" "writes (ms_writer s4) []"
    "w_session (ms_writer s4) = padded (sa_session ar)" "ms_nextSequence s4 = of_nat (1 + length (concat G))"
    "feeds_ok takes ar ((?D @ [?e]) @ [?e]) s4" by blast
  from control_inv [OF s4(2-5)] obtain s5 where s5: "send_control takes ar s4 = Some s5"
    "feeds_ok takes ar (((?D @ [?e]) @ [?e]) @ [?e]) s5" by blast
  have "mold_send takes ar (map Some fs) = Some (if ms_refused s5 > 0 then 1 else 0, s5)"
    using size s1(1) s2(1) s3(1) s4(1) s5(1) by (simp add: mold_send_def)
  moreover note content
  moreover have "\<forall>g\<in>set G. g \<noteq> [] \<and> list_all framable g \<and> length g < 65535" using s2(2) by (simp add: sender_inv_def)
  ultimately show ?thesis using s5(2)
    by (intro exI [of _ s5] exI [of _ G] conjI) (simp_all add: numeral_3_eq_3)
qed

end
