(* ===== verification/FeedReceiver.thy ===== *)
theory FeedReceiver
  imports BookSpec Sequencer
begin

text \<open>
  The feed handler \<open>src/mold_recv.cpp\<close>. A turn of its loop is given by the time after the sockets were
  read and the datagrams they held; \<open>recv_turn\<close>, \<open>gap_timer\<close> and \<open>recv_loop\<close> follow the loop of \<open>main\<close>,
  \<open>close_gaps\<close> and \<open>clean\<close> what comes after it. The lemmas \<open>received_*\<close> say that whatever the receiver
  does is a run of its sequencer on packets that it decoded and gaps that it gave up.
\<close>

section \<open>The receiver\<close>

text \<open>\<open>toBooks\<close>: the books and the count of messages that ITCH refused.\<close>

definition toBooks :: "(unit builder \<times> u64) deliver" where
  "toBooks n message h = do {
     (ok, b) \<leftarrow> dispatch (builder_handler None) message (fst h);
     Some (b, if ok then snd h else snd h + 1)
   }"

record receiver =
  rv_sequencer :: sequencer
  rv_books :: "unit builder \<times> u64"
  rv_malformed :: "PacketError \<Rightarrow> u64"
  rv_datagrams :: u64
  rv_firstArrival :: "int option"
  rv_gapSince :: "int option"
  rv_lastArrival :: int

definition receiver_new :: "int \<Rightarrow> receiver option" where
  "receiver_new start = do {
     b \<leftarrow> builder_new (2 ^ 16) ();
     Some \<lparr>rv_sequencer = sequencer_new 1 4096, rv_books = (b, 0), rv_malformed = (\<lambda>_. 0), rv_datagrams = 0,
       rv_firstArrival = None, rv_gapSince = None, rv_lastArrival = start\<rparr>
   }"

text \<open>One datagram read from a socket.\<close>

definition recv_datagram :: "bytes \<Rightarrow> receiver \<Rightarrow> receiver option" where
  "recv_datagram d v = do {
     let v = v\<lparr>rv_datagrams := rv_datagrams v + 1\<rparr>;
     (e, packet) \<leftarrow> decode d no_packet;
     if e \<noteq> NoError then Some (v\<lparr>rv_malformed := (rv_malformed v)(e := rv_malformed v e + 1)\<rparr>)
     else do {
       (q, h) \<leftarrow> onPacket packet toBooks (rv_sequencer v) (rv_books v);
       Some (v\<lparr>rv_sequencer := q, rv_books := h\<rparr>)
     }
   }"

fun recv_sockets :: "bytes list \<Rightarrow> receiver \<Rightarrow> receiver option" where
  "recv_sockets [] v = Some v"
| "recv_sockets (d # ds) v = do { v \<leftarrow> recv_datagram d v; recv_sockets ds v }"

definition recv_giveUp :: "receiver \<Rightarrow> receiver option" where
  "recv_giveUp v = do {
     (q, h) \<leftarrow> giveUpGap toBooks (rv_sequencer v) (rv_books v);
     Some (v\<lparr>rv_sequencer := q, rv_books := h\<rparr>)
   }"

text \<open>The wait for an open gap, after the sockets have been read.\<close>

definition gap_timer :: "int \<Rightarrow> int \<Rightarrow> bool \<Rightarrow> receiver \<Rightarrow> receiver option" where
  "gap_timer gapWait now got v =
     (if \<not> gapOpen (rv_sequencer v) then Some (v\<lparr>rv_gapSince := None\<rparr>)
      else case rv_gapSince v of
        None \<Rightarrow> Some (v\<lparr>rv_gapSince := Some now\<rparr>)
      | Some since \<Rightarrow>
          if \<not> got \<and> now - since > gapWait
          then do { v \<leftarrow> recv_giveUp v; Some (v\<lparr>rv_gapSince := None\<rparr>) }
          else Some v)"

text \<open>A turn of the loop: what the sockets held and the time; whether the loop is left as idle.\<close>

definition recv_turn :: "int \<Rightarrow> int \<Rightarrow> int \<times> bytes list \<Rightarrow> receiver \<Rightarrow> (bool \<times> receiver) option" where
  "recv_turn gapWait idle turn v = do {
     let (now, ds) = turn;
     v \<leftarrow> recv_sockets ds v;
     let got = (ds \<noteq> []);
     v \<leftarrow> gap_timer gapWait now got v;
     if got
     then Some (False, v\<lparr>rv_lastArrival := now,
            rv_firstArrival := (if rv_firstArrival v = None then Some now else rv_firstArrival v)\<rparr>)
     else Some (rv_firstArrival v \<noteq> None \<and> now - rv_lastArrival v > idle, v)
   }"

text \<open>The loop over the turns that happen; \<open>False\<close> when they leave it still running.\<close>

fun recv_loop :: "int \<Rightarrow> int \<Rightarrow> (int \<times> bytes list) list \<Rightarrow> receiver \<Rightarrow> (bool \<times> receiver) option" where
  "recv_loop gapWait idle [] v = Some (sq_ended (rv_sequencer v), v)"
| "recv_loop gapWait idle (t # ts) v =
     (if sq_ended (rv_sequencer v) then Some (True, v)
      else do {
        (stop, v) \<leftarrow> recv_turn gapWait idle t v;
        if stop then Some (True, v) else recv_loop gapWait idle ts v
      })"

text \<open>\<open>while (gapOpen()) giveUpGap\<close>, after the loop.\<close>

partial_function (option) close_gaps :: "receiver \<Rightarrow> receiver option" where
  "close_gaps v =
     (if gapOpen (rv_sequencer v) then do { v \<leftarrow> recv_giveUp v; close_gaps v } else Some v)"

definition malformed_total :: "receiver \<Rightarrow> u64" where
  "malformed_total v = sum_list (map (rv_malformed v)
     [NoError, TooShort, BlockOverrun, CountMismatch, EmptyMessage, SequenceOverflow])"

definition clean :: "receiver \<Rightarrow> bool" where
  "clean v \<longleftrightarrow> sq_ended (rv_sequencer v) \<and> st_lost (sq_stats (rv_sequencer v)) = 0 \<and> malformed_total v = 0
     \<and> snd (rv_books v) = 0 \<and> unknownRefs (stats (core (fst (rv_books v)))) = 0
     \<and> overExecutions (stats (core (fst (rv_books v)))) = 0"

text \<open>The exit code, once the loop is left; \<open>Some None\<close> while it still runs.\<close>

definition mold_recv ::
    "int \<Rightarrow> int \<Rightarrow> int \<Rightarrow> (int \<times> bytes list) list \<Rightarrow> (nat \<times> receiver) option option" where
  "mold_recv gapWait idle start turns = do {
     v \<leftarrow> receiver_new start;
     (left, v) \<leftarrow> recv_loop gapWait idle turns v;
     if \<not> left then Some None
     else do {
       v \<leftarrow> close_gaps v;
       Some (Some (if clean v then 0 else 1, v))
     }
   }"

section \<open>A receiver is a run of its sequencer\<close>

lemma sq_run_append: "sq_run (is @ is') d q h = Option.bind (sq_run is d q h) (\<lambda>(q, h). sq_run is' d q h)"
  by (induction "is" arbitrary: q h) (auto split: Option.bind_split)

text \<open>From \<open>v\<close> the receiver got to \<open>v'\<close> by giving the sequencer packets decoded from \<open>D\<close> and gaps
  to give up.\<close>

definition from_datagrams :: "bytes set \<Rightarrow> sq_input list \<Rightarrow> bool" where
  "from_datagrams D is \<longleftrightarrow> (\<forall>p. InPacket p \<in> set is \<longrightarrow> (\<exists>d\<in>D. decode d no_packet = Some (NoError, p)))"

definition received :: "bytes set \<Rightarrow> receiver \<Rightarrow> receiver \<Rightarrow> sq_input list \<Rightarrow> bool" where
  "received D v v' is \<longleftrightarrow> from_datagrams D is
     \<and> sq_run is toBooks (rv_sequencer v) (rv_books v) = Some (rv_sequencer v', rv_books v')"

lemma received_trans: "received D v v' is \<Longrightarrow> received D v' v'' is' \<Longrightarrow> received D v v'' (is @ is')"
  by (auto simp: received_def from_datagrams_def sq_run_append)

lemma received_same: "rv_sequencer v' = rv_sequencer v \<Longrightarrow> rv_books v' = rv_books v \<Longrightarrow> received D v v' []"
  by (simp add: received_def from_datagrams_def)

lemma received_datagram: "recv_datagram d v = Some v' \<Longrightarrow> \<exists>is. received {d} v v' is \<and> set is \<subseteq> range InPacket"
proof -
  assume r: "recv_datagram d v = Some v'"
  then obtain e p where dec: "decode d no_packet = Some (e, p)" by (auto simp: recv_datagram_def bind_Some_iff Let_def)
  show ?thesis
  proof (cases "e = NoError")
    case False
    then show ?thesis using r dec by (intro exI [of _ "[]"]) (auto simp: recv_datagram_def Let_def intro!: received_same)
  next
    case True
    then have "received {d} v v' [InPacket p]"
      using r dec by (auto simp: recv_datagram_def received_def from_datagrams_def bind_Some_iff Let_def)
    then show ?thesis by (intro exI [of _ "[InPacket p]"]) simp
  qed
qed

lemma received_giveUp: "recv_giveUp v = Some v' \<Longrightarrow> received D v v' [InGiveUp]"
  by (auto simp: recv_giveUp_def received_def from_datagrams_def bind_Some_iff)

lemma received_mono: "received D v v' is \<Longrightarrow> D \<subseteq> D' \<Longrightarrow> received D' v v' is"
  unfolding received_def from_datagrams_def by blast

lemma received_sockets: "recv_sockets ds v = Some v' \<Longrightarrow> \<exists>is. received (set ds) v v' is \<and> set is \<subseteq> range InPacket"
proof (induction ds arbitrary: v)
  case Nil
  then show ?case by (intro exI [of _ "[]"]) (auto intro!: received_same)
next
  case (Cons d ds)
  then obtain v1 where v1: "recv_datagram d v = Some v1" "recv_sockets ds v1 = Some v'" by (auto simp: bind_Some_iff)
  from received_datagram [OF v1(1)] obtain is1 where "received {d} v v1 is1" "set is1 \<subseteq> range InPacket" by blast
  moreover from Cons.IH [OF v1(2)] obtain is2 where "received (set ds) v1 v' is2" "set is2 \<subseteq> range InPacket" by blast
  ultimately show ?case
    by (intro exI [of _ "is1 @ is2"] conjI received_trans [of _ _ v1])
      (auto elim: received_mono)
qed

lemma received_timer: "gap_timer w now got v = Some v' \<Longrightarrow> \<exists>is. received D v v' is"
proof -
  assume t: "gap_timer w now got v = Some v'"
  show ?thesis
  proof (cases "rv_sequencer v' = rv_sequencer v \<and> rv_books v' = rv_books v")
    case True
    then show ?thesis by (intro exI [of _ "[]"] received_same) simp_all
  next
    case False
    then obtain v1 where "recv_giveUp v = Some v1" "v' = v1\<lparr>rv_gapSince := None\<rparr>"
      using t by (auto simp: gap_timer_def bind_Some_iff split: if_splits option.splits)
    then show ?thesis using received_giveUp [of v v1 D]
      by (intro exI [of _ "[InGiveUp]"]) (simp add: received_def)
  qed
qed

lemma received_turn: "recv_turn w i (now, ds) v = Some (stop, v') \<Longrightarrow> \<exists>is. received (set ds) v v' is"
proof -
  assume "recv_turn w i (now, ds) v = Some (stop, v')"
  then obtain v1 v2 where v: "recv_sockets ds v = Some v1" "gap_timer w now (ds \<noteq> []) v1 = Some v2"
    "rv_sequencer v' = rv_sequencer v2" "rv_books v' = rv_books v2"
    by (auto simp: recv_turn_def bind_Some_iff Let_def split: if_splits)
  from received_sockets [OF v(1)] obtain is1 where 1: "received (set ds) v v1 is1" by blast
  from received_timer [OF v(2)] obtain is2 where 2: "received (set ds) v1 v2 is2" by blast
  have "received (set ds) v v2 (is1 @ is2)" using received_trans [OF 1 2] .
  then show ?thesis using v(3,4) by (auto simp: received_def)
qed

lemma received_loop:
  "recv_loop w i turns v = Some (left, v') \<Longrightarrow> \<exists>is. received (\<Union>(set ` snd ` set turns)) v v' is"
proof (induction turns arbitrary: v)
  case Nil
  then show ?case by (intro exI [of _ "[]"]) (auto intro!: received_same)
next
  case (Cons t turns)
  let ?D = "\<Union>(set ` snd ` set (t # turns))"
  show ?case
  proof (cases "sq_ended (rv_sequencer v)")
    case True
    then show ?thesis using Cons.prems by (intro exI [of _ "[]"]) (auto intro!: received_same)
  next
    case False
    then obtain stop v1 where v1: "recv_turn w i t v = Some (stop, v1)"
      "if stop then v' = v1 else recv_loop w i turns v1 = Some (left, v')"
      using Cons.prems by (auto simp: bind_Some_iff split: if_splits)
    from v1(1) received_turn [of w i "fst t" "snd t" v stop v1] obtain is1 where "received (set (snd t)) v v1 is1" by auto
    then have 1: "received ?D v v1 is1" by (rule received_mono) auto
    show ?thesis
    proof (cases stop)
      case True
      then show ?thesis using 1 v1(2) by auto
    next
      case False
      with v1(2) Cons.IH obtain is2 where "received (\<Union>(set ` snd ` set turns)) v1 v' is2" by auto
      then have "received ?D v1 v' is2" by (rule received_mono) auto
      then show ?thesis using received_trans [OF 1] by blast
    qed
  qed
qed

lemma received_close:
  assumes "close_gaps v = Some v'"
  shows "\<exists>is. received D v v' is"
proof (rule close_gaps.raw_induct [where P = "\<lambda>v v'. \<exists>is. received D v v' is", OF _ assms])
  fix f v v'
  assume IH: "\<And>v y. f v = Some y \<Longrightarrow> \<exists>is. received D v y is"
    and step: "(if gapOpen (rv_sequencer v) then do { v \<leftarrow> recv_giveUp v; f v } else Some v) = Some v'"
  show "\<exists>is. received D v v' is"
  proof (cases "gapOpen (rv_sequencer v)")
    case False
    then show ?thesis using step by (intro exI [of _ "[]"]) (auto intro!: received_same)
  next
    case True
    then obtain v1 where v1: "recv_giveUp v = Some v1" "f v1 = Some v'" using step by (auto simp: bind_Some_iff)
    from IH [OF v1(2)] obtain is1 where "received D v1 v' is1" by blast
    from received_trans [OF received_giveUp [OF v1(1)] this] show ?thesis by blast
  qed
qed

end
