(* ===== verification/FeedNetwork.thy ===== *)
theory FeedNetwork
  imports GenItch FeedSender FeedReceiver
begin

text \<open>
  The sender and the receiver together. A network that loses, repeats, delays and reorders datagrams
  is any list of turns whose datagrams are among those sent on the feeds. \<open>clean_exit_has_all_books\<close>:
  an exit code of 0 means that the books are those of the sender's files. \<open>timely_feed_is_built\<close>: when
  every datagram arrives, reordered by less than the 4096 packets that the sequencer holds (\<open>in_window\<close>)
  and with gaps and pauses shorter than the two waits (\<open>timely\<close>), the receiver ends with these books.
  \<open>held_few\<close> shows why 4096 places are enough, \<open>timely_turn\<close> why no gap is given up.
\<close>

section \<open>What the sender's datagrams carry\<close>

fun numbered_runs :: "nat \<Rightarrow> bytes list list \<Rightarrow> run list" where
  "numbered_runs n [] = []"
| "numbered_runs n (g # G) = (n, g) # numbered_runs (n + length g) G"

text \<open>The whole feed, message by message.\<close>

definition tape :: "bytes list \<Rightarrow> (nat \<times> bytes) list" where
  "tape ms = pairs (1, ms)"

lemma pairs_append: "pairs (n, ms @ ms') = pairs (n, ms) @ pairs (n + length ms, ms')"
  by (induction ms arbitrary: n) simp_all

lemma runs_pairs: "r \<in> set (numbered_runs n G) \<Longrightarrow> set (pairs r) \<subseteq> set (pairs (n, concat G))
    \<and> past r \<le> n + length (concat G) \<and> n \<le> fst r"
proof (induction G arbitrary: n)
  case (Cons g G)
  show ?case
  proof (cases "r = (n, g)")
    case True
    then show ?thesis by (simp add: pairs_append)
  next
    case False
    then show ?thesis using Cons by (fastforce simp: pairs_append)
  qed
qed simp

lemma runs_cover: "n \<le> k \<Longrightarrow> k < n + length (concat G) \<Longrightarrow> \<exists>r\<in>set (numbered_runs n G). fst r \<le> k \<and> k < past r"
proof (induction G arbitrary: n)
  case (Cons g G)
  show ?case
  proof (cases "k < n + length g")
    case False
    then show ?thesis using Cons.IH [of "n + length g"] Cons.prems by auto
  qed (use Cons.prems in auto)
qed simp

text \<open>A packet of the sender: one of the groups, or the end of the session.\<close>

definition sent_packet :: "bytes \<Rightarrow> bytes list list \<Rightarrow> packet \<Rightarrow> bool" where
  "sent_packet session G p \<longleftrightarrow> pk_session p = padded session \<and> decoded (InPacket p)
     \<and> (run_of p \<in> set (numbered_runs 1 G) \<and> \<not> endOfSession p
        \<or> run_of p = (1 + length (concat G), []) \<and> endOfSession p)"

definition fed :: "bytes \<Rightarrow> bytes list list \<Rightarrow> sq_input list \<Rightarrow> bool" where
  "fed session G is \<longleftrightarrow> (\<forall>p. InPacket p \<in> set is \<longrightarrow> sent_packet session G p)"

definition groups_ok :: "bytes list list \<Rightarrow> bool" where
  "groups_ok G \<longleftrightarrow> (\<forall>g\<in>set G. g \<noteq> [] \<and> list_all framable g \<and> length g < 65535) \<and> length (concat G) < 2 ^ 32"

lemma length_padded [simp]: "length (padded s) = 10"
  by (simp add: padded_def)

lemma decode_group:
  assumes "list_all framable g" "length g < 65535" "seq + length g < 2 ^ 64"
  shows "\<exists>p. decode (datagram_of s seq (of_nat (length g)) g) out = Some (NoError, p)
    \<and> pk_session p = padded s \<and> decoded (InPacket p) \<and> run_of p = (seq, g) \<and> \<not> endOfSession p"
proof -
  let ?p = "\<lparr>pk_session = padded s, pk_sequence = of_nat seq, pk_count = of_nat (length g), pk_blocks = frames g\<rparr>"
  have seq: "unat (of_nat seq :: u64) = seq" using assms(3) by simp
  have c: "of_nat (length g) \<noteq> kEndOfSession" using assms(2) by (simp add: kEndOfSession_def of_nat_u16_iff)
  then have "messages ?p = of_nat (length g)" by (simp add: messages_def)
  from decode_built [OF length_padded this assms(2,1) refl] assms(3) seq
  have d: "decode (datagram_of s seq (of_nat (length g)) g) out = Some (NoError, ?p)" "carries ?p g"
    by (simp_all add: datagram_of_def)
  moreover have "run_of ?p = (seq, g)" using msgs_of_carries [OF d(2)] seq by (simp add: run_of_def)
  moreover have "decoded (InPacket ?p)" using d(2) msgs_of_carries [OF d(2)] by simp
  ultimately show ?thesis using c by (intro exI [of _ ?p]) (simp add: endOfSession_def)
qed

lemma decode_eos:
  assumes "seq < 2 ^ 64"
  shows "\<exists>p. decode (eos_datagram s seq) out = Some (NoError, p)
    \<and> pk_session p = padded s \<and> decoded (InPacket p) \<and> run_of p = (seq, []) \<and> endOfSession p"
proof -
  let ?p = "\<lparr>pk_session = padded s, pk_sequence = of_nat seq, pk_count = kEndOfSession, pk_blocks = frames []\<rparr>"
  have seq: "unat (of_nat seq :: u64) = seq" using assms by simp
  have "messages ?p = of_nat (length ([] :: bytes list))" by (simp add: messages_def)
  from decode_built [OF length_padded this _ _ refl] assms seq
  have d: "decode (eos_datagram s seq) out = Some (NoError, ?p)" "carries ?p []"
    by (simp_all add: eos_datagram_def datagram_of_def)
  moreover have "run_of ?p = (seq, [])" using msgs_of_carries [OF d(2)] seq by (simp add: run_of_def)
  moreover have "decoded (InPacket ?p)" using d(2) msgs_of_carries [OF d(2)] by simp
  ultimately show ?thesis by (intro exI [of _ ?p]) (simp add: endOfSession_def)
qed

lemma length_datagrams [simp]: "length (datagrams s n G) = length G"
  by (induction G arbitrary: n) simp_all

lemma in_datagrams: "d \<in> set (datagrams s n G) \<longleftrightarrow> (\<exists>(seq, g)\<in>set (numbered_runs n G). d = datagram_of s seq (of_nat (length g)) g)"
  by (induction G arbitrary: n) auto

lemma in_runs: "(seq, g) \<in> set (numbered_runs n G) \<Longrightarrow> g \<in> set G \<and> seq + length g \<le> n + length (concat G)"
proof -
  have "(seq, g) \<in> set (numbered_runs n G) \<Longrightarrow> g \<in> set G" for n by (induction G arbitrary: n) auto
  then show "(seq, g) \<in> set (numbered_runs n G) \<Longrightarrow> ?thesis" using runs_pairs [of "(seq, g)" n G] by auto
qed

lemma sent_decodes:
  assumes G: "groups_ok G" and d: "d \<in> set (datagrams s 1 G) \<union> {eos_datagram s (1 + length (concat G))}"
  shows "\<exists>p. decode d no_packet = Some (NoError, p) \<and> sent_packet s G p"
proof -
  have N: "1 + length (concat G) < 2 ^ 64" using G by (simp add: groups_ok_def)
  from d consider seq g where "(seq, g) \<in> set (numbered_runs 1 G)" "d = datagram_of s seq (of_nat (length g)) g"
    | "d = eos_datagram s (1 + length (concat G))" by (auto simp: in_datagrams)
  then show ?thesis
  proof cases
    case 1
    then have "g \<in> set G" "seq + length g < 2 ^ 64" using in_runs [OF 1(1)] N by auto
    then have "list_all framable g" "length g < 65535" using G by (auto simp: groups_ok_def)
    from decode_group [OF this \<open>seq + length g < 2 ^ 64\<close>, of s no_packet] 1 show ?thesis
      by (auto simp: sent_packet_def simp del: decoded.simps)
  next
    case 2
    from decode_eos [OF N, of s no_packet] 2 show ?thesis by (auto simp: sent_packet_def simp del: decoded.simps)
  qed
qed

lemma from_datagrams_fed:
  "groups_ok G \<Longrightarrow> D \<subseteq> set (datagrams s 1 G) \<union> {eos_datagram s (1 + length (concat G))} \<Longrightarrow>
     from_datagrams D is \<Longrightarrow> fed s G is"
  unfolding fed_def from_datagrams_def using sent_decodes by (metis (no_types, lifting) in_mono option.inject prod.inject)

section \<open>The end of a feed\<close>

text \<open>\<open>E\<close> is the number that the end of the session announces.\<close>

definition end_marks :: "nat \<Rightarrow> line \<Rightarrow> bool" where
  "end_marks E a \<longleftrightarrow> (ln_closing a \<longrightarrow> E \<le> ln_known a) \<and> (ln_ended a \<longrightarrow> E \<le> ln_next a)"

lemma marks_later: "end_marks E a \<Longrightarrow> same_frame b a \<Longrightarrow> ln_next a \<le> ln_next b \<Longrightarrow> end_marks E b"
  by (auto simp: end_marks_def same_frame_def)

lemma marks_finish: "end_marks E a \<Longrightarrow> end_marks E (finish_line a)"
  by (auto simp: end_marks_def finish_line_def)

lemma marks_giveUp:
  assumes core: "line_core first K (ln_next a) (ln_held a) evs" and marks: "end_marks E a" and g: "giveUp_line a = (a', e)"
  shows "end_marks E a'"
proof -
  let ?skip = "if skip_to a > ln_next a then GapLost # map Lost [ln_next a ..< skip_to a] else []"
  from giveUp_shape [OF g] obtain b e2 where b: "drain_line (ln_held a) b = (fst (drain_line (ln_held a) b), e2)"
    "ln_held b = ln_held a" "same_frame b a" "ln_next b = max (ln_next a) (skip_to a)"
    "a' = finish_line (fst (drain_line (ln_held a) b))" "e = ?skip @ e2" by blast
  have "line_core first K (ln_next b) (ln_held a) (evs @ ?skip)"
    using core core_skip [OF core] b(4) by (auto simp: max_def)
  note d = core_drain [OF this b(1)]
  have "end_marks E b" by (rule marks_later [OF marks b(3)]) (simp add: b(4))
  then have "end_marks E (fst (drain_line (ln_held a) b))" by (rule marks_later) (use d in blast)+
  then show ?thesis unfolding b(5) by (rule marks_finish)
qed

lemma marks_data:
  assumes core: "line_core first K (ln_next a) (ln_held a) evs" and tidy: "tidy a" and marks: "end_marks E a"
    and d: "data_line r a = (a', e)"
  shows "end_marks E a'"
proof (cases "snd r = []")
  case True
  then show ?thesis using d marks_finish [OF marks] by (auto simp: data_line_def)
next
  case some: False
  let ?full = "fst r > ln_next a \<and> length (ln_held a) \<ge> ln_limit a"
  obtain b e1 where b: "(if ?full then giveUp_line a else (a, [])) = (b, e1)" by fastforce
  have b': "line_core first K (ln_next b) (ln_held b) (evs @ e1)" "tidy b"
    using b core tidy inv_giveUp [OF core, of b e1] by (auto split: if_splits)
  have mb: "end_marks E b" using b marks marks_giveUp [OF core marks, of b e1] by (auto split: if_splits)
  show ?thesis
  proof (cases "fst r > ln_next b")
    case True
    obtain c e2 where c: "hold_line r b = (c, e2)" by fastforce
    have "a' = c" using d some b True c by (auto simp: data_line_def)
    then show ?thesis using inv_hold [OF b'(1) some b'(2) True c] marks_later [OF mb] by auto
  next
    case False
    let ?c = "fst (run_line r b)"
    obtain c e3 where c: "drain_line (ln_held b) ?c = (c, e3)" by fastforce
    have a': "a' = finish_line c" using d some b False c by (auto simp: data_line_def split_def)
    have "\<forall>h\<in>set (ln_held b). fst r \<le> fst h" using b'(2) False by (auto simp: tidy_def)
    then have "sorted (map fst ([] @ r # ln_held b))" using b'(1) by (auto simp: line_core_def)
    from core_enter [OF b'(1) some this] have "line_core first (K @ [r]) (ln_next b) (r # ln_held b) (evs @ e1)" by simp
    from core_run [OF this] have "line_core first (K @ [r]) (ln_next ?c) (ln_held b) ((evs @ e1) @ take_run (ln_next b) r)"
      using False by simp
    note e3 = core_drain [OF this c]
    have "same_frame ?c b" by (simp add: same_frame_def run_line_def)
    then have "end_marks E ?c" by (rule marks_later [OF mb]) simp
    then have "end_marks E c" by (rule marks_later) (use e3 in blast)+
    then show ?thesis unfolding a' by (rule marks_finish)
  qed
qed

lemma marks_step:
  assumes inv: "line_inv first K a evs" and marks: "end_marks E a" and st: "line_step i a = (a', e)"
    and closing: "\<And>p. i = InPacket p \<Longrightarrow> endOfSession p \<Longrightarrow> E \<le> past (run_of p)"
  shows "end_marks E a'"
proof (cases i)
  case InGiveUp
  then show ?thesis using marks_giveUp [of first K a evs E a' e] inv marks st by (simp add: line_inv_def)
next
  case (InPacket p)
  show ?thesis
  proof (cases "ln_session a = None \<or> ln_session a = Some (pk_session p)")
    case False
    then show ?thesis using st InPacket marks by (auto simp: line_packet_def)
  next
    case True
    let ?a = "a\<lparr>ln_session := Some (pk_session p), ln_known := max (ln_known a) (past (run_of p)),
      ln_closing := ln_closing a \<or> endOfSession p\<rparr>"
    obtain e2 where e2: "data_line (run_of p) ?a = (a', e2)"
      using st InPacket True by (auto simp: line_packet_def split_def Let_def prod_eq_iff)
    have "line_core first K (ln_next ?a) (ln_held ?a) evs" "tidy ?a"
      using inv by (simp_all add: line_inv_def tidy_def)
    moreover have "end_marks E ?a" using marks closing [OF InPacket] by (auto simp: end_marks_def)
    ultimately show ?thesis using e2 by (rule marks_data)
  qed
qed

lemma marks_run:
  "line_inv first K a evs \<Longrightarrow> end_marks E a \<Longrightarrow> line_run is a = (a', e) \<Longrightarrow>
     \<forall>p. InPacket p \<in> set is \<longrightarrow> endOfSession p \<longrightarrow> E \<le> past (run_of p) \<Longrightarrow> end_marks E a'"
proof (induction "is" arbitrary: K a evs e)
  case Nil
  then show ?case by simp
next
  case (Cons i "is")
  obtain b e1 where b: "line_step i a = (b, e1)" by fastforce
  have rest: "line_run is b = (a', snd (line_run is b))" using Cons.prems(3) b by (auto simp: split_def Let_def)
  have "line_run [i] a = (b, e1)" using b by simp
  from inv_run [OF Cons.prems(1) this] have inv: "line_inv first (K @ accepted (ln_session a) [i]) b (evs @ e1)" by blast
  have "end_marks E b" using marks_step [OF Cons.prems(1,2) b] Cons.prems(4) by auto
  from Cons.IH [OF inv this rest] show ?case using Cons.prems(4) by simp
qed

lemma accepted_from: "r \<in> set (accepted s is) \<Longrightarrow> \<exists>p. InPacket p \<in> set is \<and> r = run_of p"
  by (induction s "is" rule: accepted.induct) (auto split: if_splits)

lemma accepted_all:
  "\<forall>p. InPacket p \<in> set is \<longrightarrow> pk_session p = sess \<Longrightarrow> s = None \<or> s = Some sess \<Longrightarrow>
     InPacket p \<in> set is \<Longrightarrow> run_of p \<in> set (accepted s is)"
  by (induction s "is" rule: accepted.induct) auto

text \<open>In one session, a packet that ends it closes the line.\<close>

lemma closing_step:
  assumes inv: "line_inv first K a evs" and s: "\<And>p. i = InPacket p \<Longrightarrow> pk_session p = sess"
    and a: "ln_session a = None \<or> ln_session a = Some sess" and st: "line_step i a = (b, e)"
  shows "(ln_session b = None \<or> ln_session b = Some sess)
    \<and> (ln_closing b \<longleftrightarrow> ln_closing a \<or> (\<exists>p. i = InPacket p \<and> endOfSession p))"
proof (cases i)
  case InGiveUp
  then show ?thesis using inv_giveUp [of first K a evs b e] inv a st by (simp add: line_inv_def)
next
  case (InPacket p)
  let ?a = "a\<lparr>ln_session := Some (pk_session p), ln_known := max (ln_known a) (past (run_of p)),
    ln_closing := ln_closing a \<or> endOfSession p\<rparr>"
  have "ln_session a = None \<or> ln_session a = Some (pk_session p)" using a s InPacket by simp
  then obtain e2 where e2: "data_line (run_of p) ?a = (b, e2)"
    using st InPacket by (auto simp: line_packet_def split_def Let_def prod_eq_iff)
  have "line_core first K (ln_next ?a) (ln_held ?a) evs" "tidy ?a" "past (run_of p) \<le> ln_known ?a"
    using inv by (simp_all add: line_inv_def tidy_def)
  from inv_data [OF this e2] show ?thesis using InPacket s by simp
qed

lemma closing_run:
  "line_inv first K a evs \<Longrightarrow> \<forall>p. InPacket p \<in> set is \<longrightarrow> pk_session p = sess \<Longrightarrow>
     ln_session a = None \<or> ln_session a = Some sess \<Longrightarrow> line_run is a = (a', e) \<Longrightarrow>
     ln_closing a' \<longleftrightarrow> ln_closing a \<or> (\<exists>p. InPacket p \<in> set is \<and> endOfSession p)"
proof (induction "is" arbitrary: K a evs e)
  case Nil
  then show ?case by simp
next
  case (Cons i "is")
  obtain b e1 where b: "line_step i a = (b, e1)" by fastforce
  have rest: "line_run is b = (a', snd (line_run is b))" using Cons.prems(4) b by (auto simp: split_def Let_def)
  have "line_run [i] a = (b, e1)" using b by simp
  from inv_run [OF Cons.prems(1) this] have inv: "line_inv first (K @ accepted (ln_session a) [i]) b (evs @ e1)" by blast
  have "(ln_session b = None \<or> ln_session b = Some sess)
    \<and> (ln_closing b \<longleftrightarrow> ln_closing a \<or> (\<exists>p. i = InPacket p \<and> endOfSession p))"
    using Cons.prems(2) by (intro closing_step [OF Cons.prems(1) _ Cons.prems(3) b]) auto
  with Cons.IH [OF inv _ _ rest] Cons.prems(2) show ?case by (auto simp: Cons.prems(3))
qed

text \<open>What any run of the sequencer on packets of one feed delivers.\<close>

lemma tape_zip: "tape ms = zip [1 ..< 1 + length ms] ms" "map fst (tape ms) = [1 ..< 1 + length ms]"
  by (simp_all add: tape_def pairs_def del: upt_Suc)

lemma zip_unique: "set xs \<subseteq> set (zip ns ms) \<Longrightarrow> map fst xs = ns \<Longrightarrow> distinct ns \<Longrightarrow> length ms = length ns \<Longrightarrow> xs = zip ns ms"
proof -
  assume a: "set xs \<subseteq> set (zip ns ms)" "map fst xs = ns" "distinct ns" "length ms = length ns"
  show ?thesis
  proof (rule nth_equalityI)
    show len: "length xs = length (zip ns ms)" using a(2,4) by auto
    fix i assume i: "i < length xs"
    then have "xs ! i \<in> set (zip ns ms)" using a(1) nth_mem by blast
    then obtain j where j: "j < length ns" "j < length ms" "xs ! i = (ns ! j, ms ! j)" by (auto simp: set_zip)
    moreover have "fst (xs ! i) = ns ! i" using a(2) i by auto
    moreover have "i < length ns" using a(2) i by auto
    ultimately have "i = j" using a(3) by (simp add: nth_eq_iff_index_eq)
    then show "xs ! i = zip ns ms ! i" using j by simp
  qed
qed

lemma fed_facts:
  assumes G: "groups_ok G" and fed: "fed s G is"
  obtains q a evs where
    "\<And>d h. sq_run is (d :: 'h deliver) (sequencer_new 1 4096) h = map_option (Pair q) (replay d (delivered evs) h)"
    "rep q a evs" "line_inv 1 (accepted None is) a evs" "end_marks (1 + length (concat G)) a"
    "line_run is (line_new 1 4096) = (a, evs)"
proof -
  let ?l = "line_new 1 4096"
  have sent: "sent_packet s G p" if "InPacket p \<in> set is" for p using fed that by (simp add: fed_def)
  have dec: "list_all decoded is" unfolding list_all_iff
  proof
    fix x assume x: "x \<in> set is"
    show "decoded x"
    proof (cases x)
      case (InPacket p)
      then show ?thesis using sent [of p] x by (simp add: sent_packet_def)
    qed simp
  qed
  obtain q where q: "\<And>d h. sq_run is (d :: 'h deliver) (sequencer_new 1 4096) h
       = map_option (Pair q) (replay d (delivered (snd (line_run is (line_new (unat (1 :: u64)) 4096)))) h)"
      "rep q (fst (line_run is (line_new (unat (1 :: u64)) 4096))) ([] @ snd (line_run is (line_new (unat (1 :: u64)) 4096)))"
    using refines_obtain [OF refines_run [OF rep_new dec]] by blast
  obtain a evs where run: "line_run is ?l = (a, evs)" by fastforce
  note inv = inv_run [OF line_inv_new run]
  have "end_marks (1 + length (concat G)) a"
  proof (rule marks_run [OF line_inv_new _ run])
    show "end_marks (1 + length (concat G)) ?l" by (simp add: end_marks_def line_new_def)
    show "\<forall>p. InPacket p \<in> set is \<longrightarrow> endOfSession p \<longrightarrow> 1 + length (concat G) \<le> past (run_of p)"
      using sent by (fastforce simp: sent_packet_def)
  qed
  then show thesis using q inv run
    by (intro that [of q evs a]) (simp_all add: line_new_def)
qed

lemma fed_run:
  assumes G: "groups_ok G" and fed: "fed s G is"
  obtains q a evs where
    "\<And>d h. sq_run is (d :: 'h deliver) (sequencer_new 1 4096) h = map_option (Pair q) (replay d (delivered evs) h)"
    "set (delivered evs) \<subseteq> set (tape (concat G))" "length (delivered evs) \<le> length (concat G)"
    "sq_ended q \<longrightarrow> \<not> gapOpen q"
    "sq_ended q \<and> st_lost (sq_stats q) = 0 \<longrightarrow> delivered evs = tape (concat G)"
    "line_run is (line_new 1 4096) = (a, evs)" "st_lost (sq_stats q) = 0 \<longleftrightarrow> lost_numbers evs = []"
    "gapOpen q \<longleftrightarrow> ln_next a < ln_known a" "sq_ended q \<longleftrightarrow> ln_ended a"
proof -
  define N where "N = length (concat G)"
  obtain q a evs where
    q: "\<And>d h. sq_run is (d :: 'h deliver) (sequencer_new 1 4096) h = map_option (Pair q) (replay d (delivered evs) h)"
    "rep q a evs" "line_inv 1 (accepted None is) a evs" "end_marks (1 + length (concat G)) a"
    "line_run is (line_new 1 4096) = (a, evs)"
    by (rule fed_facts [OF assms]) blast
  have sent: "sent_packet s G p" if "InPacket p \<in> set is" for p using fed that by (simp add: fed_def)
  have K: "set (pairs r) \<subseteq> set (tape (concat G)) \<and> past r \<le> 1 + N" if "r \<in> set (accepted None is)" for r
  proof -
    from accepted_from [OF that] obtain p where "InPacket p \<in> set is" "r = run_of p" by blast
    then show ?thesis using sent [of p] runs_pairs [of r 1 G] by (auto simp: sent_packet_def tape_def N_def)
  qed
  have core: "line_core 1 (accepted None is) (ln_next a) (ln_held a) evs" using q(3) by (simp add: line_inv_def)
  have spent: "spent evs = [1 ..< ln_next a]" using core unfolding line_core_def by blast
  have "set (delivered evs) \<subseteq> (\<Union>r\<in>set (accepted None is). set (pairs r))" using core unfolding line_core_def by blast
  then have sub: "set (delivered evs) \<subseteq> set (tape (concat G))" using K by blast
  have nums: "set (map fst (delivered evs)) \<subseteq> set [1 ..< 1 + N]"
    using image_mono [OF sub, of fst] unfolding set_map [symmetric] tape_zip(2) N_def .
  have "sorted_wrt (<) (map fst (delivered evs))" using spent_split [of evs] spent by simp
  then have dist: "distinct (map fst (delivered evs))" by (simp add: strict_sorted_iff)
  have len: "length (delivered evs) \<le> N"
    using card_mono [OF finite_set nums] distinct_card [OF dist] by (simp only: set_upt card_atLeastLessThan length_map)
  have next64: "ln_next a < 2 ^ 64" using rep_next [OF q(2)] unat_u64_less [of "sq_next q"] by simp
  have lost: "st_lost (sq_stats q) = of_nat (length (lost_numbers evs))"
    using q(2) by (simp add: rep_def stats_of_def tally_def event_counts)
  have "length (lost_numbers evs) < 2 ^ 64" using spent_split [of evs] spent next64 by auto
  then have none: "st_lost (sq_stats q) = 0 \<longleftrightarrow> lost_numbers evs = []"
    using lost by (simp add: word_unat_eq_iff)
  have whole: "delivered evs = tape (concat G)" if "sq_ended q" "st_lost (sq_stats q) = 0"
  proof -
    have m: "map fst (delivered evs) = [1 ..< ln_next a]" using that none count_lost(3) [of evs] spent by simp
    have "1 + N \<le> ln_next a" using that q(2,4) unfolding rep_def end_marks_def N_def by blast
    moreover have "\<not> 1 + N < ln_next a" using nums unfolding m by fastforce
    ultimately have "map fst (delivered evs) = [1 ..< 1 + N]" using m by simp
    with sub show ?thesis unfolding tape_zip(1) N_def [symmetric]
      by (rule zip_unique) (simp_all add: N_def del: upt_Suc length_concat)
  qed
  have "sq_ended q \<longrightarrow> \<not> gapOpen q"
  proof -
    have "ln_known a \<le> 1 + N" using q(3) K by (simp add: line_inv_def)
    then show ?thesis using q(2,4) by (auto simp: gapOpen_def rep_def end_marks_def N_def word_less_nat_alt)
  qed
  moreover have "gapOpen q \<longleftrightarrow> ln_next a < ln_known a" "sq_ended q \<longleftrightarrow> ln_ended a"
    using q(2) by (simp_all add: gapOpen_def rep_def word_less_nat_alt)
  ultimately show thesis using q(1,5) sub len whole none
    by (intro that [of q evs a]) (auto simp: N_def)
qed

section \<open>From the file to the books\<close>

lemma snd_tape [simp]: "map snd (tape ms) = ms"
  by (simp add: tape_def pairs_def del: upt_Suc)

lemma dispatch_framed: "well_framed m \<Longrightarrow> dispatch H m h = map_option (Pair True) (map_option snd (dispatch H m h))"
  using dispatch_cases [of H m h] dispatch_refuses [of H m h h] by (auto simp: option.map_comp comp_def)

lemma replay_books:
  "\<forall>x\<in>set l. well_framed (snd x) \<Longrightarrow>
     replay toBooks l (b, n) = map_option (\<lambda>b. (b, n)) (dispatch_all (builder_handler None) (map snd l) b)"
proof (induction l arbitrary: b)
  case (Cons x l)
  obtain k m where x: "x = (k, m)" by fastforce
  then have "well_framed m" using Cons.prems by simp
  from dispatch_framed [OF this, of "builder_handler None" b] obtain r where
    "dispatch (builder_handler None) m b = map_option (Pair True) r" by blast
  then show ?case using Cons x by (cases r) (simp_all add: toBooks_def)
qed simp

lemma books_total:
  assumes "builder_new (2 ^ 16) () = Some b" "length l \<le> 2 ^ 32"
  shows "\<exists>b'. dispatch_all (builder_handler None) l b = Some b'"
proof -
  have "builder_ok (length l + 0) b"
    using new_builder_rep [of "2 ^ 16" "()"] assms by (auto simp: builder_ok_def)
  from bb.dispatch_all_ok [OF this] show ?thesis by blast
qed

text \<open>The receiver's sequencer and books after the packets of one feed.\<close>

lemma fed_books:
  assumes G: "groups_ok G" and framed: "\<forall>m\<in>set (concat G). well_framed m" and fed: "fed s G is"
    and b: "builder_new (2 ^ 16) () = Some b"
  obtains q b' a evs where "sq_run is toBooks (sequencer_new 1 4096) (b, 0) = Some (q, b', 0)"
    "sq_ended q \<longrightarrow> \<not> gapOpen q"
    "sq_ended q \<and> st_lost (sq_stats q) = 0 \<longrightarrow> dispatch_all (builder_handler None) (concat G) b = Some b'"
    "line_run is (line_new 1 4096) = (a, evs)" "st_lost (sq_stats q) = 0 \<longleftrightarrow> lost_numbers evs = []"
    "gapOpen q \<longleftrightarrow> ln_next a < ln_known a" "sq_ended q \<longleftrightarrow> ln_ended a"
proof -
  obtain q a evs where
    q: "\<And>d h. sq_run is (d :: (unit builder \<times> u64) deliver) (sequencer_new 1 4096) h = map_option (Pair q) (replay d (delivered evs) h)"
    "set (delivered evs) \<subseteq> set (tape (concat G))" "length (delivered evs) \<le> length (concat G)"
    "sq_ended q \<longrightarrow> \<not> gapOpen q"
    "sq_ended q \<and> st_lost (sq_stats q) = 0 \<longrightarrow> delivered evs = tape (concat G)"
    "line_run is (line_new 1 4096) = (a, evs)" "st_lost (sq_stats q) = 0 \<longleftrightarrow> lost_numbers evs = []"
    "gapOpen q \<longleftrightarrow> ln_next a < ln_known a" "sq_ended q \<longleftrightarrow> ln_ended a"
    by (rule fed_run [OF G fed]) blast
  have "snd ` set (delivered evs) \<subseteq> snd ` set (tape (concat G))" using q(2) by blast
  then have "snd ` set (delivered evs) \<subseteq> set (concat G)"
    by (simp only: set_map [symmetric] snd_tape)
  then have "\<forall>x\<in>set (delivered evs). well_framed (snd x)" using framed by blast
  note books = replay_books [OF this, of b 0]
  have "length (map snd (delivered evs)) \<le> 2 ^ 32" using q(3) G by (simp add: groups_ok_def)
  from books_total [OF b this] obtain b' where "dispatch_all (builder_handler None) (map snd (delivered evs)) b = Some b'" by blast
  then show thesis using q(1,4-9) books by (intro that [of q b' a evs]) auto
qed

text \<open>The feed that a run of the sender puts out.\<close>

lemma sent_feed:
  assumes "86 \<le> sa_maxBytes ar" "sa_maxBytes ar \<le> 65000" "length (concat (map messages_of fs)) < 2 ^ 32"
    and "mold_send takes ar (map Some fs) = Some (code, s)"
  obtains G where "groups_ok G" "\<forall>m\<in>set (concat G). well_framed m" "concat G = concat (map messages_of fs)"
    "feeds_ok takes ar (datagrams (sa_session ar) 1 G @ replicate 3 (eos_datagram (sa_session ar) (1 + length (concat G)))) s"
proof -
  from mold_send_correct [OF assms(1,2), of takes fs] obtain s' G where
    G: "mold_send takes ar (map Some fs) = Some (if ms_refused s' > 0 then 1 else 0, s')"
    "concat G = concat (map messages_of fs)"
    "\<forall>g\<in>set G. g \<noteq> [] \<and> list_all framable g \<and> length g < 65535"
    "feeds_ok takes ar (datagrams (sa_session ar) 1 G @ replicate 3 (eos_datagram (sa_session ar) (1 + length (concat G)))) s'"
    by blast
  moreover have "s' = s" using G(1) assms(4) by simp
  moreover have "groups_ok G" using G(2,3) assms(3) by (simp add: groups_ok_def)
  moreover have "\<forall>m\<in>set (concat G). well_framed m" unfolding G(2) using messages_of_framed by auto
  ultimately show thesis by (intro that [of G]) simp_all
qed

lemma receiver_new_Some:
  assumes "receiver_new start = Some v"
  shows "\<exists>b. builder_new (2 ^ 16) () = Some b \<and> rv_books v = (b, 0) \<and> rv_sequencer v = sequencer_new 1 4096"
  using assms by (auto simp: receiver_new_def bind_Some_iff)

text \<open>C2. What a clean exit of the receiver means. Whatever the order in which datagrams of the two feeds
  arrive, however often, with any of them lost and whatever the clock does: when \<open>mold_recv\<close> exits with
  code 0, its books are those that the messages of the sender's files build, every one of them
  dispatched exactly once and in order.\<close>

theorem clean_exit_has_all_books:
  assumes "86 \<le> sa_maxBytes ar" "sa_maxBytes ar \<le> 65000" "length (concat (map messages_of fs)) < 2 ^ 32"
    and "mold_send takes ar (map Some fs) = Some (code, s)"
    and "(\<Union>turn\<in>set turns. set (snd turn)) \<subseteq> set (ms_feedA s) \<union> set (ms_feedB s)"
    and "mold_recv gapWait idle start turns = Some (Some (0, v))"
  shows "\<exists>b. builder_new (2 ^ 16) () = Some b
    \<and> dispatch_all (builder_handler None) (concat (map messages_of fs)) b = Some (fst (rv_books v))
    \<and> unknownRefs (stats (core (fst (rv_books v)))) = 0 \<and> overExecutions (stats (core (fst (rv_books v)))) = 0"
proof -
  obtain G where G: "groups_ok G" "\<forall>m\<in>set (concat G). well_framed m" "concat G = concat (map messages_of fs)"
    "feeds_ok takes ar (datagrams (sa_session ar) 1 G @ replicate 3 (eos_datagram (sa_session ar) (1 + length (concat G)))) s"
    by (rule sent_feed [OF assms(1-4)])
  let ?D = "\<Union>(set ` snd ` set turns)"
  obtain v0 v1 where v: "receiver_new start = Some v0" "recv_loop gapWait idle turns v0 = Some (True, v1)"
    "close_gaps v1 = Some v" "clean v"
    using assms(6) by (auto simp: mold_recv_def bind_Some_iff split: if_splits)
  from receiver_new_Some [OF v(1)] obtain b where
    b: "builder_new (2 ^ 16) () = Some b" "rv_books v0 = (b, 0)" "rv_sequencer v0 = sequencer_new 1 4096" by blast
  from received_loop [OF v(2)] received_close [OF v(3)] obtain "is" where r: "received ?D v0 v is"
    using received_trans by blast
  have "?D \<subseteq> set (datagrams (sa_session ar) 1 G) \<union> {eos_datagram (sa_session ar) (1 + length (concat G))}"
    using assms(5) G(4) by (auto simp: feeds_ok_def)
  then have "fed (sa_session ar) G is" by (rule from_datagrams_fed [OF G(1)]) (use r in \<open>simp add: received_def\<close>)
  from fed_books [OF G(1,2) this b(1)] obtain q b' where
    q: "sq_run is toBooks (sequencer_new 1 4096) (b, 0) = Some (q, b', 0)"
    "sq_ended q \<and> st_lost (sq_stats q) = 0 \<longrightarrow> dispatch_all (builder_handler None) (concat G) b = Some b'" by metis
  have "rv_sequencer v = q" "rv_books v = (b', 0)" using q(1) r b(2,3) by (simp_all add: received_def)
  then show ?thesis using q(2) v(4) b(1) by (intro exI [of _ b]) (simp add: clean_def G(3))
qed

section \<open>A feed that arrives in time\<close>

definition packet_of :: "bytes \<Rightarrow> packet" where
  "packet_of d = snd (the (decode d no_packet))"

definition inputs :: "bytes list \<Rightarrow> sq_input list" where
  "inputs ds = map (\<lambda>d. InPacket (packet_of d)) ds"

text \<open>\<open>v\<close> is the receiver that started with the books \<open>b\<close> and has read exactly \<open>ds\<close>.\<close>

definition has_read :: "unit builder \<Rightarrow> bytes list \<Rightarrow> receiver \<Rightarrow> bool" where
  "has_read b ds v \<longleftrightarrow> sq_run (inputs ds) toBooks (sequencer_new 1 4096) (b, 0) = Some (rv_sequencer v, rv_books v)
     \<and> (\<forall>e. rv_malformed v e = 0)"

definition readable :: "unit builder \<Rightarrow> bytes set \<Rightarrow> bool" where
  "readable b D \<longleftrightarrow> (\<forall>d\<in>D. \<exists>p. decode d no_packet = Some (NoError, p))
     \<and> (\<forall>ds. set ds \<subseteq> D \<longrightarrow> sq_run (inputs ds) toBooks (sequencer_new 1 4096) (b, 0) \<noteq> None)"

definition same_clock :: "receiver \<Rightarrow> receiver \<Rightarrow> bool" where
  "same_clock v w \<longleftrightarrow> rv_gapSince v = rv_gapSince w \<and> rv_lastArrival v = rv_lastArrival w
     \<and> rv_firstArrival v = rv_firstArrival w"

lemma has_read_datagram:
  assumes "readable b D" "has_read b ds v" "set (ds @ [d]) \<subseteq> D"
  shows "\<exists>v'. recv_datagram d v = Some v' \<and> has_read b (ds @ [d]) v' \<and> same_clock v' v"
proof -
  obtain p where p: "decode d no_packet = Some (NoError, p)" using assms(1,3) by (auto simp: readable_def)
  have "inputs (ds @ [d]) = inputs ds @ [InPacket p]" by (simp add: inputs_def packet_of_def p)
  moreover have "sq_run (inputs (ds @ [d])) toBooks (sequencer_new 1 4096) (b, 0) \<noteq> None"
    using assms(1,3) unfolding readable_def by blast
  ultimately obtain q h where "onPacket p toBooks (rv_sequencer v) (rv_books v) = Some (q, h)"
    "sq_run (inputs (ds @ [d])) toBooks (sequencer_new 1 4096) (b, 0) = Some (q, h)"
    using assms(2) by (auto simp: has_read_def sq_run_append split: Option.bind_splits)
  then show ?thesis using assms(2) p by (simp add: recv_datagram_def has_read_def same_clock_def)
qed

lemma has_read_sockets:
  "readable b D \<Longrightarrow> has_read b ds v \<Longrightarrow> set (ds @ ds') \<subseteq> D \<Longrightarrow>
     \<exists>v'. recv_sockets ds' v = Some v' \<and> has_read b (ds @ ds') v' \<and> same_clock v' v"
proof (induction ds' arbitrary: ds v)
  case Nil
  then show ?case by (simp add: same_clock_def)
next
  case (Cons d ds')
  from has_read_datagram [OF Cons.prems(1,2), of d] Cons.prems(3) obtain v1 where
    v1: "recv_datagram d v = Some v1" "has_read b (ds @ [d]) v1" "same_clock v1 v" by auto
  from Cons.IH [OF Cons.prems(1) v1(2)] Cons.prems(3) v1(1,3) show ?case by (auto simp: same_clock_def)
qed

section \<open>Reordering within the window\<close>

text \<open>The datagrams of a feed in sending order; number and messages of each.\<close>

definition feed_of :: "bytes \<Rightarrow> bytes list list \<Rightarrow> bytes list" where
  "feed_of s G = datagrams s 1 G @ replicate 3 (eos_datagram s (1 + length (concat G)))"

definition first_of :: "bytes list list \<Rightarrow> nat \<Rightarrow> nat" where
  "first_of G i = 1 + length (concat (take i G))"

definition sent_run :: "bytes list list \<Rightarrow> nat \<Rightarrow> run" where
  "sent_run G i = (if i < length G then (first_of G i, G ! i) else (first_of G (length G), []))"

lemma first_of_0 [simp]: "first_of G 0 = 1"
  by (simp add: first_of_def)

lemma first_of_all: "length G \<le> i \<Longrightarrow> first_of G i = 1 + length (concat G)"
  by (simp add: first_of_def)

lemma first_of_Suc: "i < length G \<Longrightarrow> first_of G (Suc i) = first_of G i + length (G ! i)"
  by (simp add: first_of_def take_Suc_conv_app_nth)

lemma first_of_mono: "i \<le> j \<Longrightarrow> first_of G i \<le> first_of G j"
proof (induction rule: dec_induct)
  case (step j)
  then show ?case by (cases "j < length G") (simp_all add: first_of_Suc first_of_all)
qed simp

lemma past_sent_run: "past (sent_run G i) = first_of G (Suc i)"
  by (simp add: sent_run_def first_of_Suc first_of_all)

lemma first_of_strict: "groups_ok G \<Longrightarrow> i < j \<Longrightarrow> i < length G \<Longrightarrow> first_of G i < first_of G j"
proof -
  assume G: "groups_ok G" and ij: "i < j" "i < length G"
  have "G ! i \<noteq> []" using G ij by (simp add: groups_ok_def)
  then have "first_of G i < first_of G (Suc i)" using ij by (simp add: first_of_Suc)
  also have "\<dots> \<le> first_of G j" using ij by (intro first_of_mono) simp
  finally show ?thesis .
qed

lemma nth_datagrams:
  "i < length G \<Longrightarrow> datagrams s n G ! i
     = datagram_of s (n + length (concat (take i G))) (of_nat (length (G ! i))) (G ! i)"
proof (induction G arbitrary: n i)
  case (Cons g G)
  then show ?case by (cases i) (simp_all add: add.assoc)
qed simp

lemma length_feed_of [simp]: "length (feed_of s G) = length G + 3"
  by (simp add: feed_of_def)

lemma set_feed_of: "set (feed_of s G) = set (datagrams s 1 G) \<union> {eos_datagram s (1 + length (concat G))}"
  by (simp add: feed_of_def)

lemma feed_of_run:
  assumes G: "groups_ok G" and i: "i < length (feed_of s G)"
  shows "run_of (packet_of (feed_of s G ! i)) = sent_run G i"
proof (cases "i < length G")
  case True
  then have g: "list_all framable (G ! i)" "length (G ! i) < 65535" using G by (simp_all add: groups_ok_def)
  have "first_of G i + length (G ! i) \<le> 1 + length (concat G)"
    using first_of_mono [of "Suc i" "length G" G] True by (simp add: first_of_Suc first_of_all)
  then have "first_of G i + length (G ! i) < 2 ^ 64" using G by (simp add: groups_ok_def)
  from decode_group [OF g this, of s no_packet] True show ?thesis
    by (auto simp: packet_of_def feed_of_def nth_append nth_datagrams sent_run_def first_of_def)
next
  case False
  have "1 + length (concat G) < 2 ^ 64" using G by (simp add: groups_ok_def)
  from decode_eos [OF this, of s no_packet] False i show ?thesis
    by (auto simp: packet_of_def feed_of_def nth_append sent_run_def first_of_def)
qed

lemma feed_of_nth_inj:
  assumes G: "groups_ok G" and "feed_of s G ! i = feed_of s G ! j" "i < length G" "j < length (feed_of s G)"
  shows "j = i"
proof -
  have eq: "sent_run G i = sent_run G j" using assms feed_of_run [OF G, of i s] feed_of_run [OF G, of j s] by simp
  have "G ! i \<noteq> []" using G assms(3) by (simp add: groups_ok_def)
  then have "j < length G" "first_of G i = first_of G j" using eq assms(3) by (auto simp: sent_run_def split: if_splits)
  then show ?thesis using first_of_strict [OF G, of i j] first_of_strict [OF G, of j i] assms(3) by (cases i j rule: linorder_cases) auto
qed

text \<open>The datagrams are read so that none comes 4096 or more places ahead of one that is still missing;
  and what has been read leaves no gap.\<close>

definition in_window :: "bytes list \<Rightarrow> bytes list \<Rightarrow> bool" where
  "in_window F ds \<longleftrightarrow> (\<forall>k<length ds. \<exists>j<length F. ds ! k = F ! j \<and> set (take (j - 4095) F) \<subseteq> set (take k ds))"

definition no_gap :: "bytes list \<Rightarrow> bytes list \<Rightarrow> bool" where
  "no_gap F ds \<longleftrightarrow> (\<exists>n\<le>length F. set ds = set (take n F))"

lemma in_window_prefix: "in_window F (ds @ ds') \<Longrightarrow> in_window F ds"
  unfolding in_window_def
proof (intro allI impI)
  fix k assume a: "\<forall>k<length (ds @ ds'). \<exists>j<length F. (ds @ ds') ! k = F ! j \<and> set (take (j - 4095) F) \<subseteq> set (take k (ds @ ds'))"
    and "k < length ds"
  then show "\<exists>j<length F. ds ! k = F ! j \<and> set (take (j - 4095) F) \<subseteq> set (take k ds)"
    using spec [OF a, of k] by (simp add: nth_append)
qed

lemma in_window_sub: "in_window F ds \<Longrightarrow> set ds \<subseteq> set F"
  by (auto simp: in_window_def in_set_conv_nth) (metis)

lemma in_window_before:
  assumes G: "groups_ok G" and w: "in_window (feed_of s G) ds" and j: "feed_of s G ! j \<in> set ds" "j < length G"
    and i: "feed_of s G ! i \<notin> set ds" "i < length G"
  shows "j \<le> i + 4095"
proof (rule ccontr)
  let ?F = "feed_of s G"
  assume n: "\<not> j \<le> i + 4095"
  obtain k where k: "k < length ds" "ds ! k = ?F ! j" using j(1) by (auto simp: in_set_conv_nth)
  with w obtain j' where j': "j' < length ?F" "?F ! j = ?F ! j'" "set (take (j' - 4095) ?F) \<subseteq> set (take k ds)"
    unfolding in_window_def by metis
  have "j' = j" using feed_of_nth_inj [OF G j'(2) j(2) j'(1)] .
  then have "i < j' - 4095" using n by simp
  then have "?F ! i \<in> set (take (j' - 4095) ?F)" using i(2) by (auto simp: in_set_conv_nth intro!: exI [of _ i])
  then show False using j'(3) i(1) by (meson in_mono in_set_takeD)
qed

section \<open>The line on such a feed\<close>

lemma accepted_inputs:
  "\<forall>d\<in>set ds. pk_session (packet_of d) = sess \<Longrightarrow> s = None \<or> s = Some sess \<Longrightarrow>
     accepted s (inputs ds) = map (\<lambda>d. run_of (packet_of d)) ds"
  by (induction ds arbitrary: s) (auto simp: inputs_def)

lemma line_run_append: "line_run (is @ is') a
    = (fst (line_run is' (fst (line_run is a))), snd (line_run is a) @ snd (line_run is' (fst (line_run is a))))"
  by (induction "is" arbitrary: a) (simp_all add: split_def Let_def)

lemma lost_numbers_append [simp]: "lost_numbers (evs @ evs') = lost_numbers evs @ lost_numbers evs'"
  by (induction evs rule: lost_numbers.induct) simp_all

lemma feed_line_inv:
  assumes G: "groups_ok G" and ds: "set ds \<subseteq> set (feed_of s G)"
    and run: "line_run (inputs ds) (line_new 1 4096) = (a, evs)"
  shows "line_inv 1 (map (\<lambda>d. run_of (packet_of d)) ds) a evs"
    "ln_closing a \<longleftrightarrow> (\<exists>d\<in>set ds. endOfSession (packet_of d))"
proof -
  have sess: "pk_session (packet_of d) = padded s" if "d \<in> set ds" for d
  proof -
    have "d \<in> set (datagrams s 1 G) \<union> {eos_datagram s (1 + length (concat G))}" using that ds set_feed_of by blast
    from sent_decodes [OF G this] obtain p where "decode d no_packet = Some (NoError, p)" "sent_packet s G p" by blast
    then show ?thesis by (simp add: packet_of_def sent_packet_def)
  qed
  then have acc: "accepted None (inputs ds) = map (\<lambda>d. run_of (packet_of d)) ds" by (intro accepted_inputs) auto
  show "line_inv 1 (map (\<lambda>d. run_of (packet_of d)) ds) a evs"
    using inv_run [OF line_inv_new run] by (simp add: line_new_def acc)
  have pk: "\<forall>p. InPacket p \<in> set (inputs ds) \<longrightarrow> pk_session p = padded s" using sess by (auto simp: inputs_def)
  show "ln_closing a \<longleftrightarrow> (\<exists>d\<in>set ds. endOfSession (packet_of d))"
    using closing_run [OF line_inv_new pk _ run] by (auto simp: line_new_def inputs_def)
qed

lemma line_progress:
  assumes G: "groups_ok G" and inv: "line_inv 1 (map (\<lambda>d. run_of (packet_of d)) ds) a evs"
    and n: "n \<le> length G" "\<forall>i<n. feed_of s G ! i \<in> set ds"
  shows "first_of G n \<le> ln_next a"
proof -
  have one: "1 \<le> ln_next a" using inv by (simp add: line_inv_def line_core_def)
  have "i \<le> n \<Longrightarrow> first_of G i \<le> ln_next a" for i
  proof (induction i)
    case (Suc i)
    then have i: "i < n" "i < length G" "first_of G i \<le> ln_next a" using n(1) by simp_all
    have "run_of (packet_of (feed_of s G ! i)) = sent_run G i" using i(2) by (intro feed_of_run [OF G]) simp
    then have K: "sent_run G i \<in> set (map (\<lambda>d. run_of (packet_of d)) ds)" using n(2) i(1) by force
    show ?case
    proof (rule ccontr)
      assume "\<not> first_of G (Suc i) \<le> ln_next a"
      then have "ln_next a < past (sent_run G i)" "fst (sent_run G i) \<le> ln_next a"
        using i by (simp_all add: past_sent_run) (simp add: sent_run_def)
      then have "covered (ln_next a) (ln_held a) (ln_next a)" using inv K unfolding line_inv_def line_core_def by blast
      then show False using inv by (auto simp: covered_def line_inv_def tidy_def)
    qed
  qed (use one in simp)
  then show ?thesis by simp
qed

lemma line_unread:
  assumes G: "groups_ok G" and ds: "set ds \<subseteq> set (feed_of s G)"
    and inv: "line_inv 1 (map (\<lambda>d. run_of (packet_of d)) ds) a evs" and lost: "lost_numbers evs = []"
    and i: "i < length G" "feed_of s G ! i \<notin> set ds"
  shows "ln_next a \<le> first_of G i"
proof (rule ccontr)
  assume n: "\<not> ln_next a \<le> first_of G i"
  have core: "line_core 1 (map (\<lambda>d. run_of (packet_of d)) ds) (ln_next a) (ln_held a) evs" using inv by (simp add: line_inv_def)
  have "map fst (delivered evs) = [1 ..< ln_next a]"
    using count_lost(3) [of evs] lost core by (simp add: line_core_def)
  moreover have "first_of G i \<in> set [1 ..< ln_next a]" using n first_of_mono [of 0 i G] by auto
  ultimately obtain x where x: "x \<in> set (delivered evs)" "fst x = first_of G i" by (metis imageE set_map)
  then obtain d where d: "d \<in> set ds" "x \<in> set (pairs (run_of (packet_of d)))" using core unfolding line_core_def by fastforce
  then obtain j where j: "j < length (feed_of s G)" "d = feed_of s G ! j" using ds by (metis in_mono in_set_conv_nth)
  have r: "fst (sent_run G j) \<le> first_of G i" "first_of G i < past (sent_run G j)"
    using pairs_range [OF d(2)] feed_of_run [OF G j(1)] j(2) x(2) by simp_all
  have "\<not> i < j" "\<not> j < i"
    using r first_of_Suc [of j G] first_of_strict [OF G _ i(1), of j] first_of_mono [of "Suc j" i G] first_of_mono [of "length G" j G]
      first_of_strict [OF G, of i "length G"] i(1)
    by (auto simp: past_sent_run sent_run_def split: if_splits) 
  then show False using i(2) d(1) j(2) by (cases i j rule: linorder_cases) auto
qed

text \<open>The runs that wait lie within the window behind the first one missing, so the limit is not met.\<close>

lemma held_few:
  assumes G: "groups_ok G" and w: "in_window (feed_of s G) ds"
    and inv: "line_inv 1 (map (\<lambda>d. run_of (packet_of d)) ds) a evs" and lost: "lost_numbers evs = []"
    and dist: "distinct (map fst (ln_held a))"
  shows "length (ln_held a) < 4096"
proof (cases "\<exists>i<length G. feed_of s G ! i \<notin> set ds")
  case False
  have "ln_held a = []"
  proof (rule ccontr)
    assume "ln_held a \<noteq> []"
    then obtain h where h: "h \<in> set (ln_held a)" by (cases "ln_held a") auto
    then have "h \<in> set (map (\<lambda>d. run_of (packet_of d)) ds)" "ln_next a < fst h"
      using inv by (auto simp: line_inv_def line_core_def tidy_def)
    moreover have "first_of G (length G) \<le> ln_next a" using line_progress [OF G inv, of "length G" s] False by auto
    ultimately obtain d where d: "d \<in> set ds" "first_of G (length G) < fst (run_of (packet_of d))" by auto
    then obtain j where j: "j < length (feed_of s G)" "d = feed_of s G ! j" using in_window_sub [OF w] by (metis in_mono in_set_conv_nth)
    have "fst (sent_run G j) \<le> first_of G (length G)" using first_of_mono [of j "length G" G] by (auto simp: sent_run_def)
    then show False using d(2) feed_of_run [OF G j(1)] j(2) by simp
  qed
  then show ?thesis by simp
next
  case True
  define i where "i = (LEAST i. i < length G \<and> feed_of s G ! i \<notin> set ds)"
  have i: "i < length G" "feed_of s G ! i \<notin> set ds" using LeastI_ex [OF True] by (simp_all add: i_def)
  have before: "\<forall>k<i. feed_of s G ! k \<in> set ds"
    using not_less_Least [of _ "\<lambda>i. i < length G \<and> feed_of s G ! i \<notin> set ds"] i(1) unfolding i_def [symmetric] by auto
  have next_ge: "first_of G i \<le> ln_next a" using line_progress [OF G inv _ before] i(1) by simp
  have "fst h \<in> first_of G ` {i + 1 .. i + 4095}" if h: "h \<in> set (ln_held a)" for h
  proof -
    have "h \<in> set (map (\<lambda>d. run_of (packet_of d)) ds)" "ln_next a < fst h" "snd h \<noteq> []"
      using inv h by (auto simp: line_inv_def line_core_def tidy_def)
    then obtain d where d: "d \<in> set ds" "h = run_of (packet_of d)" by auto
    then obtain j where j: "j < length (feed_of s G)" "d = feed_of s G ! j" using in_window_sub [OF w] by (metis in_mono in_set_conv_nth)
    have hj: "h = sent_run G j" using d(2) feed_of_run [OF G j(1)] j(2) by simp
    then have "j < length G" "fst h = first_of G j" using \<open>snd h \<noteq> []\<close> by (auto simp: sent_run_def split: if_splits)
    moreover have "j \<le> i + 4095" using in_window_before [OF G w _ _ i(2,1)] d(1) j(2) \<open>j < length G\<close> by simp
    moreover have "i < j" using \<open>ln_next a < fst h\<close> next_ge first_of_mono [of j i G] \<open>fst h = _\<close> by (cases "j \<le> i") auto
    ultimately show ?thesis by simp
  qed
  then have "set (map fst (ln_held a)) \<subseteq> first_of G ` {i + 1 .. i + 4095}" by auto
  from card_mono [OF _ this] have "card (set (map fst (ln_held a))) \<le> 4095"
    using card_image_le [of "{i + 1 .. i + 4095}" "first_of G"] by simp
  then show ?thesis using distinct_card [OF dist] by simp
qed

lemma drain_drops: "drain_line rs a = (a', e) \<Longrightarrow> \<exists>n. ln_held a' = drop n rs"
proof (induction rs a arbitrary: a' e rule: drain_line.induct)
  case (2 r rs a)
  show ?case
  proof (cases "fst r \<le> ln_next a")
    case True
    then obtain e2 where d: "drain_line rs (fst (run_line r (a\<lparr>ln_held := rs\<rparr>))) = (a', e2)"
      using 2(2) by (auto simp: split_def Let_def prod_eq_iff)
    from 2(1) [OF True refl prod.collapse d] obtain n where "ln_held a' = drop n rs" by blast
    then show ?thesis by (intro exI [of _ "Suc n"]) simp
  next
    case False
    then show ?thesis using 2(2) by (intro exI [of _ 0]) auto
  qed
qed auto

lemma hold_distinct:
  assumes "sorted (map fst (ln_held a))" "distinct (map fst (ln_held a))" "hold_line r a = (a', e)"
    and same: "\<forall>h\<in>set (ln_held a). fst h = fst r \<longrightarrow> length (snd r) \<le> length (snd h)"
  shows "distinct (map fst (ln_held a'))"
proof -
  let ?P = "\<lambda>x. fst x < fst r"
  let ?lower = "takeWhile ?P (ln_held a)" and ?upper = "dropWhile ?P (ln_held a)"
  have parts: "ln_held a = ?lower @ ?upper" by simp
  show ?thesis
  proof (cases "?upper \<noteq> [] \<and> fst (hd ?upper) = fst r \<and> length (snd (hd ?upper)) \<ge> length (snd r)")
    case True
    then show ?thesis using assms(2,3) by (simp add: hold_line_def Let_def del: dropWhile_eq_Nil_conv) 
  next
    case False
    then have a': "a' = a\<lparr>ln_held := ?lower @ r # ?upper\<rparr>" 
      using assms(3) unfolding hold_line_def Let_def by auto
    have up: "fst r < fst h" if h: "h \<in> set ?upper" for h
    proof -
      have ne: "?upper \<noteq> []" using h by (metis empty_iff list.set(1))
      then have hd: "hd ?upper \<in> set (ln_held a)" "\<not> fst (hd ?upper) < fst r"
        using set_dropWhileD hd_in_set hd_dropWhile [of ?P "ln_held a"] by (metis, auto)
      then have "fst r \<noteq> fst (hd ?upper)" using False ne same by metis
      moreover have "sorted (map fst ?upper)" using assms(1) parts by (metis map_append sorted_append)
      then have "fst (hd ?upper) \<le> fst h" using h ne by (cases ?upper) auto
      ultimately show ?thesis using hd(2) by simp
    qed
    have "distinct (map fst ?lower @ map fst ?upper)" using assms(2) parts by (metis map_append)
    moreover have "fst r \<notin> set (map fst ?lower)" by (auto dest: set_takeWhileD)
    moreover have "fst r \<notin> set (map fst ?upper)" using up by fastforce
    ultimately show ?thesis unfolding a' by auto
  qed
qed

text \<open>A packet that comes while there is room loses nothing and keeps the runs that wait distinct.\<close>

lemma distinct_data:
  assumes room: "length (ln_held a) < ln_limit a" and held: "sorted (map fst (ln_held a))" "distinct (map fst (ln_held a))"
    and same: "\<forall>h\<in>set (ln_held a). fst h = fst r \<longrightarrow> length (snd r) \<le> length (snd h)"
    and d: "data_line r a = (a', e)"
  shows "distinct (map fst (ln_held a'))"
proof (cases "snd r = []")
  case True
  then show ?thesis using d held by (auto simp: data_line_def)
next
  case some: False
  show ?thesis
  proof (cases "fst r > ln_next a")
    case True
    then obtain e2 where "hold_line r a = (a', e2)" using d some room by (auto simp: data_line_def split_def)
    from hold_distinct [OF held this same] show ?thesis .
  next
    case False
    obtain c e3 where c: "drain_line (ln_held a) (fst (run_line r a)) = (c, e3)" by fastforce
    have "a' = finish_line c" using d some False c by (auto simp: data_line_def split_def)
    moreover obtain n where "ln_held c = drop n (ln_held a)" using drain_drops [OF c] by blast
    ultimately show ?thesis using held(2) by (simp add: distinct_drop flip: drop_map)
  qed
qed

lemma distinct_packet:
  assumes room: "length (ln_held a) < ln_limit a" and held: "sorted (map fst (ln_held a))" "distinct (map fst (ln_held a))"
    and same: "\<forall>h\<in>set (ln_held a). fst h = fst r \<longrightarrow> length (snd r) \<le> length (snd h)"
    and d: "line_packet sess beat closing r a = (a', e)"
  shows "distinct (map fst (ln_held a'))"
proof (cases "ln_session a \<noteq> None \<and> ln_session a \<noteq> Some sess")
  case True
  then show ?thesis using d held by (auto simp: line_packet_def)
next
  case False
  let ?a = "a\<lparr>ln_session := Some sess, ln_known := max (ln_known a) (past r), ln_closing := ln_closing a \<or> closing\<rparr>"
  obtain e2 where "data_line r ?a = (a', e2)" using d False by (auto simp: line_packet_def split_def Let_def prod_eq_iff)
  from distinct_data [OF _ _ _ _ this] show ?thesis using room held same by simp
qed

lemma same_start:
  assumes G: "groups_ok G" and d: "d \<in> set (feed_of s G)" "d' \<in> set (feed_of s G)"
    and eq: "fst (run_of (packet_of d)) = fst (run_of (packet_of d'))" and ne: "snd (run_of (packet_of d)) \<noteq> []"
  shows "length (snd (run_of (packet_of d'))) \<le> length (snd (run_of (packet_of d)))"
proof -
  obtain i j where i: "i < length (feed_of s G)" "d = feed_of s G ! i" and j: "j < length (feed_of s G)" "d' = feed_of s G ! j"
    using d by (metis in_set_conv_nth)
  have r: "run_of (packet_of d) = sent_run G i" "run_of (packet_of d') = sent_run G j"
    using feed_of_run [OF G] i j by auto
  show ?thesis
  proof (cases "j < length G")
    case True
    then have "first_of G i = first_of G j" "i < length G" using eq ne r by (auto simp: sent_run_def split: if_splits)
    then have "i = j" using first_of_strict [OF G, of i j] first_of_strict [OF G, of j i] True by (cases i j rule: linorder_cases) auto
    then show ?thesis using r by simp
  next
    case False
    then show ?thesis using r by (simp add: sent_run_def)
  qed
qed

lemma window_run:
  "groups_ok G \<Longrightarrow> in_window (feed_of s G) ds \<Longrightarrow> line_run (inputs ds) (line_new 1 4096) = (a, evs) \<Longrightarrow>
     lost_numbers evs = [] \<and> distinct (map fst (ln_held a)) \<and> ln_limit a = 4096"
proof (induction ds arbitrary: a evs rule: rev_induct)
  case Nil
  then show ?case by (auto simp: inputs_def line_new_def)
next
  case (snoc d ds)
  note G = snoc.prems(1) and w = in_window_prefix [OF snoc.prems(2)]
  obtain b e where b: "line_run (inputs ds) (line_new 1 4096) = (b, e)" by fastforce
  note ih = snoc.IH [OF G w b]
  have sub: "set (ds @ [d]) \<subseteq> set (feed_of s G)" by (rule in_window_sub [OF snoc.prems(2)])
  note inv = feed_line_inv(1) [OF G _ b, of s]
  have inv: "line_inv 1 (map (\<lambda>d. run_of (packet_of d)) ds) b e" by (rule inv) (use sub in simp)
  have room: "length (ln_held b) < ln_limit b" using held_few [OF G w inv] ih by simp
  obtain e' where st: "line_packet (pk_session (packet_of d)) (heartbeat (packet_of d)) (endOfSession (packet_of d))
      (run_of (packet_of d)) b = (a, e')" "evs = e @ e'"
    using snoc.prems(3) b by (auto simp: inputs_def line_run_append split_def Let_def prod_eq_iff)
  note p = inv_packet [OF inv st(1)]
  have "\<forall>h\<in>set (ln_held b). fst h = fst (run_of (packet_of d)) \<longrightarrow> length (snd (run_of (packet_of d))) \<le> length (snd h)"
  proof (intro ballI impI)
    fix h assume h: "h \<in> set (ln_held b)" "fst h = fst (run_of (packet_of d))"
    then have "h \<in> set (map (\<lambda>d. run_of (packet_of d)) ds)" "snd h \<noteq> []" using inv by (auto simp: line_inv_def line_core_def)
    then obtain d' where d': "d' \<in> set ds" "h = run_of (packet_of d')" by auto
    show "length (snd (run_of (packet_of d))) \<le> length (snd h)"
      using same_start [OF G, of d' s d] d' h(2) \<open>snd h \<noteq> []\<close> sub by auto
  qed
  moreover have "sorted (map fst (ln_held b))" using inv by (simp add: line_inv_def line_core_def)
  ultimately have "distinct (map fst (ln_held a))" using distinct_packet [OF room _ _ _ st(1)] ih by blast
  then show ?case using p room ih st(2) by (simp add: count_lost(2))
qed

lemma complete_line:
  assumes G: "groups_ok G" and sub: "set ds \<subseteq> set (feed_of s G)" and n: "no_gap (feed_of s G) ds"
    and inv: "line_inv 1 (map (\<lambda>d. run_of (packet_of d)) ds) a evs"
  shows "ln_known a \<le> ln_next a"
proof -
  obtain n where n: "n \<le> length (feed_of s G)" "set ds = set (take n (feed_of s G))" using n by (auto simp: no_gap_def)
  let ?m = "min n (length G)"
  have "\<forall>i<?m. feed_of s G ! i \<in> set ds" unfolding n(2)
  proof (intro allI impI)
    fix i assume "i < min n (length G)"
    then show "feed_of s G ! i \<in> set (take n (feed_of s G))" using nth_mem [of i "take n (feed_of s G)"] by simp
  qed
  then have next_ge: "first_of G ?m \<le> ln_next a" using line_progress [OF G inv, of ?m s] by simp
  have "past (run_of (packet_of d)) \<le> first_of G ?m" if "d \<in> set ds" for d
  proof -
    have "d \<in> set (take n (feed_of s G))" using that n(2) by simp
    then obtain j where "j < length (take n (feed_of s G))" "take n (feed_of s G) ! j = d"
      unfolding in_set_conv_nth by blast
    then have j: "j < n" "j < length (feed_of s G)" "d = feed_of s G ! j" by simp_all
    have "first_of G (Suc j) \<le> first_of G ?m"
      using first_of_mono [of "Suc j" ?m G] first_of_all [of G "Suc j"] first_of_all [of G "length G"] j(1)
      by (cases "Suc j \<le> length G") auto
    then show ?thesis using feed_of_run [OF G j(2)] j(3) by (simp add: past_sent_run)
  qed
  then show ?thesis using next_ge inv by (auto simp: line_inv_def intro: order_trans)
qed

lemma all_read_ends:
  assumes G: "groups_ok G" and all: "set ds = set (feed_of s G)"
    and run: "line_run (inputs ds) (line_new 1 4096) = (a, evs)"
  shows "ln_ended a"
proof -
  note inv = feed_line_inv [OF G eq_refl [OF all] run]
  have "no_gap (feed_of s G) ds" unfolding no_gap_def using all by (intro exI [of _ "length (feed_of s G)"]) simp
  from complete_line [OF G eq_refl [OF all] this inv(1)] have "ln_known a \<le> ln_next a" .
  moreover have "1 + length (concat G) < 2 ^ 64" using G by (simp add: groups_ok_def)
  then have "endOfSession (packet_of (eos_datagram s (1 + length (concat G))))"
    using decode_eos [of "1 + length (concat G)" s no_packet] by (auto simp: packet_of_def)
  then have "ln_closing a" using inv(2) all by (auto simp: set_feed_of)
  ultimately show ?thesis using inv(1) by (simp add: line_inv_def)
qed

lemma feed_readable:
  assumes "groups_ok G" "\<forall>m\<in>set (concat G). well_framed m" "builder_new (2 ^ 16) () = Some b"
    and "D \<subseteq> set (datagrams s 1 G) \<union> {eos_datagram s (1 + length (concat G))}"
  shows "readable b D" "\<And>ds. set ds \<subseteq> D \<Longrightarrow> fed s G (inputs ds)"
    "\<And>d. d \<in> D \<Longrightarrow> sent_packet s G (packet_of d)"
proof -
  have dec: "\<exists>p. decode d no_packet = Some (NoError, p) \<and> sent_packet s G p" if "d \<in> D" for d
    using sent_decodes [OF assms(1), of d s] assms(4) that by blast
  then show p: "\<And>d. d \<in> D \<Longrightarrow> sent_packet s G (packet_of d)" by (force simp: packet_of_def)
  then show fed: "\<And>ds. set ds \<subseteq> D \<Longrightarrow> fed s G (inputs ds)" by (auto simp: fed_def inputs_def)
  have "sq_run (inputs ds) toBooks (sequencer_new 1 4096) (b, 0) \<noteq> None" if "set ds \<subseteq> D" for ds
    by (rule fed_books [OF assms(1,2) fed [OF that] assms(3)]) simp
  then show "readable b D" using dec unfolding readable_def by blast
qed

section \<open>The clock of the receiver\<close>

text \<open>What the first \<open>i\<close> turns read.\<close>

definition reads :: "nat \<Rightarrow> (int \<times> bytes list) list \<Rightarrow> bytes list" where
  "reads i turns = concat (map snd (take i turns))"

text \<open>The conditions on the clock. Time does not run backwards; and at every turn that finds the sockets
  empty, a turn that began without a gap is at most the gap wait back, and the last datagram, if there
  was one, at most the idle time.\<close>

definition timely :: "int \<Rightarrow> int \<Rightarrow> bytes list \<Rightarrow> (int \<times> bytes list) list \<Rightarrow> bool" where
  "timely gapWait idle F turns \<longleftrightarrow> sorted (map fst turns)
     \<and> (\<forall>k<length turns. snd (turns ! k) = [] \<longrightarrow>
          (\<exists>i\<le>k. no_gap F (reads i turns) \<and> fst (turns ! k) - fst (turns ! i) \<le> gapWait)
        \<and> ((\<forall>j<k. snd (turns ! j) = []) \<or> (\<exists>j<k. snd (turns ! j) \<noteq> [] \<and> fst (turns ! k) - fst (turns ! j) \<le> idle)))"

text \<open>The timers after the turns \<open>past\<close>: the gap has been open since the turn noted.\<close>

definition timers_ok :: "bytes list \<Rightarrow> nat \<Rightarrow> (int \<times> bytes list) list \<Rightarrow> receiver \<Rightarrow> bool" where
  "timers_ok F k turns v \<longleftrightarrow>
     (\<forall>t. rv_gapSince v = Some t \<longrightarrow> (\<exists>l<k. t = fst (turns ! l) \<and> (\<forall>i. l < i \<longrightarrow> i \<le> k \<longrightarrow> \<not> no_gap F (reads i turns))))
     \<and> (rv_firstArrival v \<noteq> None \<longrightarrow> (\<exists>j<k. snd (turns ! j) \<noteq> []))
     \<and> (\<forall>j<k. snd (turns ! j) \<noteq> [] \<longrightarrow> fst (turns ! j) \<le> rv_lastArrival v)"

lemma reads_Suc: "k < length turns \<Longrightarrow> reads (Suc k) turns = reads k turns @ snd (turns ! k)"
  by (simp add: reads_def take_Suc_conv_app_nth)

lemma reads_prefix: "\<exists>rest. concat (map snd turns) = reads k turns @ rest"
  by (intro exI [of _ "concat (map snd (drop k turns))"]) (simp add: reads_def flip: concat_append map_append)

lemma timer_waits:
  assumes "\<forall>t. gapOpen (rv_sequencer v) \<and> rv_gapSince v = Some t \<longrightarrow> got \<or> now - t \<le> gapWait"
  shows "gap_timer gapWait now got v = Some (v\<lparr>rv_gapSince := if gapOpen (rv_sequencer v)
    then (if rv_gapSince v = None then Some now else rv_gapSince v) else None\<rparr>)"
  using assms by (cases v) (auto simp: gap_timer_def split: option.splits)

lemma timers_gap:
  assumes "timers_ok F k turns v" "rv_gapSince v = Some t" "timely gapWait idle F turns" "k < length turns" "snd (turns ! k) = []"
  shows "fst (turns ! k) - t \<le> gapWait"
proof -
  obtain l where l: "l < k" "t = fst (turns ! l)" "\<forall>i. l < i \<longrightarrow> i \<le> k \<longrightarrow> \<not> no_gap F (reads i turns)"
    using assms(1,2) by (auto simp: timers_ok_def)
  obtain i where i: "i \<le> k" "no_gap F (reads i turns)" "fst (turns ! k) - fst (turns ! i) \<le> gapWait"
    using assms(3-5) by (auto simp: timely_def)
  have "i \<le> l" using i l(3) by (meson not_le)
  then have "fst (turns ! i) \<le> fst (turns ! l)"
    using assms(3,4) l(1) sorted_nth_mono [of "map fst turns" i l] by (simp add: timely_def)
  then show ?thesis using i(3) l(2) by simp
qed

lemma timers_idle:
  assumes "timers_ok F k turns v" "timely gapWait idle F turns" "k < length turns" "snd (turns ! k) = []"
  shows "rv_firstArrival v = None \<or> fst (turns ! k) - rv_lastArrival v \<le> idle"
proof -
  have "(\<forall>j<k. snd (turns ! j) = []) \<or> (\<exists>j<k. snd (turns ! j) \<noteq> [] \<and> fst (turns ! k) - fst (turns ! j) \<le> idle)"
    using assms(2-4) unfolding timely_def by blast
  then show ?thesis using assms(1) unfolding timers_ok_def by force
qed

lemma timers_step:
  assumes ok: "timers_ok F k turns v" and k: "k < length turns" and t: "turns ! k = (now, ds)"
    and gap: "no_gap F (reads (Suc k) turns) \<longrightarrow> \<not> gap" and sorted: "sorted (map fst turns)"
    and v': "rv_gapSince v' = (if gap then (if rv_gapSince v = None then Some now else rv_gapSince v) else None)"
      "ds \<noteq> [] \<longrightarrow> rv_lastArrival v' = now"
      "ds = [] \<longrightarrow> rv_lastArrival v' = rv_lastArrival v \<and> rv_firstArrival v' = rv_firstArrival v"
  shows "timers_ok F (Suc k) turns v'"
proof -
  have "\<exists>l<Suc k. u = fst (turns ! l) \<and> (\<forall>i. l < i \<longrightarrow> i \<le> Suc k \<longrightarrow> \<not> no_gap F (reads i turns))"
    if u: "rv_gapSince v' = Some u" for u
  proof (cases "rv_gapSince v")
    case None
    then show ?thesis using u v'(1) gap t by (intro exI [of _ k]) (auto split: if_splits simp: le_Suc_eq)
  next
    case (Some w)
    then have "w = u" "gap" using u v'(1) by (auto split: if_splits)
    with Some ok obtain l where "l < k" "u = fst (turns ! l)" "\<forall>i. l < i \<longrightarrow> i \<le> k \<longrightarrow> \<not> no_gap F (reads i turns)"
      by (auto simp: timers_ok_def)
    then show ?thesis using gap \<open>gap\<close> by (intro exI [of _ l]) (auto simp: le_Suc_eq)
  qed
  moreover have "fst (turns ! j) \<le> fst (turns ! k)" if "j \<le> k" for j
    using sorted_nth_mono [OF sorted that] k that by simp
  ultimately show ?thesis using ok v'(2,3) t unfolding timers_ok_def
    by (cases "ds = []") (auto simp: less_Suc_eq)
qed

text \<open>Such a feed never makes the receiver give up: a gap is at most pending.\<close>

lemma timely_turn:
  assumes rd: "readable b D" "set (reads (Suc k) turns) \<subseteq> D" and v: "has_read b (reads k turns) v" "timers_ok F k turns v"
    and k: "k < length turns" and time: "timely gapWait idle F turns"
    and closed: "\<And>w. has_read b (reads (Suc k) turns) w \<Longrightarrow> no_gap F (reads (Suc k) turns) \<Longrightarrow> \<not> gapOpen (rv_sequencer w)"
  shows "\<exists>v'. recv_turn gapWait idle (turns ! k) v = Some (False, v') \<and> has_read b (reads (Suc k) turns) v'
    \<and> timers_ok F (Suc k) turns v'"
proof -
  obtain now ds where t: "turns ! k = (now, ds)" by fastforce
  have r: "reads (Suc k) turns = reads k turns @ ds" using reads_Suc [OF k] t by simp
  from has_read_sockets [OF rd(1) v(1), of ds] rd(2) obtain v1 where
    v1: "recv_sockets ds v = Some v1" "has_read b (reads (Suc k) turns) v1" "same_clock v1 v" unfolding r by blast
  let ?gap = "gapOpen (rv_sequencer v1)"
  let ?v2 = "v1\<lparr>rv_gapSince := if ?gap then (if rv_gapSince v1 = None then Some now else rv_gapSince v1) else None\<rparr>"
  have ok: "timers_ok F k turns v1" using v(2) v1(3) by (simp add: timers_ok_def same_clock_def)
  have "ds \<noteq> [] \<or> now - u \<le> gapWait" if "rv_gapSince v1 = Some u" for u
    using timers_gap [OF ok that time k] t by auto
  then have v2: "gap_timer gapWait now (ds \<noteq> []) v1 = Some ?v2" by (intro timer_waits) blast
  define v' where "v' = (if ds = [] then ?v2 else ?v2\<lparr>rv_lastArrival := now,
    rv_firstArrival := (if rv_firstArrival v1 = None then Some now else rv_firstArrival v1)\<rparr>)"
  have "ds = [] \<longrightarrow> rv_firstArrival v1 = None \<or> now - rv_lastArrival v1 \<le> idle" using timers_idle [OF ok time k] t by simp
  then have "recv_turn gapWait idle (turns ! k) v = Some (False, v')"
    using v1(1) v2 by (auto simp: recv_turn_def t v'_def)
  moreover have "has_read b (reads (Suc k) turns) v'" using v1(2) by (simp add: has_read_def v'_def)
  moreover have "timers_ok F (Suc k) turns v'"
    by (rule timers_step [OF ok k t, where gap = ?gap])
      (use closed [OF v1(2)] time in \<open>auto simp: v'_def timely_def\<close>)
  ultimately show ?thesis by blast
qed

lemma timely_loop:
  assumes rd: "readable b D" "set (concat (map snd turns)) \<subseteq> D" and time: "timely gapWait idle F turns"
    and closed: "\<And>i w. has_read b (reads i turns) w \<Longrightarrow> no_gap F (reads i turns) \<Longrightarrow> \<not> gapOpen (rv_sequencer w)"
  shows "k \<le> length turns \<Longrightarrow> has_read b (reads k turns) v \<Longrightarrow> timers_ok F k turns v \<Longrightarrow>
    \<exists>v' i. recv_loop gapWait idle (drop k turns) v = Some (sq_ended (rv_sequencer v'), v') \<and> has_read b (reads i turns) v'
      \<and> (\<not> sq_ended (rv_sequencer v') \<longrightarrow> i = length turns)"
proof (induction "length turns - k" arbitrary: k v)
  case 0
  then show ?case by (intro exI [of _ v] exI [of _ k]) simp
next
  case (Suc n)
  then have k: "k < length turns" by simp
  then have d: "drop k turns = turns ! k # drop (Suc k) turns" by (simp add: Cons_nth_drop_Suc)
  show ?case
  proof (cases "sq_ended (rv_sequencer v)")
    case True
    then show ?thesis using Suc.prems(2) d by (intro exI [of _ v] exI [of _ k]) simp
  next
    case False
    obtain rest where "concat (map snd turns) = reads (Suc k) turns @ rest" using reads_prefix by blast
    then have "set (reads (Suc k) turns) \<subseteq> D" using rd(2) by (metis le_sup_iff set_append)
    from timely_turn [OF rd(1) this Suc.prems(2,3) k time closed [of "Suc k"]] obtain v1 where
      v1: "recv_turn gapWait idle (turns ! k) v = Some (False, v1)" "has_read b (reads (Suc k) turns) v1"
        "timers_ok F (Suc k) turns v1" by blast
    have "n = length turns - Suc k" "Suc k \<le> length turns" using Suc.hyps(2) k by linarith+
    from Suc.hyps(1) [OF this v1(2,3)] obtain v' i where
      "recv_loop gapWait idle (drop (Suc k) turns) v1 = Some (sq_ended (rv_sequencer v'), v')"
      "has_read b (reads i turns) v'" "\<not> sq_ended (rv_sequencer v') \<longrightarrow> i = length turns" by auto
    then show ?thesis using v1(1) False d by (intro exI [of _ v'] exI [of _ i]) simp
  qed
qed

definition exit_code :: "unit builder \<Rightarrow> nat" where
  "exit_code b = (if unknownRefs (stats (core b)) = 0 \<and> overExecutions (stats (core b)) = 0 then 0 else 1)"

text \<open>All that the sender puts out: the second feed if it sends one, as that one drops nothing.\<close>

definition whole_feed :: "send_args \<Rightarrow> sender \<Rightarrow> bytes list" where
  "whole_feed ar s = (if sa_hasB ar then ms_feedB s else ms_feedA s)"

lemma timely_feed:
  assumes "86 \<le> sa_maxBytes ar" "sa_maxBytes ar \<le> 65000" "length (concat (map messages_of fs)) < 2 ^ 32"
    and sent: "mold_send takes ar (map Some fs) = Some (code, s)" "range takes = {True}" "sa_dropA ar = 0 \<or> sa_hasB ar"
    and arrive: "set (whole_feed ar s) \<subseteq> (\<Union>turn\<in>set turns. set (snd turn))"
    and window: "in_window (whole_feed ar s) (concat (map snd turns))"
    and time: "timely gapWait idle (whole_feed ar s) turns"
  shows "\<exists>v b. mold_recv gapWait idle start turns = Some (Some (exit_code (fst (rv_books v)), v))
    \<and> sq_ended (rv_sequencer v) \<and> st_lost (sq_stats (rv_sequencer v)) = 0
    \<and> builder_new (2 ^ 16) () = Some b
    \<and> dispatch_all (builder_handler None) (concat (map messages_of fs)) b = Some (fst (rv_books v))"
proof -
  obtain G where G: "groups_ok G" "\<forall>m\<in>set (concat G). well_framed m" "concat G = concat (map messages_of fs)"
    "feeds_ok takes ar (datagrams (sa_session ar) 1 G @ replicate 3 (eos_datagram (sa_session ar) (1 + length (concat G)))) s"
    by (rule sent_feed [OF assms(1-4)])
  let ?F = "feed_of (sa_session ar) G"
  have F: "whole_feed ar s = ?F"
    using G(4) sent(2,3) by (auto simp: feeds_ok_def whole_feed_def feed_of_def)
  have w: "in_window ?F (reads i turns)" for i
    using reads_prefix [of turns i] window in_window_prefix unfolding F by metis
  have sub: "set (concat (map snd turns)) \<subseteq> set ?F" using in_window_sub [OF window] by (simp add: F)
  obtain b where b: "builder_new (2 ^ 16) () = Some b" using new_builder_rep [of "2 ^ 16" "()"] by auto
  note rd = feed_readable [OF G(1,2) b eq_refl [OF set_feed_of]]
  have books: "\<exists>a evs. line_run (inputs (reads i turns)) (line_new 1 4096) = (a, evs)
      \<and> (sq_ended (rv_sequencer v) \<longrightarrow> \<not> gapOpen (rv_sequencer v)) \<and> st_lost (sq_stats (rv_sequencer v)) = 0
      \<and> (sq_ended (rv_sequencer v) \<longrightarrow> dispatch_all (builder_handler None) (concat G) b = Some (fst (rv_books v)))
      \<and> (gapOpen (rv_sequencer v) \<longleftrightarrow> ln_next a < ln_known a) \<and> (sq_ended (rv_sequencer v) \<longleftrightarrow> ln_ended a)
      \<and> snd (rv_books v) = 0"
    if r: "has_read b (reads i turns) v" for i v
  proof -
    have "set (reads i turns) \<subseteq> set ?F" by (rule in_window_sub [OF w])
    from fed_books [OF G(1,2) rd(2) [OF this] b] obtain q b' a evs where
      q: "sq_run (inputs (reads i turns)) toBooks (sequencer_new 1 4096) (b, 0) = Some (q, b', 0)"
      "sq_ended q \<longrightarrow> \<not> gapOpen q"
      "sq_ended q \<and> st_lost (sq_stats q) = 0 \<longrightarrow> dispatch_all (builder_handler None) (concat G) b = Some b'"
      "line_run (inputs (reads i turns)) (line_new 1 4096) = (a, evs)" "st_lost (sq_stats q) = 0 \<longleftrightarrow> lost_numbers evs = []"
      "gapOpen q \<longleftrightarrow> ln_next a < ln_known a" "sq_ended q \<longleftrightarrow> ln_ended a" by blast
    moreover have "lost_numbers evs = []" using window_run [OF G(1) w q(4)] by blast
    moreover have "rv_sequencer v = q" "rv_books v = (b', 0)" using q(1) r by (simp_all add: has_read_def)
    ultimately show ?thesis by (intro exI [of _ a] exI [of _ evs]) auto
  qed
  have closed: "\<not> gapOpen (rv_sequencer v)" if r: "has_read b (reads i turns) v" "no_gap ?F (reads i turns)" for i v
  proof -
    obtain a evs where a: "line_run (inputs (reads i turns)) (line_new 1 4096) = (a, evs)"
      "gapOpen (rv_sequencer v) \<longleftrightarrow> ln_next a < ln_known a" using books [OF r(1)] by blast
    have s: "set (reads i turns) \<subseteq> set ?F" by (rule in_window_sub [OF w])
    from complete_line [OF G(1) s r(2) feed_line_inv(1) [OF G(1) s a(1)]] a(2) show ?thesis by simp
  qed
  define v0 where "v0 = \<lparr>rv_sequencer = sequencer_new 1 4096, rv_books = (b, 0), rv_malformed = (\<lambda>_. 0),
    rv_datagrams = 0, rv_firstArrival = None, rv_gapSince = None, rv_lastArrival = start\<rparr>"
  have v0: "receiver_new start = Some v0" "has_read b (reads 0 turns) v0" "timers_ok ?F 0 turns v0"
    using b by (simp_all add: v0_def receiver_new_def has_read_def inputs_def timers_ok_def reads_def)
  have "\<exists>v i. recv_loop gapWait idle (drop 0 turns) v0 = Some (sq_ended (rv_sequencer v), v) \<and> has_read b (reads i turns) v
      \<and> (\<not> sq_ended (rv_sequencer v) \<longrightarrow> i = length turns)"
    by (rule timely_loop [OF rd(1) sub time [unfolded F] closed _ v0(2,3)]) simp_all
  then obtain v i where
    v: "recv_loop gapWait idle turns v0 = Some (sq_ended (rv_sequencer v), v)" "has_read b (reads i turns) v"
    "\<not> sq_ended (rv_sequencer v) \<longrightarrow> i = length turns" by auto
  from books [OF v(2)] obtain a evs where a: "line_run (inputs (reads i turns)) (line_new 1 4096) = (a, evs)"
    "sq_ended (rv_sequencer v) \<longrightarrow> \<not> gapOpen (rv_sequencer v)" "st_lost (sq_stats (rv_sequencer v)) = 0"
    "sq_ended (rv_sequencer v) \<longrightarrow> dispatch_all (builder_handler None) (concat G) b = Some (fst (rv_books v))"
    "sq_ended (rv_sequencer v) \<longleftrightarrow> ln_ended a" "snd (rv_books v) = 0" by blast
  have ended: "sq_ended (rv_sequencer v)"
  proof (rule ccontr)
    assume n: "\<not> sq_ended (rv_sequencer v)"
    then have "set (reads i turns) = set ?F" using v(3) arrive sub F by (auto simp: reads_def)
    from all_read_ends [OF G(1) this a(1)] n a(5) show False by simp
  qed
  have "close_gaps v = Some v" using a(2) ended by (subst close_gaps.simps) simp
  moreover have "clean v \<longleftrightarrow> exit_code (fst (rv_books v)) = 0"
    using a(3,6) ended v(2) by (simp add: clean_def exit_code_def malformed_total_def has_read_def)
  moreover have "exit_code (fst (rv_books v)) = 0 \<or> exit_code (fst (rv_books v)) = 1" by (simp add: exit_code_def)
  ultimately have "mold_recv gapWait idle start turns = Some (Some (exit_code (fst (rv_books v)), v))"
    using v0(1) v(1) ended by (auto simp: mold_recv_def)
  then show ?thesis using b a(3,4) ended G(3) by (intro exI [of _ v] exI [of _ b]) simp
qed

text \<open>C5. A feed that arrives in time is built and the program ends. Suppose that no socket refuses a
  datagram; that every datagram of the whole feed arrives, over either socket, in an order in which none
  is read 4096 or more places ahead of one still missing (\<open>in_window\<close>; any number of datagrams, any
  repetitions); that time does not run backwards; and that at every turn which finds the sockets empty
  some turn at most the gap wait back began without a gap and the last datagram is at most the idle
  time back (\<open>timely\<close>). Then \<open>mold_recv\<close> leaves its loop with the session ended and nothing lost, its
  books are those that the messages of the files build, and its exit code is 0 exactly if those books
  counted no unknown reference and no over-execution.\<close>

theorem timely_feed_is_built:
  assumes "86 \<le> sa_maxBytes ar" "sa_maxBytes ar \<le> 65000" "length (concat (map messages_of fs)) < 2 ^ 32"
    and "mold_send takes ar (map Some fs) = Some (code, s)" "range takes = {True}" "sa_dropA ar = 0 \<or> sa_hasB ar"
    and "set (whole_feed ar s) \<subseteq> (\<Union>turn\<in>set turns. set (snd turn))"
    and "in_window (whole_feed ar s) (concat (map snd turns))"
    and "timely gapWait idle (whole_feed ar s) turns"
  shows "\<exists>v b. mold_recv gapWait idle start turns = Some (Some (exit_code (fst (rv_books v)), v))
    \<and> sq_ended (rv_sequencer v) \<and> st_lost (sq_stats (rv_sequencer v)) = 0
    \<and> builder_new (2 ^ 16) () = Some b
    \<and> dispatch_all (builder_handler None) (concat (map messages_of fs)) b = Some (fst (rv_books v))"
  by (rule timely_feed [OF assms])

section \<open>A feed from the generator\<close>

definition sample_args :: send_args where
  "sample_args = \<lparr>sa_maxBytes = 1400, sa_session = [77, 73, 78, 73, 72, 70, 84], sa_dropA = 0, sa_hasB = True\<rparr>"

lemma length_groups: "\<forall>g\<in>set G. g \<noteq> [] \<Longrightarrow> length G \<le> length (concat G)"
proof (induction G)
  case (Cons g G)
  then show ?case by (cases g) simp_all
qed simp

lemma sample_feed_sent:
  obtains f s where "gen_file 200 = Some (fl_rest f)" "messages_of f = map message_of (gen_events 200)"
    "mold_send (\<lambda>_. True) sample_args (map Some [f]) = Some (0, s)" "length (ms_feedA s) \<le> 2000" "ms_feedB s = ms_feedA s"
proof -
  have r: "(200 :: nat) \<le> flow_bound" by (simp add: flow_bound_def)
  let ?ms = "map message_of (gen_events 200)"
  have enc: "list_all encodable (gen_events 200)" by (rule encodable_gen [OF r])
  have framed: "\<forall>m\<in>set ?ms. well_framed m" using enc by (auto simp: list_all_iff message_of_framed)
  define f where "f = \<lparr>fl_rest = frames ?ms, fl_caps = []\<rparr>"
  have "read_all (reader_new f 0) = Some (?ms, r) \<Longrightarrow> messages_of f = ?ms" for r
    using read_messages_of [of f 0] by auto
  then have f: "messages_of f = ?ms" "gen_file 200 = Some (fl_rest f)"
    using framed_file_read [OF framed, of f 0] emit_all_frames [OF enc, of "[]"] by (auto simp: f_def gen_file_def)
  have few: "length (concat (map messages_of [f])) \<le> 1900" using length_gen [of 200] by (simp add: f(1))
  have "86 \<le> sa_maxBytes sample_args" "sa_maxBytes sample_args \<le> 65000" by (simp_all add: sample_args_def)
  from mold_send_correct [OF this, of "\<lambda>_. True" "[f]"] obtain s G where
    s: "mold_send (\<lambda>_. True) sample_args (map Some [f]) = Some (if ms_refused s > 0 then 1 else 0, s)"
    "concat G = concat (map messages_of [f])" "\<forall>g\<in>set G. g \<noteq> [] \<and> list_all framable g \<and> length g < 65535"
    "feeds_ok (\<lambda>_. True) sample_args
      (datagrams (sa_session sample_args) 1 G @ replicate 3 (eos_datagram (sa_session sample_args) (1 + length (concat G)))) s" by blast
  have "length G \<le> 1900" using length_groups [of G] s(2,3) few by simp
  then show thesis using s(1,4) f by (intro that [of f s]) (auto simp: feeds_ok_def sample_args_def)
qed

text \<open>Two easy cases: a feed no longer than the window, read in any order; all of it in the first turn.\<close>

lemma in_window_few: "length F \<le> 4096 \<Longrightarrow> set ds \<subseteq> set F \<Longrightarrow> in_window F ds"
proof -
  assume len: "length F \<le> 4096" and sub: "set ds \<subseteq> set F"
  have "\<exists>j<length F. ds ! k = F ! j \<and> set (take (j - 4095) F) \<subseteq> set (take k ds)" if "k < length ds" for k
  proof -
    have "ds ! k \<in> set F" using that sub nth_mem by blast
    then obtain j where "j < length F" "ds ! k = F ! j" by (metis in_set_conv_nth)
    then show ?thesis using len by (intro exI [of _ j]) simp
  qed
  then show ?thesis by (simp add: in_window_def)
qed

lemma timely_once: "0 \<le> gapWait \<Longrightarrow> timely gapWait idle F [(t, ds)]"
  by (auto simp: timely_def no_gap_def reads_def intro!: exI [of _ 0])

lemma timely_again:
  assumes "0 \<le> gapWait" "t0 \<le> t1" "t1 \<le> t2" "t2 \<le> t3" "t3 - t1 \<le> gapWait" "t3 - t1 \<le> idle"
  shows "timely gapWait idle F [(t0, []), (t1, ds), (t2, []), (t3, ds')]"
proof -
  let ?ts = "[(t0, []), (t1, ds), (t2, []), (t3, ds')]"
  have gapless: "no_gap F (reads 0 ?ts)" "no_gap F (reads 1 ?ts)" by (auto simp: no_gap_def reads_def intro!: exI [of _ 0])
  have "(\<exists>i\<le>k. no_gap F (reads i ?ts) \<and> fst (?ts ! k) - fst (?ts ! i) \<le> gapWait)
      \<and> ((\<forall>j<k. snd (?ts ! j) = []) \<or> (\<exists>j<k. snd (?ts ! j) \<noteq> [] \<and> fst (?ts ! k) - fst (?ts ! j) \<le> idle))"
    if k: "k < length ?ts" "snd (?ts ! k) = []" for k
  proof -
    have "k = 0 \<or> k = 1 \<or> k = 2 \<or> k = 3" using k(1) by (simp add: less_Suc_eq numeral_eq_Suc)
    then consider "k = 0" | "k = 1" "ds = []" | "k = 2" | "k = 3" "ds' = []" using k(2) by fastforce
    then show ?thesis
    proof cases
      case 1
      then show ?thesis using gapless(1) assms by (intro conjI exI [of _ 0]) simp_all
    next
      case 2
      then show ?thesis using gapless(2) assms by (intro conjI exI [of _ 1]) (simp_all add: less_Suc_eq)
    next
      case 3
      then have "\<exists>i\<le>k. no_gap F (reads i ?ts) \<and> fst (?ts ! k) - fst (?ts ! i) \<le> gapWait"
        using gapless(2) assms by (intro exI [of _ 1]) simp
      moreover have "(\<forall>j<k. snd (?ts ! j) = []) \<or> fst (?ts ! k) - fst (?ts ! 1) \<le> idle" "ds = [] \<longrightarrow> (\<forall>j<k. snd (?ts ! j) = [])"
        using 3 assms by (auto simp: less_Suc_eq numeral_2_eq_2)
      ultimately show ?thesis using 3 by (cases "ds = []") (auto intro: exI [of _ 1])
    next
      case 4
      then have "\<exists>i\<le>k. no_gap F (reads i ?ts) \<and> fst (?ts ! k) - fst (?ts ! i) \<le> gapWait"
        using gapless(2) assms by (intro exI [of _ 1]) (simp add: numeral_3_eq_3)
      moreover have "(\<forall>j<k. snd (?ts ! j) = []) \<or> fst (?ts ! k) - fst (?ts ! 1) \<le> idle" "ds = [] \<longrightarrow> (\<forall>j<k. snd (?ts ! j) = [])"
        using 4 assms by (auto simp: less_Suc_eq numeral_3_eq_3)
      ultimately show ?thesis using 4 by (cases "ds = []") (auto intro: exI [of _ 1])
    qed
  qed
  then show ?thesis using assms by (simp add: timely_def)
qed

lemma sample_timely:
  obtains f s v b where "gen_file 200 = Some (fl_rest f)"
    "mold_send (\<lambda>_. True) sample_args (map Some [f]) = Some (0, s)" "length (concat (map messages_of [f])) < 2 ^ 32"
    "length (ms_feedA s) \<le> 2000" "ms_feedB s = ms_feedA s"
    "mold_recv 1000 3000 0 [(0, ms_feedA s)] = Some (Some (0, v))"
proof -
  obtain f s where f: "gen_file 200 = Some (fl_rest f)" "messages_of f = map message_of (gen_events 200)"
    "mold_send (\<lambda>_. True) sample_args (map Some [f]) = Some (0, s)" "length (ms_feedA s) \<le> 2000" "ms_feedB s = ms_feedA s"
    by (rule sample_feed_sent)
  have few: "length (concat (map messages_of [f])) < 2 ^ 32" using length_gen [of 200] by (simp add: f(2))
  have "\<exists>v b. mold_recv 1000 3000 0 [(0, ms_feedA s)] = Some (Some (exit_code (fst (rv_books v)), v))
    \<and> builder_new (2 ^ 16) () = Some b
    \<and> dispatch_all (builder_handler None) (concat (map messages_of [f])) b = Some (fst (rv_books v))"
  proof -
    have F: "whole_feed sample_args s = ms_feedA s" using f(5) by (simp add: whole_feed_def sample_args_def)
    have "timely 1000 3000 (whole_feed sample_args s) [(0, ms_feedA s)]" by (rule timely_once) simp
    moreover have "in_window (whole_feed sample_args s) (concat (map snd [(0 :: int, ms_feedA s)]))"
      by (rule in_window_few) (use f(4) F in simp_all)
    moreover have "set (whole_feed sample_args s) \<subseteq> (\<Union>turn\<in>set [(0 :: int, ms_feedA s)]. set (snd turn))" using F by simp
    ultimately show ?thesis using timely_feed [OF _ _ few f(3), of "[(0, ms_feedA s)]" 1000 3000 0]
      by (auto simp: sample_args_def)
  qed
  then obtain v b where v: "mold_recv 1000 3000 0 [(0, ms_feedA s)] = Some (Some (exit_code (fst (rv_books v)), v))"
    "builder_new (2 ^ 16) () = Some b"
    "dispatch_all (builder_handler None) (concat (map messages_of [f])) b = Some (fst (rv_books v))" by blast
  have r: "(200 :: nat) \<le> flow_bound" by (simp add: flow_bound_def)
  have "handle_all (builder_handler None) (gen_events 200) b = Some (fst (rv_books v))"
    using v(3) dispatch_handle_all [OF encodable_gen [OF r], of "builder_handler None" b] by (simp add: f(2))
  moreover have "(2 :: nat) ^ 16 \<le> 2 ^ 61" by simp
  ultimately have "faults (core (fst (rv_books v))) = (0, 0, 0)" using builder_gen [OF r, of "2 ^ 16"] v(2) by auto
  then have "exit_code (fst (rv_books v)) = 0" by (simp add: faults_def exit_code_def)
  then show thesis using v(1) few f by (intro that [of f s v]) simp_all
qed

lemma clean_exit_has_all_books_witness:
  "\<exists>f s v b. gen_file 200 = Some (fl_rest f)
    \<and> mold_send (\<lambda>_. True) sample_args (map Some [f]) = Some (0, s)
    \<and> mold_recv 1000 3000 0 [(0, ms_feedA s)] = Some (Some (0, v)) \<and> builder_new (2 ^ 16) () = Some b
    \<and> dispatch_all (builder_handler None) (concat (map messages_of [f])) b = Some (fst (rv_books v))"
proof -
  obtain f s v where f: "gen_file 200 = Some (fl_rest f)"
    "mold_send (\<lambda>_. True) sample_args (map Some [f]) = Some (0, s)" "length (concat (map messages_of [f])) < 2 ^ 32"
    "length (ms_feedA s) \<le> 2000" "ms_feedB s = ms_feedA s"
    "mold_recv 1000 3000 0 [(0, ms_feedA s)] = Some (Some (0, v))" by (rule sample_timely)
  have "86 \<le> sa_maxBytes sample_args" "sa_maxBytes sample_args \<le> 65000"
    "(\<Union>turn\<in>set [(0 :: int, ms_feedA s)]. set (snd turn)) \<subseteq> set (ms_feedA s) \<union> set (ms_feedB s)"
    by (simp_all add: sample_args_def)
  from clean_exit_has_all_books [OF this(1,2) f(3,2) this(3) f(6)] f(1,2,6) show ?thesis by blast
qed

lemma timely_feed_is_built_witness:
  "\<exists>f s v b. gen_file 200 = Some (fl_rest f)
    \<and> mold_send (\<lambda>_. True) sample_args (map Some [f]) = Some (0, s)
    \<and> mold_recv 1000 3000 0 [(0, []), (5000, rev (ms_feedB s)), (5500, []), (6000, ms_feedA s)]
        = Some (Some (exit_code (fst (rv_books v)), v))
    \<and> sq_ended (rv_sequencer v) \<and> st_lost (sq_stats (rv_sequencer v)) = 0
    \<and> builder_new (2 ^ 16) () = Some b
    \<and> dispatch_all (builder_handler None) (concat (map messages_of [f])) b = Some (fst (rv_books v))"
proof -
  obtain f s v where f: "gen_file 200 = Some (fl_rest f)"
    "mold_send (\<lambda>_. True) sample_args (map Some [f]) = Some (0, s)" "length (concat (map messages_of [f])) < 2 ^ 32"
    "length (ms_feedA s) \<le> 2000" "ms_feedB s = ms_feedA s"
    "mold_recv 1000 3000 0 [(0, ms_feedA s)] = Some (Some (0, v))" by (rule sample_timely)
  have size: "86 \<le> sa_maxBytes sample_args" "sa_maxBytes sample_args \<le> 65000" by (simp_all add: sample_args_def)
  let ?F = "whole_feed sample_args s"
  let ?turns = "[(0 :: int, []), (5000, rev (ms_feedB s)), (5500, []), (6000, ms_feedA s)]"
  have F: "?F = ms_feedA s" using f(5) by (simp add: whole_feed_def sample_args_def)
  have "timely 1000 3000 ?F ?turns" by (rule timely_again) simp_all
  moreover have "in_window ?F (concat (map snd ?turns))" by (rule in_window_few) (use f(4,5) F in auto)
  moreover have "set ?F \<subseteq> (\<Union>turn\<in>set ?turns. set (snd turn))" using F by simp
  ultimately have "\<exists>v b. mold_recv 1000 3000 0 ?turns = Some (Some (exit_code (fst (rv_books v)), v))
    \<and> sq_ended (rv_sequencer v) \<and> st_lost (sq_stats (rv_sequencer v)) = 0
    \<and> builder_new (2 ^ 16) () = Some b
    \<and> dispatch_all (builder_handler None) (concat (map messages_of [f])) b = Some (fst (rv_books v))"
    by (intro timely_feed_is_built [OF size f(3,2)]) (simp_all add: sample_args_def)
  then show ?thesis using f(1,2) by blast
qed

end
