(* ===== verification/RingBuffer.thy ===== *)
theory RingBuffer
  imports Prelude
begin

text \<open>
  The single-producer single-consumer queues: \<open>include/RingBuffer.hpp\<close> and the design steps of
  \<open>bench/RingVariants.hpp\<close>.

  Each side of a queue has its own record; the other side's atomic index is seen only through
  \<open>load\<close>, the acquire load of the code, which takes a view of the memory to a value and a new view.
  A method returns the slot index it hands out (\<^term>\<open>None\<close> for a null pointer) or the value that it
  stores with release order. The indices are 64-bit words and wrap; \<open>Size\<close> is the template parameter.
\<close>

section \<open>RingBuffer\<close>

record producer_side =
  ps_head :: u64
  ps_cachedTail :: u64

record consumer_side =
  cs_tail :: u64
  cs_cachedHead :: u64

definition producer_new :: producer_side where
  "producer_new = \<lparr>ps_head = 0, ps_cachedTail = 0\<rparr>"

definition consumer_new :: consumer_side where
  "consumer_new = \<lparr>cs_tail = 0, cs_cachedHead = 0\<rparr>"

text \<open>The \<open>static_assert\<close> on the template parameter.\<close>

definition valid_size :: "u64 \<Rightarrow> bool" where
  "valid_size Size \<longleftrightarrow> Size > 0 \<and> Size AND (Size - 1) = 0"

definition slot_of :: "u64 \<Rightarrow> u64 \<Rightarrow> nat" where
  "slot_of Size i = unat (i AND (Size - 1))"

definition claim :: "u64 \<Rightarrow> ('m \<Rightarrow> u64 \<times> 'm) \<Rightarrow> producer_side \<Rightarrow> 'm \<Rightarrow> nat option \<times> producer_side \<times> 'm" where
  "claim Size load p m =
     (let h = ps_head p in
      if h - ps_cachedTail p \<ge> Size
      then let (t, m) = load m; p = p\<lparr>ps_cachedTail := t\<rparr>
           in if h - ps_cachedTail p \<ge> Size then (None, p, m) else (Some (slot_of Size h), p, m)
      else (Some (slot_of Size h), p, m))"

definition publish :: "producer_side \<Rightarrow> producer_side \<times> u64 option" where
  "publish p = (p\<lparr>ps_head := ps_head p + 1\<rparr>, Some (ps_head p + 1))"

definition peek :: "u64 \<Rightarrow> ('m \<Rightarrow> u64 \<times> 'm) \<Rightarrow> consumer_side \<Rightarrow> 'm \<Rightarrow> nat option \<times> consumer_side \<times> 'm" where
  "peek Size load c m =
     (let t = cs_tail c in
      if t = cs_cachedHead c
      then let (h, m) = load m; c = c\<lparr>cs_cachedHead := h\<rparr>
           in if t = cs_cachedHead c then (None, c, m) else (Some (slot_of Size t), c, m)
      else (Some (slot_of Size t), c, m))"

definition consume :: "consumer_side \<Rightarrow> consumer_side \<times> u64" where
  "consume c = (c\<lparr>cs_tail := cs_tail c + 1\<rparr>, cs_tail c + 1)"

section \<open>The variants\<close>

text \<open>\<open>RingV0FetchAdd\<close> and \<open>RingV1Store\<close>: every call loads the other side's index. Their methods differ in how an
  index is incremented: by an atomic addition, or by a load and a store.\<close>

definition v0_claim :: "u64 \<Rightarrow> ('m \<Rightarrow> u64 \<times> 'm) \<Rightarrow> u64 \<Rightarrow> 'm \<Rightarrow> nat option \<times> u64 \<times> 'm" where
  "v0_claim Size load h m =
     (let (t, m) = load m in if h - t \<ge> Size then (None, h, m) else (Some (slot_of Size h), h, m))"

text \<open>An atomic addition to an index: what it held before, and what it holds after.\<close>

definition fetch_add :: "u64 \<Rightarrow> u64 \<Rightarrow> u64 \<times> u64" where
  "fetch_add x n = (x, x + n)"

definition v0_publish :: "u64 \<Rightarrow> u64 \<times> u64 option" where
  "v0_publish h = (let (_, h) = fetch_add h 1 in (h, Some h))"

definition v0_peek :: "u64 \<Rightarrow> ('m \<Rightarrow> u64 \<times> 'm) \<Rightarrow> u64 \<Rightarrow> 'm \<Rightarrow> nat option \<times> u64 \<times> 'm" where
  "v0_peek Size load t m = (let (h, m) = load m in if t = h then (None, t, m) else (Some (slot_of Size t), t, m))"

definition v0_consume :: "u64 \<Rightarrow> u64 \<times> u64" where
  "v0_consume t = (let (_, t) = fetch_add t 1 in (t, t))"

definition v1_claim :: "u64 \<Rightarrow> ('m \<Rightarrow> u64 \<times> 'm) \<Rightarrow> u64 \<Rightarrow> 'm \<Rightarrow> nat option \<times> u64 \<times> 'm" where
  "v1_claim Size load h m =
     (let (t, m) = load m in if h - t \<ge> Size then (None, h, m) else (Some (slot_of Size h), h, m))"

definition v1_publish :: "u64 \<Rightarrow> u64 \<times> u64 option" where
  "v1_publish h = (h + 1, Some (h + 1))"

definition v1_peek :: "u64 \<Rightarrow> ('m \<Rightarrow> u64 \<times> 'm) \<Rightarrow> u64 \<Rightarrow> 'm \<Rightarrow> nat option \<times> u64 \<times> 'm" where
  "v1_peek Size load t m = (let (h, m) = load m in if t = h then (None, t, m) else (Some (slot_of Size t), t, m))"

definition v1_consume :: "u64 \<Rightarrow> u64 \<times> u64" where
  "v1_consume t = (t + 1, t + 1)"

text \<open>\<open>RingV2\<close>: cached indices, and a write index that runs ahead of \<open>head\<close> by less than a batch.\<close>

record v2_producer =
  v2_head :: u64
  v2_writeIdx :: u64
  v2_cachedTail :: u64

record v2_consumer =
  v2_tail :: u64
  v2_cachedHead :: u64

definition v2_producer_new :: v2_producer where
  "v2_producer_new = \<lparr>v2_head = 0, v2_writeIdx = 0, v2_cachedTail = 0\<rparr>"

definition v2_consumer_new :: v2_consumer where
  "v2_consumer_new = \<lparr>v2_tail = 0, v2_cachedHead = 0\<rparr>"

text \<open>The \<open>static_assert\<close> on the batch.\<close>

definition valid_batch :: "u64 \<Rightarrow> u64 \<Rightarrow> bool" where
  "valid_batch Size batch \<longleftrightarrow> batch \<ge> 1 \<and> batch \<le> Size"

definition v2_claim :: "u64 \<Rightarrow> ('m \<Rightarrow> u64 \<times> 'm) \<Rightarrow> v2_producer \<Rightarrow> 'm \<Rightarrow> nat option \<times> v2_producer \<times> 'm" where
  "v2_claim Size load p m =
     (if v2_writeIdx p - v2_cachedTail p \<ge> Size
      then let (t, m) = load m; p = p\<lparr>v2_cachedTail := t\<rparr>
           in if v2_writeIdx p - v2_cachedTail p \<ge> Size then (None, p, m)
              else (Some (slot_of Size (v2_writeIdx p)), p, m)
      else (Some (slot_of Size (v2_writeIdx p)), p, m))"

definition v2_publish :: "u64 \<Rightarrow> v2_producer \<Rightarrow> v2_producer \<times> u64 option" where
  "v2_publish batch p =
     (let p = p\<lparr>v2_writeIdx := v2_writeIdx p + 1\<rparr> in
      if batch > 1 \<and> v2_writeIdx p - v2_head p < batch then (p, None)
      else (p\<lparr>v2_head := v2_writeIdx p\<rparr>, Some (v2_writeIdx p)))"

definition v2_flush :: "v2_producer \<Rightarrow> v2_producer \<times> u64 option" where
  "v2_flush p = (p\<lparr>v2_head := v2_writeIdx p\<rparr>, Some (v2_writeIdx p))"

definition v2_peek :: "u64 \<Rightarrow> ('m \<Rightarrow> u64 \<times> 'm) \<Rightarrow> v2_consumer \<Rightarrow> 'm \<Rightarrow> nat option \<times> v2_consumer \<times> 'm" where
  "v2_peek Size load c m =
     (let t = v2_tail c in
      if t = v2_cachedHead c
      then let (h, m) = load m; c = c\<lparr>v2_cachedHead := h\<rparr>
           in if t = v2_cachedHead c then (None, c, m) else (Some (slot_of Size t), c, m)
      else (Some (slot_of Size t), c, m))"

definition v2_consume :: "v2_consumer \<Rightarrow> v2_consumer \<times> u64" where
  "v2_consume c = (c\<lparr>v2_tail := v2_tail c + 1\<rparr>, v2_tail c + 1)"

section \<open>Indices that wrap\<close>

lemma unat_pow2: "k < 64 \<Longrightarrow> unat (2 ^ k :: u64) = 2 ^ k"
proof -
  assume "k < 64"
  then have "(2 :: nat) ^ k < 2 ^ 64" by (simp only: power_strict_increasing_iff)
  then have "unat (of_nat (2 ^ k) :: u64) = 2 ^ k" by (rule unat_word64_of_nat)
  then show ?thesis by simp
qed

lemma valid_size_pow2:
  assumes "valid_size Size"
  obtains k where "k < 64" "Size = 2 ^ k"
proof -
  have pos: "0 < unat Size" using assms by (simp add: valid_size_def word_greater_zero_iff unat_gt_0)
  obtain k where k: "2 ^ k \<le> unat Size" "unat Size < 2 ^ Suc k"
    using ex_power_ivl1 [of 2 "unat Size"] pos by auto
  have "(2::nat) ^ k < 2 ^ 64" using k(1) unat_u64_less [of Size] by simp
  then have k64: "k < 64" by (simp only: power_strict_increasing_iff)
  have "unat Size = 2 ^ k"
  proof (rule ccontr)
    assume "unat Size \<noteq> 2 ^ k"
    then have low: "2 ^ k \<le> unat Size - 1" "unat Size - 1 < 2 ^ Suc k" using k by simp_all
    have bit: "bit n k" if "2 ^ k \<le> n" "n < 2 ^ Suc k" for n :: nat
    proof -
      have "n div 2 ^ k = 1" using that by (intro div_nat_eqI) simp_all
      then show ?thesis by (simp add: bit_iff_odd)
    qed
    have "unat (Size - 1) = unat Size - 1" using pos unat_sub [of 1 Size] by (simp add: word_le_nat_alt)
    then have "bit (unat Size) k" "bit (unat (Size - 1)) k" using bit k low by simp_all
    then have "bit (Size AND (Size - 1)) k" using k64 by (simp add: bit_and_iff bit_unsigned_iff)
    then show False using assms by (simp add: valid_size_def)
  qed
  then have "Size = 2 ^ k" using unat_pow2 [OF k64] by (simp only: word_unat_eq_iff)
  then show thesis using k64 that by blast
qed

text \<open>\<open>n\<close> is the number of slots; an index is a count modulo \<open>2 ^ 64\<close>.\<close>

lemma slot_of_nat: "valid_size Size \<Longrightarrow> slot_of Size (of_nat w) = w mod unat Size"
proof -
  assume "valid_size Size"
  then obtain k where k: "k < 64" "Size = 2 ^ k" by (rule valid_size_pow2)
  have "Size - 1 = mask k" using k by (simp add: mask_eq_exp_minus_1)
  then have "of_nat w AND (Size - 1) = take_bit k (of_nat w :: u64)" by (simp add: take_bit_eq_mask)
  moreover have "unat (take_bit k (of_nat w :: u64)) = w mod 2 ^ k"
    using k by (simp add: unsigned_take_bit_eq unsigned_of_nat take_bit_take_bit min_def flip: take_bit_eq_mod)
  moreover have "unat Size = 2 ^ k" using k unat_pow2 by simp
  ultimately show ?thesis by (simp add: slot_of_def)
qed

lemma distance_nat:
  assumes "t \<le> h" "h - t < 2 ^ 64"
  shows "unat (of_nat h - of_nat t :: u64) = h - t"
proof -
  have "of_nat h - of_nat t = (of_nat (h - t) :: u64)" using assms(1) by (simp add: of_nat_diff)
  then show ?thesis using assms(2) by simp
qed

lemma same_index:
  assumes "t \<le> h" "h - t < 2 ^ 64"
  shows "of_nat t = (of_nat h :: u64) \<longleftrightarrow> t = h"
proof
  assume "of_nat t = (of_nat h :: u64)"
  then have "unat (of_nat h - of_nat t :: u64) = 0" by simp
  then show "t = h" using distance_nat [OF assms] assms(1) by simp
qed simp

lemma size_bounds: "valid_size Size \<Longrightarrow> 0 < unat Size \<and> unat Size < 2 ^ 64"
  using unat_u64_less [of Size] by (simp add: valid_size_def word_greater_zero_iff unat_gt_0)

text \<open>The test of \<open>claim\<close>.\<close>

lemma full_iff:
  assumes "valid_size Size" "t \<le> h" "h \<le> t + unat Size"
  shows "Size \<le> (of_nat h - of_nat t :: u64) \<longleftrightarrow> h = t + unat Size"
proof -
  have "h - t < 2 ^ 64" using assms size_bounds [OF assms(1)] by linarith
  then show ?thesis using distance_nat [OF assms(2)] assms(2,3) by (auto simp: word_le_nat_alt)
qed

lemma empty_iff:
  assumes "valid_size Size" "t \<le> h" "h \<le> t + unat Size"
  shows "of_nat t = (of_nat h :: u64) \<longleftrightarrow> t = h"
proof -
  have "h - t < 2 ^ 64" using assms size_bounds [OF assms(1)] by linarith
  then show ?thesis by (rule same_index [OF assms(2)])
qed

end
