(* ===== verification/SpscQueue.thy ===== *)
theory SpscQueue
  imports RingBuffer
begin

text \<open>
  Two threads over one queue, under the C++ memory model as far as the queue uses it.

  An index is an atomic with one writer. Its stores form a history, each with the vector clock of the
  thread that made it (a release store); a load by the other thread returns any store of the history
  not older than the last one it saw, and joins its clock (an acquire load). So a load may be stale.
  The slots are plain memory: an access to a slot that is not ordered after the other thread's
  conflicting access by these clocks is a data race, which sets the flag \<open>ss_race\<close>.

  The client uses the queue as its interface asks: it writes the slot that \<open>claim\<close> returned before it
  calls \<open>publish\<close>, and reads the one that \<open>peek\<close> returned before \<open>consume\<close>. The locale \<open>spsc_ring\<close> states
  what the methods promise; from it follow that no run has a race and that the queue is first in,
  first out. \<open>RingQueues\<close> interprets it on \<open>RingBuffer\<close> and on the three variants.
\<close>

section \<open>The machine\<close>

text \<open>What the producer and the consumer know of each other: how many steps of each happened before.\<close>

type_synonym vclock = "nat \<times> nat"

definition join :: "vclock \<Rightarrow> vclock \<Rightarrow> vclock" where
  "join a b = (max (fst a) (fst b), max (snd a) (snd b))"

text \<open>A thread's view: the store that it last saw of the other's index, and its clock.\<close>

type_synonym view = "nat \<times> vclock"

type_synonym history = "(u64 \<times> vclock) list"

text \<open>The acquire load that returns the \<open>j\<close>-th store, or the nearest that coherence allows.\<close>

definition load_at :: "history \<Rightarrow> nat \<Rightarrow> view \<Rightarrow> u64 \<times> view" where
  "load_at hist j v =
     (let j = max (fst v) (min j (length hist - 1))
      in (fst (hist ! j), (j, join (snd v) (snd (hist ! j)))))"

record ('p, 'c) ring_ops =
  op_producer :: 'p
  op_consumer :: 'c
  op_claim :: "(view \<Rightarrow> u64 \<times> view) \<Rightarrow> 'p \<Rightarrow> view \<Rightarrow> nat option \<times> 'p \<times> view"
  op_publish :: "'p \<Rightarrow> 'p \<times> u64 option"
  op_flush :: "'p \<Rightarrow> 'p \<times> u64 option"
  op_peek :: "(view \<Rightarrow> u64 \<times> view) \<Rightarrow> 'c \<Rightarrow> view \<Rightarrow> nat option \<times> 'c \<times> view"
  op_consume :: "'c \<Rightarrow> 'c \<times> u64"

record ('p, 'c, 'a) spsc =
  ss_producer :: 'p
  ss_consumer :: 'c
  ss_heads :: history
  ss_tails :: history
  ss_pview :: view
  ss_cview :: view
  ss_slots :: "nat \<Rightarrow> 'a"
  ss_wrote :: "nat \<Rightarrow> nat"
  ss_read :: "nat \<Rightarrow> nat"
  ss_claimed :: "nat option"
  ss_peeked :: "nat option"
  ss_seen :: "'a option"
  ss_sent :: "'a list"
  ss_got :: "'a option list"
  ss_race :: bool

text \<open>Both indices start at 0; the construction happened before either thread.\<close>

definition spsc_start :: "('p, 'c) ring_ops \<Rightarrow> (nat \<Rightarrow> 'a) \<Rightarrow> ('p, 'c, 'a) spsc" where
  "spsc_start ops mem = \<lparr>ss_producer = op_producer ops, ss_consumer = op_consumer ops,
     ss_heads = [(0, 0, 0)], ss_tails = [(0, 0, 0)], ss_pview = (0, 1, 0), ss_cview = (0, 0, 1),
     ss_slots = mem, ss_wrote = (\<lambda>_. 0), ss_read = (\<lambda>_. 0), ss_claimed = None, ss_peeked = None, ss_seen = None,
     ss_sent = [], ss_got = [], ss_race = False\<rparr>"

datatype 'a spsc_action = Claim nat | WriteSlot 'a | Publish | Flush | Peek nat | ReadSlot | Consume

text \<open>A release store of the producer, and one of the consumer; the thread's clock ticks after it.\<close>

definition store_head :: "u64 option \<Rightarrow> ('p, 'c, 'a) spsc \<Rightarrow> ('p, 'c, 'a) spsc" where
  "store_head out s = (case out of None \<Rightarrow> s
     | Some v \<Rightarrow> (case ss_pview s of (j, a, b) \<Rightarrow> s\<lparr>ss_heads := ss_heads s @ [(v, a, b)], ss_pview := (j, Suc a, b)\<rparr>))"

definition store_tail :: "u64 \<Rightarrow> ('p, 'c, 'a) spsc \<Rightarrow> ('p, 'c, 'a) spsc" where
  "store_tail v s = (case ss_cview s of (j, a, b) \<Rightarrow> s\<lparr>ss_tails := ss_tails s @ [(v, a, b)], ss_cview := (j, a, Suc b)\<rparr>)"

fun perform :: "('p, 'c) ring_ops \<Rightarrow> 'a spsc_action \<Rightarrow> ('p, 'c, 'a) spsc \<Rightarrow> ('p, 'c, 'a) spsc option" where
  "perform ops (Claim j) s =
     (let (r, p, v) = op_claim ops (load_at (ss_tails s) j) (ss_producer s) (ss_pview s)
      in Some (s\<lparr>ss_producer := p, ss_pview := v, ss_claimed := r\<rparr>))"
| "perform ops (WriteSlot x) s = (case ss_claimed s of None \<Rightarrow> None
     | Some i \<Rightarrow> Some (s\<lparr>ss_slots := (ss_slots s)(i := x), ss_wrote := (ss_wrote s)(i := fst (snd (ss_pview s))),
         ss_race := ss_race s \<or> ss_read s i > snd (snd (ss_pview s))\<rparr>))"
| "perform ops Publish s = (case ss_claimed s of None \<Rightarrow> None
     | Some i \<Rightarrow> let (p, out) = op_publish ops (ss_producer s)
         in Some (store_head out (s\<lparr>ss_producer := p, ss_claimed := None, ss_sent := ss_sent s @ [ss_slots s i]\<rparr>)))"
| "perform ops Flush s =
     (let (p, out) = op_flush ops (ss_producer s) in Some (store_head out (s\<lparr>ss_producer := p\<rparr>)))"
| "perform ops (Peek j) s =
     (let (r, c, v) = op_peek ops (load_at (ss_heads s) j) (ss_consumer s) (ss_cview s)
      in Some (s\<lparr>ss_consumer := c, ss_cview := v, ss_peeked := r\<rparr>))"
| "perform ops ReadSlot s = (case ss_peeked s of None \<Rightarrow> None
     | Some i \<Rightarrow> Some (s\<lparr>ss_seen := Some (ss_slots s i), ss_read := (ss_read s)(i := snd (snd (ss_cview s))),
         ss_race := ss_race s \<or> ss_wrote s i > fst (snd (ss_cview s))\<rparr>))"
| "perform ops Consume s = (case ss_peeked s of None \<Rightarrow> None
     | Some i \<Rightarrow> let (c, v) = op_consume ops (ss_consumer s)
         in Some (store_tail v (s\<lparr>ss_consumer := c, ss_peeked := None, ss_seen := None, ss_got := ss_got s @ [ss_seen s]\<rparr>)))"

inductive reachable :: "('p, 'c) ring_ops \<Rightarrow> ('p, 'c, 'a) spsc \<Rightarrow> bool" for ops where
  reach_start: "reachable ops (spsc_start ops mem)"
| reach_step: "reachable ops s \<Longrightarrow> perform ops act s = Some s' \<Longrightarrow> reachable ops s'"

fun perform_all :: "('p, 'c) ring_ops \<Rightarrow> 'a spsc_action list \<Rightarrow> ('p, 'c, 'a) spsc \<Rightarrow> ('p, 'c, 'a) spsc option" where
  "perform_all ops [] s = Some s"
| "perform_all ops (act # acts) s = do { s \<leftarrow> perform ops act s; perform_all ops acts s }"

lemma reach_all: "reachable ops s \<Longrightarrow> perform_all ops acts s = Some s' \<Longrightarrow> reachable ops s'"
  by (induction acts arbitrary: s) (auto simp: bind_Some_iff intro: reach_step)

section \<open>What the methods promise\<close>

text \<open>\<open>relP p w h k\<close>: the producer has filled \<open>w\<close> slots, published \<open>h\<close> and knows of \<open>k\<close> consumed; \<open>relC c t k\<close>:
  the consumer has consumed \<open>t\<close> and knows of \<open>k\<close> published. The counts do not wrap.\<close>

locale spsc_ring =
  fixes ops :: "('p, 'c) ring_ops"
    and n :: nat
    and relP :: "'p \<Rightarrow> nat \<Rightarrow> nat \<Rightarrow> nat \<Rightarrow> bool"
    and relC :: "'c \<Rightarrow> nat \<Rightarrow> nat \<Rightarrow> bool"
  assumes slots: "0 < n"
    and startP: "relP (op_producer ops) 0 0 0"
    and startC: "relC (op_consumer ops) 0 0"
    and boundsP: "relP p w h k \<Longrightarrow> h \<le> w \<and> k \<le> w \<and> w \<le> k + n"
    and boundsC: "relC c t k \<Longrightarrow> t \<le> k \<and> k \<le> t + n"
    and claim: "relP p w h k \<Longrightarrow> k \<le> t \<Longrightarrow> t \<le> w \<Longrightarrow> load v = (of_nat t, v') \<Longrightarrow>
      op_claim ops load p v = (r, p1, v1) \<Longrightarrow>
        \<exists>k1. relP p1 w h k1 \<and> (k1 = k \<and> v1 = v \<or> k1 = t \<and> v1 = v')
          \<and> (case r of Some i \<Rightarrow> i = w mod n \<and> w < k1 + n | None \<Rightarrow> k1 = t \<and> v1 = v' \<and> w = t + n)"
    and publish: "relP p w h k \<Longrightarrow> w < k + n \<Longrightarrow> op_publish ops p = (p1, out) \<Longrightarrow>
        (case out of None \<Rightarrow> relP p1 (Suc w) h k | Some x \<Rightarrow> x = of_nat (Suc w) \<and> relP p1 (Suc w) (Suc w) k)"
    and flush: "relP p w h k \<Longrightarrow> op_flush ops p = (p1, out) \<Longrightarrow>
        (case out of None \<Rightarrow> relP p1 w h k | Some x \<Rightarrow> x = of_nat w \<and> relP p1 w w k)"
    and peek: "relC c t k \<Longrightarrow> k \<le> h \<Longrightarrow> h \<le> t + n \<Longrightarrow> load v = (of_nat h, v') \<Longrightarrow>
      op_peek ops load c v = (r, c1, v1) \<Longrightarrow>
        \<exists>k1. relC c1 t k1 \<and> (k1 = k \<and> v1 = v \<or> k1 = h \<and> v1 = v')
          \<and> (case r of Some i \<Rightarrow> i = t mod n \<and> t < k1 | None \<Rightarrow> k1 = h \<and> v1 = v' \<and> h = t)"
    and consume: "relC c t k \<Longrightarrow> t < k \<Longrightarrow> op_consume ops c = (c1, x) \<Longrightarrow>
        x = of_nat (Suc t) \<and> relC c1 (Suc t) k"

section \<open>The invariant\<close>

text \<open>\<open>hs\<close> and \<open>ts\<close> are the counts that the stores of the two histories stand for.\<close>

definition index_inv ::
    "('p \<Rightarrow> nat \<Rightarrow> nat \<Rightarrow> nat \<Rightarrow> bool) \<Rightarrow> ('c \<Rightarrow> nat \<Rightarrow> nat \<Rightarrow> bool) \<Rightarrow> nat list \<Rightarrow> nat list \<Rightarrow> ('p, 'c, 'a) spsc \<Rightarrow> bool" where
  "index_inv relP relC hs ts s \<longleftrightarrow>
     map fst (ss_heads s) = map of_nat hs \<and> hs \<noteq> [] \<and> sorted hs \<and> fst (ss_cview s) < length hs
     \<and> map fst (ss_tails s) = map of_nat ts \<and> ts \<noteq> [] \<and> sorted ts \<and> fst (ss_pview s) < length ts
     \<and> last ts = length (ss_got s)
     \<and> relP (ss_producer s) (length (ss_sent s)) (last hs) (ts ! fst (ss_pview s))
     \<and> relC (ss_consumer s) (length (ss_got s)) (hs ! fst (ss_cview s))"

definition hand_inv :: "nat \<Rightarrow> nat list \<Rightarrow> nat list \<Rightarrow> ('p, 'c, 'a) spsc \<Rightarrow> bool" where
  "hand_inv n hs ts s \<longleftrightarrow>
     (\<forall>i. ss_claimed s = Some i \<longrightarrow> i = length (ss_sent s) mod n \<and> length (ss_sent s) < ts ! fst (ss_pview s) + n)
     \<and> (\<forall>i. ss_peeked s = Some i \<longrightarrow> i = length (ss_got s) mod n \<and> length (ss_got s) < hs ! fst (ss_cview s))
     \<and> (\<forall>x. ss_seen s = Some x \<longrightarrow> length (ss_got s) < length (ss_sent s) \<and> x = ss_sent s ! length (ss_got s))"

definition data_inv :: "nat \<Rightarrow> ('p, 'c, 'a) spsc \<Rightarrow> bool" where
  "data_inv n s \<longleftrightarrow>
     (\<forall>k. length (ss_got s) \<le> k \<longrightarrow> k < length (ss_sent s) \<longrightarrow> ss_slots s (k mod n) = ss_sent s ! k)
     \<and> (\<forall>k<length (ss_got s). ss_got s ! k = None \<or> ss_got s ! k = Some (ss_sent s ! k))"

definition written_before :: "nat \<Rightarrow> ('p, 'c, 'a) spsc \<Rightarrow> nat \<Rightarrow> nat \<Rightarrow> bool" where
  "written_before n s h clk \<longleftrightarrow> (\<forall>k. length (ss_got s) \<le> k \<longrightarrow> k < h \<longrightarrow> ss_wrote s (k mod n) \<le> clk)"

definition read_before :: "nat \<Rightarrow> ('p, 'c, 'a) spsc \<Rightarrow> nat \<Rightarrow> nat \<Rightarrow> bool" where
  "read_before n s t clk \<longleftrightarrow> (\<forall>k<t. length (ss_sent s) \<le> k + n \<longrightarrow> ss_read s (k mod n) \<le> clk)"

definition clock_inv :: "nat \<Rightarrow> nat list \<Rightarrow> nat list \<Rightarrow> ('p, 'c, 'a) spsc \<Rightarrow> bool" where
  "clock_inv n hs ts s \<longleftrightarrow>
     (\<forall>i. ss_wrote s i \<le> fst (snd (ss_pview s))) \<and> (\<forall>i. ss_read s i \<le> snd (snd (ss_cview s)))
     \<and> (\<forall>j<length hs. written_before n s (hs ! j) (fst (snd (ss_heads s ! j))))
     \<and> written_before n s (hs ! fst (ss_cview s)) (fst (snd (ss_cview s)))
     \<and> (\<forall>j<length ts. read_before n s (ts ! j) (snd (snd (ss_tails s ! j))))
     \<and> read_before n s (ts ! fst (ss_pview s)) (snd (snd (ss_pview s)))
     \<and> (\<forall>i. length (ss_sent s) \<le> i \<longrightarrow> i < n \<longrightarrow> ss_read s i = 0)"

definition spsc_inv ::
    "nat \<Rightarrow> ('p \<Rightarrow> nat \<Rightarrow> nat \<Rightarrow> nat \<Rightarrow> bool) \<Rightarrow> ('c \<Rightarrow> nat \<Rightarrow> nat \<Rightarrow> bool) \<Rightarrow> nat list \<Rightarrow> nat list \<Rightarrow> ('p, 'c, 'a) spsc \<Rightarrow> bool" where
  "spsc_inv n relP relC hs ts s \<longleftrightarrow> index_inv relP relC hs ts s \<and> hand_inv n hs ts s \<and> data_inv n s \<and> clock_inv n hs ts s
     \<and> \<not> ss_race s"

lemmas spsc_inv_parts = spsc_inv_def index_inv_def hand_inv_def data_inv_def clock_inv_def

lemma mod_distinct: "a < b \<Longrightarrow> b < a + n \<Longrightarrow> a mod n \<noteq> b mod (n :: nat)"
proof
  assume a: "a < b" "b < a + n" "a mod n = b mod n"
  then have "n dvd b - a" by (metis mod_eq_dvd_iff_nat nat_less_le)
  then show False using a by (auto dest: dvd_imp_le)
qed

text \<open>A load returns the count of some store no older than the last one seen.\<close>

lemma load_count:
  assumes "map fst hist = map of_nat cs" "fst v < length cs"
  obtains j' where "fst v \<le> j'" "j' < length cs"
    "load_at hist j v = (of_nat (cs ! j'), (j', join (snd v) (snd (hist ! j'))))"
proof -
  have len: "length hist = length cs" using assms(1) by (metis length_map)
  let ?j = "max (fst v) (min j (length hist - 1))"
  have j: "?j < length cs" using assms(2) len by auto
  then have "fst (hist ! ?j) = of_nat (cs ! ?j)" using assms(1) len by (metis nth_map)
  then show thesis using j by (intro that [of ?j]) (simp_all add: load_at_def Let_def)
qed

lemma nth_le_last: "sorted xs \<Longrightarrow> j < length xs \<Longrightarrow> xs ! j \<le> last (xs :: nat list)"
proof -
  assume a: "sorted xs" "j < length xs"
  then have "xs \<noteq> []" by auto
  then show ?thesis using a sorted_nth_mono [of xs j "length xs - 1"] by (simp add: last_conv_nth)
qed

lemma sorted_snoc: "sorted xs \<Longrightarrow> xs \<noteq> [] \<Longrightarrow> last xs \<le> w \<Longrightarrow> sorted (xs @ [w :: nat])"
proof -
  assume a: "sorted xs" "xs \<noteq> []" "last xs \<le> w"
  then have "\<forall>x\<in>set xs. x \<le> w" using nth_le_last by (fastforce simp: in_set_conv_nth)
  then show ?thesis using a(1) by (simp add: sorted_append)
qed

lemma join_simps [simp]: "fst (join a b) = max (fst a) (fst b)" "snd (join a b) = max (snd a) (snd b)"
  by (simp_all add: join_def)

context spsc_ring
begin

text \<open>The counts, in the order in which they lie.\<close>

lemma count_order:
  assumes "index_inv relP relC hs ts s"
  shows "ts ! fst (ss_pview s) \<le> length (ss_got s)" "length (ss_got s) \<le> hs ! fst (ss_cview s)"
    "hs ! fst (ss_cview s) \<le> last hs" "last hs \<le> length (ss_sent s)"
    "length (ss_sent s) \<le> ts ! fst (ss_pview s) + n" "length (ss_sent s) \<le> length (ss_got s) + n"
    "\<And>j. j < length ts \<Longrightarrow> ts ! j \<le> length (ss_got s)" "\<And>j. j < length hs \<Longrightarrow> hs ! j \<le> length (ss_sent s)"
proof -
  note top = nth_le_last
  note i = assms [unfolded index_inv_def]
  show 1: "ts ! fst (ss_pview s) \<le> length (ss_got s)" using top [of ts] i by metis
  show "length (ss_got s) \<le> hs ! fst (ss_cview s)" using boundsC i by blast
  show "hs ! fst (ss_cview s) \<le> last hs" using top [of hs] i by metis
  show h: "last hs \<le> length (ss_sent s)" using boundsP i by blast
  show 2: "length (ss_sent s) \<le> ts ! fst (ss_pview s) + n" using boundsP i by blast
  show "length (ss_sent s) \<le> length (ss_got s) + n" using 1 2 by linarith
  show "\<And>j. j < length ts \<Longrightarrow> ts ! j \<le> length (ss_got s)" using top [of ts] i by metis
  show "\<And>j. j < length hs \<Longrightarrow> hs ! j \<le> length (ss_sent s)" using top [of hs] i h by (metis le_trans)
qed

lemma start_inv: "spsc_inv n relP relC [0] [0] (spsc_start ops mem)"
  using startP startC
  by (simp add: spsc_inv_parts spsc_start_def written_before_def read_before_def)

lemma claim_inv:
  assumes inv: "spsc_inv n relP relC hs ts s" and s': "perform ops (Claim j) s = Some s'"
  shows "spsc_inv n relP relC hs ts s'"
proof -
  have ix: "index_inv relP relC hs ts s" using inv by (simp add: spsc_inv_def)
  obtain r p v where op: "op_claim ops (load_at (ss_tails s) j) (ss_producer s) (ss_pview s) = (r, p, v)"
    by (cases "op_claim ops (load_at (ss_tails s) j) (ss_producer s) (ss_pview s)")
  have st: "s' = s\<lparr>ss_producer := p, ss_pview := v, ss_claimed := r\<rparr>" using s' op by simp
  have "map fst (ss_tails s) = map of_nat ts" "fst (ss_pview s) < length ts" using ix by (simp_all add: index_inv_def)
  from load_count [OF this, of j] obtain j' where j': "fst (ss_pview s) \<le> j'" "j' < length ts"
    "load_at (ss_tails s) j (ss_pview s) = (of_nat (ts ! j'), (j', join (snd (ss_pview s)) (snd (ss_tails s ! j'))))" .
  have "ts ! fst (ss_pview s) \<le> ts ! j'" using ix j' by (auto simp: index_inv_def sorted_iff_nth_mono)
  moreover have "ts ! j' \<le> length (ss_sent s)" using count_order [OF ix] j'(2) by (meson le_trans)
  moreover have "relP (ss_producer s) (length (ss_sent s)) (last hs) (ts ! fst (ss_pview s))" using ix by (simp add: index_inv_def)
  ultimately obtain k1 where k1: "relP p (length (ss_sent s)) (last hs) k1"
    "k1 = ts ! fst (ss_pview s) \<and> v = ss_pview s \<or> k1 = ts ! j' \<and> v = (j', join (snd (ss_pview s)) (snd (ss_tails s ! j')))"
    "case r of Some i \<Rightarrow> i = length (ss_sent s) mod n \<and> length (ss_sent s) < k1 + n
      | None \<Rightarrow> k1 = ts ! j' \<and> v = (j', join (snd (ss_pview s)) (snd (ss_tails s ! j'))) \<and> length (ss_sent s) = ts ! j' + n"
    using claim [OF _ _ _ j'(3) op] by blast
  have v: "fst v < length ts" "ts ! fst v = k1" using k1(2) j'(2) ix by (auto simp: index_inv_def)
  have "fst (snd (ss_pview s)) \<le> fst (snd v)" using k1(2) by auto
  moreover have "read_before n s k1 (snd (snd v))"
    using k1(2) inv j'(2) by (fastforce simp: spsc_inv_def clock_inv_def read_before_def)
  ultimately have "clock_inv n hs ts s'"
    using inv v st unfolding spsc_inv_def clock_inv_def written_before_def read_before_def
    by (auto intro: order_trans)
  moreover have "index_inv relP relC hs ts s'" using ix k1(1) v by (simp add: st index_inv_def)
  moreover have "hand_inv n hs ts s'" using inv k1(3) v by (auto simp: st spsc_inv_def hand_inv_def)
  ultimately show ?thesis using inv by (simp add: spsc_inv_def st data_inv_def)
qed

text \<open>Writing the slot handed out: the consumer is done with what was in it.\<close>

lemma write_inv:
  assumes inv: "spsc_inv n relP relC hs ts s" and s': "perform ops (WriteSlot x) s = Some s'"
  shows "spsc_inv n relP relC hs ts s'"
proof -
  have ix: "index_inv relP relC hs ts s" using inv by (simp add: spsc_inv_def)
  note ord = count_order [OF ix]
  let ?w = "length (ss_sent s)" and ?pa = "fst (snd (ss_pview s))" and ?pb = "snd (snd (ss_pview s))"
  obtain i where i: "ss_claimed s = Some i" "s' = s\<lparr>ss_slots := (ss_slots s)(i := x), ss_wrote := (ss_wrote s)(i := ?pa),
      ss_race := ss_race s \<or> ss_read s i > ?pb\<rparr>"
    using s' by (auto split: option.splits)
  have i': "i = ?w mod n" "?w < ts ! fst (ss_pview s) + n" using inv i(1) by (simp_all add: spsc_inv_def hand_inv_def)
  have other: "k mod n \<noteq> i" if "length (ss_got s) \<le> k" "k < ?w" for k
    using mod_distinct [OF that(2)] that i' ord(1) by simp
  have "ss_read s i \<le> ?pb"
  proof (cases "?w < n")
    case True
    then show ?thesis using inv i'(1) by (simp add: spsc_inv_def clock_inv_def)
  next
    case False
    then have "?w - n < ts ! fst (ss_pview s)" "(?w - n) mod n = i" using i' slots by (simp_all add: le_mod_geq)
    moreover have "read_before n s (ts ! fst (ss_pview s)) ?pb" using inv by (simp add: spsc_inv_def clock_inv_def)
    ultimately show ?thesis using False by (auto simp: read_before_def)
  qed
  then have "\<not> ss_race s'" using inv i(2) by (simp add: spsc_inv_def)
  moreover have "data_inv n s'" using inv other i(2) by (auto simp: spsc_inv_def data_inv_def)
  moreover have "written_before n s' h clk" if "written_before n s h clk" "h \<le> ?w" for h clk
    using that other i(2) by (auto simp: written_before_def)
  then have "clock_inv n hs ts s'"
    using inv ord(3,4,8) i(2) by (auto simp: spsc_inv_def clock_inv_def read_before_def)
  ultimately show ?thesis using inv i(2) by (simp add: spsc_inv_def index_inv_def hand_inv_def)
qed

lemma read_inv:
  assumes inv: "spsc_inv n relP relC hs ts s" and s': "perform ops ReadSlot s = Some s'"
  shows "spsc_inv n relP relC hs ts s'"
proof -
  have ix: "index_inv relP relC hs ts s" using inv by (simp add: spsc_inv_def)
  note ord = count_order [OF ix]
  let ?t = "length (ss_got s)" and ?ca = "fst (snd (ss_cview s))" and ?cb = "snd (snd (ss_cview s))"
  obtain i where i: "ss_peeked s = Some i" "s' = s\<lparr>ss_seen := Some (ss_slots s i), ss_read := (ss_read s)(i := ?cb),
      ss_race := ss_race s \<or> ss_wrote s i > ?ca\<rparr>"
    using s' by (auto split: option.splits)
  have i': "i = ?t mod n" "?t < hs ! fst (ss_cview s)" using inv i(1) by (simp_all add: spsc_inv_def hand_inv_def)
  then have t: "?t < length (ss_sent s)" using ord(3,4) by linarith
  have "written_before n s (hs ! fst (ss_cview s)) ?ca" using inv by (simp add: spsc_inv_def clock_inv_def)
  then have "\<not> ss_race s'" using inv i(2) i' by (auto simp: spsc_inv_def written_before_def not_less)
  moreover have "ss_slots s i = ss_sent s ! ?t" using inv t i'(1) by (simp add: spsc_inv_def data_inv_def)
  then have "hand_inv n hs ts s'" using inv i(2) t by (simp add: spsc_inv_def hand_inv_def)
  moreover have "read_before n s' k clk" if "read_before n s k clk" "k \<le> ?t" for k clk
  proof -
    have "j mod n \<noteq> i" if "j < ?t" "length (ss_sent s) \<le> j + n" for j
      using mod_distinct [of j ?t n] that t i'(1) by simp
    then show ?thesis using that i(2) by (auto simp: read_before_def)
  qed
  moreover have "\<forall>j. length (ss_sent s) \<le> j \<longrightarrow> j < n \<longrightarrow> ss_read s' j = 0"
    using inv i(2) i'(1) t by (auto simp: spsc_inv_def clock_inv_def)
  ultimately show ?thesis using inv i(2) ord(1,7)
    by (simp add: spsc_inv_def index_inv_def data_inv_def clock_inv_def written_before_def)
qed

end

context spsc_ring
begin

text \<open>A release store of the count \<open>w\<close>; whatever the producer has done by then is ordered before it.\<close>

lemma store_head_inv:
  assumes ix: "index_inv (\<lambda>_ _ _ _. True) relC hs ts s" and rest: "hand_inv n hs ts s" "data_inv n s" "clock_inv n hs ts s" "\<not> ss_race s"
    and w: "w = length (ss_sent s)" "last hs \<le> w"
    and p: "relP (ss_producer s) w w (ts ! fst (ss_pview s))"
  shows "spsc_inv n relP relC (hs @ [w]) ts (store_head (Some (of_nat w)) s)"
proof -
  obtain j a b where v: "ss_pview s = (j, a, b)" by (cases "ss_pview s") auto
  have st: "store_head (Some (of_nat w)) s
      = s\<lparr>ss_heads := ss_heads s @ [(of_nat w, a, b)], ss_pview := (j, Suc a, b)\<rparr>" by (simp add: store_head_def v)
  have len: "length (ss_heads s) = length hs" using ix by (metis index_inv_def length_map)
  have srt: "sorted (hs @ [w])" using ix w(2) by (simp add: index_inv_def sorted_snoc)
  have view: "(hs @ [w]) ! fst (ss_cview s) = hs ! fst (ss_cview s)" using ix by (simp add: index_inv_def nth_append)
  have "written_before n s w a" using rest(3) v by (simp add: clock_inv_def written_before_def)
  then have "\<forall>i<length (hs @ [w]). written_before n s ((hs @ [w]) ! i) (fst (snd ((ss_heads s @ [(of_nat w, a, b)]) ! i)))"
    using rest(3) len by (auto simp: clock_inv_def nth_append less_Suc_eq)
  moreover have "\<forall>i. ss_wrote s i \<le> Suc a" using rest(3) v by (simp add: clock_inv_def le_SucI)
  ultimately have "clock_inv n (hs @ [w]) ts (s\<lparr>ss_heads := ss_heads s @ [(of_nat w, a, b)], ss_pview := (j, Suc a, b)\<rparr>)"
    using rest(3) view v by (simp add: clock_inv_def written_before_def read_before_def)
  moreover have "index_inv relP relC (hs @ [w]) ts (s\<lparr>ss_heads := ss_heads s @ [(of_nat w, a, b)], ss_pview := (j, Suc a, b)\<rparr>)"
    using ix p w view srt v by (simp add: index_inv_def)
  ultimately show ?thesis using rest view v by (simp add: st spsc_inv_def hand_inv_def data_inv_def)
qed

lemma publish_inv:
  assumes inv: "spsc_inv n relP relC hs ts s" and s': "perform ops Publish s = Some s'"
  shows "\<exists>hs'. spsc_inv n relP relC hs' ts s'"
proof -
  have ix: "index_inv relP relC hs ts s" using inv by (simp add: spsc_inv_def)
  note ord = count_order [OF ix]
  let ?w = "length (ss_sent s)"
  obtain i p out where i: "ss_claimed s = Some i" and op: "op_publish ops (ss_producer s) = (p, out)"
    and st: "s' = store_head out (s\<lparr>ss_producer := p, ss_claimed := None, ss_sent := ss_sent s @ [ss_slots s i]\<rparr>)"
    using s' by (auto split: option.splits prod.splits)
  let ?s = "s\<lparr>ss_producer := p, ss_claimed := None, ss_sent := ss_sent s @ [ss_slots s i]\<rparr>"
  have i': "i = ?w mod n" "?w < ts ! fst (ss_pview s) + n" using inv i by (simp_all add: spsc_inv_def hand_inv_def)
  have "relP (ss_producer s) ?w (last hs) (ts ! fst (ss_pview s))" using ix by (simp add: index_inv_def)
  note pub = publish [OF this i'(2) op]
  have data: "data_inv n ?s"
    using inv i'(1) ord(6) count_order(1-4) [OF ix] by (auto simp: spsc_inv_def data_inv_def nth_append less_Suc_eq)
  have hand: "hand_inv n hs ts ?s" using inv by (auto simp: spsc_inv_def hand_inv_def nth_append)
  have clock: "clock_inv n hs ts ?s"
    using inv by (auto simp: spsc_inv_def clock_inv_def written_before_def read_before_def)
  have race: "\<not> ss_race ?s" using inv by (simp add: spsc_inv_def)
  show ?thesis
  proof (cases out)
    case None
    then show ?thesis using pub ix data hand clock race by (intro exI [of _ hs]) (simp add: st store_head_def spsc_inv_def index_inv_def)
  next
    case (Some x)
    have "index_inv (\<lambda>_ _ _ _. True) relC hs ts ?s" using ix by (simp add: index_inv_def)
    from store_head_inv [OF this hand data clock race, of "Suc ?w"] show ?thesis
      using pub Some ord(4) by (intro exI [of _ "hs @ [Suc ?w]"]) (simp add: st)
  qed
qed

lemma flush_step_inv:
  assumes inv: "spsc_inv n relP relC hs ts s" and s': "perform ops Flush s = Some s'"
  shows "\<exists>hs'. spsc_inv n relP relC hs' ts s'"
proof -
  have ix: "index_inv relP relC hs ts s" using inv by (simp add: spsc_inv_def)
  note ord = count_order [OF ix]
  let ?w = "length (ss_sent s)"
  obtain p out where op: "op_flush ops (ss_producer s) = (p, out)" and st: "s' = store_head out (s\<lparr>ss_producer := p\<rparr>)"
    using s' by (auto split: prod.splits)
  let ?s = "s\<lparr>ss_producer := p\<rparr>"
  have "relP (ss_producer s) ?w (last hs) (ts ! fst (ss_pview s))" using ix by (simp add: index_inv_def)
  note fl = flush [OF this op]
  have parts: "hand_inv n hs ts ?s" "data_inv n ?s" "clock_inv n hs ts ?s" "\<not> ss_race ?s"
    using inv by (simp_all add: spsc_inv_def hand_inv_def data_inv_def clock_inv_def written_before_def read_before_def)
  show ?thesis
  proof (cases out)
    case None
    then show ?thesis using fl ix parts by (intro exI [of _ hs]) (simp add: st store_head_def spsc_inv_def index_inv_def)
  next
    case (Some x)
    have "index_inv (\<lambda>_ _ _ _. True) relC hs ts ?s" using ix by (simp add: index_inv_def)
    from store_head_inv [OF this parts, of ?w] show ?thesis
      using fl Some ord(4) by (intro exI [of _ "hs @ [?w]"]) (simp add: st)
  qed
qed

lemma peek_inv:
  assumes inv: "spsc_inv n relP relC hs ts s" and s': "perform ops (Peek j) s = Some s'"
  shows "spsc_inv n relP relC hs ts s'"
proof -
  have ix: "index_inv relP relC hs ts s" using inv by (simp add: spsc_inv_def)
  note ord = count_order [OF ix]
  obtain r c v where op: "op_peek ops (load_at (ss_heads s) j) (ss_consumer s) (ss_cview s) = (r, c, v)"
    by (cases "op_peek ops (load_at (ss_heads s) j) (ss_consumer s) (ss_cview s)")
  have st: "s' = s\<lparr>ss_consumer := c, ss_cview := v, ss_peeked := r\<rparr>" using s' op by simp
  have "map fst (ss_heads s) = map of_nat hs" "fst (ss_cview s) < length hs" using ix by (simp_all add: index_inv_def)
  from load_count [OF this, of j] obtain j' where j': "fst (ss_cview s) \<le> j'" "j' < length hs"
    "load_at (ss_heads s) j (ss_cview s) = (of_nat (hs ! j'), (j', join (snd (ss_cview s)) (snd (ss_heads s ! j'))))" .
  have "hs ! fst (ss_cview s) \<le> hs ! j'" using ix j' by (auto simp: index_inv_def sorted_iff_nth_mono)
  moreover have "hs ! j' \<le> length (ss_got s) + n" using ord(6) ord(8) [OF j'(2)] by linarith
  moreover have "relC (ss_consumer s) (length (ss_got s)) (hs ! fst (ss_cview s))" using ix by (simp add: index_inv_def)
  ultimately obtain k1 where k1: "relC c (length (ss_got s)) k1"
    "k1 = hs ! fst (ss_cview s) \<and> v = ss_cview s \<or> k1 = hs ! j' \<and> v = (j', join (snd (ss_cview s)) (snd (ss_heads s ! j')))"
    "case r of Some i \<Rightarrow> i = length (ss_got s) mod n \<and> length (ss_got s) < k1
      | None \<Rightarrow> k1 = hs ! j' \<and> v = (j', join (snd (ss_cview s)) (snd (ss_heads s ! j'))) \<and> hs ! j' = length (ss_got s)"
    using peek [OF _ _ _ j'(3) op] by blast
  have v: "fst v < length hs" "hs ! fst v = k1" using k1(2) j'(2) ix by (auto simp: index_inv_def)
  have "snd (snd (ss_cview s)) \<le> snd (snd v)" using k1(2) by auto
  moreover have "written_before n s k1 (fst (snd v))"
    using k1(2) inv j'(2) by (fastforce simp: spsc_inv_def clock_inv_def written_before_def)
  ultimately have "clock_inv n hs ts s'"
    using inv v st unfolding spsc_inv_def clock_inv_def written_before_def read_before_def
    by (auto intro: order_trans)
  moreover have "index_inv relP relC hs ts s'" using ix k1(1) v by (simp add: st index_inv_def)
  moreover have "hand_inv n hs ts s'" using inv k1(3) v by (auto simp: st spsc_inv_def hand_inv_def)
  ultimately show ?thesis using inv by (simp add: spsc_inv_def st data_inv_def)
qed

lemma consume_inv:
  assumes inv: "spsc_inv n relP relC hs ts s" and s': "perform ops Consume s = Some s'"
  shows "spsc_inv n relP relC hs (ts @ [Suc (length (ss_got s))]) s'"
proof -
  have ix: "index_inv relP relC hs ts s" using inv by (simp add: spsc_inv_def)
  note ord = count_order [OF ix]
  let ?t = "length (ss_got s)"
  obtain j a b where v: "ss_cview s = (j, a, b)" by (cases "ss_cview s") auto
  obtain i c x where i: "ss_peeked s = Some i" and op: "op_consume ops (ss_consumer s) = (c, x)"
    and st: "s' = store_tail x (s\<lparr>ss_consumer := c, ss_peeked := None, ss_seen := None, ss_got := ss_got s @ [ss_seen s]\<rparr>)"
    using s' by (auto split: option.splits prod.splits)
  have i': "?t < hs ! fst (ss_cview s)" using inv i by (simp add: spsc_inv_def hand_inv_def)
  then have t: "?t < length (ss_sent s)" using ord(3,4) by linarith
  have "relC (ss_consumer s) ?t (hs ! fst (ss_cview s))" using ix by (simp add: index_inv_def)
  note con = consume [OF this i' op]
  have st': "s' = s\<lparr>ss_consumer := c, ss_peeked := None, ss_seen := None, ss_got := ss_got s @ [ss_seen s],
      ss_tails := ss_tails s @ [(of_nat (Suc ?t), a, b)], ss_cview := (j, a, Suc b)\<rparr>"
    using st con by (simp add: store_tail_def v)
  have len: "length (ss_tails s) = length ts" using ix by (metis index_inv_def length_map)
  have view: "(ts @ [Suc ?t]) ! fst (ss_pview s) = ts ! fst (ss_pview s)" using ix by (simp add: index_inv_def nth_append)
  have "read_before n s (Suc ?t) b" using inv v by (simp add: spsc_inv_def clock_inv_def read_before_def)
  then have "\<forall>i<length (ts @ [Suc ?t]). read_before n s ((ts @ [Suc ?t]) ! i) (snd (snd ((ss_tails s @ [(of_nat (Suc ?t), a, b)]) ! i)))"
    using inv len by (auto simp: spsc_inv_def clock_inv_def nth_append less_Suc_eq)
  then have "clock_inv n hs (ts @ [Suc ?t]) s'"
    using inv view v unfolding spsc_inv_def clock_inv_def st'
    by (auto simp: written_before_def read_before_def le_SucI)
  moreover have "index_inv relP relC hs (ts @ [Suc ?t]) s'"
    using ix con view v by (simp add: st' index_inv_def sorted_snoc)
  moreover have "hand_inv n hs (ts @ [Suc ?t]) s'" using inv view by (simp add: st' spsc_inv_def hand_inv_def)
  moreover have "data_inv n s'"
    using inv unfolding spsc_inv_def data_inv_def hand_inv_def
    by (cases "ss_seen s") (auto simp: st' nth_append less_Suc_eq)
  ultimately show ?thesis using inv by (simp add: spsc_inv_def st')
qed

lemma step_inv:
  assumes "spsc_inv n relP relC hs ts s" "perform ops act s = Some s'"
  shows "\<exists>hs ts. spsc_inv n relP relC hs ts s'"
proof (cases act)
  case (Claim j)
  from claim_inv [OF assms(1) assms(2) [unfolded Claim]] show ?thesis by blast
next
  case (WriteSlot x)
  from write_inv [OF assms(1) assms(2) [unfolded WriteSlot]] show ?thesis by blast
next
  case Publish
  from publish_inv [OF assms(1) assms(2) [unfolded Publish]] show ?thesis by blast
next
  case Flush
  from flush_step_inv [OF assms(1) assms(2) [unfolded Flush]] show ?thesis by blast
next
  case (Peek j)
  from peek_inv [OF assms(1) assms(2) [unfolded Peek]] show ?thesis by blast
next
  case ReadSlot
  from read_inv [OF assms(1) assms(2) [unfolded ReadSlot]] show ?thesis by blast
next
  case Consume
  from consume_inv [OF assms(1) assms(2) [unfolded Consume]] show ?thesis by blast
qed

lemma reachable_inv:
  assumes "reachable ops s"
  obtains hs ts where "spsc_inv n relP relC hs ts s"
proof -
  have "\<exists>hs ts. spsc_inv n relP relC hs ts s"
    using assms by induction (use start_inv step_inv in blast)+
  then show thesis using that by blast
qed

section \<open>What a user of the queue may rely on\<close>

lemma no_race: "reachable ops s \<Longrightarrow> \<not> ss_race s"
  using reachable_inv by (metis spsc_inv_def)

text \<open>What was taken is what was sent, in the order in which it was sent; an item that the consumer took
  without reading it counts as \<^term>\<open>None\<close>.\<close>

lemma in_order:
  assumes "reachable ops s"
  shows "length (ss_got s) \<le> length (ss_sent s)" "length (ss_sent s) \<le> length (ss_got s) + n"
    "list_all2 (\<lambda>got sent. got = None \<or> got = Some sent) (ss_got s) (take (length (ss_got s)) (ss_sent s))"
proof -
  obtain hs ts where inv: "spsc_inv n relP relC hs ts s" using reachable_inv [OF assms] by blast
  then have ix: "index_inv relP relC hs ts s" by (simp add: spsc_inv_def)
  note ord = count_order [OF ix]
  show l: "length (ss_got s) \<le> length (ss_sent s)" using ord(2-4) by linarith
  show "length (ss_sent s) \<le> length (ss_got s) + n" by (rule ord(6))
  show "list_all2 (\<lambda>got sent. got = None \<or> got = Some sent) (ss_got s) (take (length (ss_got s)) (ss_sent s))"
    using inv l by (auto simp: list_all2_conv_all_nth spsc_inv_def data_inv_def)
qed

text \<open>With the newest store in view, \<open>claim\<close> fails only on a full queue and \<open>peek\<close> only on one with nothing
  published; with a stale one they may fail, and never succeed wrongly.\<close>

lemma claim_fails:
  assumes r: "reachable ops s" and s': "perform ops (Claim j) s = Some s'"
  shows "length (ss_sent s) = length (ss_got s) + n \<Longrightarrow> ss_claimed s' = None"
    "length (ss_tails s) \<le> Suc j \<Longrightarrow> ss_claimed s' = None \<Longrightarrow> length (ss_sent s) = length (ss_got s) + n"
proof -
  obtain hs ts where inv: "spsc_inv n relP relC hs ts s" using reachable_inv [OF r] by blast
  then have ix: "index_inv relP relC hs ts s" by (simp add: spsc_inv_def)
  note inv' = claim_inv [OF inv s']
  obtain p v r where op: "op_claim ops (load_at (ss_tails s) j) (ss_producer s) (ss_pview s) = (r, p, v)"
    by (cases "op_claim ops (load_at (ss_tails s) j) (ss_producer s) (ss_pview s)")
  have st: "s' = s\<lparr>ss_producer := p, ss_pview := v, ss_claimed := r\<rparr>" using s' op by simp
  have ix': "index_inv relP relC hs ts s'" using inv' by (simp add: spsc_inv_def)
  show "length (ss_sent s) = length (ss_got s) + n \<Longrightarrow> ss_claimed s' = None"
  proof (rule ccontr)
    assume full: "length (ss_sent s) = length (ss_got s) + n" "ss_claimed s' \<noteq> None"
    then have "length (ss_sent s) < ts ! fst (ss_pview s') + n" using inv' st by (auto simp: spsc_inv_def hand_inv_def)
    then show False using count_order(1) [OF ix'] full(1) st by simp
  qed
  assume j: "length (ss_tails s) \<le> Suc j" and none: "ss_claimed s' = None"
  have len: "length (ss_tails s) = length ts" using ix by (metis index_inv_def length_map)
  have "load_at (ss_tails s) j (ss_pview s) = (of_nat (last ts),
      (length ts - 1, join (snd (ss_pview s)) (snd (ss_tails s ! (length ts - 1)))))"
  proof -
    have "max (fst (ss_pview s)) (min j (length ts - 1)) = length ts - 1" using j len ix by (auto simp: index_inv_def)
    moreover have "fst (ss_tails s ! (length ts - 1)) = of_nat (ts ! (length ts - 1))"
      using ix len by (metis (no_types, lifting) index_inv_def diff_less length_greater_0_conv nth_map zero_less_one)
    moreover have "ts ! (length ts - 1) = last ts" using ix last_conv_nth [of ts] by (metis index_inv_def)
    ultimately show ?thesis by (simp add: load_at_def Let_def len)
  qed
  moreover have "last ts = length (ss_got s)" using ix by (simp add: index_inv_def)
  moreover have "ts ! fst (ss_pview s) \<le> last ts" using ix nth_le_last [of ts] unfolding index_inv_def by blast
  moreover have "length (ss_got s) \<le> length (ss_sent s)" using count_order(2-4) [OF ix] by linarith
  moreover have "relP (ss_producer s) (length (ss_sent s)) (last hs) (ts ! fst (ss_pview s))" using ix by (simp add: index_inv_def)
  ultimately show "length (ss_sent s) = length (ss_got s) + n" using claim [OF _ _ _ _ op] none st by fastforce
qed

lemma peek_fails:
  assumes r: "reachable ops s" and s': "perform ops (Peek j) s = Some s'"
  shows "length (ss_sent s) = length (ss_got s) \<Longrightarrow> ss_peeked s' = None"
    "length (ss_heads s) \<le> Suc j \<Longrightarrow> ss_peeked s' = None \<Longrightarrow> fst (last (ss_heads s)) = of_nat (length (ss_got s))"
proof -
  obtain hs ts where inv: "spsc_inv n relP relC hs ts s" using reachable_inv [OF r] by blast
  then have ix: "index_inv relP relC hs ts s" by (simp add: spsc_inv_def)
  note inv' = peek_inv [OF inv s']
  obtain c v r where op: "op_peek ops (load_at (ss_heads s) j) (ss_consumer s) (ss_cview s) = (r, c, v)"
    by (cases "op_peek ops (load_at (ss_heads s) j) (ss_consumer s) (ss_cview s)")
  have st: "s' = s\<lparr>ss_consumer := c, ss_cview := v, ss_peeked := r\<rparr>" using s' op by simp
  have ix': "index_inv relP relC hs ts s'" using inv' by (simp add: spsc_inv_def)
  show "length (ss_sent s) = length (ss_got s) \<Longrightarrow> ss_peeked s' = None"
  proof (rule ccontr)
    assume none: "length (ss_sent s) = length (ss_got s)" "ss_peeked s' \<noteq> None"
    then have "length (ss_got s) < hs ! fst (ss_cview s')" using inv' st by (auto simp: spsc_inv_def hand_inv_def)
    then show False using count_order(3,4) [OF ix'] none(1) st by simp
  qed
  assume j: "length (ss_heads s) \<le> Suc j" and none: "ss_peeked s' = None"
  have len: "length (ss_heads s) = length hs" using ix by (metis index_inv_def length_map)
  have newest: "fst (ss_heads s ! (length hs - 1)) = of_nat (last hs)"
    using ix len last_conv_nth [of hs]
    by (metis (no_types, lifting) index_inv_def diff_less length_greater_0_conv nth_map zero_less_one)
  have "max (fst (ss_cview s)) (min j (length hs - 1)) = length hs - 1" using j len ix by (auto simp: index_inv_def)
  then have load: "load_at (ss_heads s) j (ss_cview s) = (of_nat (last hs),
      (length hs - 1, join (snd (ss_cview s)) (snd (ss_heads s ! (length hs - 1)))))"
    using newest by (simp add: load_at_def Let_def len)
  have "hs ! fst (ss_cview s) \<le> last hs" "last hs \<le> length (ss_got s) + n" using count_order [OF ix] by linarith+
  moreover have "relC (ss_consumer s) (length (ss_got s)) (hs ! fst (ss_cview s))" using ix by (simp add: index_inv_def)
  ultimately have "last hs = length (ss_got s)" using peek [OF _ _ _ load op] none st by fastforce
  moreover have "last (ss_heads s) = ss_heads s ! (length hs - 1)"
    using len ix by (metis index_inv_def last_conv_nth length_0_conv)
  ultimately show "fst (last (ss_heads s)) = of_nat (length (ss_got s))" using newest by simp
qed

lemma head_count:
  assumes "reachable ops s"
  obtains h k where "fst (last (ss_heads s)) = of_nat h" "relP (ss_producer s) (length (ss_sent s)) h k"
proof -
  obtain hs ts where "spsc_inv n relP relC hs ts s" using reachable_inv [OF assms] by blast
  then have ix: "index_inv relP relC hs ts s" by (simp add: spsc_inv_def)
  then have "last (map fst (ss_heads s)) = of_nat (last hs)" "ss_heads s \<noteq> []" by (auto simp: index_inv_def last_map)
  then show thesis using ix by (intro that [of "last hs" "ts ! fst (ss_pview s)"]) (simp_all add: last_map index_inv_def)
qed

end

text \<open>A queue that publishes every item at once.\<close>

locale spsc_prompt = spsc_ring +
  assumes prompt: "relP p w h k \<Longrightarrow> h = w"
    and small: "n < 2 ^ 64"
begin

lemma peek_fails_empty:
  assumes "reachable ops s" "perform ops (Peek j) s = Some s'" "length (ss_heads s) \<le> Suc j" "ss_peeked s' = None"
  shows "length (ss_sent s) = length (ss_got s)"
proof -
  obtain h k where h: "fst (last (ss_heads s)) = of_nat h" "relP (ss_producer s) (length (ss_sent s)) h k"
    by (rule head_count [OF assms(1)])
  then have "of_nat (length (ss_got s)) = (of_nat (length (ss_sent s)) :: u64)"
    using peek_fails(2) [OF assms] prompt [OF h(2)] by simp
  moreover have "length (ss_sent s) - length (ss_got s) < 2 ^ 64" using in_order(2) [OF assms(1)] small by linarith
  ultimately show ?thesis using same_index [OF in_order(1) [OF assms(1)]] by simp
qed

end

end
