(* ===== verification/RingQueues.thy ===== *)
theory RingQueues
  imports SpscQueue
begin

text \<open>
  The queues of the program meet the contract \<open>spsc_ring\<close>: \<open>RingBuffer\<close> and the three variants of the design
  study, at every valid size and batch. The properties of the queues follow from the lemmas of the
  locale.
\<close>

section \<open>The queues of the program\<close>

definition ring_ops :: "u64 \<Rightarrow> (producer_side, consumer_side) ring_ops" where
  "ring_ops Size = \<lparr>op_producer = producer_new, op_consumer = consumer_new, op_claim = claim Size, op_publish = publish,
     op_flush = (\<lambda>p. (p, None)), op_peek = peek Size, op_consume = consume\<rparr>"

definition v0_ops :: "u64 \<Rightarrow> (u64, u64) ring_ops" where
  "v0_ops Size = \<lparr>op_producer = 0, op_consumer = 0, op_claim = v0_claim Size, op_publish = v0_publish,
     op_flush = (\<lambda>p. (p, None)), op_peek = v0_peek Size, op_consume = v0_consume\<rparr>"

definition v1_ops :: "u64 \<Rightarrow> (u64, u64) ring_ops" where
  "v1_ops Size = \<lparr>op_producer = 0, op_consumer = 0, op_claim = v1_claim Size, op_publish = v1_publish,
     op_flush = (\<lambda>p. (p, None)), op_peek = v1_peek Size, op_consume = v1_consume\<rparr>"

definition v2_ops :: "u64 \<Rightarrow> u64 \<Rightarrow> (v2_producer, v2_consumer) ring_ops" where
  "v2_ops Size batch = \<lparr>op_producer = v2_producer_new, op_consumer = v2_consumer_new, op_claim = v2_claim Size,
     op_publish = v2_publish batch, op_flush = v2_flush, op_peek = v2_peek Size, op_consume = v2_consume\<rparr>"

text \<open>What the fields count.\<close>

definition within :: "u64 \<Rightarrow> nat \<Rightarrow> nat \<Rightarrow> bool" where
  "within Size k w \<longleftrightarrow> k \<le> w \<and> w \<le> k + unat Size"

definition ring_relP :: "u64 \<Rightarrow> producer_side \<Rightarrow> nat \<Rightarrow> nat \<Rightarrow> nat \<Rightarrow> bool" where
  "ring_relP Size p w h k \<longleftrightarrow> p = \<lparr>ps_head = of_nat w, ps_cachedTail = of_nat k\<rparr> \<and> h = w \<and> within Size k w"

definition ring_relC :: "u64 \<Rightarrow> consumer_side \<Rightarrow> nat \<Rightarrow> nat \<Rightarrow> bool" where
  "ring_relC Size c t k \<longleftrightarrow> c = \<lparr>cs_tail = of_nat t, cs_cachedHead = of_nat k\<rparr> \<and> within Size t k"

definition plain_relP :: "u64 \<Rightarrow> u64 \<Rightarrow> nat \<Rightarrow> nat \<Rightarrow> nat \<Rightarrow> bool" where
  "plain_relP Size p w h k \<longleftrightarrow> p = of_nat w \<and> h = w \<and> within Size k w"

definition plain_relC :: "u64 \<Rightarrow> u64 \<Rightarrow> nat \<Rightarrow> nat \<Rightarrow> bool" where
  "plain_relC Size c t k \<longleftrightarrow> c = of_nat t \<and> within Size t k"

definition v2_relP :: "u64 \<Rightarrow> u64 \<Rightarrow> v2_producer \<Rightarrow> nat \<Rightarrow> nat \<Rightarrow> nat \<Rightarrow> bool" where
  "v2_relP Size batch p w h k \<longleftrightarrow> p = \<lparr>v2_head = of_nat h, v2_writeIdx = of_nat w, v2_cachedTail = of_nat k\<rparr>
     \<and> h \<le> w \<and> w < h + unat batch \<and> within Size k w"

definition v2_relC :: "u64 \<Rightarrow> v2_consumer \<Rightarrow> nat \<Rightarrow> nat \<Rightarrow> bool" where
  "v2_relC Size c t k \<longleftrightarrow> c = \<lparr>v2_tail = of_nat t, v2_cachedHead = of_nat k\<rparr> \<and> within Size t k"

lemmas ring_rels = ring_relP_def ring_relC_def plain_relP_def plain_relC_def v2_relP_def v2_relC_def within_def

lemma full_within: "valid_size Size \<Longrightarrow> within Size k w \<Longrightarrow> Size \<le> (of_nat w - of_nat k :: u64) \<longleftrightarrow> w = k + unat Size"
  by (simp add: full_iff within_def)

lemma empty_within: "valid_size Size \<Longrightarrow> within Size t k \<Longrightarrow> of_nat t = (of_nat k :: u64) \<longleftrightarrow> t = k"
  by (simp add: empty_iff within_def)

lemma within_mono: "within Size k w \<Longrightarrow> k \<le> t \<Longrightarrow> t \<le> w \<Longrightarrow> within Size t w"
  by (simp add: within_def)

text \<open>The methods, read on counts.\<close>

lemma claim_counts:
  assumes "valid_size Size" "within Size k w" "within Size t w" "load v = (of_nat t, v')"
  shows "claim Size load \<lparr>ps_head = of_nat w, ps_cachedTail = of_nat k\<rparr> v =
     (if w = k + unat Size
      then (if w = t + unat Size then None else Some (w mod unat Size), \<lparr>ps_head = of_nat w, ps_cachedTail = of_nat t\<rparr>, v')
      else (Some (w mod unat Size), \<lparr>ps_head = of_nat w, ps_cachedTail = of_nat k\<rparr>, v))"
    "v2_claim Size load \<lparr>v2_head = x, v2_writeIdx = of_nat w, v2_cachedTail = of_nat k\<rparr> v =
     (if w = k + unat Size
      then (if w = t + unat Size then None else Some (w mod unat Size), \<lparr>v2_head = x, v2_writeIdx = of_nat w, v2_cachedTail = of_nat t\<rparr>, v')
      else (Some (w mod unat Size), \<lparr>v2_head = x, v2_writeIdx = of_nat w, v2_cachedTail = of_nat k\<rparr>, v))"
    "v0_claim Size load (of_nat w) v = (if w = t + unat Size then None else Some (w mod unat Size), of_nat w, v')"
    "v1_claim Size load (of_nat w) v = (if w = t + unat Size then None else Some (w mod unat Size), of_nat w, v')"
proof -
  note f = full_within [OF assms(1,2)] full_within [OF assms(1,3)] slot_of_nat [OF assms(1)] assms(4)
  show "v0_claim Size load (of_nat w) v = (if w = t + unat Size then None else Some (w mod unat Size), of_nat w, v')"
    "v1_claim Size load (of_nat w) v = (if w = t + unat Size then None else Some (w mod unat Size), of_nat w, v')"
    unfolding v0_claim_def v1_claim_def Let_def f prod.case by simp_all
  show "claim Size load \<lparr>ps_head = of_nat w, ps_cachedTail = of_nat k\<rparr> v =
     (if w = k + unat Size
      then (if w = t + unat Size then None else Some (w mod unat Size), \<lparr>ps_head = of_nat w, ps_cachedTail = of_nat t\<rparr>, v')
      else (Some (w mod unat Size), \<lparr>ps_head = of_nat w, ps_cachedTail = of_nat k\<rparr>, v))"
    unfolding claim_def Let_def f prod.case producer_side.simps by simp
  show "v2_claim Size load \<lparr>v2_head = x, v2_writeIdx = of_nat w, v2_cachedTail = of_nat k\<rparr> v =
     (if w = k + unat Size
      then (if w = t + unat Size then None else Some (w mod unat Size), \<lparr>v2_head = x, v2_writeIdx = of_nat w, v2_cachedTail = of_nat t\<rparr>, v')
      else (Some (w mod unat Size), \<lparr>v2_head = x, v2_writeIdx = of_nat w, v2_cachedTail = of_nat k\<rparr>, v))"
    unfolding v2_claim_def Let_def f prod.case v2_producer.simps by simp
qed

lemma peek_counts:
  assumes "valid_size Size" "within Size t k" "within Size t h" "load v = (of_nat h, v')"
  shows "peek Size load \<lparr>cs_tail = of_nat t, cs_cachedHead = of_nat k\<rparr> v =
     (if t = k
      then (if t = h then None else Some (t mod unat Size), \<lparr>cs_tail = of_nat t, cs_cachedHead = of_nat h\<rparr>, v')
      else (Some (t mod unat Size), \<lparr>cs_tail = of_nat t, cs_cachedHead = of_nat k\<rparr>, v))"
    "v2_peek Size load \<lparr>v2_tail = of_nat t, v2_cachedHead = of_nat k\<rparr> v =
     (if t = k
      then (if t = h then None else Some (t mod unat Size), \<lparr>v2_tail = of_nat t, v2_cachedHead = of_nat h\<rparr>, v')
      else (Some (t mod unat Size), \<lparr>v2_tail = of_nat t, v2_cachedHead = of_nat k\<rparr>, v))"
    "v0_peek Size load (of_nat t) v = (if t = h then None else Some (t mod unat Size), of_nat t, v')"
    "v1_peek Size load (of_nat t) v = (if t = h then None else Some (t mod unat Size), of_nat t, v')"
proof -
  note f = empty_within [OF assms(1,2)] empty_within [OF assms(1,3)] slot_of_nat [OF assms(1)] assms(4)
  show "v0_peek Size load (of_nat t) v = (if t = h then None else Some (t mod unat Size), of_nat t, v')"
    "v1_peek Size load (of_nat t) v = (if t = h then None else Some (t mod unat Size), of_nat t, v')"
    unfolding v0_peek_def v1_peek_def Let_def f prod.case by simp_all
  show "peek Size load \<lparr>cs_tail = of_nat t, cs_cachedHead = of_nat k\<rparr> v =
     (if t = k
      then (if t = h then None else Some (t mod unat Size), \<lparr>cs_tail = of_nat t, cs_cachedHead = of_nat h\<rparr>, v')
      else (Some (t mod unat Size), \<lparr>cs_tail = of_nat t, cs_cachedHead = of_nat k\<rparr>, v))"
    unfolding peek_def Let_def f prod.case consumer_side.simps by simp
  show "v2_peek Size load \<lparr>v2_tail = of_nat t, v2_cachedHead = of_nat k\<rparr> v =
     (if t = k
      then (if t = h then None else Some (t mod unat Size), \<lparr>v2_tail = of_nat t, v2_cachedHead = of_nat h\<rparr>, v')
      else (Some (t mod unat Size), \<lparr>v2_tail = of_nat t, v2_cachedHead = of_nat k\<rparr>, v))"
    unfolding v2_peek_def Let_def f prod.case v2_consumer.simps by simp
qed

lemma ring_buffer_spsc: "valid_size Size \<Longrightarrow> spsc_prompt (ring_ops Size) (unat Size) (ring_relP Size) (ring_relC Size)"
proof (unfold_locales, goal_cases)
  case 1 then show ?case by (simp add: size_bounds)
next
  case 2 then show ?case by (simp add: ring_ops_def ring_rels producer_new_def)
next
  case 3 then show ?case by (simp add: ring_ops_def ring_rels consumer_new_def)
next
  case 4 then show ?case by (simp add: ring_rels)
next
  case 5 then show ?case by (simp add: ring_rels)
next
  case (6 p w h k t load v v' r p1 v1)
  then have wi: "within Size k w" "within Size t w" by (auto simp: ring_relP_def within_def)
  note c = claim_counts(1) [OF 6(1) wi, of load v v', OF 6(5)]
  have "(r, p1, v1) = claim Size load p v" using 6 by (simp add: ring_ops_def)
  then show ?case using 6(2-4) wi c
    by (intro exI [of _ "if w = k + unat Size then t else k"]) (auto simp: ring_relP_def within_def)
next
  case (7 p w h k p1 out)
  then show ?case by (auto simp: ring_ops_def publish_def ring_rels)
next
  case (8 p w h k p1 out)
  then show ?case by (auto simp: ring_ops_def)
next
  case (9 c t k h load v v' r c1 v1)
  then have wi: "within Size t k" "within Size t h" by (auto simp: ring_relC_def within_def)
  note c = peek_counts(1) [OF 9(1) wi, of load v v', OF 9(5)]
  have "(r, c1, v1) = peek Size load c v" using 9 by (simp add: ring_ops_def)
  then show ?case using 9(2-4) wi c
    by (intro exI [of _ "if t = k then h else k"]) (auto simp: ring_relC_def within_def)
next
  case (10 c t k c1 x)
  then show ?case by (auto simp: ring_ops_def consume_def ring_rels)
next
  case 11 then show ?case by (simp add: ring_rels)
next
  case 12 then show ?case using unat_u64_less [of Size] by simp
qed

lemma v0_spsc: "valid_size Size \<Longrightarrow> spsc_prompt (v0_ops Size) (unat Size) (plain_relP Size) (plain_relC Size)"
proof (unfold_locales, goal_cases)
  case 1 then show ?case by (simp add: size_bounds)
next
  case 2 then show ?case by (simp add: v0_ops_def ring_rels)
next
  case 3 then show ?case by (simp add: v0_ops_def ring_rels)
next
  case 4 then show ?case by (simp add: ring_rels)
next
  case 5 then show ?case by (simp add: ring_rels)
next
  case (6 p w h k t load v v' r p1 v1)
  then have wi: "within Size k w" "within Size t w" by (auto simp: plain_relP_def within_def)
  note c = claim_counts(3) [OF 6(1) wi, of load v v', OF 6(5)]
  have "(r, p1, v1) = v0_claim Size load p v" using 6 by (simp add: v0_ops_def)
  then show ?case using 6(2-4) wi c by (intro exI [of _ t]) (auto simp: plain_relP_def within_def)
next
  case (7 p w h k p1 out)
  then show ?case by (auto simp: v0_ops_def v0_publish_def fetch_add_def ring_rels)
next
  case (8 p w h k p1 out)
  then show ?case by (auto simp: v0_ops_def)
next
  case (9 c t k h load v v' r c1 v1)
  then have wi: "within Size t k" "within Size t h" by (auto simp: plain_relC_def within_def)
  note c = peek_counts(3) [OF 9(1) wi, of load v v', OF 9(5)]
  have "(r, c1, v1) = v0_peek Size load c v" using 9 by (simp add: v0_ops_def)
  then show ?case using 9(2-4) wi c by (intro exI [of _ h]) (auto simp: plain_relC_def within_def)
next
  case (10 c t k c1 x)
  then show ?case by (auto simp: v0_ops_def v0_consume_def fetch_add_def ring_rels)
next
  case 11 then show ?case by (simp add: ring_rels)
next
  case 12 then show ?case using unat_u64_less [of Size] by simp
qed

lemma v1_spsc: "valid_size Size \<Longrightarrow> spsc_prompt (v1_ops Size) (unat Size) (plain_relP Size) (plain_relC Size)"
proof (unfold_locales, goal_cases)
  case 1 then show ?case by (simp add: size_bounds)
next
  case 2 then show ?case by (simp add: v1_ops_def ring_rels)
next
  case 3 then show ?case by (simp add: v1_ops_def ring_rels)
next
  case 4 then show ?case by (simp add: ring_rels)
next
  case 5 then show ?case by (simp add: ring_rels)
next
  case (6 p w h k t load v v' r p1 v1)
  then have wi: "within Size k w" "within Size t w" by (auto simp: plain_relP_def within_def)
  note c = claim_counts(4) [OF 6(1) wi, of load v v', OF 6(5)]
  have "(r, p1, v1) = v1_claim Size load p v" using 6 by (simp add: v1_ops_def)
  then show ?case using 6(2-4) wi c by (intro exI [of _ t]) (auto simp: plain_relP_def within_def)
next
  case (7 p w h k p1 out)
  then show ?case by (auto simp: v1_ops_def v1_publish_def fetch_add_def ring_rels)
next
  case (8 p w h k p1 out)
  then show ?case by (auto simp: v1_ops_def)
next
  case (9 c t k h load v v' r c1 v1)
  then have wi: "within Size t k" "within Size t h" by (auto simp: plain_relC_def within_def)
  note c = peek_counts(4) [OF 9(1) wi, of load v v', OF 9(5)]
  have "(r, c1, v1) = v1_peek Size load c v" using 9 by (simp add: v1_ops_def)
  then show ?case using 9(2-4) wi c by (intro exI [of _ h]) (auto simp: plain_relC_def within_def)
next
  case (10 c t k c1 x)
  then show ?case by (auto simp: v1_ops_def v1_consume_def fetch_add_def ring_rels)
next
  case 11 then show ?case by (simp add: ring_rels)
next
  case 12 then show ?case using unat_u64_less [of Size] by simp
qed

lemma v2_publish_counts:
  assumes "valid_batch Size batch" "v2_relP Size batch p w h k" "w < k + unat Size" "v2_publish batch p = (p1, out)"
  shows "case out of None \<Rightarrow> v2_relP Size batch p1 (Suc w) h k
    | Some x \<Rightarrow> x = of_nat (Suc w) \<and> v2_relP Size batch p1 (Suc w) (Suc w) k"
proof -
  have "h \<le> Suc w" "Suc w - h < 2 ^ 64"
    using assms(2) unat_u64_less [of batch] by (auto simp: v2_relP_def)
  from distance_nat [OF this] have "of_nat (Suc w) - of_nat h < batch \<longleftrightarrow> Suc w < h + unat batch"
    using \<open>h \<le> Suc w\<close> by (auto simp: word_less_nat_alt)
  moreover have "0 < unat batch" using assms(1) by (simp add: valid_batch_def word_le_nat_alt)
  moreover have p: "p = \<lparr>v2_head = of_nat h, v2_writeIdx = of_nat w, v2_cachedTail = of_nat k\<rparr>" using assms(2) by (simp add: v2_relP_def)
  ultimately show ?thesis using assms(2-4)
    by (auto simp: v2_publish_def Let_def v2_relP_def within_def add.commute split: if_splits)
qed

lemma v2_spsc:
  "valid_size Size \<Longrightarrow> valid_batch Size batch \<Longrightarrow> spsc_ring (v2_ops Size batch) (unat Size) (v2_relP Size batch) (v2_relC Size)"
proof (unfold_locales, goal_cases)
  case 1 then show ?case by (simp add: size_bounds)
next
  case 2 then show ?case by (simp add: v2_ops_def ring_rels v2_producer_new_def valid_batch_def word_le_nat_alt)
next
  case 3 then show ?case by (simp add: v2_ops_def ring_rels v2_consumer_new_def)
next
  case 4 then show ?case by (simp add: ring_rels)
next
  case 5 then show ?case by (simp add: ring_rels)
next
  case (6 p w h k t load v v' r p1 v1)
  then have wi: "within Size k w" "within Size t w" by (auto simp: v2_relP_def within_def)
  note c = claim_counts(2) [OF 6(1) wi, of load v v' "of_nat h", OF 6(6)]
  have "(r, p1, v1) = v2_claim Size load p v" using 6 by (simp add: v2_ops_def)
  then show ?case using 6(3-5) wi c
    by (intro exI [of _ "if w = k + unat Size then t else k"]) (auto simp: v2_relP_def within_def)
next
  case (7 p w h k p1 out)
  then show ?case using v2_publish_counts [OF 7(2-4)] by (simp add: v2_ops_def)
next
  case (8 p w h k p1 out)
  then show ?case by (auto simp: v2_ops_def v2_flush_def ring_rels valid_batch_def word_le_nat_alt)
next
  case (9 c t k h load v v' r c1 v1)
  then have wi: "within Size t k" "within Size t h" by (auto simp: v2_relC_def within_def)
  note c = peek_counts(2) [OF 9(1) wi, of load v v', OF 9(6)]
  have "(r, c1, v1) = v2_peek Size load c v" using 9 by (simp add: v2_ops_def)
  then show ?case using 9(3-5) wi c
    by (intro exI [of _ "if t = k then h else k"]) (auto simp: v2_relC_def within_def)
next
  case (10 c t k c1 x)
  then show ?case by (auto simp: v2_ops_def v2_consume_def ring_rels)
qed

text \<open>The size that the benchmarks give every queue.\<close>

lemma valid_1024: "valid_size 1024"
  by (simp add: valid_size_def)

interpretation rb: spsc_prompt "ring_ops 1024" "unat (1024 :: u64)" "ring_relP 1024" "ring_relC 1024"
  by (rule ring_buffer_spsc [OF valid_1024])

interpretation v0: spsc_prompt "v0_ops 1024" "unat (1024 :: u64)" "plain_relP 1024" "plain_relC 1024"
  by (rule v0_spsc [OF valid_1024])

interpretation v1: spsc_prompt "v1_ops 1024" "unat (1024 :: u64)" "plain_relP 1024" "plain_relC 1024"
  by (rule v1_spsc [OF valid_1024])

interpretation v2: spsc_ring "v2_ops 1024 64" "unat (1024 :: u64)" "v2_relP 1024 64" "v2_relC 1024"
  by (rule v2_spsc [OF valid_1024]) (simp add: valid_batch_def word_le_nat_alt)

text \<open>No race so far, no more items under way than there are slots, and what was taken is what was sent.\<close>

definition queue_safe :: "nat \<Rightarrow> ('p, 'c, 'a) spsc \<Rightarrow> bool" where
  "queue_safe n s \<longleftrightarrow> \<not> ss_race s \<and> length (ss_got s) \<le> length (ss_sent s) \<and> length (ss_sent s) \<le> length (ss_got s) + n
     \<and> list_all2 (\<lambda>got sent. got = None \<or> got = Some sent) (ss_got s) (take (length (ss_got s)) (ss_sent s))"

lemma ring_safe: "spsc_ring ops n relP relC \<Longrightarrow> reachable ops s \<Longrightarrow> queue_safe n s"
  unfolding queue_safe_def by (intro conjI) (rule spsc_ring.no_race spsc_ring.in_order; assumption)+

lemmas prompt_safe = ring_safe [OF spsc_prompt.axioms(1)]

text \<open>C3. The queue under the C++ memory model. However the two threads interleave and however stale the
  indices are that they load, and for as long as they run (the indices wrap), \<open>RingBuffer\<close> has no data
  race on its slots, never holds more items than slots, and the consumer takes the items in the order
  in which they were published, each as the producer wrote it.\<close>

theorem ring_buffer_safe:
  assumes "valid_size Size" "reachable (ring_ops Size) s"
  shows "\<not> ss_race s \<and> length (ss_got s) \<le> length (ss_sent s) \<and> length (ss_sent s) \<le> length (ss_got s) + unat Size
    \<and> list_all2 (\<lambda>got sent. got = None \<or> got = Some sent) (ss_got s) (take (length (ss_got s)) (ss_sent s))"
  using prompt_safe [OF ring_buffer_spsc [OF assms(1)] assms(2)] by (simp add: queue_safe_def)

text \<open>C10. The variants keep the contract. Each step of the design study, with any valid batch, has the
  safety of \<open>RingBuffer\<close>: no race, bounded, first in first out.\<close>

theorem ring_variants_safe:
  assumes "valid_size Size" "valid_batch Size batch"
  shows "(reachable (v0_ops Size) s0 \<longrightarrow> queue_safe (unat Size) s0)
    \<and> (reachable (v1_ops Size) s1 \<longrightarrow> queue_safe (unat Size) s1)
    \<and> (reachable (v2_ops Size batch) s2 \<longrightarrow> queue_safe (unat Size) s2)"
  using prompt_safe [OF v0_spsc [OF assms(1)]] prompt_safe [OF v1_spsc [OF assms(1)]] ring_safe [OF v2_spsc [OF assms]]
  by blast

text \<open>Full and empty are exact. A \<open>claim\<close> that loads the newest tail returns a null pointer exactly when
  every slot holds an item that was not consumed, a \<open>peek\<close> that loads the newest head exactly when no
  item is left; a stale load can only make them refuse, never hand out a wrong slot.\<close>

theorem ring_full_empty_exact:
  assumes "valid_size Size" "reachable (ring_ops Size) s"
    and "perform (ring_ops Size) (Claim j) s = Some s1" "perform (ring_ops Size) (Peek k) s = Some s2"
  shows "(length (ss_sent s) = length (ss_got s) + unat Size \<longrightarrow> ss_claimed s1 = None)
    \<and> (length (ss_tails s) \<le> Suc j \<longrightarrow> ss_claimed s1 = None \<longrightarrow> length (ss_sent s) = length (ss_got s) + unat Size)
    \<and> (length (ss_sent s) = length (ss_got s) \<longrightarrow> ss_peeked s2 = None)
    \<and> (length (ss_heads s) \<le> Suc k \<longrightarrow> ss_peeked s2 = None \<longrightarrow> length (ss_sent s) = length (ss_got s))"
proof -
  note q = ring_buffer_spsc [OF assms(1)]
  note r = spsc_prompt.axioms(1) [OF q]
  show ?thesis
    using spsc_ring.claim_fails [OF r assms(2,3)] spsc_ring.peek_fails(1) [OF r assms(2,4)]
      spsc_prompt.peek_fails_empty [OF q assms(2,4)] by blast
qed

text \<open>A run of the smallest sizes.\<close>

definition sample_acts :: "nat spsc_action list" where
  "sample_acts = [Claim 0, WriteSlot 7, Publish, Claim 0, WriteSlot 8, Publish, Peek 1, ReadSlot, Consume,
     Claim 0, Claim 1, WriteSlot 9, Publish, Flush]"

lemma and_low [simp]: "(0 :: u64) AND 1 = 0" "(2 :: u64) AND 1 = 0" "(1 :: u64) AND 1 = 1"
  "\<not> (2 :: u64) \<le> 1" "(2 :: u64) \<le> 2"
  by (simp_all add: word_le_nat_alt)

lemmas run_simps = spsc_start_def store_head_def store_tail_def load_at_def join_def Let_def
  claim_def publish_def peek_def consume_def slot_of_def producer_new_def consumer_new_def

lemma sample_ring_run:
  "\<exists>s. reachable (ring_ops 2) s \<and> ss_sent s = [7, 8, 9 :: nat] \<and> ss_got s = [Some 7]"
proof -
  have "\<exists>s. perform_all (ring_ops 2) sample_acts (spsc_start (ring_ops 2) (\<lambda>_. 0)) = Some s
    \<and> ss_sent s = [7, 8, 9 :: nat] \<and> ss_got s = [Some 7]"
    by (simp add: sample_acts_def ring_ops_def run_simps)
  then show ?thesis using reach_all [OF reach_start] by blast
qed

lemma sample_valid: "valid_size 2" "valid_batch 2 2"
  by (simp_all add: valid_size_def valid_batch_def word_le_nat_alt)

lemma ring_buffer_safe_witness:
  "\<exists>s :: (producer_side, consumer_side, nat) spsc. ss_sent s = [7, 8, 9] \<and> ss_got s = [Some 7] \<and> \<not> ss_race s \<and> length (ss_sent s) \<le> length (ss_got s) + unat (2 :: u64)"
proof -
  obtain s where s: "reachable (ring_ops 2) s" "ss_sent s = [7, 8, 9 :: nat]" "ss_got s = [Some 7]"
    using sample_ring_run by blast
  from ring_buffer_safe [OF sample_valid(1) s(1)] s(2,3) show ?thesis by blast
qed

definition v2_acts :: "nat spsc_action list" where
  "v2_acts = [Claim 0, WriteSlot 7, Publish, Peek 0, Claim 0, WriteSlot 8, Publish, Peek 1, ReadSlot, Consume]"

lemma sample_variant_runs:
  "\<exists>s. reachable (v0_ops 2) s \<and> ss_got s = [Some (7 :: nat)]" "\<exists>s. reachable (v1_ops 2) s \<and> ss_got s = [Some (7 :: nat)]"
  "\<exists>s. reachable (v2_ops 2 2) s \<and> ss_got s = [Some (7 :: nat)]"
proof -
  have "\<exists>s. perform_all (v0_ops 2) v2_acts (spsc_start (v0_ops 2) (\<lambda>_. 0)) = Some s \<and> ss_got s = [Some (7 :: nat)]"
    by (simp add: v2_acts_def v0_ops_def v0_claim_def v0_publish_def v0_peek_def v0_consume_def fetch_add_def run_simps)
  then show "\<exists>s. reachable (v0_ops 2) s \<and> ss_got s = [Some (7 :: nat)]" using reach_all [OF reach_start] by blast
  have "\<exists>s. perform_all (v1_ops 2) v2_acts (spsc_start (v1_ops 2) (\<lambda>_. 0)) = Some s \<and> ss_got s = [Some (7 :: nat)]"
    by (simp add: v2_acts_def v1_ops_def v1_claim_def v1_publish_def v1_peek_def v1_consume_def run_simps)
  then show "\<exists>s. reachable (v1_ops 2) s \<and> ss_got s = [Some (7 :: nat)]" using reach_all [OF reach_start] by blast
  have "\<exists>s. perform_all (v2_ops 2 2) v2_acts (spsc_start (v2_ops 2 2) (\<lambda>_. 0)) = Some s \<and> ss_got s = [Some (7 :: nat)]"
    by (simp add: v2_acts_def v2_ops_def v2_claim_def v2_publish_def v2_peek_def v2_consume_def v2_producer_new_def
        v2_consumer_new_def run_simps)
  then show "\<exists>s. reachable (v2_ops 2 2) s \<and> ss_got s = [Some (7 :: nat)]" using reach_all [OF reach_start] by blast
qed

lemma ring_variants_safe_witness:
  "\<exists>s0 s1 s2. ss_got s0 = [Some (7 :: nat)] \<and> ss_got s1 = [Some (7 :: nat)] \<and> ss_got s2 = [Some (7 :: nat)]
    \<and> queue_safe (unat (2 :: u64)) (s0 :: (u64, u64, nat) spsc) \<and> queue_safe (unat (2 :: u64)) (s1 :: (u64, u64, nat) spsc)
    \<and> queue_safe (unat (2 :: u64)) (s2 :: (v2_producer, v2_consumer, nat) spsc)"
proof -
  obtain s0 s1 s2 where "reachable (v0_ops 2) s0" "ss_got s0 = [Some (7 :: nat)]" "reachable (v1_ops 2) s1"
    "ss_got s1 = [Some (7 :: nat)]" "reachable (v2_ops 2 2) s2" "ss_got s2 = [Some (7 :: nat)]"
    using sample_variant_runs by blast
  with ring_variants_safe [OF sample_valid, of s0 s1 s2] show ?thesis by blast
qed

lemma ring_full_empty_exact_witness:
  "\<exists>s s1. ss_sent s = [7, 8, 9 :: nat] \<and> ss_got s = [Some 7] \<and> perform (ring_ops 2) (Claim 5) s = Some s1 \<and> ss_claimed s1 = None"
proof -
  obtain s where s: "reachable (ring_ops 2) s" "ss_sent s = [7, 8, 9 :: nat]" "ss_got s = [Some 7]"
    using sample_ring_run by blast
  obtain s1 s2 where p: "perform (ring_ops 2) (Claim 5) s = Some s1" "perform (ring_ops 2) (Peek 0) s = Some s2"
    by (simp add: split_def Let_def)
  have "length (ss_sent s) = length (ss_got s) + unat (2 :: u64)" using s(2,3) by simp
  with ring_full_empty_exact [OF sample_valid(1) s(1) p] have "ss_claimed s1 = None" by blast
  then show ?thesis using s(2,3) p(1) by blast
qed

text \<open>A batch holds little back. \<open>RingV2\<close> keeps fewer than \<open>Batch\<close> items from the consumer: the newest head
  it stored is behind the items written by less than a batch, and not at all after \<open>flush\<close>.\<close>

theorem batch_holds_back:
  assumes "valid_size Size" "valid_batch Size batch" "reachable (v2_ops Size batch) s"
    and "perform (v2_ops Size batch) Flush s = Some s'"
  shows "(\<exists>h. fst (last (ss_heads s)) = of_nat h \<and> h \<le> length (ss_sent s) \<and> length (ss_sent s) < h + unat batch)
    \<and> fst (last (ss_heads s')) = of_nat (length (ss_sent s')) \<and> ss_sent s' = ss_sent s"
proof -
  obtain h k where h: "fst (last (ss_heads s)) = of_nat h" "v2_relP Size batch (ss_producer s) (length (ss_sent s)) h k"
    by (rule spsc_ring.head_count [OF v2_spsc [OF assms(1,2)] assms(3)])
  have "fst (last (ss_heads s')) = v2_writeIdx (ss_producer s)" "ss_sent s' = ss_sent s"
    using assms(4) by (auto simp: v2_ops_def v2_flush_def store_head_def split: prod.splits)
  then show ?thesis using h by (auto simp: v2_relP_def)
qed

lemma batch_holds_back_witness:
  "\<exists>s s'. reachable (v2_ops 2 2) (s :: (v2_producer, v2_consumer, nat) spsc) \<and> ss_got s = [Some 7]
    \<and> perform (v2_ops 2 2) Flush s = Some s' \<and> fst (last (ss_heads s')) = of_nat (length (ss_sent s'))"
proof -
  obtain s where s: "reachable (v2_ops 2 2) s" "ss_got s = [Some (7 :: nat)]" using sample_variant_runs(3) by blast
  obtain s' where s': "perform (v2_ops 2 2) Flush s = Some s'" by (simp add: split_def Let_def)
  from batch_holds_back [OF sample_valid s(1) s'] s s' show ?thesis by blast
qed

end
