(* ===== verification/LatencyHistogram.thy ===== *)
theory LatencyHistogram
  imports Prelude "HOL-Library.Multiset"
begin

text \<open>
  The log-linear histogram \<open>include/LatencyHistogram.hpp\<close>: values below 128 have a bucket each, and every
  further doubling is split into 64 buckets. \<open>indexOf\<close>, \<open>lowestEquivalent\<close> and \<open>highestEquivalent\<close> work
  on 64-bit words as the code does; the lemmas show that the buckets partition all words in order.

  \<open>valueAtPercentile\<close> takes its rank from \<open>double\<close> arithmetic, which is a parameter here: \<open>positive p\<close> is
  the test \<open>p > 0\<close> and \<open>rank p n\<close> the converted product of the code. What is proved holds for every rank
  that this arithmetic may give. \<open>mean\<close>, a quotient of doubles, is left out.
\<close>

section \<open>The buckets\<close>

definition kSubBucketBits :: nat where
  "kSubBucketBits = 7"

definition kSubBucketCount :: nat where
  "kSubBucketCount = 2 ^ kSubBucketBits"

definition kSubBucketHalf :: nat where
  "kSubBucketHalf = kSubBucketCount div 2"

definition kBucketCount :: nat where
  "kBucketCount = (64 - kSubBucketBits + 2) * kSubBucketHalf"

text \<open>\<open>std::bit_width\<close>.\<close>

fun bit_width :: "nat \<Rightarrow> nat" where
  "bit_width n = (if n = 0 then 0 else Suc (bit_width (n div 2)))"

declare bit_width.simps [simp del]

definition indexOf :: "u64 \<Rightarrow> nat" where
  "indexOf value =
     (let width = bit_width (unat value);
          shift = (if width > kSubBucketBits then width - kSubBucketBits else 0)
      in shift * kSubBucketHalf + unat (drop_bit shift value))"

definition lowestEquivalent :: "nat \<Rightarrow> u64" where
  "lowestEquivalent index =
     (if index < kSubBucketCount then of_nat index
      else let shift = index div kSubBucketHalf - 1 in push_bit shift (of_nat (index - shift * kSubBucketHalf)))"

definition highestEquivalent :: "nat \<Rightarrow> u64" where
  "highestEquivalent index =
     (if index < kSubBucketCount then of_nat index
      else let shift = index div kSubBucketHalf - 1 in lowestEquivalent index + (push_bit shift 1 - 1))"

section \<open>The histogram\<close>

record histogram =
  lh_counts :: "u64 list"
  lh_count :: u64
  lh_sum :: u64
  lh_min :: u64
  lh_max :: u64

definition hist_new :: histogram where
  "hist_new = \<lparr>lh_counts = replicate kBucketCount 0, lh_count = 0, lh_sum = 0, lh_min = - 1, lh_max = 0\<rparr>"

definition hist_record :: "u64 \<Rightarrow> histogram \<Rightarrow> histogram option" where
  "hist_record value h =
     (if indexOf value < length (lh_counts h)
      then Some (h\<lparr>lh_counts := (lh_counts h)[indexOf value := lh_counts h ! indexOf value + 1],
                   lh_count := lh_count h + 1, lh_sum := lh_sum h + value,
                   lh_min := min (lh_min h) value, lh_max := max (lh_max h) value\<rparr>)
      else None)"

definition hist_min :: "histogram \<Rightarrow> u64" where
  "hist_min h = (if lh_count h \<noteq> 0 then lh_min h else 0)"

definition hist_max :: "histogram \<Rightarrow> u64" where
  "hist_max h = lh_max h"

definition hist_reset :: "histogram \<Rightarrow> histogram" where
  "hist_reset h = h\<lparr>lh_counts := replicate (length (lh_counts h)) 0, lh_count := 0, lh_sum := 0, lh_min := - 1, lh_max := 0\<rparr>"

text \<open>The loop over the buckets from the \<open>i\<close>-th on.\<close>

fun rank_loop :: "u64 \<Rightarrow> u64 \<Rightarrow> nat \<Rightarrow> u64 list \<Rightarrow> u64 \<Rightarrow> u64" where
  "rank_loop rank seen i [] largest = largest"
| "rank_loop rank seen i (c # cs) largest =
     (let seen = seen + c in
      if seen \<ge> rank then min (highestEquivalent i) largest else rank_loop rank seen (Suc i) cs largest)"

definition valueAtPercentile :: "('d \<Rightarrow> bool) \<Rightarrow> ('d \<Rightarrow> u64 \<Rightarrow> u64) \<Rightarrow> 'd \<Rightarrow> histogram \<Rightarrow> u64" where
  "valueAtPercentile positive rank percentile h =
     (if lh_count h = 0 then 0
      else if \<not> positive percentile then lh_min h
      else rank_loop (max 1 (rank percentile (lh_count h))) 0 0 (lh_counts h) (lh_max h))"

fun record_all :: "u64 list \<Rightarrow> histogram \<Rightarrow> histogram option" where
  "record_all [] h = Some h"
| "record_all (v # vs) h = do { h \<leftarrow> hist_record v h; record_all vs h }"

section \<open>The buckets, as ranges of naturals\<close>

lemma bucket_consts [simp]: "kSubBucketBits = 7" "kSubBucketCount = 128" "kSubBucketHalf = 64" "kBucketCount = 3776"
  by (simp_all add: kSubBucketBits_def kSubBucketCount_def kSubBucketHalf_def kBucketCount_def)

lemma bit_width_small [simp]: "bit_width 0 = 0" "bit_width (Suc 0) = 1"
  by (subst bit_width.simps, simp)+

lemma bit_width_range: "n < 2 ^ bit_width n \<and> (0 < n \<longrightarrow> 2 ^ (bit_width n - 1) \<le> n)"
proof (induction n rule: bit_width.induct)
  case (1 n)
  show ?case
  proof (cases "n \<le> 1")
    case True
    then have "n = 0 \<or> n = 1" by auto
    then show ?thesis by auto
  next
    case False
    then have ih: "n div 2 < 2 ^ bit_width (n div 2)" "2 ^ (bit_width (n div 2) - 1) \<le> n div 2" using 1 by auto
    have "0 < bit_width (n div 2)" using False by (subst bit_width.simps) auto
    then have "(2::nat) ^ bit_width (n div 2) = 2 * 2 ^ (bit_width (n div 2) - 1)"
      by (simp flip: power_Suc)
    then have "n < 2 * 2 ^ bit_width (n div 2)" "2 ^ bit_width (n div 2) \<le> n" using ih by linarith+
    moreover have "bit_width n = Suc (bit_width (n div 2))" using False by (subst bit_width.simps) simp
    ultimately show ?thesis by simp
  qed
qed

definition shift_at :: "nat \<Rightarrow> nat" where
  "shift_at i = (if i < 128 then 0 else i div 64 - 1)"

definition low_at :: "nat \<Rightarrow> nat" where
  "low_at i = (i - 64 * shift_at i) * 2 ^ shift_at i"

definition high_at :: "nat \<Rightarrow> nat" where
  "high_at i = low_at i + 2 ^ shift_at i - 1"

definition bucket_of :: "nat \<Rightarrow> nat" where
  "bucket_of n = (let s = bit_width n - 7 in s * 64 + n div 2 ^ s)"

lemma shift_at_le: "64 * shift_at i \<le> i"
proof -
  have "64 * (i div 64 - 1) \<le> 64 * (i div 64)" "64 * (i div 64) \<le> i" by simp_all
  then have "64 * (i div 64 - 1) \<le> i" by (rule le_trans)
  then show ?thesis by (simp add: shift_at_def)
qed

lemma bucket_of_shift:
  obtains s where "s = 0 \<and> n < 128 \<or> 64 \<le> n div 2 ^ s \<and> n div 2 ^ s < 128 \<and> 0 < s"
    "bucket_of n = s * 64 + n div 2 ^ s" "shift_at (bucket_of n) = s" "s = bit_width n - 7"
proof -
  define s where "s = bit_width n - 7"
  have b: "bucket_of n = s * 64 + n div 2 ^ s" by (simp add: bucket_of_def s_def Let_def)
  show thesis
  proof (cases "s = 0")
    case True
    then have "(2::nat) ^ bit_width n \<le> 2 ^ 7" unfolding s_def by (intro power_increasing) simp_all
    then have "n < 128" using bit_width_range [of n] by simp
    then show thesis using True b by (intro that [of s]) (simp_all add: shift_at_def s_def)
  next
    case False
    then have w: "bit_width n = 7 + s" "0 < s" unfolding s_def by linarith+
    then have "0 < n" by (cases n) simp_all
    then have "2 ^ (6 + s) \<le> n" "n < 2 ^ (7 + s)" using bit_width_range [of n] w by simp_all
    then have "64 * 2 ^ s \<le> n" "n < 128 * 2 ^ s" by (simp_all add: power_add)
    then have r: "64 \<le> n div 2 ^ s" "n div 2 ^ s < 128"
      using less_eq_div_iff_mult_less_eq [of "2 ^ s" 64 n] div_less_iff_less_mult [of "2 ^ s" n 128] by simp_all
    have "shift_at (s * 64 + x) = s" if "64 \<le> x" "x < 128" for x
    proof -
      have "(s * 64 + x) div 64 = s + 1" using that by (intro div_nat_eqI) simp_all
      moreover have "\<not> s * 64 + x < 128" using that w(2) by simp
      ultimately show ?thesis by (simp add: shift_at_def)
    qed
    from this [OF r] have "shift_at (bucket_of n) = s" unfolding b .
    then show thesis using r w(2) by (intro that [OF _ b _ s_def]) blast
  qed
qed

lemma bucket_range: "low_at (bucket_of n) \<le> n \<and> n \<le> high_at (bucket_of n)"
proof -
  obtain s where s: "bucket_of n = s * 64 + n div 2 ^ s" "shift_at (bucket_of n) = s" by (rule bucket_of_shift [of n])
  then have low: "low_at (bucket_of n) = n div 2 ^ s * 2 ^ s" by (simp add: low_at_def)
  moreover have "n mod 2 ^ s < 2 ^ s" by simp
  moreover have "n div 2 ^ s * 2 ^ s + n mod 2 ^ s = n" by (rule div_mult_mod_eq)
  ultimately show ?thesis unfolding high_at_def s(2) by linarith
qed

lemma next_bucket: "high_at i + 1 = low_at (Suc i)"
proof -
  have "0 < (2::nat) ^ shift_at i" by simp
  then have "high_at i + 1 = low_at i + 2 ^ shift_at i" unfolding high_at_def by linarith
  also have "\<dots> = low_at (Suc i)"
  proof (cases "Suc i mod 64 = 0 \<and> 128 \<le> i + 1")
    case True
    then obtain q where q: "Suc i = 64 * q" by (auto simp: mod_eq_0_iff_dvd dvd_def)
    then have "2 \<le> q" using True by simp
    then obtain r where r: "q = Suc (Suc r)" by (auto simp: le_iff_add)
    then have i: "i = 64 * r + 127" using q by simp
    then have "shift_at i = r" "shift_at (Suc i) = Suc r" by (auto simp: shift_at_def)
    then show ?thesis using i by (simp add: low_at_def)
  next
    case False
    have "shift_at (Suc i) = shift_at i"
    proof (cases "i < 127")
      case True
      then show ?thesis by (simp add: shift_at_def)
    next
      case big: False
      then have "Suc i mod 64 \<noteq> 0" using False by simp
      then have "Suc i div 64 = i div 64" by (simp add: div_Suc)
      moreover have "i \<noteq> 127" using \<open>Suc i mod 64 \<noteq> 0\<close> by auto
      ultimately show ?thesis using big by (simp add: shift_at_def)
    qed
    moreover have "64 * shift_at i \<le> i" by (rule shift_at_le)
    ultimately show ?thesis by (simp add: low_at_def Suc_diff_le add.commute)
  qed
  finally show ?thesis .
qed

lemma low_le_high: "low_at i \<le> high_at i"
  unfolding high_at_def by (simp add: le_diff_conv2 Suc_leI trans_le_add1)

lemma buckets_ordered: "i < j \<Longrightarrow> high_at i < low_at j"
proof (induction j)
  case (Suc j)
  show ?case
  proof (cases "i = j")
    case True
    then show ?thesis using next_bucket [of j] by simp
  next
    case False
    then have "high_at i < low_at j" using Suc by simp
    then show ?thesis using low_le_high [of j] next_bucket [of j] by linarith
  qed
qed simp

lemma bucket_iff: "bucket_of n = i \<longleftrightarrow> low_at i \<le> n \<and> n \<le> high_at i"
proof
  assume "low_at i \<le> n \<and> n \<le> high_at i"
  then show "bucket_of n = i"
    using bucket_range [of n] buckets_ordered [of i "bucket_of n"] buckets_ordered [of "bucket_of n" i]
    by (meson leD le_less_trans less_le_trans nat_neq_iff)
qed (use bucket_range in blast)

lemma bucket_le_iff: "bucket_of n \<le> i \<longleftrightarrow> n \<le> high_at i"
proof
  assume "bucket_of n \<le> i"
  then show "n \<le> high_at i" using bucket_range [of n] buckets_ordered [of "bucket_of n" i] low_le_high [of i]
    by (cases "bucket_of n = i") (auto dest: le_neq_implies_less)
next
  assume "n \<le> high_at i"
  then show "bucket_of n \<le> i" using bucket_range [of n] buckets_ordered [of i "bucket_of n"]
    by (meson leD le_less_trans not_le)
qed

lemma narrow: "64 * (high_at i - low_at i) \<le> low_at i"
proof (cases "i < 128")
  case True
  then show ?thesis by (simp add: high_at_def shift_at_def)
next
  case False
  then have "64 \<le> i - 64 * shift_at i" using div_times_less_eq_dividend [of i 64] by (simp add: shift_at_def)
  then have "64 * 2 ^ shift_at i \<le> low_at i" by (simp add: low_at_def)
  then show ?thesis by (simp add: high_at_def)
qed

section \<open>The functions on words\<close>

lemma unat_shifted: "unat (drop_bit s v :: u64) = unat v div 2 ^ s"
  by (simp add: unat_drop_bit_eq flip: drop_bit_eq_div)

lemma indexOf_bucket: "indexOf v = bucket_of (unat v)"
proof -
  have "(if bit_width n > 7 then bit_width n - 7 else 0) = bit_width n - 7" for n by simp
  then show ?thesis unfolding indexOf_def bucket_of_def Let_def unat_shifted bucket_consts by (simp only:)
qed

lemma top_bucket: "high_at 3775 = 2 ^ 64 - 1"
  by (simp add: high_at_def low_at_def shift_at_def)

lemma high_small: "i < 3776 \<Longrightarrow> high_at i < 2 ^ 64"
  using buckets_ordered [of i 3775] low_le_high [of 3775] top_bucket by (cases "i = 3775") auto

lemma indexOf_less: "indexOf v < 3776"
proof -
  have "unat v \<le> high_at 3775" using unat_u64_less [of v] top_bucket by simp
  then show ?thesis using bucket_le_iff [of "unat v" 3775] by (simp add: indexOf_bucket)
qed

lemma word_eq_nat: "of_nat (unat w) = (w :: u64)"
  by simp

lemma unat_lowest: "i < 3776 \<Longrightarrow> unat (lowestEquivalent i) = low_at i"
proof -
  assume i: "i < 3776"
  then have "low_at i < 2 ^ 64" using low_le_high high_small le_less_trans by blast
  moreover have "lowestEquivalent i = of_nat (low_at i)"
    by (simp add: lowestEquivalent_def low_at_def shift_at_def Let_def push_bit_eq_mult mult.commute)
  ultimately show ?thesis by simp
qed

lemma unat_highest: "i < 3776 \<Longrightarrow> unat (highestEquivalent i) = high_at i"
proof -
  assume i: "i < 3776"
  have "highestEquivalent i = lowestEquivalent i + (push_bit (shift_at i) 1 - 1)"
    by (simp add: highestEquivalent_def lowestEquivalent_def shift_at_def Let_def)
  also have "\<dots> = of_nat (low_at i) + (of_nat (2 ^ shift_at i) - 1)"
    using unat_lowest [OF i] by (simp add: word_eq_nat flip: unat_lowest [OF i])
  also have "\<dots> = of_nat (low_at i + (2 ^ shift_at i - 1))" unfolding of_nat_add by (simp add: of_nat_diff)
  also have "low_at i + (2 ^ shift_at i - 1) = high_at i" by (simp add: high_at_def)
  finally show ?thesis using high_small [OF i] by simp
qed

text \<open>The buckets partition all values. Every value has a bucket inside the array, lies between the ends
  of its bucket, and a value has bucket \<open>i\<close> exactly if it lies between the ends of \<open>i\<close>; the buckets are
  in order without gaps, and none is wider than a 64th of the values in it.\<close>

theorem buckets_partition:
  "indexOf v < kBucketCount \<and> lowestEquivalent (indexOf v) \<le> v \<and> v \<le> highestEquivalent (indexOf v)
    \<and> 64 * (unat (highestEquivalent (indexOf v)) - unat (lowestEquivalent (indexOf v))) \<le> unat v
    \<and> (i < kBucketCount \<longrightarrow> indexOf v = i \<longleftrightarrow> lowestEquivalent i \<le> v \<and> v \<le> highestEquivalent i)
    \<and> (Suc i < kBucketCount \<longrightarrow> lowestEquivalent (Suc i) = highestEquivalent i + 1)"
proof (intro conjI impI)
  note i = indexOf_less [of v]
  note range = bucket_range [of "unat v", folded indexOf_bucket]
  show "indexOf v < kBucketCount" "lowestEquivalent (indexOf v) \<le> v" "v \<le> highestEquivalent (indexOf v)"
    using i range by (simp_all add: word_le_nat_alt unat_lowest unat_highest)
  show "64 * (unat (highestEquivalent (indexOf v)) - unat (lowestEquivalent (indexOf v))) \<le> unat v"
    using narrow [of "indexOf v"] range by (simp add: unat_lowest [OF i] unat_highest [OF i])
  show "indexOf v = i \<longleftrightarrow> lowestEquivalent i \<le> v \<and> v \<le> highestEquivalent i" if "i < kBucketCount"
    using that bucket_iff [of "unat v" i] by (simp add: word_le_nat_alt unat_lowest unat_highest indexOf_bucket)
  show "lowestEquivalent (Suc i) = highestEquivalent i + 1" if "Suc i < kBucketCount"
  proof -
    have "Suc (unat (highestEquivalent i)) = unat (lowestEquivalent (Suc i))"
      using that next_bucket [of i] by (simp add: unat_lowest unat_highest)
    then have "of_nat (Suc (unat (highestEquivalent i))) = (of_nat (unat (lowestEquivalent (Suc i))) :: u64)" by (rule arg_cong)
    then show ?thesis by (simp add: add.commute)
  qed
qed

theorem buckets_partition_witness:
  "indexOf 1000 = 317 \<and> lowestEquivalent 317 \<le> 1000 \<and> 1000 \<le> highestEquivalent 317 \<and> lowestEquivalent 318 = highestEquivalent 317 + 1"
proof -
  have "indexOf 1000 = 317" by code_simp
  then show ?thesis using buckets_partition [of 1000 317] by simp
qed

section \<open>What a histogram holds\<close>

definition holds :: "u64 list \<Rightarrow> histogram \<Rightarrow> bool" where
  "holds vs h \<longleftrightarrow> length (lh_counts h) = 3776
     \<and> (\<forall>i<3776. lh_counts h ! i = of_nat (length (filter (\<lambda>v. indexOf v = i) vs)))
     \<and> lh_count h = of_nat (length vs) \<and> lh_sum h = sum_list vs
     \<and> lh_min h = Min (insert (- 1) (set vs)) \<and> lh_max h = Max (insert 0 (set vs))"

lemma holds_new: "holds [] hist_new"
  by (simp add: holds_def hist_new_def)

lemma max_word: "Max (insert 0 (insert v V)) = max v (Max (insert 0 V))" if "finite V" for v :: u64
  using that Max_insert [of "insert 0 V" v] by (simp only: insert_commute finite_insert insert_not_empty simp_thms)

lemma min_word: "Min (insert (- 1) (insert v V)) = min v (Min (insert (- 1) V))" if "finite V" for v :: u64
  using that Min_insert [of "insert (- 1) V" v] by (simp only: insert_commute finite_insert insert_not_empty simp_thms)

lemma holds_record: "holds vs h \<Longrightarrow> \<exists>h'. hist_record v h = Some h' \<and> holds (vs @ [v]) h'"
  by (auto simp del: Max_insert Min_insert simp: max_word min_word min_word [unfolded insert_commute [of "- 1"]] holds_def hist_record_def indexOf_less nth_list_update insert_commute min.commute max.commute)

lemma holds_all: "holds vs h \<Longrightarrow> \<exists>h'. record_all ws h = Some h' \<and> holds (vs @ ws) h'"
proof (induction ws arbitrary: vs h)
  case (Cons w ws)
  from holds_record [OF Cons.prems, of w] obtain h1 where h1: "hist_record w h = Some h1" "holds (vs @ [w]) h1" by blast
  from Cons.IH [OF h1(2)] h1(1) show ?case by simp
qed simp

text \<open>How many values lie in the buckets before \<open>i\<close>.\<close>

definition below :: "nat \<Rightarrow> u64 list \<Rightarrow> nat" where
  "below i vs = length (filter (\<lambda>v. indexOf v < i) vs)"

lemma below_Suc: "below (Suc i) vs = below i vs + length (filter (\<lambda>v. indexOf v = i) vs)"
  unfolding below_def by (induction vs) auto

lemma below_0 [simp]: "below 0 vs = 0"
  by (simp add: below_def)

lemma below_all: "below 3776 vs = length vs"
  by (simp add: below_def indexOf_less)

lemma below_le: "below i vs \<le> length vs"
  by (simp add: below_def)

lemma rank_loop_spec:
  assumes "length vs < 2 ^ 64"
  shows "cs = map (\<lambda>i. of_nat (length (filter (\<lambda>v. indexOf v = i) vs))) [i ..< 3776] \<Longrightarrow> i \<le> 3776 \<Longrightarrow> below i vs < unat r \<Longrightarrow>
     (if unat r \<le> length vs
      then \<exists>j<3776. rank_loop r (of_nat (below i vs)) i cs m = min (highestEquivalent j) m \<and> below j vs < unat r \<and> unat r \<le> below (Suc j) vs
      else rank_loop r (of_nat (below i vs)) i cs m = m)"
proof (induction cs arbitrary: i)
  case Nil
  then have "i = 3776" by simp
  then show ?case using Nil below_all [of vs] by simp
next
  case (Cons c cs)
  then have i: "i < 3776" by (cases "i = 3776") auto
  then have c: "c = of_nat (length (filter (\<lambda>v. indexOf v = i) vs))"
    "cs = map (\<lambda>i. of_nat (length (filter (\<lambda>v. indexOf v = i) vs))) [Suc i ..< 3776]"
    using Cons.prems(1) by (simp_all add: upt_conv_Cons del: upt_Suc)
  have s: "of_nat (below i vs) + c = of_nat (below (Suc i) vs)" by (simp add: c(1) below_Suc)
  have "r \<le> of_nat (below (Suc i) vs) \<longleftrightarrow> unat r \<le> below (Suc i) vs"
    using below_le [of "Suc i" vs] assms by (simp add: word_le_nat_alt)
  then show ?case using Cons.IH [OF c(2)] i Cons.prems(3) below_le [of "Suc i" vs]
    by (cases "unat r \<le> below (Suc i) vs") (auto simp: Let_def s)
qed

text \<open>The value of a rank, against a threshold.\<close>

lemma sorted_nth_le:
  assumes "1 \<le> r" "r \<le> length vs"
  shows "sort vs ! (r - 1) \<le> x \<longleftrightarrow> r \<le> length (filter (\<lambda>v. v \<le> x) (vs :: u64 list))"
proof -
  let ?s = "sort vs" and ?k = "length (filter (\<lambda>v. v \<le> x) (sort vs))"
  have "sorted l \<Longrightarrow> filter (\<lambda>v. v \<le> x) l = takeWhile (\<lambda>v. v \<le> x) l" for l
  proof (induction l)
    case (Cons a l)
    show ?case
    proof (cases "a \<le> x")
      case False
      then have "\<forall>y\<in>set l. \<not> y \<le> x" using Cons.prems by auto
      then have "filter (\<lambda>v. v \<le> x) l = []" by (simp add: filter_empty_conv)
      then show ?thesis using False by simp
    qed (use Cons in simp)
  qed simp
  then have "filter (\<lambda>v. v \<le> x) ?s = takeWhile (\<lambda>v. v \<le> x) ?s" by simp
  moreover have "length (filter (\<lambda>v. v \<le> x) vs) = ?k"
    by (metis mset_filter mset_sort size_mset)
  ultimately have k: "length (filter (\<lambda>v. v \<le> x) vs) = length (takeWhile (\<lambda>v. v \<le> x) ?s)" by simp
  show ?thesis
  proof
    assume "r \<le> length (filter (\<lambda>v. v \<le> x) vs)"
    then have "r - 1 < length (takeWhile (\<lambda>v. v \<le> x) ?s)" using k assms(1) by simp
    then show "?s ! (r - 1) \<le> x" by (metis nth_mem set_takeWhileD takeWhile_nth)
  next
    assume le: "?s ! (r - 1) \<le> x"
    show "r \<le> length (filter (\<lambda>v. v \<le> x) vs)"
    proof (rule ccontr)
      assume "\<not> r \<le> length (filter (\<lambda>v. v \<le> x) vs)"
      then have t: "length (takeWhile (\<lambda>v. v \<le> x) ?s) \<le> r - 1" "r - 1 < length ?s" using k assms by simp_all
      then have "\<not> ?s ! length (takeWhile (\<lambda>v. v \<le> x) ?s) \<le> x" by (meson le_less_trans nth_length_takeWhile)
      moreover have "?s ! length (takeWhile (\<lambda>v. v \<le> x) ?s) \<le> ?s ! (r - 1)" using t by (intro sorted_nth_mono) simp_all
      ultimately show False using le by simp
    qed
  qed
qed

lemma below_filter: "Suc i \<le> 3776 \<Longrightarrow> below (Suc i) vs = length (filter (\<lambda>v. v \<le> highestEquivalent i) vs)"
proof -
  assume i: "Suc i \<le> 3776"
  have "indexOf v < Suc i \<longleftrightarrow> v \<le> highestEquivalent i" for v
    using bucket_le_iff [of "unat v" i] i by (simp add: indexOf_bucket word_le_nat_alt unat_highest less_Suc_eq_le)
  then show ?thesis by (simp add: below_def)
qed

text \<open>The reported value against the exact one.\<close>

lemma rank_value:
  assumes "j < 3776" "below j vs < r" "r \<le> below (Suc j) vs" "r \<le> length vs"
  shows "let w = sort vs ! (r - 1) in w \<le> highestEquivalent j
    \<and> 64 * (unat (highestEquivalent j) - unat w) \<le> unat w"
proof -
  let ?w = "sort vs ! (r - 1)"
  have r: "1 \<le> r" using assms(2) by simp
  have up: "?w \<le> highestEquivalent j"
    using sorted_nth_le [OF r assms(4)] assms(1,3) by (simp add: below_filter)
  have low: "low_at j \<le> unat ?w"
  proof (cases j)
    case 0
    then show ?thesis by (simp add: low_at_def shift_at_def)
  next
    case (Suc k)
    then have "\<not> ?w \<le> highestEquivalent k"
      using sorted_nth_le [OF r assms(4)] assms(1,2) below_filter [of k vs] by simp
    then have "high_at k < unat ?w" using assms(1) Suc by (simp add: word_le_nat_alt unat_highest)
    then show ?thesis using next_bucket [of k] Suc by simp
  qed
  have "unat (highestEquivalent j) - unat ?w \<le> high_at j - low_at j" using low assms(1) by (simp add: unat_highest)
  then have "64 * (unat (highestEquivalent j) - unat ?w) \<le> unat ?w" using narrow [of j] low by linarith
  then show ?thesis using up by (simp add: Let_def)
qed

lemma recorded:
  assumes "length vs < 2 ^ 64"
  obtains h where "record_all vs hist_new = Some h" "holds vs h"
  using holds_all [OF holds_new, of vs] by auto

lemma loop_value:
  assumes "holds vs h" "length vs < 2 ^ 64" "1 \<le> unat r"
  shows "if unat r \<le> length vs
    then \<exists>j<3776. rank_loop r 0 0 (lh_counts h) m = min (highestEquivalent j) m \<and> below j vs < unat r \<and> unat r \<le> below (Suc j) vs
    else rank_loop r 0 0 (lh_counts h) m = m"
proof -
  have "lh_counts h = map (\<lambda>i. of_nat (length (filter (\<lambda>v. indexOf v = i) vs))) [0 ..< 3776]"
    using assms(1) by (intro nth_equalityI) (simp_all add: holds_def del: upt_Suc)
  from rank_loop_spec [OF assms(2) this, of r m, unfolded below_0] assms(3) show ?thesis
    by (auto split: if_splits)
qed

text \<open>C29. The reported percentile. After recording any values (fewer than \<open>2 ^ 64\<close>) the histogram counts them
  and knows the smallest and the largest; whatever rank the floating-point product gives, the reported
  value is at least the value of that rank in the sorted recording, exceeds it by at most a 64th of
  it, and never exceeds the largest recorded value; for a rank beyond the count it is the largest.\<close>

theorem percentile_accurate:
  assumes "vs \<noteq> []" "length vs < 2 ^ 64" "positive p"
  shows "\<exists>h. record_all vs hist_new = Some h \<and> lh_count h = of_nat (length vs)
    \<and> hist_min h = Min (set vs) \<and> hist_max h = Max (set vs)
    \<and> (let r = unat (max 1 (rank p (lh_count h))); x = valueAtPercentile positive rank p h
       in if r \<le> length vs
          then (let w = sort vs ! (r - 1) in w \<le> x \<and> 64 * (unat x - unat w) \<le> unat w \<and> x \<le> Max (set vs))
          else x = Max (set vs))"
proof -
  obtain h where h: "record_all vs hist_new = Some h" "holds vs h" by (rule recorded [OF assms(2)])
  have count: "lh_count h = of_nat (length vs)" "of_nat (length vs) \<noteq> (0 :: u64)"
    using h(2) assms(1,2) by (simp_all add: holds_def word_unat_eq_iff)
  have mx: "lh_max h = Max (set vs)" and mn: "lh_min h = Min (set vs)"
    using h(2) assms(1) by (simp_all add: holds_def max_absorb2 min_absorb2)
  define r where "r = max 1 (rank p (lh_count h))"
  have r: "1 \<le> unat r" by (simp add: r_def word_le_nat_alt [symmetric] max_def) (simp add: word_le_nat_alt)
  have x: "valueAtPercentile positive rank p h = rank_loop r 0 0 (lh_counts h) (Max (set vs))"
    using count assms(3) by (simp add: valueAtPercentile_def r_def mx)
  have "if unat r \<le> length vs
    then let w = sort vs ! (unat r - 1); x = valueAtPercentile positive rank p h
      in w \<le> x \<and> 64 * (unat x - unat w) \<le> unat w \<and> x \<le> Max (set vs)
    else valueAtPercentile positive rank p h = Max (set vs)"
  proof (cases "unat r \<le> length vs")
    case True
    with loop_value [OF h(2) assms(2) r, of "Max (set vs)"] obtain j where
      j: "j < 3776" "valueAtPercentile positive rank p h = min (highestEquivalent j) (Max (set vs))"
      "below j vs < unat r" "unat r \<le> below (Suc j) vs" by (auto simp: x)
    let ?w = "sort vs ! (unat r - 1)"
    have "?w \<in> set vs" using True r by (metis Suc_le_lessD Suc_pred diff_less length_sort less_le_trans nth_mem set_sort zero_less_one)
    then have "?w \<le> Max (set vs)" by simp
    moreover note rank_value [OF j(1,3,4) True]
    moreover have "unat (min (highestEquivalent j) (Max (set vs))) \<le> unat (highestEquivalent j)"
      by (simp add: word_le_nat_alt [symmetric])
    ultimately show ?thesis using True by (auto simp: j(2) Let_def)
  next
    case False
    then show ?thesis using loop_value [OF h(2) assms(2) r, of "Max (set vs)"] by (simp add: x)
  qed
  then show ?thesis using h(1) count mx mn by (auto simp: hist_min_def hist_max_def r_def Let_def)
qed

lemma percentile_accurate_witness:
  "\<exists>h. record_all [5, 1000, 70] hist_new = Some h
    \<and> 70 \<le> valueAtPercentile (\<lambda>_. True) (\<lambda>p _. p) 2 h
    \<and> 64 * (unat (valueAtPercentile (\<lambda>_. True) (\<lambda>p _. p) 2 h) - 70) \<le> 70"
proof -
  have s: "sort [5, 1000, 70 :: u64] = [5, 70, 1000]" by (simp add: word_le_nat_alt)
  have m: "max 1 2 = (2 :: u64)" by (simp add: max_def word_le_nat_alt)
  have n: "[5, 1000, 70 :: u64] \<noteq> []" "length [5, 1000, 70 :: u64] < 2 ^ 64" by simp_all
  from percentile_accurate [OF n, of "\<lambda>_ :: u64. True" 2 "\<lambda>p _. p"] show ?thesis
    by (auto simp: Let_def s m)
qed

end
