(* ===== verification/LegacyOrderBook.thy ===== *)
theory LegacyOrderBook
  imports Prelude "HOL-Library.Multiset"
begin

text \<open>
  The original order book: \<open>include/Order.hpp\<close> and \<open>include/OrderBook.hpp\<close>, a sorted vector of orders per
  side that matches crossing orders itself.

  \<open>Price\<close> is a \<open>double\<close> in the code. The book only compares and copies prices, so the model takes them
  from any linear order: this is what IEEE comparison is on numbers, NaN excluded. The clock that
  stamps the trades is a parameter. Printing is left out.
\<close>

section \<open>Orders and trades\<close>

datatype order_side = Buy | Sell

record 'p resting =
  lo_id :: u64
  lo_side :: order_side
  lo_price :: 'p
  lo_quantity :: u32
  lo_timestamp :: u64

record 'p exec_trade =
  tr_price :: 'p
  tr_quantity :: u32
  tr_buyOrderId :: u64
  tr_sellOrderId :: u64
  tr_timestamp :: u64

text \<open>The constructor reads the clock.\<close>

definition order_new :: "u64 \<Rightarrow> order_side \<Rightarrow> 'p \<Rightarrow> u32 \<Rightarrow> u64 \<Rightarrow> 'p resting" where
  "order_new i s p q now = \<lparr>lo_id = i, lo_side = s, lo_price = p, lo_quantity = q, lo_timestamp = now\<rparr>"

record 'p legacy_book =
  lb_bids :: "'p resting list"
  lb_asks :: "'p resting list"

definition legacy_new :: "'p legacy_book" where
  "legacy_new = \<lparr>lb_bids = [], lb_asks = []\<rparr>"

section \<open>Adding and matching\<close>

text \<open>\<open>std::lower_bound\<close> on a range that the comparison partitions: the first element that is not before
  the order. Then \<open>insert\<close> at that place.\<close>

definition insert_at :: "nat \<Rightarrow> 'a \<Rightarrow> 'a list \<Rightarrow> 'a list" where
  "insert_at i x xs = take i xs @ x # drop i xs"

definition lower_bound :: "('a \<Rightarrow> 'a \<Rightarrow> bool) \<Rightarrow> 'a \<Rightarrow> 'a list \<Rightarrow> nat" where
  "lower_bound lt x xs = length (takeWhile (\<lambda>y. lt y x) xs)"

definition legacy_add :: "'p::linorder resting \<Rightarrow> 'p legacy_book \<Rightarrow> 'p legacy_book" where
  "legacy_add x b =
     (if lo_side x = Buy
      then b\<lparr>lb_bids := insert_at (lower_bound (\<lambda>a b. lo_price a > lo_price b) x (lb_bids b)) x (lb_bids b)\<rparr>
      else b\<lparr>lb_asks := insert_at (lower_bound (\<lambda>a b. lo_price a < lo_price b) x (lb_asks b)) x (lb_asks b)\<rparr>)"

text \<open>An order whose quantity is used up leaves the front of its vector.\<close>

definition erase_if_done :: "'p resting \<Rightarrow> 'p resting list \<Rightarrow> 'p resting list" where
  "erase_if_done x xs = (if lo_quantity x = 0 then xs else x # xs)"

function match_loop ::
    "(nat \<Rightarrow> u64) \<Rightarrow> 'p::linorder resting list \<Rightarrow> 'p resting list \<Rightarrow> 'p exec_trade list \<Rightarrow> 'p legacy_book \<times> 'p exec_trade list" where
  "match_loop clock [] asks trades = (\<lparr>lb_bids = [], lb_asks = asks\<rparr>, trades)"
| "match_loop clock (b # bids) [] trades = (\<lparr>lb_bids = b # bids, lb_asks = []\<rparr>, trades)"
| "match_loop clock (b # bids) (a # asks) trades =
     (if lo_price b \<ge> lo_price a
      then let qty = min (lo_quantity b) (lo_quantity a);
               trades = trades @ [\<lparr>tr_price = lo_price a, tr_quantity = qty, tr_buyOrderId = lo_id b,
                                   tr_sellOrderId = lo_id a, tr_timestamp = clock (length trades)\<rparr>];
               b = b\<lparr>lo_quantity := lo_quantity b - qty\<rparr>;
               a = a\<lparr>lo_quantity := lo_quantity a - qty\<rparr>
           in match_loop clock (erase_if_done b bids) (erase_if_done a asks) trades
      else (\<lparr>lb_bids = b # bids, lb_asks = a # asks\<rparr>, trades))"
  by pat_completeness auto

lemma match_progress:
  "length (erase_if_done (b\<lparr>lo_quantity := lo_quantity b - min (lo_quantity b) (lo_quantity a)\<rparr>) bids)
   + length (erase_if_done (a\<lparr>lo_quantity := lo_quantity a - min (lo_quantity b) (lo_quantity a)\<rparr>) asks)
     < length (b # bids) + length (a # asks)"
  by (auto simp: erase_if_done_def min_def)

termination match_loop
  by (relation "measure (\<lambda>(clock, bids, asks, trades). length bids + length asks)")
    (auto intro: match_progress [simplified])

definition match_book :: "(nat \<Rightarrow> u64) \<Rightarrow> 'p::linorder legacy_book \<Rightarrow> 'p legacy_book \<times> 'p exec_trade list" where
  "match_book clock b = match_loop clock (lb_bids b) (lb_asks b) []"

section \<open>The book stays sorted\<close>

definition sides_sorted :: "'p::linorder legacy_book \<Rightarrow> bool" where
  "sides_sorted b \<longleftrightarrow> sorted_wrt (\<lambda>x y. lo_price x \<ge> lo_price y) (lb_bids b)
     \<and> sorted_wrt (\<lambda>x y. lo_price x \<le> lo_price y) (lb_asks b)
     \<and> (\<forall>x\<in>set (lb_bids b). lo_side x = Buy) \<and> (\<forall>x\<in>set (lb_asks b). lo_side x = Sell)"

lemma insert_split: "insert_at (lower_bound lt x xs) x xs = takeWhile (\<lambda>y. lt y x) xs @ x # dropWhile (\<lambda>y. lt y x) xs"
  unfolding insert_at_def lower_bound_def dropWhile_eq_drop by (simp flip: takeWhile_eq_take)

lemma insert_sorted_wrt:
  assumes "\<And>y. P y \<Longrightarrow> R y x" "\<And>y. \<not> P y \<Longrightarrow> R x y" "\<And>y z. R y z \<Longrightarrow> P z \<Longrightarrow> P y"
  shows "sorted_wrt R xs \<Longrightarrow> sorted_wrt R (takeWhile P xs @ x # dropWhile P xs)"
proof (induction xs)
  case (Cons a xs)
  have "set (takeWhile P xs @ x # dropWhile P xs) = insert x (set xs)"
    using set_append [of "takeWhile P xs" "dropWhile P xs"] by auto
  moreover have "\<not> P a \<Longrightarrow> y \<in> set xs \<Longrightarrow> R x y" for y using Cons.prems assms(2,3) by (metis sorted_wrt.simps(2))
  ultimately show ?case using Cons assms by (cases "P a") auto
qed simp

lemma insert_bids_sorted:
  "sorted_wrt (\<lambda>x y. lo_price x \<ge> (lo_price y :: 'p::linorder)) xs \<Longrightarrow> sorted_wrt (\<lambda>x y. lo_price x \<ge> lo_price y)
    (insert_at (lower_bound (\<lambda>a b. lo_price a > lo_price b) x xs) x xs)"
  unfolding insert_split by (rule insert_sorted_wrt) auto

lemma insert_asks_sorted:
  "sorted_wrt (\<lambda>x y. lo_price x \<le> (lo_price y :: 'p::linorder)) xs \<Longrightarrow> sorted_wrt (\<lambda>x y. lo_price x \<le> lo_price y)
    (insert_at (lower_bound (\<lambda>a b. lo_price a < lo_price b) x xs) x xs)"
  unfolding insert_split by (rule insert_sorted_wrt) auto

lemma mset_insert_at [simp]: "mset (insert_at i x xs) = add_mset x (mset xs)"
proof -
  have "mset (take i xs) + mset (drop i xs) = mset xs" by (metis append_take_drop_id mset_append)
  then show ?thesis by (simp add: insert_at_def)
qed

lemma set_insert_at [simp]: "set (insert_at i x xs) = insert x (set xs)"
  by (metis mset_insert_at set_mset_add_mset_insert set_mset_mset)

lemma legacy_add_sorted: "sides_sorted b \<Longrightarrow> sides_sorted (legacy_add x b)"
  using insert_bids_sorted [of "lb_bids b" x] insert_asks_sorted [of "lb_asks b" x]
  by (cases "lo_side x") (auto simp: sides_sorted_def legacy_add_def)

section \<open>What matching does\<close>

definition total_quantity :: "'p resting list \<Rightarrow> nat" where
  "total_quantity xs = sum_list (map (\<lambda>x. unat (lo_quantity x)) xs)"

definition traded :: "'p exec_trade list \<Rightarrow> nat" where
  "traded ts = sum_list (map (\<lambda>t. unat (tr_quantity t)) ts)"

text \<open>A trade takes from a bid and an ask that were in the book, at the price of the ask.\<close>

definition trade_between :: "'p::linorder resting list \<Rightarrow> 'p resting list \<Rightarrow> 'p exec_trade \<Rightarrow> bool" where
  "trade_between bids asks t \<longleftrightarrow> (\<exists>b\<in>set bids. \<exists>a\<in>set asks. tr_buyOrderId t = lo_id b \<and> tr_sellOrderId t = lo_id a
     \<and> tr_price t = lo_price a \<and> lo_price a \<le> lo_price b \<and> tr_quantity t \<le> lo_quantity b \<and> tr_quantity t \<le> lo_quantity a)"

text \<open>What is left of an order: the same order, with no more than it had.\<close>

definition remains_of :: "'p resting list \<Rightarrow> 'p resting list \<Rightarrow> bool" where
  "remains_of xs ys \<longleftrightarrow> (\<forall>y\<in>set ys. \<exists>x\<in>set xs. \<exists>q\<le>lo_quantity x. y = x\<lparr>lo_quantity := q\<rparr>)"

lemma remains_self: "x = x\<lparr>lo_quantity := lo_quantity x\<rparr>"
  by simp

lemma remains_refl: "remains_of xs xs"
  unfolding remains_of_def using remains_self by blast

lemma remains_obtain:
  assumes "remains_of xs ys" "y \<in> set ys"
  obtains x q where "x \<in> set xs" "q \<le> lo_quantity x" "y = x\<lparr>lo_quantity := q\<rparr>"
  using assms unfolding remains_of_def by blast

lemma remains_trans: "remains_of xs ys \<Longrightarrow> remains_of ys zs \<Longrightarrow> remains_of xs zs"
  unfolding remains_of_def [of xs zs]
proof
  fix z assume r: "remains_of xs ys" "remains_of ys zs" and z: "z \<in> set zs"
  from r(2) z obtain y p where y: "y \<in> set ys" "p \<le> lo_quantity y" "z = y\<lparr>lo_quantity := p\<rparr>" by (rule remains_obtain)
  from r(1) y(1) obtain x q where x: "x \<in> set xs" "q \<le> lo_quantity x" "y = x\<lparr>lo_quantity := q\<rparr>" by (rule remains_obtain)
  have "z = x\<lparr>lo_quantity := p\<rparr>" "p \<le> lo_quantity x" using x(2,3) y(2,3) by auto
  then show "\<exists>x\<in>set xs. \<exists>q\<le>lo_quantity x. z = x\<lparr>lo_quantity := q\<rparr>" using x(1) by blast
qed

lemma remains_reduced: "q \<le> lo_quantity x \<Longrightarrow> remains_of (x # xs) (erase_if_done (x\<lparr>lo_quantity := q\<rparr>) xs)"
  using remains_refl [of xs] by (auto simp: remains_of_def erase_if_done_def)

lemma trade_earlier: "trade_between bids' asks' t \<Longrightarrow> remains_of bids bids' \<Longrightarrow> remains_of asks asks' \<Longrightarrow> trade_between bids asks t"
proof -
  assume t: "trade_between bids' asks' t" and r: "remains_of bids bids'" "remains_of asks asks'"
  from t obtain b a where ba: "b \<in> set bids'" "a \<in> set asks'" "tr_buyOrderId t = lo_id b" "tr_sellOrderId t = lo_id a"
    "tr_price t = lo_price a" "lo_price a \<le> lo_price b" "tr_quantity t \<le> lo_quantity b" "tr_quantity t \<le> lo_quantity a"
    unfolding trade_between_def by blast
  from r(1) ba(1) obtain x q where x: "x \<in> set bids" "q \<le> lo_quantity x" "b = x\<lparr>lo_quantity := q\<rparr>" by (rule remains_obtain)
  from r(2) ba(2) obtain y p where y: "y \<in> set asks" "p \<le> lo_quantity y" "a = y\<lparr>lo_quantity := p\<rparr>" by (rule remains_obtain)
  have "tr_buyOrderId t = lo_id x" "tr_sellOrderId t = lo_id y" "tr_price t = lo_price y"
    "lo_price y \<le> lo_price x" "tr_quantity t \<le> lo_quantity x" "tr_quantity t \<le> lo_quantity y"
    using ba x(2,3) y(2,3) by auto
  then show ?thesis using x(1) y(1) unfolding trade_between_def by blast
qed

lemma quantity_reduced: "q \<le> lo_quantity x \<Longrightarrow>
    total_quantity (x # xs) = unat q + total_quantity (erase_if_done (x\<lparr>lo_quantity := lo_quantity x - q\<rparr>) xs)"
  by (auto simp: total_quantity_def erase_if_done_def word_le_nat_alt unat_sub)

definition uncrossed :: "'p::linorder legacy_book \<Rightarrow> bool" where
  "uncrossed b \<longleftrightarrow> lb_bids b = [] \<or> lb_asks b = [] \<or> lo_price (hd (lb_bids b)) < lo_price (hd (lb_asks b))"

lemma match_loop_correct:
  "match_loop clock bids asks ts = (b, ts') \<Longrightarrow> \<exists>new. ts' = ts @ new \<and> uncrossed b
    \<and> remains_of bids (lb_bids b) \<and> remains_of asks (lb_asks b)
    \<and> total_quantity bids = total_quantity (lb_bids b) + traded new
    \<and> total_quantity asks = total_quantity (lb_asks b) + traded new
    \<and> (\<forall>t\<in>set new. trade_between bids asks t)"
proof (induction clock bids asks ts arbitrary: b ts' rule: match_loop.induct)
  case (3 clock x bids y asks ts)
  show ?case
  proof (cases "lo_price x \<ge> lo_price y")
    case False
    then show ?thesis using 3(2) remains_refl by (auto simp: uncrossed_def traded_def)
  next
    case True
    define q where "q = min (lo_quantity x) (lo_quantity y)"
    define t where "t = \<lparr>tr_price = lo_price y, tr_quantity = q, tr_buyOrderId = lo_id x, tr_sellOrderId = lo_id y,
      tr_timestamp = clock (length ts)\<rparr>"
    let ?bids = "erase_if_done (x\<lparr>lo_quantity := lo_quantity x - q\<rparr>) bids"
    let ?asks = "erase_if_done (y\<lparr>lo_quantity := lo_quantity y - q\<rparr>) asks"
    have q: "q \<le> lo_quantity x" "q \<le> lo_quantity y" by (simp_all add: q_def)
    have le: "lo_quantity x - q \<le> lo_quantity x" "lo_quantity y - q \<le> lo_quantity y"
      using q by (simp_all add: word_le_nat_alt unat_sub)
    have "match_loop clock ?bids ?asks (ts @ [t]) = (b, ts')"
      using 3(2) True by (simp add: Let_def q_def [symmetric] t_def [symmetric])
    from 3(1) [OF True q_def _ refl refl, unfolded t_def [symmetric], OF refl this] obtain new where
      new: "ts' = (ts @ [t]) @ new" "uncrossed b" "remains_of ?bids (lb_bids b)" "remains_of ?asks (lb_asks b)"
      "total_quantity ?bids = total_quantity (lb_bids b) + traded new"
      "total_quantity ?asks = total_quantity (lb_asks b) + traded new"
      "\<forall>t\<in>set new. trade_between ?bids ?asks t" by blast
    note rb = remains_reduced [OF le(1), of bids] and ra = remains_reduced [OF le(2), of asks]
    have "trade_between (x # bids) (y # asks) t" using True q by (auto simp: trade_between_def t_def)
    then have "\<forall>t\<in>set (t # new). trade_between (x # bids) (y # asks) t"
      using new(7) trade_earlier [OF _ rb ra] by simp
    moreover have "traded (t # new) = unat q + traded new" by (simp add: traded_def t_def)
    ultimately show ?thesis
      using new(1,2,5,6) remains_trans [OF rb new(3)] remains_trans [OF ra new(4)]
        quantity_reduced [OF q(1), of bids] quantity_reduced [OF q(2), of asks]
      by (intro exI [of _ "t # new"]) simp
  qed
qed (auto simp: uncrossed_def traded_def intro: remains_refl)

lemma erase_sorted:
  assumes "\<And>q y. R (x\<lparr>lo_quantity := q\<rparr>) y = R x y"
  shows "sorted_wrt R (x # xs) \<Longrightarrow> sorted_wrt R (erase_if_done (x\<lparr>lo_quantity := q\<rparr>) xs)"
  using assms by (auto simp: erase_if_done_def)

lemma match_loop_sorted:
  "match_loop clock bids asks ts = (b, ts') \<Longrightarrow> sorted_wrt (\<lambda>x y. lo_price x \<ge> lo_price y) bids \<Longrightarrow>
    sorted_wrt (\<lambda>x y. lo_price x \<le> lo_price y) asks \<Longrightarrow> \<forall>x\<in>set bids. lo_side x = Buy \<Longrightarrow> \<forall>x\<in>set asks. lo_side x = Sell \<Longrightarrow>
    sides_sorted b"
proof (induction clock bids asks ts arbitrary: b ts' rule: match_loop.induct)
  case (3 clock x bids y asks ts)
  show ?case
  proof (cases "lo_price x \<ge> lo_price y")
    case True
    show ?thesis
      by (rule 3(1) [OF True refl refl refl refl, of b ts'])
        (use 3(2-6) True in \<open>auto simp: Let_def erase_if_done_def split: if_splits\<close>)
  next
    case False
    then show ?thesis using 3(2-6) by (auto simp: sides_sorted_def)
  qed
qed (auto simp: sides_sorted_def)

lemma legacy_new_sorted: "sides_sorted legacy_new"
  by (simp add: sides_sorted_def legacy_new_def)

lemma uncrossed_all:
  assumes "uncrossed b" "sides_sorted b" "x \<in> set (lb_bids b)" "y \<in> set (lb_asks b)"
  shows "lo_price x < lo_price y"
proof -
  obtain x' xs where x: "lb_bids b = x' # xs" using assms(3) by (cases "lb_bids b") auto
  obtain y' ys where y: "lb_asks b = y' # ys" using assms(4) by (cases "lb_asks b") auto
  have "lo_price x \<le> lo_price x'" "lo_price y' \<le> lo_price y" "lo_price x' < lo_price y'"
    using assms x y by (auto simp: sides_sorted_def uncrossed_def)
  then show ?thesis by order
qed

text \<open>C28. What match() does: from a sorted book it leaves a sorted book in which every bid is below every
  ask and every order is what remains of one that was there; each side gives up exactly the quantity
  that was traded, and every trade is between a bid and an ask of the book at the price of the ask, which
  the bid accepted, for no more than either had.\<close>

theorem match_conserves:
  assumes "sides_sorted b" "match_book clock b = (b', trades)"
  shows "sides_sorted b' \<and> (\<forall>x\<in>set (lb_bids b'). \<forall>y\<in>set (lb_asks b'). lo_price x < lo_price y)
    \<and> remains_of (lb_bids b) (lb_bids b') \<and> remains_of (lb_asks b) (lb_asks b')
    \<and> total_quantity (lb_bids b) = total_quantity (lb_bids b') + traded trades
    \<and> total_quantity (lb_asks b) = total_quantity (lb_asks b') + traded trades
    \<and> (\<forall>t\<in>set trades. trade_between (lb_bids b) (lb_asks b) t)"
proof -
  note m = assms(2) [unfolded match_book_def]
  have "sides_sorted b'" by (rule match_loop_sorted [OF m]) (use assms(1) in \<open>simp_all add: sides_sorted_def\<close>)
  then show ?thesis using match_loop_correct [OF m] uncrossed_all by fastforce
qed

definition sample_book :: "nat legacy_book" where
  "sample_book = fold legacy_add [order_new 1 Sell 102 50 0, order_new 2 Sell 101 30 1, order_new 3 Buy 101 40 2,
     order_new 4 Buy 100 10 3] legacy_new"

theorem match_conserves_witness:
  "snd (match_book of_nat sample_book) = [\<lparr>tr_price = 101, tr_quantity = 30, tr_buyOrderId = 3, tr_sellOrderId = 2, tr_timestamp = 0\<rparr>]
   \<and> total_quantity (lb_bids sample_book) = total_quantity (lb_bids (fst (match_book of_nat sample_book))) + 30
   \<and> total_quantity (lb_asks sample_book) = total_quantity (lb_asks (fst (match_book of_nat sample_book))) + 30"
proof -
  have "sides_sorted sample_book" unfolding sample_book_def by (simp add: legacy_add_sorted legacy_new_sorted)
  moreover have "match_book of_nat sample_book = (fst (match_book of_nat sample_book), snd (match_book of_nat sample_book))" by simp
  moreover have trades: "snd (match_book of_nat sample_book)
      = [\<lparr>tr_price = 101, tr_quantity = 30, tr_buyOrderId = 3, tr_sellOrderId = 2, tr_timestamp = 0\<rparr>]"
    by code_simp
  moreover have "traded (snd (match_book of_nat sample_book)) = 30" by (simp add: trades traded_def)
  ultimately show ?thesis using match_conserves [of sample_book of_nat] by metis
qed

text \<open>The side of the book an order rests on, and what its price is worth there: a higher bid and a lower
  ask are matched first.\<close>

definition side_queue :: "order_side \<Rightarrow> 'p legacy_book \<Rightarrow> 'p resting list" where
  "side_queue s b = (case s of Buy \<Rightarrow> lb_bids b | Sell \<Rightarrow> lb_asks b)"

definition better_price :: "order_side \<Rightarrow> 'p::linorder \<Rightarrow> 'p \<Rightarrow> bool" where
  "better_price s p q = (case s of Buy \<Rightarrow> p > q | Sell \<Rightarrow> p < q)"

lemma better_total: "\<not> better_price s p q \<Longrightarrow> better_price s q p \<or> p = q"
  by (cases s) (auto simp: better_price_def)

lemma better_order: "\<not> better_price s p r \<Longrightarrow> \<not> better_price s q p \<Longrightarrow> \<not> better_price s q r"
  by (cases s) (auto simp: better_price_def)

lemma dropWhile_sorted:
  assumes "sorted_wrt R xs" "\<And>y z. \<not> P y \<Longrightarrow> R y z \<Longrightarrow> \<not> P z"
  shows "\<forall>y\<in>set (dropWhile P xs). \<not> P y"
  using assms(1) by (induction xs) (auto dest: assms(2))

lemma legacy_add_queue:
  "side_queue (lo_side x) (legacy_add x b) = (let P = (\<lambda>y. better_price (lo_side x) (lo_price y) (lo_price x))
     in takeWhile P (side_queue (lo_side x) b) @ x # dropWhile P (side_queue (lo_side x) b))"
  by (cases "lo_side x") (simp_all add: side_queue_def better_price_def legacy_add_def insert_split Let_def)

lemma queue_sorted: "sides_sorted b \<Longrightarrow> sorted_wrt (\<lambda>y z. \<not> better_price s (lo_price z) (lo_price y)) (side_queue s b)"
  by (cases s) (auto simp: sides_sorted_def side_queue_def better_price_def not_less)

text \<open>C38. Where addOrder puts an order: in its own side, behind exactly the orders with a better price, so in
  front of every order that already rests at the same price, and nothing else changes. The book stays sorted
  by price, but of two orders at one price the later one is matched first.\<close>

theorem newcomer_jumps_queue:
  assumes "sides_sorted b"
  shows "\<exists>ahead behind. side_queue (lo_side x) b = ahead @ behind
    \<and> side_queue (lo_side x) (legacy_add x b) = ahead @ x # behind
    \<and> (\<forall>y\<in>set ahead. better_price (lo_side x) (lo_price y) (lo_price x))
    \<and> (\<forall>y\<in>set behind. better_price (lo_side x) (lo_price x) (lo_price y) \<or> lo_price y = lo_price x)
    \<and> (\<forall>s. s \<noteq> lo_side x \<longrightarrow> side_queue s (legacy_add x b) = side_queue s b) \<and> sides_sorted (legacy_add x b)"
proof -
  let ?P = "\<lambda>y. better_price (lo_side x) (lo_price y) (lo_price x)" and ?q = "side_queue (lo_side x) b"
  have "\<forall>y\<in>set (dropWhile ?P ?q). \<not> ?P y"
    by (rule dropWhile_sorted [OF queue_sorted [OF assms]]) (rule better_order)
  then have "\<forall>y\<in>set (dropWhile ?P ?q). better_price (lo_side x) (lo_price x) (lo_price y) \<or> lo_price y = lo_price x"
    using better_total by fastforce
  moreover have "\<forall>y\<in>set (takeWhile ?P ?q). ?P y" by (auto dest: set_takeWhileD)
  moreover have "\<forall>s. s \<noteq> lo_side x \<longrightarrow> side_queue s (legacy_add x b) = side_queue s b"
    by (cases "lo_side x") (auto simp: side_queue_def legacy_add_def split: order_side.splits)
  ultimately show ?thesis
    using legacy_add_queue [of x b] legacy_add_sorted [OF assms, of x]
    by (intro exI [of _ "takeWhile ?P ?q"] exI [of _ "dropWhile ?P ?q"]) (simp add: Let_def)
qed

theorem newcomer_jumps_queue_witness:
  "side_queue Buy (legacy_add (order_new 9 Buy 101 5 7) sample_book) = order_new 9 Buy 101 5 7 # side_queue Buy sample_book
   \<and> lo_price (hd (side_queue Buy sample_book)) = 101 \<and> sides_sorted (legacy_add (order_new 9 Buy 101 5 7) sample_book)"
proof -
  have "sides_sorted sample_book" unfolding sample_book_def by (simp add: legacy_add_sorted legacy_new_sorted)
  then have "sides_sorted (legacy_add (order_new 9 Buy 101 5 7) sample_book)"
    using newcomer_jumps_queue [of sample_book "order_new 9 Buy 101 5 7"] by blast
  moreover have "side_queue Buy (legacy_add (order_new 9 Buy 101 5 7) sample_book) = order_new 9 Buy 101 5 7 # side_queue Buy sample_book"
    "lo_price (hd (side_queue Buy sample_book)) = 101" by code_simp+
  ultimately show ?thesis by blast
qed

end
