(* ===== verification/CommandLine.thy ===== *)
theory CommandLine
  imports Prelude
begin

text \<open>
  The command lines of the benchmarks: \<open>argInt\<close>, \<open>argString\<close>, \<open>argIntList\<close> and \<open>hasFlag\<close> of
  \<open>bench/BenchCommon.hpp\<close>, on the arguments as a list of C strings whose first element is the program,
  with \<open>strtoll\<close> to base 10 as the C library defines it and the decimal printing of \<open>std::to_string\<close>.
\<close>

section \<open>Numbers as text\<close>

definition digit_char :: "nat \<Rightarrow> char" where
  "digit_char d = char_of (48 + d)"

definition is_digit :: "char \<Rightarrow> bool" where
  "is_digit c \<longleftrightarrow> 48 \<le> (of_char c :: nat) \<and> (of_char c :: nat) \<le> 57"

fun show_nat :: "nat \<Rightarrow> string" where
  "show_nat n = (if n < 10 then [digit_char n] else show_nat (n div 10) @ [digit_char (n mod 10)])"

declare show_nat.simps [simp del]

definition show_int :: "int \<Rightarrow> string" where
  "show_int i = (if i < 0 then CHR ''-'' # show_nat (nat (- i)) else show_nat (nat i))"

definition digits_value :: "string \<Rightarrow> nat" where
  "digits_value ds = foldl (\<lambda>v c. 10 * v + (of_char c - 48)) 0 ds"

definition is_space :: "char \<Rightarrow> bool" where
  "is_space c \<longleftrightarrow> c = CHR '' '' \<or> 9 \<le> (of_char c :: nat) \<and> (of_char c :: nat) \<le> 13"

text \<open>\<open>strtoll\<close>: white space, a sign, digits; a value that is out of range becomes the nearest bound. The
  second component is where it stopped, the whole text when there is no digit.\<close>

definition llong :: "int \<Rightarrow> int" where
  "llong i = max (- (2 ^ 63)) (min (2 ^ 63 - 1) i)"

definition strtoll :: "string \<Rightarrow> int \<times> string" where
  "strtoll p =
     (let q = dropWhile is_space p;
          negative = (q \<noteq> [] \<and> hd q = CHR ''-'');
          q = (if q \<noteq> [] \<and> hd q \<in> {CHR ''+'', CHR ''-''} then tl q else q);
          ds = takeWhile is_digit q
      in if ds = [] then (0, p)
         else (llong (if negative then - int (digits_value ds) else int (digits_value ds)), dropWhile is_digit q))"

definition atoll :: "string \<Rightarrow> int" where
  "atoll p = fst (strtoll p)"

section \<open>The arguments\<close>

definition arg_prefix :: "string \<Rightarrow> string" where
  "arg_prefix name = ''--'' @ name @ ''=''"

text \<open>\<open>strncmp\<close> over the length of the prefix, and \<open>std::string_view::starts_with\<close>.\<close>

definition starts_with :: "string \<Rightarrow> string \<Rightarrow> bool" where
  "starts_with p s \<longleftrightarrow> take (length p) s = p"

fun argInt_loop :: "string list \<Rightarrow> string \<Rightarrow> int \<Rightarrow> int" where
  "argInt_loop [] p fallback = fallback"
| "argInt_loop (a # as) p fallback =
     (if starts_with p a then atoll (drop (length p) a) else argInt_loop as p fallback)"

definition argInt :: "string list \<Rightarrow> string \<Rightarrow> int \<Rightarrow> int" where
  "argInt argv name fallback = argInt_loop (drop 1 argv) (arg_prefix name) fallback"

fun argString_loop :: "string list \<Rightarrow> string \<Rightarrow> string" where
  "argString_loop [] p = []"
| "argString_loop (a # as) p = (if starts_with p a then drop (length p) a else argString_loop as p)"

definition argString :: "string list \<Rightarrow> string \<Rightarrow> string" where
  "argString argv name = argString_loop (drop 1 argv) (arg_prefix name)"

lemma strtoll_shorter: "snd (strtoll p) \<noteq> p \<Longrightarrow> length (snd (strtoll p)) < length p"
proof -
  assume "snd (strtoll p) \<noteq> p"
  define q where "q = dropWhile is_space p"
  define q' where "q' = (if q \<noteq> [] \<and> hd q \<in> {CHR ''+'', CHR ''-''} then tl q else q)"
  have r: "takeWhile is_digit q' \<noteq> []" "snd (strtoll p) = dropWhile is_digit q'"
    using \<open>snd (strtoll p) \<noteq> p\<close> unfolding strtoll_def Let_def q_def [symmetric] q'_def [symmetric] by (auto split: if_splits)
  have "length (takeWhile is_digit q') + length (dropWhile is_digit q') = length q'"
    by (metis length_append takeWhile_dropWhile_id)
  moreover have "0 < length (takeWhile is_digit q')" using r by simp
  moreover have "length q' \<le> length q" "length q \<le> length p" by (auto simp: q'_def q_def length_dropWhile_le)
  ultimately show ?thesis unfolding r(2) by linarith
qed

function int_list :: "string \<Rightarrow> int list" where
  "int_list p =
     (if p = [] then []
      else let value = fst (strtoll p); end = snd (strtoll p)
           in if end = p then []
              else value # int_list (if end \<noteq> [] \<and> hd end = CHR '','' then tl end else end))"
  by pat_completeness auto

termination int_list
  by (relation "measure length") (auto dest: strtoll_shorter)

declare int_list.simps [simp del]

fun argIntList_loop :: "string list \<Rightarrow> string \<Rightarrow> int list \<Rightarrow> int list" where
  "argIntList_loop [] p fallback = fallback"
| "argIntList_loop (a # as) p fallback =
     (if \<not> starts_with p a then argIntList_loop as p fallback else int_list (drop (length p) a))"

definition argIntList :: "string list \<Rightarrow> string \<Rightarrow> int list \<Rightarrow> int list" where
  "argIntList argv name fallback = argIntList_loop (drop 1 argv) (arg_prefix name) fallback"

definition hasFlag :: "string list \<Rightarrow> string \<Rightarrow> bool" where
  "hasFlag argv flag = list_ex (\<lambda>a. a = flag) (drop 1 argv)"

text \<open>The conversions of a \<open>long long\<close> to \<open>int\<close> and to \<open>uint64_t\<close>, as the programs cast their options.\<close>

definition to_int32 :: "int \<Rightarrow> int" where
  "to_int32 i = sint (word_of_int i :: 32 word)"

definition to_u64 :: "int \<Rightarrow> u64" where
  "to_u64 i = word_of_int i"

section \<open>Reading back what was printed\<close>

lemma digit_char_code: "d < 10 \<Longrightarrow> of_char (digit_char d) = (48 + d :: nat)"
  by (simp add: digit_char_def)

lemma digit_char_digit: "d < 10 \<Longrightarrow> is_digit (digit_char d)"
  by (simp add: is_digit_def digit_char_code)

lemma show_nat_digits: "show_nat n \<noteq> [] \<and> (\<forall>c\<in>set (show_nat n). is_digit c)"
proof (induction n rule: show_nat.induct)
  case (1 n)
  then show ?case by (subst (1 2) show_nat.simps) (auto simp: digit_char_digit)
qed

lemma show_nat_value: "digits_value (show_nat n) = n"
proof (induction n rule: show_nat.induct)
  case (1 n)
  show ?case
  proof (cases "n < 10")
    case True
    then show ?thesis by (subst show_nat.simps) (simp add: digits_value_def digit_char_code)
  next
    case False
    then have "digits_value (show_nat n) = 10 * digits_value (show_nat (n div 10)) + n mod 10"
      by (subst show_nat.simps) (simp add: digits_value_def digit_char_code)
    then show ?thesis using 1 [OF False] by simp
  qed
qed

lemma digit_not: "is_digit c \<Longrightarrow> \<not> is_space c \<and> c \<noteq> CHR ''-'' \<and> c \<noteq> CHR ''+'' \<and> c \<noteq> CHR '',''"
  by (auto simp: is_digit_def is_space_def)

lemma takeWhile_stop: "(\<forall>c\<in>set xs. P c) \<Longrightarrow> ys = [] \<or> \<not> P (hd ys) \<Longrightarrow> takeWhile P (xs @ ys) = xs \<and> dropWhile P (xs @ ys) = ys"
  by (induction xs) (cases ys, auto)

lemma strtoll_show:
  assumes "- (2 ^ 63) \<le> i" "i < 2 ^ 63" "rest = [] \<or> \<not> is_digit (hd rest)"
  shows "strtoll (show_int i @ rest) = (i, rest)"
proof -
  have take: "takeWhile is_digit (show_nat n @ rest) = show_nat n" "dropWhile is_digit (show_nat n @ rest) = rest" for n
    using takeWhile_stop [of "show_nat n" is_digit rest] assms(3) show_nat_digits [of n] by blast+
  obtain c cs where c: "show_nat (nat i) = c # cs" "is_digit c" using show_nat_digits [of "nat i"] by (cases "show_nat (nat i)") auto
  show ?thesis
  proof (cases "i < 0")
    case True
    have "\<not> is_space CHR ''-''" by (simp add: is_space_def)
    then show ?thesis
      using True assms(1) show_nat_digits take [of "nat (- i)"] show_nat_value [of "nat (- i)"]
      by (simp add: show_int_def strtoll_def Let_def llong_def)
  next
    case False
    then show ?thesis
      using assms(2) c take [of "nat i"] show_nat_value [of "nat i"] digit_not [OF c(2)]
      by (simp add: show_int_def strtoll_def Let_def llong_def)
  qed
qed

fun comma_list :: "int list \<Rightarrow> string" where
  "comma_list [] = []"
| "comma_list [i] = show_int i"
| "comma_list (i # is) = show_int i @ CHR '','' # comma_list is"

lemma show_int_Cons: "\<exists>c cs. show_int i = c # cs"
  using show_nat_digits by (cases "show_int i") (auto simp: show_int_def split: if_splits)

lemma int_list_show: "(\<forall>i\<in>set is. - (2 ^ 63) \<le> i \<and> i < 2 ^ 63) \<Longrightarrow> int_list (comma_list is) = is"
proof (induction "is" rule: comma_list.induct)
  case (2 i)
  then show ?case using strtoll_show [of i "[]"] show_int_Cons [of i] by (subst int_list.simps) (auto simp: Let_def int_list.simps)
next
  case (3 i j js)
  have "strtoll (show_int i @ CHR '','' # comma_list (j # js)) = (i, CHR '','' # comma_list (j # js))"
    using 3(2) by (intro strtoll_show) (simp_all add: is_digit_def)
  moreover have "show_int i @ CHR '','' # r \<noteq> CHR '','' # r" for r using show_int_Cons [of i] by auto
  ultimately show ?case using 3 show_int_Cons [of i] by (subst int_list.simps) (simp add: Let_def)
qed (simp add: int_list.simps)

text \<open>A list of 64-bit integers printed with commas behind --name= is read back as it was by argIntList,
  whatever stands behind it on the command line, unless an earlier argument has the same prefix; a single
  integer is read back by argInt.\<close>

theorem arg_list_roundtrip:
  assumes "\<forall>a\<in>set before. \<not> starts_with (arg_prefix name) a" "\<forall>i\<in>set is. - (2 ^ 63) \<le> i \<and> i < 2 ^ 63"
  shows "argIntList (prog # before @ (arg_prefix name @ comma_list is) # after) name fallback = is
    \<and> (\<forall>i d. is = [i] \<longrightarrow> argInt (prog # before @ (arg_prefix name @ comma_list is) # after) name d = i)
    \<and> argString (prog # before @ (arg_prefix name @ comma_list is) # after) name = comma_list is"
proof -
  have self: "starts_with (arg_prefix name) (arg_prefix name @ t)" for t by (simp add: starts_with_def)
  have "argIntList_loop (before @ (arg_prefix name @ t) # after) (arg_prefix name) fallback = int_list t"
    "argInt_loop (before @ (arg_prefix name @ t) # after) (arg_prefix name) d = atoll t"
    "argString_loop (before @ (arg_prefix name @ t) # after) (arg_prefix name) = t" for t d
    using assms(1) self by (induction before) simp_all
  moreover have "is = [i] \<Longrightarrow> atoll (comma_list is) = i" for i
    using assms(2) strtoll_show [of i "[]"] by (simp add: atoll_def)
  ultimately show ?thesis using int_list_show [OF assms(2)] by (auto simp: argIntList_def argInt_def argString_def)
qed

theorem arg_list_roundtrip_witness:
  "argIntList [''bench'', ''--quick'', arg_prefix ''depth'' @ comma_list [1, -20, 300]] ''depth'' [5] = [1, -20, 300]"
  using arg_list_roundtrip [of "[''--quick'']" "''depth''" "[1, -20, 300]" "''bench''" "[]" "[5]"]
  by (simp add: starts_with_def arg_prefix_def)

end
