(* ===== verification/JsonReport.thy ===== *)
theory JsonReport
  imports CommandLine LatencyHistogram
begin

text \<open>
  The results file of the benchmarks: \<open>cpuBrand\<close>, \<open>compilerName\<close>, \<open>osName\<close>, \<open>jsonBuildType\<close>,
  \<open>jsonString\<close>, \<open>jsonNumber\<close> and the class \<open>JsonReport\<close> of \<open>bench/BenchCommon.hpp\<close>, and a parser of JSON
  that reads the file back.

  A \<open>double\<close> is any type \<open>'d\<close>; the number text of \<open>snprintf\<close>, \<open>std::isfinite\<close> and the quotients are
  parameters. What the preprocessor chooses between (compiler, platform, build) is an argument, and so is
  what the machine answers (CPUID, \<open>/proc/cpuinfo\<close>, the clock, \<open>fopen\<close> and its like).
\<close>

section \<open>The machine\<close>

text \<open>The brand string of CPUID: three leaves of four registers of four bytes, which end at the first NUL,
  without the spaces at either end.\<close>

definition reg_bytes :: "u32 \<Rightarrow> string" where
  "reg_bytes r = map (\<lambda>i. char_of (unat (drop_bit (8 * i) r AND 255))) [0, 1, 2, 3]"

definition cpuBrand_x86 :: "(u32 \<Rightarrow> u32 \<times> u32 \<times> u32 \<times> u32) \<Rightarrow> string" where
  "cpuBrand_x86 cpuid =
     (let regs = concat (map (\<lambda>leaf. case cpuid (0x80000002 + leaf) of (a, b, c, d) \<Rightarrow> [a, b, c, d]) [0, 1, 2]);
          brand = takeWhile (\<lambda>c. c \<noteq> CHR 0x00) (concat (map reg_bytes regs));
          brand = dropWhile (\<lambda>c. c = CHR '' '') brand
      in rev (dropWhile (\<lambda>c. c = CHR '' '') (rev brand)))"

text \<open>Without CPUID: the first processor of \<open>/proc/cpuinfo\<close>, whose lines hold a name, a colon and a value.
  \<open>value_of\<close> is only asked for a line with a colon.\<close>

definition value_of :: "string \<Rightarrow> string" where
  "value_of line = dropWhile (\<lambda>c. c = CHR '' '' \<or> c = CHR 0x09) (drop 1 (dropWhile (\<lambda>c. c \<noteq> CHR '':'') line))"

definition arm_cores :: "(string \<times> string) list" where
  "arm_cores = [(''0xd0c'', ''Neoverse N1''), (''0xd40'', ''Neoverse V1''), (''0xd49'', ''Neoverse N2''),
     (''0xd4f'', ''Neoverse V2''), (''0xd84'', ''Neoverse V3''), (''0xd8e'', ''Neoverse N3'')]"

definition core_name :: "string \<Rightarrow> string \<Rightarrow> string" where
  "core_name implementer part =
     (if implementer = [] \<or> part = [] then ''unknown''
      else case (if implementer = ''0x41'' then map_of arm_cores part else None) of
        Some name \<Rightarrow> ''Arm '' @ name
      | None \<Rightarrow> ''implementer '' @ implementer @ '' part '' @ part)"

fun cpuBrand_proc :: "string list \<Rightarrow> string \<Rightarrow> string \<Rightarrow> string" where
  "cpuBrand_proc [] implementer part = core_name implementer part"
| "cpuBrand_proc (line # lines) implementer part =
     (if CHR '':'' \<notin> set line then core_name implementer part
      else if starts_with ''model name'' line then value_of line
      else let implementer = (if starts_with ''CPU implementer'' line then value_of line else implementer);
               part = (if starts_with ''CPU part'' line then value_of line else part)
           in cpuBrand_proc lines implementer part)"

datatype compiler = Clang string | GCC string | MSVC nat | OtherCompiler

definition compilerName :: "compiler \<Rightarrow> string" where
  "compilerName c = (case c of Clang v \<Rightarrow> ''Clang '' @ v | GCC v \<Rightarrow> ''GCC '' @ v | MSVC n \<Rightarrow> ''MSVC '' @ show_nat n
     | OtherCompiler \<Rightarrow> ''unknown compiler'')"

datatype platform = Windows | Linux | OtherOS

definition osName :: "platform \<Rightarrow> string" where
  "osName p = (case p of Windows \<Rightarrow> ''Windows'' | Linux \<Rightarrow> ''Linux'' | OtherOS \<Rightarrow> ''unknown OS'')"

definition buildType :: "bool \<Rightarrow> string" where
  "buildType ndebug = (if ndebug then ''optimized (NDEBUG)'' else ''debug'')"

definition jsonBuildType :: "bool \<Rightarrow> bool \<Rightarrow> bool \<Rightarrow> string" where
  "jsonBuildType ndebug gnuc optimize =
     (if \<not> ndebug then ''debug'' else if gnuc \<and> \<not> optimize then ''NDEBUG, not optimized'' else ''release'')"

section \<open>JSON text\<close>

definition kHex :: string where
  "kHex = ''0123456789abcdef''"

definition json_char :: "char \<Rightarrow> string" where
  "json_char c =
     (if c = CHR 0x22 then [CHR 0x5C, CHR 0x22]
      else if c = CHR 0x5C then [CHR 0x5C, CHR 0x5C]
      else if c = CHR 0x0A then [CHR 0x5C, CHR ''n'']
      else if c = CHR 0x0D then [CHR 0x5C, CHR ''r'']
      else if c = CHR 0x09 then [CHR 0x5C, CHR ''t'']
      else let code = of_char c :: nat in
        if code < 0x20 then [CHR 0x5C, CHR ''u'', CHR ''0'', CHR ''0'', kHex ! (code div 16), kHex ! (code mod 16)]
        else [c])"

definition jsonString :: "string \<Rightarrow> string" where
  "jsonString text = CHR 0x22 # concat (map json_char text) @ [CHR 0x22]"

text \<open>What the code does with a \<open>double\<close>: the test, the text of \<open>%.10g\<close>, and a number of ticks over a number
  of ticks.\<close>

record 'd doubles =
  isfinite :: "'d \<Rightarrow> bool"
  text_of :: "'d \<Rightarrow> string"
  ticks_ns :: "u64 \<Rightarrow> 'd \<Rightarrow> 'd"
  above_zero :: "'d \<Rightarrow> bool"
  rank_of :: "'d \<Rightarrow> u64 \<Rightarrow> u64"
  literal :: "nat \<Rightarrow> nat \<Rightarrow> 'd"

definition jsonNumber :: "'d doubles \<Rightarrow> 'd \<Rightarrow> string" where
  "jsonNumber D v = (if \<not> isfinite D v then ''null'' else text_of D v)"

section \<open>The report\<close>

datatype better = Lower | Higher

record 'd metric =
  m_name :: string
  m_unit :: string
  m_value :: 'd
  m_better :: better

record 'd report =
  jr_benchmark :: string
  jr_path :: string
  jr_commit :: string
  jr_label :: string
  jr_args :: "string list"
  jr_metrics :: "'d metric list"
  jr_ticksPerNs :: 'd
  jr_overheadNs :: 'd
  jr_pinned :: bool

definition report_new :: "'d doubles \<Rightarrow> string \<Rightarrow> string list \<Rightarrow> 'd report" where
  "report_new D benchmark argv =
     \<lparr>jr_benchmark = benchmark, jr_path = argString argv ''json'', jr_commit = argString argv ''commit'',
      jr_label = argString argv ''label'',
      jr_args = filter (\<lambda>arg. \<not> (starts_with ''--json='' arg \<or> starts_with ''--commit='' arg \<or> starts_with ''--label='' arg))
        (drop 1 argv),
      jr_metrics = [], jr_ticksPerNs = literal D 0 0, jr_overheadNs = literal D 0 0, jr_pinned = False\<rparr>"

definition setTimer :: "'d doubles \<Rightarrow> 'd \<Rightarrow> u64 \<Rightarrow> 'd report \<Rightarrow> 'd report" where
  "setTimer D ticksPerNs overheadTicks r = r\<lparr>jr_ticksPerNs := ticksPerNs, jr_overheadNs := ticks_ns D overheadTicks ticksPerNs\<rparr>"

definition setPinned :: "bool \<Rightarrow> 'd report \<Rightarrow> 'd report" where
  "setPinned pinned r = r\<lparr>jr_pinned := pinned\<rparr>"

definition add_metric :: "string \<Rightarrow> string \<Rightarrow> 'd \<Rightarrow> better \<Rightarrow> 'd report \<Rightarrow> 'd report" where
  "add_metric name unit v b r =
     r\<lparr>jr_metrics := jr_metrics r @ [\<lparr>m_name = name, m_unit = unit, m_value = v, m_better = b\<rparr>]\<rparr>"

text \<open>\<open>literal D a b\<close> is the constant \<open>a\<close> with \<open>b\<close> hundredths.\<close>

definition addHistogram :: "'d doubles \<Rightarrow> string \<Rightarrow> histogram \<Rightarrow> 'd \<Rightarrow> 'd report \<Rightarrow> 'd report" where
  "addHistogram D p h ticksPerNs r =
     (if lh_count h = 0 then r
      else let ns = (\<lambda>ticks. ticks_ns D ticks ticksPerNs);
               at = (\<lambda>a b. ns (valueAtPercentile (above_zero D) (rank_of D) (literal D a b) h));
               r = add_metric (p @ ''/min'') ''ns'' (ns (hist_min h)) Lower r;
               r = add_metric (p @ ''/p50'') ''ns'' (at 50 0) Lower r;
               r = add_metric (p @ ''/p90'') ''ns'' (at 90 0) Lower r;
               r = add_metric (p @ ''/p99'') ''ns'' (at 99 0) Lower r;
               r = add_metric (p @ ''/p99.9'') ''ns'' (at 99 90) Lower r;
               r = add_metric (p @ ''/p99.99'') ''ns'' (at 99 99) Lower r
           in add_metric (p @ ''/max'') ''ns'' (ns (hist_max h)) Lower r)"

section \<open>Writing it\<close>

text \<open>What the machine answers to the program while it writes.\<close>

record machine =
  mc_cpu :: string
  mc_cpus :: u32
  mc_os :: platform
  mc_compiler :: compiler
  mc_build :: string
  mc_time :: int

definition quoted :: "string \<Rightarrow> string" where
  "quoted t = CHR 0x22 # t @ [CHR 0x22]"

definition nl :: string where
  "nl = [CHR 0x0A]"

fun args_text :: "nat \<Rightarrow> string list \<Rightarrow> string" where
  "args_text i [] = []"
| "args_text i (a # as) = (if i > 0 then '', '' else []) @ jsonString a @ args_text (Suc i) as"

definition metric_text :: "'d doubles \<Rightarrow> 'd metric \<Rightarrow> string" where
  "metric_text D m =
     ''    {'' @ quoted ''name'' @ '': '' @ jsonString (m_name m)
     @ '', '' @ quoted ''unit'' @ '': '' @ jsonString (m_unit m)
     @ '', '' @ quoted ''value'' @ '': '' @ jsonNumber D (m_value m)
     @ '', '' @ quoted ''better'' @ '': '' @ (if m_better m = Lower then quoted ''lower'' else quoted ''higher'') @ ''}''"

fun metrics_text :: "'d doubles \<Rightarrow> 'd metric list \<Rightarrow> string" where
  "metrics_text D [] = []"
| "metrics_text D (m # ms) = metric_text D m @ (if ms \<noteq> [] then '','' @ nl else nl) @ metrics_text D ms"

definition report_text :: "'d doubles \<Rightarrow> machine \<Rightarrow> 'd report \<Rightarrow> string" where
  "report_text D M r =
     ''{'' @ nl @ ''  '' @ quoted ''schema'' @ '': '' @ quoted ''minihft-bench/1'' @ '','' @ nl
     @ ''  '' @ quoted ''metadata'' @ '': {'' @ nl
     @ ''    '' @ quoted ''benchmark'' @ '': '' @ jsonString (jr_benchmark r) @ '','' @ nl
     @ ''    '' @ quoted ''label'' @ '': '' @ jsonString (jr_label r) @ '','' @ nl
     @ ''    '' @ quoted ''args'' @ '': ['' @ args_text 0 (jr_args r) @ ''],'' @ nl
     @ ''    '' @ quoted ''commit'' @ '': '' @ jsonString (jr_commit r) @ '','' @ nl
     @ ''    '' @ quoted ''cpu'' @ '': '' @ jsonString (mc_cpu M) @ '','' @ nl
     @ ''    '' @ quoted ''logical_cpus'' @ '': '' @ show_nat (unat (mc_cpus M)) @ '','' @ nl
     @ ''    '' @ quoted ''os'' @ '': '' @ jsonString (osName (mc_os M)) @ '','' @ nl
     @ ''    '' @ quoted ''compiler'' @ '': '' @ jsonString (compilerName (mc_compiler M)) @ '','' @ nl
     @ ''    '' @ quoted ''build_type'' @ '': '' @ jsonString (mc_build M) @ '','' @ nl
     @ ''    '' @ quoted ''tsc_ticks_per_ns'' @ '': '' @ jsonNumber D (jr_ticksPerNs r) @ '','' @ nl
     @ ''    '' @ quoted ''timer_overhead_ns'' @ '': '' @ jsonNumber D (jr_overheadNs r) @ '','' @ nl
     @ ''    '' @ quoted ''pinned'' @ '': '' @ (if jr_pinned r then ''true'' else ''false'') @ '','' @ nl
     @ ''    '' @ quoted ''unix_time'' @ '': '' @ show_int (mc_time M) @ nl
     @ ''  },'' @ nl @ ''  '' @ quoted ''metrics'' @ '': ['' @ nl
     @ metrics_text D (jr_metrics r)
     @ ''  ]'' @ nl @ ''}'' @ nl"

text \<open>\<open>fopen\<close>, then \<open>fwrite\<close> of the whole text and \<open>fclose\<close>. The system decides whether the file opens, how
  much is written and whether it closes; the second component is what the file holds, if it was opened.\<close>

record filesystem =
  fs_opens :: "string \<Rightarrow> bool"
  fs_writes :: "string \<Rightarrow> nat"
  fs_closes :: bool

definition write_report :: "'d doubles \<Rightarrow> machine \<Rightarrow> filesystem \<Rightarrow> 'd report \<Rightarrow> bool \<times> (string \<times> string) option" where
  "write_report D M F r =
     (if jr_path r = [] then (True, None)
      else let out = report_text D M r in
        if \<not> fs_opens F (jr_path r) then (False, None)
        else let written = (min (fs_writes F out) (length out) = length out);
                 result = Some (jr_path r, take (fs_writes F out) out)
             in if \<not> fs_closes F \<or> \<not> written then (False, result) else (True, result))"

end
