(* ===== verification/JsonParser.thy ===== *)
theory JsonParser
  imports JsonReport
begin

text \<open>
  A parser of JSON texts (RFC 8259, with escapes of ASCII characters only), and the proof that it reads the
  results file of \<open>JsonReport\<close> back as the report that was written.
\<close>

section \<open>The parser\<close>

datatype json = JNull | JBool bool | JNumber string | JString string | JArray "json list" | JObject "(string \<times> json) list"

definition is_ws :: "char \<Rightarrow> bool" where
  "is_ws c \<longleftrightarrow> c \<in> {CHR '' '', CHR 0x0A, CHR 0x0D, CHR 0x09}"

definition skip_ws :: "string \<Rightarrow> string" where
  "skip_ws t = dropWhile is_ws t"

definition hex_value :: "char \<Rightarrow> nat option" where
  "hex_value c = map_of (zip kHex [0..<16]) c"

fun json_body :: "string \<Rightarrow> (string \<times> string) option" where
  "json_body [] = None"
| "json_body (c # cs) =
     (if c = CHR 0x22 then Some ([], cs)
      else if c = CHR 0x5C then
        (case cs of
           e # r \<Rightarrow>
             (if e = CHR 0x22 \<or> e = CHR 0x5C then map_option (map_prod (Cons e) id) (json_body r)
              else if e = CHR ''n'' then map_option (map_prod (Cons CHR 0x0A) id) (json_body r)
              else if e = CHR ''r'' then map_option (map_prod (Cons CHR 0x0D) id) (json_body r)
              else if e = CHR ''t'' then map_option (map_prod (Cons CHR 0x09) id) (json_body r)
              else if e = CHR ''u'' then
                (case r of z1 # z2 # h # l # r' \<Rightarrow>
                   (case (hex_value h, hex_value l) of (Some h, Some l) \<Rightarrow>
                      (if z1 = CHR ''0'' \<and> z2 = CHR ''0'' \<and> h < 8
                       then map_option (map_prod (Cons (char_of (16 * h + l))) id) (json_body r') else None)
                    | _ \<Rightarrow> None)
                 | _ \<Rightarrow> None)
              else None)
         | [] \<Rightarrow> None)
      else if (of_char c :: nat) < 0x20 then None
      else map_option (map_prod (Cons c) id) (json_body cs))"

definition exponent_text :: "string \<Rightarrow> bool" where
  "exponent_text r \<longleftrightarrow> r = [] \<or> hd r \<in> {CHR ''e'', CHR ''E''} \<and>
     (let ds = (if tl r \<noteq> [] \<and> hd (tl r) \<in> {CHR ''+'', CHR ''-''} then tl (tl r) else tl r) in ds \<noteq> [] \<and> list_all is_digit ds)"

definition number_text :: "string \<Rightarrow> bool" where
  "number_text s \<longleftrightarrow>
     (let s = (if s \<noteq> [] \<and> hd s = CHR ''-'' then tl s else s);
          ds = takeWhile is_digit s; r = dropWhile is_digit s
      in ds \<noteq> [] \<and> (hd ds = CHR ''0'' \<longrightarrow> length ds = 1)
         \<and> (if r \<noteq> [] \<and> hd r = CHR ''.'' then takeWhile is_digit (tl r) \<noteq> [] \<and> exponent_text (dropWhile is_digit (tl r))
            else exponent_text r))"

definition word_char :: "char \<Rightarrow> bool" where
  "word_char c \<longleftrightarrow> is_digit c \<or> c \<in> {CHR ''+'', CHR ''-'', CHR ''.'', CHR ''E''} \<or> 97 \<le> (of_char c :: nat) \<and> (of_char c :: nat) \<le> 122"

definition word_value :: "string \<Rightarrow> json option" where
  "word_value w =
     (if w = ''null'' then Some JNull else if w = ''true'' then Some (JBool True) else if w = ''false'' then Some (JBool False)
      else if number_text w then Some (JNumber w) else None)"

text \<open>The first argument bounds the depth of the calls.\<close>

fun parse_value :: "nat \<Rightarrow> string \<Rightarrow> (json \<times> string) option"
  and parse_elements :: "nat \<Rightarrow> string \<Rightarrow> (json list \<times> string) option"
  and parse_members :: "nat \<Rightarrow> string \<Rightarrow> ((string \<times> json) list \<times> string) option" where
  "parse_value 0 t = None"
| "parse_value (Suc n) t =
     (case skip_ws t of
        [] \<Rightarrow> None
      | c # r \<Rightarrow>
          if c = CHR 0x22 then map_option (map_prod JString id) (json_body r)
          else if c = CHR ''['' then
            (if skip_ws r \<noteq> [] \<and> hd (skip_ws r) = CHR '']'' then Some (JArray [], tl (skip_ws r))
             else map_option (map_prod JArray id) (parse_elements n r))
          else if c = CHR ''{'' then
            (if skip_ws r \<noteq> [] \<and> hd (skip_ws r) = CHR ''}'' then Some (JObject [], tl (skip_ws r))
             else map_option (map_prod JObject id) (parse_members n r))
          else map_option (\<lambda>j. (j, dropWhile word_char (c # r))) (word_value (takeWhile word_char (c # r))))"
| "parse_elements 0 t = None"
| "parse_elements (Suc n) t = do {
     (j, r) \<leftarrow> parse_value n t;
     (case skip_ws r of
        [] \<Rightarrow> None
      | c # r \<Rightarrow>
          if c = CHR '','' then map_option (map_prod (Cons j) id) (parse_elements n r)
          else if c = CHR '']'' then Some ([j], r) else None)
   }"
| "parse_members 0 t = None"
| "parse_members (Suc n) t =
     (case skip_ws t of
        [] \<Rightarrow> None
      | c # r \<Rightarrow>
          if c \<noteq> CHR 0x22 then None
          else do {
            (k, r) \<leftarrow> json_body r;
            (case skip_ws r of
               [] \<Rightarrow> None
             | c # r \<Rightarrow>
                 if c \<noteq> CHR '':'' then None
                 else do {
                   (j, r) \<leftarrow> parse_value n r;
                   (case skip_ws r of
                      [] \<Rightarrow> None
                    | c # r \<Rightarrow>
                        if c = CHR '','' then map_option (map_prod (Cons (k, j)) id) (parse_members n r)
                        else if c = CHR ''}'' then Some ([(k, j)], r) else None)
                 })
          })"

text \<open>A JSON text is one value with white space around it.\<close>

definition json_text :: "nat \<Rightarrow> string \<Rightarrow> json option" where
  "json_text n t = (case parse_value n t of Some (j, r) \<Rightarrow> if skip_ws r = [] then Some j else None | None \<Rightarrow> None)"

section \<open>What is read back\<close>

definition stops :: "string \<Rightarrow> bool" where
  "stops rest \<longleftrightarrow> rest = [] \<or> \<not> word_char (hd rest)"

definition reads :: "string \<Rightarrow> json \<Rightarrow> bool" where
  "reads t j \<longleftrightarrow> (\<exists>n0. \<forall>n\<ge>n0. \<forall>rest. stops rest \<longrightarrow> parse_value n (t @ rest) = Some (j, rest))"

definition reads_elements :: "string \<Rightarrow> json list \<Rightarrow> bool" where
  "reads_elements t js \<longleftrightarrow> (\<exists>n0. \<forall>n\<ge>n0. \<forall>rest. parse_elements n (t @ rest) = Some (js, rest))"

definition reads_members :: "string \<Rightarrow> (string \<times> json) list \<Rightarrow> bool" where
  "reads_members t ms \<longleftrightarrow> (\<exists>n0. \<forall>n\<ge>n0. \<forall>rest. parse_members n (t @ rest) = Some (ms, rest))"

text \<open>To show one of these, one unfolds a single level of the calls.\<close>

lemma from_depth:
  assumes "\<And>n rest. n0 \<le> n \<Longrightarrow> P (Suc n) rest"
  shows "\<exists>n0. \<forall>n\<ge>n0. \<forall>rest. P n rest"
  using assms by (metis Suc_le_D Suc_le_mono)

lemma hex_round: "i < 16 \<Longrightarrow> hex_value (kHex ! i) = Some i"
proof -
  have "\<forall>i\<in>set [0..<16]. hex_value (kHex ! i) = Some i" by code_simp
  then show "i < 16 \<Longrightarrow> ?thesis" by simp
qed

lemma json_char_read: "json_body (json_char c @ r) = map_option (map_prod (Cons c) id) (json_body r)"
proof (cases "c \<in> {CHR 0x22, CHR 0x5C, CHR 0x0A, CHR 0x0D, CHR 0x09}")
  case False
  let ?n = "of_char c :: nat"
  show ?thesis
  proof (cases "?n < 32")
    case True
    then have "?n div 16 < 2" by linarith
    then have "hex_value (kHex ! (?n div 16)) = Some (?n div 16)" "hex_value (kHex ! (?n mod 16)) = Some (?n mod 16)" "?n div 16 < 8"
      by (simp_all add: hex_round)
    moreover have "char_of (16 * (?n div 16) + ?n mod 16) = c" by simp
    ultimately show ?thesis using False True by (simp add: json_char_def Let_def)
  next
    case large: False
    then show ?thesis using False by (simp add: json_char_def Let_def)
  qed
qed (auto simp: json_char_def)

lemma jsonString_body: "json_body (concat (map json_char s) @ CHR 0x22 # r) = Some (s, r)"
  by (induction s) (simp_all add: json_char_read)

lemma skip_ws_word [simp]: "skip_ws (CHR 0x22 # r) = CHR 0x22 # r" "skip_ws (CHR ''['' # r) = CHR ''['' # r"
  "skip_ws (CHR ''{'' # r) = CHR ''{'' # r" "skip_ws (CHR '','' # r) = CHR '','' # r" "skip_ws (CHR '':'' # r) = CHR '':'' # r"
  "skip_ws (CHR '']'' # r) = CHR '']'' # r" "skip_ws (CHR ''}'' # r) = CHR ''}'' # r" "skip_ws [] = []"
  by (simp_all add: skip_ws_def is_ws_def)

lemma skip_ws_append [simp]: "list_all is_ws w \<Longrightarrow> skip_ws (w @ t) = skip_ws t"
  by (induction w) (simp_all add: skip_ws_def)

lemma quoted_json: "quoted s = jsonString s" if "list_all (\<lambda>c. json_char c = [c]) s"
  using that unfolding quoted_def jsonString_def by (induction s) simp_all

lemma reads_string: "reads (jsonString s) (JString s)"
proof -
  have "parse_value (Suc n) (jsonString s @ rest) = Some (JString s, rest)" for n rest
    using jsonString_body [of s rest] by (simp add: jsonString_def)
  then show ?thesis unfolding reads_def by (intro from_depth) blast
qed

lemma word_char_not_ws: "word_char c \<Longrightarrow> \<not> is_ws c \<and> c \<notin> {CHR 0x22, CHR ''['', CHR ''{''}"
  by (auto simp: word_char_def is_ws_def is_digit_def)

lemma reads_word: 
  assumes "w \<noteq> []" "list_all word_char w" "word_value w = Some j"
  shows "reads w j"
proof -
  obtain c cs where w: "w = c # cs" using assms(1) by (cases w) auto
  have "parse_value (Suc n) (w @ rest) = Some (j, rest)" if "stops rest" for n rest
  proof -
    have "takeWhile word_char (w @ rest) = w" "dropWhile word_char (w @ rest) = rest"
      using takeWhile_stop [of w word_char rest] assms(2) that by (simp_all add: stops_def list_all_iff)
    moreover have "\<not> is_ws c" "c \<noteq> CHR 0x22" "c \<noteq> CHR ''[''" "c \<noteq> CHR ''{''"
      using assms(2) w word_char_not_ws [of c] by auto
    moreover have "skip_ws (w @ rest) = w @ rest" using \<open>\<not> is_ws c\<close> w by (simp add: skip_ws_def)
    ultimately show ?thesis using w assms(3) by simp
  qed
  then show ?thesis unfolding reads_def by (intro from_depth) blast
qed

lemma parse_ws:
  assumes "list_all is_ws w"
  shows "parse_value n (w @ t) = parse_value n t" "parse_elements n (w @ t) = parse_elements n t" "parse_members n (w @ t) = parse_members n t"
proof -
  show v: "parse_value n (w @ t) = parse_value n t" for n using assms by (cases n) simp_all
  show "parse_elements n (w @ t) = parse_elements n t" using v by (cases n) simp_all
  show "parse_members n (w @ t) = parse_members n t" using assms by (cases n) simp_all
qed

lemma reads_ws:
  assumes "list_all is_ws w"
  shows "reads t j \<Longrightarrow> reads (w @ t) j" "reads_elements t js \<Longrightarrow> reads_elements (w @ t) js" "reads_members t ms \<Longrightarrow> reads_members (w @ t) ms"
  unfolding reads_def reads_elements_def reads_members_def append_assoc by (simp_all add: parse_ws [OF assms])

lemma stops_punctuation [simp]: "stops []" "stops (CHR '','' # r)" "stops (CHR '']'' # r)" "stops (CHR ''}'' # r)"
  by (simp_all add: stops_def word_char_def is_digit_def)

lemma stops_space [simp]: "is_ws c \<Longrightarrow> stops (c # r)"
  using word_char_not_ws [of c] unfolding stops_def list.sel by blast

lemma stops_ws: "list_all is_ws w \<Longrightarrow> stops r \<Longrightarrow> stops (w @ r)"
  by (cases w) auto

lemma reads_comma:
  assumes "reads t j" "reads_elements u js"
  shows "reads_elements (t @ CHR '','' # u) (j # js)"
proof -
  obtain n0 where n0: "\<forall>n\<ge>n0. \<forall>rest. stops rest \<longrightarrow> parse_value n (t @ rest) = Some (j, rest)" using assms(1) unfolding reads_def by blast
  obtain n1 where n1: "\<forall>n\<ge>n1. \<forall>rest. parse_elements n (u @ rest) = Some (js, rest)" using assms(2) unfolding reads_elements_def by blast
  have "parse_elements (Suc n) ((t @ CHR '','' # u) @ rest) = Some (j # js, rest)" if "max n0 n1 \<le> n" for n rest
    using n0 n1 that by simp
  then show ?thesis unfolding reads_elements_def by (intro from_depth) blast
qed

lemma reads_last:
  assumes "reads t j" "list_all is_ws w"
  shows "reads_elements (t @ w @ CHR '']'' # []) [j]"
proof -
  obtain n0 where n0: "\<forall>n\<ge>n0. \<forall>rest. stops rest \<longrightarrow> parse_value n (t @ rest) = Some (j, rest)" using assms(1) unfolding reads_def by blast
  have "parse_elements (Suc n) ((t @ w @ CHR '']'' # []) @ rest) = Some ([j], rest)" if "n0 \<le> n" for n rest
    using n0 that assms(2) by (simp add: stops_ws)
  then show ?thesis unfolding reads_elements_def by (intro from_depth) blast
qed

lemma close_not_value: "parse_elements n t = Some x \<Longrightarrow> \<not> (skip_ws t \<noteq> [] \<and> hd (skip_ws t) = CHR '']'')"
proof
  assume p: "parse_elements n t = Some x" and c: "skip_ws t \<noteq> [] \<and> hd (skip_ws t) = CHR '']''"
  obtain m where m: "n = Suc m" using p by (cases n) auto
  obtain r where r: "skip_ws t = CHR '']'' # r" using c by (cases "skip_ws t") auto
  have "\<not> word_char CHR '']''" "word_value [] = None" by (simp_all add: word_char_def is_digit_def word_value_def number_text_def Let_def)
  then have "parse_value m t = None" using r by (cases m) simp_all
  then show False using p m by simp
qed

lemma close_not_member: "parse_members n t = Some x \<Longrightarrow> \<not> (skip_ws t \<noteq> [] \<and> hd (skip_ws t) = CHR ''}'')"
  by (cases n; cases "skip_ws t") auto

lemma reads_array:
  assumes "reads_elements u js"
  shows "reads (CHR ''['' # u) (JArray js)"
proof -
  obtain n0 where n0: "\<forall>n\<ge>n0. \<forall>rest. parse_elements n (u @ rest) = Some (js, rest)" using assms unfolding reads_elements_def by blast
  then have "parse_value (Suc n) ((CHR ''['' # u) @ rest) = Some (JArray js, rest)" if "n0 \<le> n" for n rest
    using that close_not_value by force
  then show ?thesis unfolding reads_def by (intro from_depth) blast
qed

lemma reads_empty_array:
  assumes "list_all is_ws w"
  shows "reads (CHR ''['' # w @ CHR '']'' # []) (JArray [])"
proof -
  have "parse_value (Suc n) ((CHR ''['' # w @ CHR '']'' # []) @ rest) = Some (JArray [], rest)" for n rest using assms by simp
  then show ?thesis unfolding reads_def by (intro from_depth) blast
qed

lemma reads_object:
  assumes "reads_members u ms"
  shows "reads (CHR ''{'' # u) (JObject ms)"
proof -
  obtain n0 where n0: "\<forall>n\<ge>n0. \<forall>rest. parse_members n (u @ rest) = Some (ms, rest)" using assms unfolding reads_members_def by blast
  then have "parse_value (Suc n) ((CHR ''{'' # u) @ rest) = Some (JObject ms, rest)" if "n0 \<le> n" for n rest
    using that close_not_member by force
  then show ?thesis unfolding reads_def by (intro from_depth) blast
qed

text \<open>One member, and the last one, behind white space.\<close>

definition plain :: "string \<Rightarrow> bool" where
  "plain s \<longleftrightarrow> list_all (\<lambda>c. json_char c = [c]) s"

lemma plain_quoted: "plain k \<Longrightarrow> quoted k = jsonString k"
  using quoted_json by (simp add: plain_def)

lemma parse_member:
  assumes "plain k" "list_all is_ws w" "list_all is_ws w'" "stops (w' @ r)" "parse_value n (t @ w' @ r) = Some (j, w' @ r)"
  shows "parse_members (Suc n) (w @ quoted k @ '': '' @ t @ w' @ r) =
    (case skip_ws r of [] \<Rightarrow> None | c # r \<Rightarrow>
        if c = CHR '','' then map_option (map_prod (Cons (k, j)) id) (parse_members n r)
        else if c = CHR ''}'' then Some ([(k, j)], r) else None)"
proof -
  have "json_body (tl (quoted k @ '': '' @ t @ w' @ r)) = Some (k, '': '' @ t @ w' @ r)"
    unfolding plain_quoted [OF assms(1)] using jsonString_body by (simp add: jsonString_def)
  then have key: "json_body (k @ CHR 0x22 # CHR '':'' # CHR '' '' # t @ w' @ r) = Some (k, CHR '':'' # CHR '' '' # t @ w' @ r)"
    by (simp add: quoted_def)
  have sp: "parse_value n (CHR '' '' # t @ w' @ r) = Some (j, w' @ r)"
    using parse_ws(1) [of "[CHR '' '']" n "t @ w' @ r"] assms(5) by (simp add: is_ws_def)
  show ?thesis unfolding parse_ws(3) [OF assms(2)] using key sp assms(3) by (simp add: quoted_def)
qed

lemma reads_member:
  assumes "plain k" "list_all is_ws w" "reads t j" "reads_members u ms"
  shows "reads_members (w @ quoted k @ '': '' @ t @ CHR '','' # u) ((k, j) # ms)"
proof -
  obtain n0 where n0: "\<forall>n\<ge>n0. \<forall>rest. stops rest \<longrightarrow> parse_value n (t @ rest) = Some (j, rest)" using assms(3) unfolding reads_def by blast
  obtain n1 where n1: "\<forall>n\<ge>n1. \<forall>rest. parse_members n (u @ rest) = Some (ms, rest)" using assms(4) unfolding reads_members_def by blast
  have "parse_members (Suc n) ((w @ quoted k @ '': '' @ t @ CHR '','' # u) @ rest) = Some ((k, j) # ms, rest)" if "max n0 n1 \<le> n" for n rest
    using parse_member [OF assms(1,2), of "[]" "CHR '','' # u @ rest" n t j] n0 n1 that by simp
  then show ?thesis unfolding reads_members_def by (intro from_depth) blast
qed

lemma reads_last_member:
  assumes "plain k" "list_all is_ws w" "reads t j" "list_all is_ws w'"
  shows "reads_members (w @ quoted k @ '': '' @ t @ w' @ CHR ''}'' # []) [(k, j)]"
proof -
  obtain n0 where n0: "\<forall>n\<ge>n0. \<forall>rest. stops rest \<longrightarrow> parse_value n (t @ rest) = Some (j, rest)" using assms(3) unfolding reads_def by blast
  have "parse_members (Suc n) ((w @ quoted k @ '': '' @ t @ w' @ CHR ''}'' # []) @ rest) = Some ([(k, j)], rest)" if "n0 \<le> n" for n rest
    using parse_member [OF assms(1,2,4), of "CHR ''}'' # rest" n t j] n0 that assms(4) by (simp add: stops_ws)
  then show ?thesis unfolding reads_members_def by (intro from_depth) blast
qed

section \<open>The report as a JSON value\<close>

definition number_json :: "'d doubles \<Rightarrow> 'd \<Rightarrow> json" where
  "number_json D v = (if isfinite D v then JNumber (text_of D v) else JNull)"

definition metric_json :: "'d doubles \<Rightarrow> 'd metric \<Rightarrow> json" where
  "metric_json D m = JObject [(''name'', JString (m_name m)), (''unit'', JString (m_unit m)), (''value'', number_json D (m_value m)),
     (''better'', JString (if m_better m = Lower then ''lower'' else ''higher''))]"

definition report_json :: "'d doubles \<Rightarrow> machine \<Rightarrow> 'd report \<Rightarrow> json" where
  "report_json D M r = JObject
     [(''schema'', JString ''minihft-bench/1''),
      (''metadata'', JObject
        [(''benchmark'', JString (jr_benchmark r)), (''label'', JString (jr_label r)), (''args'', JArray (map JString (jr_args r))),
         (''commit'', JString (jr_commit r)), (''cpu'', JString (mc_cpu M)), (''logical_cpus'', JNumber (show_nat (unat (mc_cpus M)))),
         (''os'', JString (osName (mc_os M))), (''compiler'', JString (compilerName (mc_compiler M))), (''build_type'', JString (mc_build M)),
         (''tsc_ticks_per_ns'', number_json D (jr_ticksPerNs r)), (''timer_overhead_ns'', number_json D (jr_overheadNs r)),
         (''pinned'', JBool (jr_pinned r)), (''unix_time'', JNumber (show_int (mc_time M)))]),
      (''metrics'', JArray (map (metric_json D) (jr_metrics r)))]"

text \<open>What the code relies on: \<open>%.10g\<close> writes a finite number as a JSON number.\<close>

definition prints_numbers :: "'d doubles \<Rightarrow> bool" where
  "prints_numbers D \<longleftrightarrow> (\<forall>v. isfinite D v \<longrightarrow> number_text (text_of D v) \<and> list_all word_char (text_of D v))"

lemma number_not_word: "number_text w \<Longrightarrow> w \<noteq> [] \<and> w \<noteq> ''null'' \<and> w \<noteq> ''true'' \<and> w \<noteq> ''false''"
  by (auto simp: number_text_def Let_def is_digit_def)

lemma reads_number_text: "number_text w \<Longrightarrow> list_all word_char w \<Longrightarrow> reads w (JNumber w)"
  using number_not_word [of w] by (intro reads_word) (auto simp: word_value_def)

lemma reads_jsonNumber: "prints_numbers D \<Longrightarrow> reads (jsonNumber D v) (number_json D v)"
proof (cases "isfinite D v")
  case True
  then show "prints_numbers D \<Longrightarrow> ?thesis" using reads_number_text by (simp add: prints_numbers_def jsonNumber_def number_json_def)
next
  case False
  have "reads ''null'' JNull" by (rule reads_word) (simp_all add: word_char_def is_digit_def word_value_def)
  then show ?thesis using False by (simp add: jsonNumber_def number_json_def)
qed

lemma show_nat_head: "n \<noteq> 0 \<Longrightarrow> hd (show_nat n) \<noteq> CHR ''0''"
proof (induction n rule: show_nat.induct)
  case (1 n)
  show ?case
  proof (cases "n < 10")
    case True
    then have "of_char (digit_char n) \<noteq> (48 :: nat)" using 1(2) by (simp add: digit_char_code)
    then show ?thesis using True by (subst show_nat.simps) auto
  next
    case False
    then have "hd (show_nat (n div 10)) \<noteq> CHR ''0''" using 1(1) by simp
    then show ?thesis using False show_nat_digits [of "n div 10"] by (subst show_nat.simps) simp
  qed
qed

lemma number_show_nat: "number_text (show_nat n) \<and> list_all word_char (show_nat n)"
proof -
  have digits: "show_nat n \<noteq> []" "\<forall>c\<in>set (show_nat n). is_digit c" using show_nat_digits by blast+
  then have take: "takeWhile is_digit (show_nat n) = show_nat n" "dropWhile is_digit (show_nat n) = []"
    using takeWhile_stop [of "show_nat n" is_digit "[]"] by simp_all
  have zero: "show_nat 0 = ''0''" by code_simp
  have "is_digit (hd (show_nat n))" using digits by simp
  then have "hd (show_nat n) \<noteq> CHR ''-''" by (auto simp: is_digit_def)
  moreover have "hd (show_nat n) = CHR ''0'' \<longrightarrow> length (show_nat n) = 1" using show_nat_head zero by (cases "n = 0") auto
  moreover have "list_all word_char (show_nat n)" using digits(2) by (auto simp: list_all_iff word_char_def)
  ultimately show ?thesis
    using digits(1) by (simp add: number_text_def Let_def exponent_text_def take del: takeWhile_eq_all_conv dropWhile_eq_Nil_conv)
qed

lemma number_show_int: "number_text (show_int i) \<and> list_all word_char (show_int i)"
proof (cases "i < 0")
  case True
  have d: "show_nat (nat (- i)) \<noteq> []" using show_nat_digits by blast
  have "hd (show_nat (nat (- i))) \<noteq> CHR ''-''" using show_nat_digits [of "nat (- i)"] by (cases "show_nat (nat (- i))") (auto simp: is_digit_def)
  then have "number_text (CHR ''-'' # show_nat (nat (- i)))" using number_show_nat [of "nat (- i)"] d by (simp add: number_text_def Let_def)
  then show ?thesis using True number_show_nat [of "nat (- i)"] by (simp add: show_int_def word_char_def)
next
  case False
  then show ?thesis using number_show_nat by (simp add: show_int_def)
qed

lemma ws_literals [simp]: "list_all is_ws nl" "is_ws CHR '' ''"
  by (simp_all add: nl_def is_ws_def)

lemma reads_quoted: "plain k \<Longrightarrow> reads (quoted k) (JString k)"
  using reads_string by (simp add: plain_quoted)

lemma reads_args: "reads_elements (jsonString a @ args_text (Suc i) as @ '']'') (map JString (a # as))"
proof (induction "as" arbitrary: a i)
  case Nil
  then show ?case using reads_last [OF reads_string, of "[]" a] by simp
next
  case (Cons b bs)
  show ?case using reads_comma [OF reads_string [of a] reads_ws(2) [of "'' ''", OF _ Cons [of b "Suc i"]]] by simp
qed

lemma reads_args_array: "reads (CHR ''['' # args_text 0 as @ '']'') (JArray (map JString as))"
  using reads_empty_array [of "[]"] reads_array [OF reads_args] by (cases "as") simp_all

lemma reads_metric:
  assumes "prints_numbers D"
  shows "reads (metric_text D m) (metric_json D m)"
proof -
  let ?b = "if m_better m = Lower then ''lower'' else ''higher''"
  have p: "plain ''name''" "plain ''unit''" "plain ''value''" "plain ''better''" "plain ?b" by (simp_all add: plain_def json_char_def)
  have "reads (''    '' @ CHR ''{'' # [] @ quoted ''name'' @ '': '' @ jsonString (m_name m) @ CHR '','' # '' '' @ quoted ''unit'' @ '': ''
      @ jsonString (m_unit m) @ CHR '','' # '' '' @ quoted ''value'' @ '': '' @ jsonNumber D (m_value m) @ CHR '','' # '' ''
      @ quoted ''better'' @ '': '' @ quoted ?b @ [] @ ''}'') (metric_json D m)"
    unfolding metric_json_def
    by (intro reads_ws(1) reads_object reads_member reads_last_member p reads_string reads_jsonNumber reads_quoted assms) simp_all
  then show ?thesis by (simp add: metric_text_def if_distrib)
qed

lemma reads_metrics:
  assumes "prints_numbers D"
  shows "reads_elements (metrics_text D (m # ms) @ ''  ]'') (map (metric_json D) (m # ms))"
proof (induction ms arbitrary: m)
  case Nil
  then show ?case using reads_last [OF reads_metric [OF assms, of m], of "nl @ ''  ''"] by simp
next
  case (Cons k ks)
  show ?case using reads_comma [OF reads_metric [OF assms, of m] reads_ws(2) [of nl, OF _ Cons [of k]]] by simp
qed

lemma reads_metrics_array: "prints_numbers D \<Longrightarrow> reads (CHR ''['' # nl @ metrics_text D ms @ ''  ]'') (JArray (map (metric_json D) ms))"
  using reads_empty_array [of "nl @ ''  ''"] reads_array [OF reads_ws(2) [of nl, OF _ reads_metrics]] by (cases ms) (simp_all del: metrics_text.simps(2))


text \<open>The text of the report is one object.\<close>

lemma reads_report:
  assumes "prints_numbers D"
  shows "reads (CHR ''{'' # (nl @ ''  '') @ quoted ''schema'' @ '': '' @ quoted ''minihft-bench/1'' @ CHR '','' #
      (nl @ ''  '') @ quoted ''metadata'' @ '': ''
       @ (CHR ''{'' # (nl @ ''    '') @ quoted ''benchmark'' @ '': '' @ jsonString (jr_benchmark r) @ CHR '','' #
          (nl @ ''    '') @ quoted ''label'' @ '': '' @ jsonString (jr_label r) @ CHR '','' #
          (nl @ ''    '') @ quoted ''args'' @ '': '' @ (CHR ''['' # args_text 0 (jr_args r) @ '']'') @ CHR '','' #
          (nl @ ''    '') @ quoted ''commit'' @ '': '' @ jsonString (jr_commit r) @ CHR '','' #
          (nl @ ''    '') @ quoted ''cpu'' @ '': '' @ jsonString (mc_cpu M) @ CHR '','' #
          (nl @ ''    '') @ quoted ''logical_cpus'' @ '': '' @ show_nat (unat (mc_cpus M)) @ CHR '','' #
          (nl @ ''    '') @ quoted ''os'' @ '': '' @ jsonString (osName (mc_os M)) @ CHR '','' #
          (nl @ ''    '') @ quoted ''compiler'' @ '': '' @ jsonString (compilerName (mc_compiler M)) @ CHR '','' #
          (nl @ ''    '') @ quoted ''build_type'' @ '': '' @ jsonString (mc_build M) @ CHR '','' #
          (nl @ ''    '') @ quoted ''tsc_ticks_per_ns'' @ '': '' @ jsonNumber D (jr_ticksPerNs r) @ CHR '','' #
          (nl @ ''    '') @ quoted ''timer_overhead_ns'' @ '': '' @ jsonNumber D (jr_overheadNs r) @ CHR '','' #
          (nl @ ''    '') @ quoted ''pinned'' @ '': '' @ (if jr_pinned r then ''true'' else ''false'') @ CHR '','' #
          (nl @ ''    '') @ quoted ''unix_time'' @ '': '' @ show_int (mc_time M) @ (nl @ ''  '') @ CHR ''}'' # []) @ CHR '','' #
      (nl @ ''  '') @ quoted ''metrics'' @ '': '' @ (CHR ''['' # nl @ metrics_text D (jr_metrics r) @ ''  ]'') @ nl @ CHR ''}'' # [])
    (report_json D M r)"
proof -
  have pinned: "reads (if jr_pinned r then ''true'' else ''false'') (JBool (jr_pinned r))"
    by (rule reads_word) (simp_all add: word_char_def is_digit_def word_value_def)
  have number: "reads (show_nat n) (JNumber (show_nat n))" "reads (show_int i) (JNumber (show_int i))" for n i
    using reads_number_text number_show_nat number_show_int by blast+
  have plain: "list_all plain [''schema'', ''minihft-bench/1'', ''metadata'', ''benchmark'', ''label'', ''args'', ''commit'', ''cpu'',
      ''logical_cpus'', ''os'', ''compiler'', ''build_type'', ''tsc_ticks_per_ns'', ''timer_overhead_ns'', ''pinned'', ''unix_time'', ''metrics'']"
    by code_simp
  show ?thesis
    unfolding report_json_def
    by (intro reads_object reads_member reads_last_member reads_quoted reads_string reads_jsonNumber [OF assms]
        reads_args_array reads_metrics_array [OF assms] pinned number)
      (use plain in simp_all)
qed

lemma report_text_shape:
  assumes "prints_numbers D"
  shows "\<exists>t. report_text D M r = t @ nl \<and> reads t (report_json D M r)"
  by (rule exI, rule conjI [rotated], rule reads_report [OF assms]) (simp add: report_text_def nl_def)

text \<open>C22. The file that write() leaves behind is a JSON text, and what a JSON parser reads from it is the report:
  the schema, every piece of metadata and every metric in order, whatever characters the names, arguments and labels
  hold, and null for the numbers that are not finite. write() says true exactly when no file was asked for or all of
  it was written and closed.\<close>

theorem report_reads_back:
  assumes "prints_numbers D" "jr_path r \<noteq> []"
  shows "(fst (write_report D M F r) \<longleftrightarrow> fs_opens F (jr_path r) \<and> length (report_text D M r) \<le> fs_writes F (report_text D M r) \<and> fs_closes F)
    \<and> (fst (write_report D M F r) \<longrightarrow> snd (write_report D M F r) = Some (jr_path r, report_text D M r))
    \<and> (\<exists>n0. \<forall>n\<ge>n0. json_text n (report_text D M r) = Some (report_json D M r))"
proof -
  obtain t where t: "report_text D M r = t @ nl" "reads t (report_json D M r)" using report_text_shape [OF assms(1)] by blast
  obtain n0 where n0: "\<forall>n\<ge>n0. \<forall>rest. stops rest \<longrightarrow> parse_value n (t @ rest) = Some (report_json D M r, rest)"
    using t(2) unfolding reads_def by blast
  have "stops nl" "skip_ws nl = []" by (simp_all add: nl_def is_ws_def skip_ws_def)
  then have "\<forall>n\<ge>n0. json_text n (report_text D M r) = Some (report_json D M r)" using n0 t(1) by (simp add: json_text_def)
  then show ?thesis using assms(2) by (auto simp: write_report_def Let_def min_def split: if_splits)
qed


definition sample_doubles :: "int option doubles" where
  "sample_doubles = \<lparr>isfinite = (\<lambda>v. v \<noteq> None), text_of = (\<lambda>v. show_int (the v)), ticks_ns = (\<lambda>t _. Some (uint t)),
     above_zero = (\<lambda>v. v \<noteq> None \<and> 0 < the v), rank_of = (\<lambda>_ n. n), literal = (\<lambda>a _. Some (int a))\<rparr>"

definition sample_machine :: machine where
  "sample_machine = \<lparr>mc_cpu = ''cpu'', mc_cpus = 8, mc_os = Linux, mc_compiler = GCC ''13'', mc_build = jsonBuildType True True True,
     mc_time = 1700000000\<rparr>"

definition sample_report :: "int option report" where
  "sample_report = add_metric ''nan'' ''ns'' None Higher (add_metric [CHR ''a'', CHR 0x22, CHR 0x01] ''ns'' (Some 12) Lower
     (setPinned True (report_new sample_doubles ''ring'' [''ring'', ''--json=out.json'', ''--quick''])))"

definition sample_system :: filesystem where
  "sample_system = \<lparr>fs_opens = (\<lambda>_. True), fs_writes = (\<lambda>t. length t), fs_closes = True\<rparr>"

theorem report_reads_back_witness:
  "jr_args sample_report = [''--quick''] \<and> fst (write_report sample_doubles sample_machine sample_system sample_report)
    \<and> (\<exists>n. json_text n (report_text sample_doubles sample_machine sample_report)
        = Some (report_json sample_doubles sample_machine sample_report))"
proof -
  have D: "prints_numbers sample_doubles" using number_show_int by (auto simp: prints_numbers_def sample_doubles_def)
  have path: "jr_path sample_report = ''out.json''" "jr_args sample_report = [''--quick'']" by code_simp+
  have "fst (write_report sample_doubles sample_machine sample_system sample_report)"
    "write_report sample_doubles sample_machine sample_system sample_report
      = (True, Some (jr_path sample_report, report_text sample_doubles sample_machine sample_report))"
    using path by (simp_all add: write_report_def sample_system_def Let_def)
  then show ?thesis using report_reads_back [OF D, of sample_report sample_machine sample_system] path by auto
qed

end
