(* ===== verification/Matrix.thy ===== *)
theory Matrix
  imports Prelude
begin

text \<open>
  The matrix of \<open>include/Matrix.hpp\<close>: a row-major vector with its two dimensions.

  The element type is any type with the operations of the code; nothing is assumed of them, so floating
  point is included. \<open>size_t\<close> is a 64-bit word. Allocation succeeds. Printing is left out.
\<close>

section \<open>Outcomes\<close>

datatype matrix_error = LengthError | OutOfRange | InvalidArgument

datatype 'a outcome = Returns 'a | Throws matrix_error | Undefined

fun and_then :: "'a outcome \<Rightarrow> ('a \<Rightarrow> 'b outcome) \<Rightarrow> 'b outcome" where
  "and_then (Returns x) f = f x"
| "and_then (Throws e) f = Throws e"
| "and_then Undefined f = Undefined"

section \<open>The code\<close>

record 'a matrix =
  mx_data :: "'a list"
  mx_rows :: u64
  mx_cols :: u64

definition elementCount :: "u64 \<Rightarrow> u64 \<Rightarrow> u64 outcome" where
  "elementCount r c = (if c \<noteq> 0 \<and> r > (- 1) div c then Throws LengthError else Returns (r * c))"

definition matrix_new :: "u64 \<Rightarrow> u64 \<Rightarrow> 'a \<Rightarrow> 'a matrix outcome" where
  "matrix_new r c initial =
     and_then (elementCount r c) (\<lambda>n. Returns \<lparr>mx_data = replicate (unat n) initial, mx_rows = r, mx_cols = c\<rparr>)"

text \<open>\<open>operator()\<close>, read and assigned. The bounds are checked; the access to the vector is not.\<close>

definition mx_at :: "'a matrix \<Rightarrow> u64 \<Rightarrow> u64 \<Rightarrow> 'a outcome" where
  "mx_at m r c =
     (if r \<ge> mx_rows m \<or> c \<ge> mx_cols m then Throws OutOfRange
      else let i = unat (r * mx_cols m + c) in if i < length (mx_data m) then Returns (mx_data m ! i) else Undefined)"

definition mx_set :: "'a matrix \<Rightarrow> u64 \<Rightarrow> u64 \<Rightarrow> 'a \<Rightarrow> 'a matrix outcome" where
  "mx_set m r c v =
     (if r \<ge> mx_rows m \<or> c \<ge> mx_cols m then Throws OutOfRange
      else let i = unat (r * mx_cols m + c) in
        if i < length (mx_data m) then Returns (m\<lparr>mx_data := (mx_data m)[i := v]\<rparr>) else Undefined)"

text \<open>The loops run over the values that their counter takes.\<close>

fun zip_loop :: "('a \<Rightarrow> 'a \<Rightarrow> 'a) \<Rightarrow> 'a list \<Rightarrow> 'a list \<Rightarrow> nat list \<Rightarrow> 'a list \<Rightarrow> 'a list outcome" where
  "zip_loop f xs ys [] res = Returns res"
| "zip_loop f xs ys (i # is) res =
     (if i < length xs \<and> i < length ys \<and> i < length res then zip_loop f xs ys is (res[i := f (xs ! i) (ys ! i)])
      else Undefined)"

definition mx_add :: "'a::{plus, zero} matrix \<Rightarrow> 'a matrix \<Rightarrow> 'a matrix outcome" where
  "mx_add a b =
     (if mx_rows a \<noteq> mx_rows b \<or> mx_cols a \<noteq> mx_cols b then Throws InvalidArgument
      else and_then (matrix_new (mx_rows a) (mx_cols a) 0) (\<lambda>res.
             and_then (zip_loop (\<lambda>x y. x + y) (mx_data a) (mx_data b) [0..<length (mx_data a)] (mx_data res)) (\<lambda>d.
               Returns (res\<lparr>mx_data := d\<rparr>))))"

definition mx_subtract :: "'a::{minus, zero} matrix \<Rightarrow> 'a matrix \<Rightarrow> 'a matrix outcome" where
  "mx_subtract a b =
     (if mx_rows a \<noteq> mx_rows b \<or> mx_cols a \<noteq> mx_cols b then Throws InvalidArgument
      else and_then (matrix_new (mx_rows a) (mx_cols a) 0) (\<lambda>res.
             and_then (zip_loop (\<lambda>x y. x - y) (mx_data a) (mx_data b) [0..<length (mx_data a)] (mx_data res)) (\<lambda>d.
               Returns (res\<lparr>mx_data := d\<rparr>))))"

fun sum_loop :: "'a::{plus, times} matrix \<Rightarrow> 'a matrix \<Rightarrow> u64 \<Rightarrow> u64 \<Rightarrow> nat list \<Rightarrow> 'a \<Rightarrow> 'a outcome" where
  "sum_loop a b i j [] s = Returns s"
| "sum_loop a b i j (k # ks) s =
     and_then (mx_at a i (of_nat k)) (\<lambda>x. and_then (mx_at b (of_nat k) j) (\<lambda>y. sum_loop a b i j ks (s + x * y)))"

text \<open>Two nested loops that set the entries one after the other.\<close>

fun row_loop :: "(u64 \<Rightarrow> u64 \<Rightarrow> 'a matrix \<Rightarrow> 'a matrix outcome) \<Rightarrow> u64 \<Rightarrow> nat list \<Rightarrow> 'a matrix \<Rightarrow> 'a matrix outcome" where
  "row_loop step i [] res = Returns res"
| "row_loop step i (j # js) res = and_then (step i (of_nat j) res) (row_loop step i js)"

fun grid_loop :: "(u64 \<Rightarrow> u64 \<Rightarrow> 'a matrix \<Rightarrow> 'a matrix outcome) \<Rightarrow> nat list \<Rightarrow> nat list \<Rightarrow> 'a matrix \<Rightarrow> 'a matrix outcome" where
  "grid_loop step [] js res = Returns res"
| "grid_loop step (i # is) js res = and_then (row_loop step (of_nat i) js res) (grid_loop step is js)"

definition mx_multiply :: "'a::{plus, times, zero} matrix \<Rightarrow> 'a matrix \<Rightarrow> 'a matrix outcome" where
  "mx_multiply a b =
     (if mx_cols a \<noteq> mx_rows b then Throws InvalidArgument
      else and_then (matrix_new (mx_rows a) (mx_cols b) 0) (\<lambda>res.
             grid_loop (\<lambda>i j res. and_then (sum_loop a b i j [0..<unat (mx_cols a)] 0) (mx_set res i j))
               [0..<unat (mx_rows a)] [0..<unat (mx_cols b)] res))"

definition mx_transpose :: "'a::zero matrix \<Rightarrow> 'a matrix outcome" where
  "mx_transpose a =
     and_then (matrix_new (mx_cols a) (mx_rows a) 0) (\<lambda>res.
       grid_loop (\<lambda>i j res. and_then (mx_at a i j) (mx_set res j i)) [0..<unat (mx_rows a)] [0..<unat (mx_cols a)] res)"

section \<open>The invariant and the entries\<close>

definition mx_ok :: "'a matrix \<Rightarrow> bool" where
  "mx_ok m \<longleftrightarrow> length (mx_data m) = unat (mx_rows m) * unat (mx_cols m) \<and> unat (mx_rows m) * unat (mx_cols m) < 2 ^ 64"

definition entry :: "'a matrix \<Rightarrow> nat \<Rightarrow> nat \<Rightarrow> 'a" where
  "entry m i j = mx_data m ! (i * unat (mx_cols m) + j)"

definition has_entries :: "'a matrix \<Rightarrow> u64 \<Rightarrow> u64 \<Rightarrow> (nat \<Rightarrow> nat \<Rightarrow> 'a) \<Rightarrow> bool" where
  "has_entries m r c f \<longleftrightarrow> mx_ok m \<and> mx_rows m = r \<and> mx_cols m = c \<and> (\<forall>i<unat r. \<forall>j<unat c. entry m i j = f i j)"

lemma position_bound: "i < r \<Longrightarrow> j < c \<Longrightarrow> i * c + j < r * (c :: nat)"
proof -
  assume "i < r" "j < c"
  then have "i * c + j < Suc i * c" "Suc i * c \<le> r * c" by (simp, intro mult_le_mono1) simp
  then show ?thesis by linarith
qed

lemma position_inj:
  assumes "j < c" "j' < c" "i * c + j = i' * c + (j' :: nat)"
  shows "i = i' \<and> j = j'"
proof -
  have "(i * c + j) div c = i" "(i' * c + j') div c = i'" using assms(1,2) by simp_all
  then have "i = i'" using assms(3) by simp
  then show ?thesis using assms(3) by simp
qed

lemma position_word:
  assumes "mx_ok m" "i < unat (mx_rows m)" "j < unat (mx_cols m)"
  shows "unat (of_nat i * mx_cols m + of_nat j) = i * unat (mx_cols m) + j \<and> i * unat (mx_cols m) + j < length (mx_data m)"
proof -
  have b: "i * unat (mx_cols m) + j < unat (mx_rows m) * unat (mx_cols m)" by (rule position_bound [OF assms(2,3)])
  have "of_nat i * mx_cols m + of_nat j = (of_nat (i * unat (mx_cols m) + j) :: u64)" by simp
  moreover have "i * unat (mx_cols m) + j < 2 ^ 64" using b assms(1) by (simp add: mx_ok_def)
  ultimately have "unat (of_nat i * mx_cols m + of_nat j) = i * unat (mx_cols m) + j" by (metis unat_word64_of_nat)
  then show ?thesis using b assms(1) by (simp add: mx_ok_def)
qed

lemma index_word: "i < unat (n :: u64) \<Longrightarrow> unat (of_nat i :: u64) = i"
proof -
  assume "i < unat n"
  then have "i < 2 ^ 64" using unsigned_less [of n, where 'a = nat] by simp
  then show ?thesis by (rule unat_word64_of_nat)
qed

lemma at_entry: "mx_ok m \<Longrightarrow> i < unat (mx_rows m) \<Longrightarrow> j < unat (mx_cols m) \<Longrightarrow> mx_at m (of_nat i) (of_nat j) = Returns (entry m i j)"
  using position_word [of m i j] by (simp add: mx_at_def entry_def word_le_nat_alt index_word)

lemma set_entry:
  assumes "mx_ok m" "i < unat (mx_rows m)" "j < unat (mx_cols m)"
  shows "\<exists>m'. mx_set m (of_nat i) (of_nat j) v = Returns m' \<and> mx_ok m' \<and> mx_rows m' = mx_rows m \<and> mx_cols m' = mx_cols m
    \<and> (\<forall>i' j'. i' < unat (mx_rows m) \<longrightarrow> j' < unat (mx_cols m) \<longrightarrow> entry m' i' j' = (if i' = i \<and> j' = j then v else entry m i' j'))"
proof -
  note p = position_word [OF assms]
  have "mx_set m (of_nat i) (of_nat j) v = Returns (m\<lparr>mx_data := (mx_data m)[i * unat (mx_cols m) + j := v]\<rparr>)"
    using p assms by (simp add: mx_set_def word_le_nat_alt index_word)
  moreover have "i * unat (mx_cols m) + j = i' * unat (mx_cols m) + j' \<longleftrightarrow> i' = i \<and> j' = j" if "j' < unat (mx_cols m)" for i' j'
    using position_inj [OF assms(3) that] by blast
  ultimately show ?thesis using assms(1) p by (simp add: mx_ok_def entry_def nth_list_update)
qed


section \<open>Each operation\<close>

lemma size_overflow: "c \<noteq> 0 \<and> r > (- 1) div (c :: u64) \<longleftrightarrow> 2 ^ 64 \<le> unat r * unat c"
proof (cases "c = 0")
  case False
  then have c: "0 < unat c" by (simp add: word_neq_0_conv [symmetric] unat_gt_0)
  have "unat ((- 1) div c) = (2 ^ 64 - 1) div unat c" by (simp add: unat_div unsigned_minus_1_eq_mask mask_eq_exp_minus_1)
  then have "r > (- 1) div c \<longleftrightarrow> (2 ^ 64 - 1) div unat c < unat r" by (simp add: word_less_nat_alt)
  also have "\<dots> \<longleftrightarrow> 2 ^ 64 - 1 < unat r * unat c" using div_less_iff_less_mult [OF c] by blast
  finally show ?thesis using False by auto
qed simp

lemma new_spec: "matrix_new r c v =
    (if 2 ^ 64 \<le> unat r * unat c then Throws LengthError
     else Returns \<lparr>mx_data = replicate (unat r * unat c) v, mx_rows = r, mx_cols = c\<rparr>)"
  using size_overflow [of c r] by (auto simp: matrix_new_def elementCount_def unat_word_ariths)

text \<open>While the loops set entries: the matrix keeps its shape, and the entries in \<open>D\<close> are as wanted.\<close>

definition filled :: "u64 \<Rightarrow> u64 \<Rightarrow> (nat \<Rightarrow> nat \<Rightarrow> 'a) \<Rightarrow> (nat \<times> nat) set \<Rightarrow> 'a matrix \<Rightarrow> bool" where
  "filled r c G D m \<longleftrightarrow> mx_ok m \<and> mx_rows m = r \<and> mx_cols m = c
     \<and> (\<forall>(x, y)\<in>D. x < unat r \<and> y < unat c \<and> entry m x y = G x y)"

definition fills ::
    "u64 \<Rightarrow> u64 \<Rightarrow> (nat \<Rightarrow> nat \<Rightarrow> 'a) \<Rightarrow> (nat \<Rightarrow> nat \<Rightarrow> nat \<times> nat) \<Rightarrow> nat set \<Rightarrow> nat set
      \<Rightarrow> (u64 \<Rightarrow> u64 \<Rightarrow> 'a matrix \<Rightarrow> 'a matrix outcome) \<Rightarrow> bool" where
  "fills r c G p I J step \<longleftrightarrow> (\<forall>i\<in>I. \<forall>j\<in>J. \<forall>D m. filled r c G D m \<longrightarrow>
     (\<exists>m'. step (of_nat i) (of_nat j) m = Returns m' \<and> filled r c G (insert (p i j) D) m'))"

lemma set_fills:
  assumes "filled r c G D m" "x < unat r" "y < unat c"
  shows "\<exists>m'. mx_set m (of_nat x) (of_nat y) (G x y) = Returns m' \<and> filled r c G (insert (x, y) D) m'"
proof -
  have m: "mx_ok m" "mx_rows m = r" "mx_cols m = c" using assms(1) by (simp_all add: filled_def)
  obtain m' where m': "mx_set m (of_nat x) (of_nat y) (G x y) = Returns m'" "mx_ok m'" "mx_rows m' = r" "mx_cols m' = c"
    "\<forall>i' j'. i' < unat r \<longrightarrow> j' < unat c \<longrightarrow> entry m' i' j' = (if i' = x \<and> j' = y then G x y else entry m i' j')"
    using set_entry [OF m(1), of x y "G x y"] assms(2,3) m(2,3) by auto
  have "filled r c G (insert (x, y) D) m'"
    unfolding filled_def
  proof (intro conjI m' ballI, clarify)
    fix i j assume "(i, j) \<in> insert (x, y) D"
    then show "i < unat r \<and> j < unat c \<and> entry m' i j = G i j" using assms m'(5) unfolding filled_def by (cases "(i, j) = (x, y)") auto
  qed
  then show ?thesis using m'(1) by blast
qed

lemma row_fills:
  "fills r c G p I J step \<Longrightarrow> i \<in> I \<Longrightarrow> set js \<subseteq> J \<Longrightarrow> filled r c G D m \<Longrightarrow>
    \<exists>m'. row_loop step (of_nat i) js m = Returns m' \<and> filled r c G (D \<union> p i ` set js) m'"
proof (induction js arbitrary: D m)
  case (Cons j js)
  obtain m1 where m1: "step (of_nat i) (of_nat j) m = Returns m1" "filled r c G (insert (p i j) D) m1"
    using Cons.prems unfolding fills_def by (metis list.set_intros(1) subset_iff)
  show ?case using Cons.IH [OF Cons.prems(1,2) _ m1(2)] Cons.prems(3) m1(1) by (simp add: insert_commute)
qed simp

lemma grid_fills:
  "fills r c G p I J step \<Longrightarrow> set xs \<subseteq> I \<Longrightarrow> set js \<subseteq> J \<Longrightarrow> filled r c G D m \<Longrightarrow>
    \<exists>m'. grid_loop step xs js m = Returns m' \<and> filled r c G (D \<union> {p i j | i j. i \<in> set xs \<and> j \<in> set js}) m'"
proof (induction xs arbitrary: D m)
  case (Cons i xs)
  obtain m1 where m1: "row_loop step (of_nat i) js m = Returns m1" "filled r c G (D \<union> p i ` set js) m1"
    using row_fills [OF Cons.prems(1) _ Cons.prems(3,4)] Cons.prems(2) by auto
  have "D \<union> p i ` set js \<union> {p i j | i j. i \<in> set xs \<and> j \<in> set js} = D \<union> {p i' j | i' j. i' \<in> set (i # xs) \<and> j \<in> set js}" by auto
  then show ?case using Cons.IH [OF Cons.prems(1) _ Cons.prems(3) m1(2)] Cons.prems(2) m1(1) by simp
qed simp

lemma filled_all: "filled r c G D m \<Longrightarrow> {(x, y). x < unat r \<and> y < unat c} \<subseteq> D \<Longrightarrow> has_entries m r c G"
  by (auto simp: filled_def has_entries_def)

lemma grid_fills_all:
  assumes "fills r c G p {..<k} {..<l} step" "filled r c G {} m" "\<And>x y. x < unat r \<Longrightarrow> y < unat c \<Longrightarrow> \<exists>i<k. \<exists>j<l. p i j = (x, y)"
  shows "\<exists>m'. grid_loop step [0..<k] [0..<l] m = Returns m' \<and> has_entries m' r c G"
proof -
  have "set [0..<k] \<subseteq> {..<k}" "set [0..<l] \<subseteq> {..<l}" by auto
  from grid_fills [OF assms(1) this assms(2)] obtain m' where m': "grid_loop step [0..<k] [0..<l] m = Returns m'"
    "filled r c G ({} \<union> {p i j | i j. i \<in> set [0..<k] \<and> j \<in> set [0..<l]}) m'" by blast
  have "{(x, y). x < unat r \<and> y < unat c} \<subseteq> {} \<union> {p i j | i j. i \<in> set [0..<k] \<and> j \<in> set [0..<l]}"
    using assms(3) by auto (metis)
  then show ?thesis using m' filled_all by blast
qed

definition dot :: "'a::{plus, times, zero} matrix \<Rightarrow> 'a matrix \<Rightarrow> nat \<Rightarrow> nat \<Rightarrow> 'a" where
  "dot a b i j = foldl (\<lambda>s k. s + entry a i k * entry b k j) 0 [0..<unat (mx_cols a)]"

lemma sum_loop_dot:
  "mx_ok a \<Longrightarrow> mx_ok b \<Longrightarrow> mx_cols a = mx_rows b \<Longrightarrow> i < unat (mx_rows a) \<Longrightarrow> j < unat (mx_cols b) \<Longrightarrow>
    set ks \<subseteq> {..<unat (mx_cols a)} \<Longrightarrow>
    sum_loop a b (of_nat i) (of_nat j) ks s = Returns (foldl (\<lambda>s k. s + entry a i k * entry b k j) s ks)"
  by (induction ks arbitrary: s) (simp_all add: at_entry)

lemma multiply_spec:
  assumes "mx_ok a" "mx_ok b" "mx_cols a = mx_rows b" "unat (mx_rows a) * unat (mx_cols b) < 2 ^ 64"
  shows "\<exists>m. mx_multiply a b = Returns m \<and> has_entries m (mx_rows a) (mx_cols b) (dot a b)"
proof -
  let ?r = "mx_rows a" and ?c = "mx_cols b"
  let ?new = "\<lparr>mx_data = replicate (unat ?r * unat ?c) 0, mx_rows = ?r, mx_cols = ?c\<rparr>"
  let ?step = "\<lambda>i j res. and_then (sum_loop a b i j [0..<unat (mx_cols a)] 0) (mx_set res i j)"
  have "sum_loop a b (of_nat i) (of_nat j) [0..<unat (mx_cols a)] 0 = Returns (dot a b i j)" if "i < unat ?r" "j < unat ?c" for i j
    unfolding dot_def by (rule sum_loop_dot) (use assms that in auto)
  then have "fills ?r ?c (dot a b) Pair {..<unat ?r} {..<unat ?c} ?step"
    unfolding fills_def using set_fills by fastforce
  moreover have "filled ?r ?c (dot a b) {} ?new" using assms(4) by (simp add: filled_def mx_ok_def)
  ultimately obtain m where m: "grid_loop ?step [0..<unat ?r] [0..<unat ?c] ?new = Returns m" "has_entries m ?r ?c (dot a b)"
    using grid_fills_all [of ?r ?c "dot a b" Pair "unat ?r" "unat ?c" ?step ?new] by blast
  have "mx_multiply a b = Returns m" using assms m(1) by (simp add: mx_multiply_def new_spec)
  then show ?thesis using m(2) by blast
qed

lemma transpose_spec:
  assumes "mx_ok a"
  shows "\<exists>m. mx_transpose a = Returns m \<and> has_entries m (mx_cols a) (mx_rows a) (\<lambda>i j. entry a j i)"
proof -
  let ?r = "mx_cols a" and ?c = "mx_rows a" and ?G = "\<lambda>i j. entry a j i"
  let ?new = "\<lparr>mx_data = replicate (unat ?r * unat ?c) 0, mx_rows = ?r, mx_cols = ?c\<rparr>"
  let ?step = "\<lambda>i j res. and_then (mx_at a i j) (mx_set res j i)"
  have small: "unat ?r * unat ?c < 2 ^ 64" using assms by (simp add: mx_ok_def mult.commute)
  have "fills ?r ?c ?G (\<lambda>i j. (j, i)) {..<unat ?c} {..<unat ?r} ?step"
    unfolding fills_def using set_fills at_entry [OF assms] by fastforce
  moreover have "filled ?r ?c ?G {} ?new" using small by (simp add: filled_def mx_ok_def)
  ultimately obtain m where m: "grid_loop ?step [0..<unat ?c] [0..<unat ?r] ?new = Returns m" "has_entries m ?r ?c ?G"
    using grid_fills_all [of ?r ?c ?G "\<lambda>i j. (j, i)" "unat ?c" "unat ?r" ?step ?new] by blast
  have "mx_transpose a = Returns m" using small m(1) by (simp add: mx_transpose_def new_spec)
  then show ?thesis using m(2) by blast
qed

lemma zip_loop_spec:
  "length xs = length res \<Longrightarrow> length ys = length res \<Longrightarrow> n \<le> length res \<Longrightarrow>
    \<exists>d. zip_loop f xs ys [k..<n] res = Returns d \<and> length d = length res
      \<and> (\<forall>i<length res. d ! i = (if k \<le> i \<and> i < n then f (xs ! i) (ys ! i) else res ! i))"
proof (induction "n - k" arbitrary: k res)
  case (Suc d)
  then have k: "k < n" by simp
  have "d = n - Suc k" using Suc(2) by simp
  from Suc.hyps(1) [OF this, of "res[k := f (xs ! k) (ys ! k)]"] Suc.prems k show ?case
    by (auto simp: upt_conv_Cons nth_list_update Suc_le_eq order_le_less)
qed auto

lemma zip_spec:
  assumes "mx_ok a" "mx_ok b" "mx_rows a = mx_rows b" "mx_cols a = mx_cols b"
  shows "\<exists>d. zip_loop f (mx_data a) (mx_data b) [0..<length (mx_data a)] (replicate (length (mx_data a)) z) = Returns d
    \<and> has_entries (\<lparr>mx_data = d, mx_rows = mx_rows a, mx_cols = mx_cols a\<rparr>) (mx_rows a) (mx_cols a) (\<lambda>i j. f (entry a i j) (entry b i j))"
proof -
  let ?n = "length (mx_data a)"
  have n: "?n = unat (mx_rows a) * unat (mx_cols a)" "length (mx_data b) = ?n" using assms by (simp_all add: mx_ok_def)
  obtain d where d: "zip_loop f (mx_data a) (mx_data b) [0..<?n] (replicate ?n z) = Returns d" "length d = ?n"
    "\<forall>i<?n. d ! i = f (mx_data a ! i) (mx_data b ! i)"
    using zip_loop_spec [of "mx_data a" "replicate ?n z" "mx_data b" ?n f 0] n by auto
  then show ?thesis using assms n position_bound by (auto simp: has_entries_def mx_ok_def entry_def)
qed


section \<open>What the operations give\<close>

definition gives :: "'a matrix outcome \<Rightarrow> u64 \<Rightarrow> u64 \<Rightarrow> (nat \<Rightarrow> nat \<Rightarrow> 'a) \<Rightarrow> bool" where
  "gives out r c f \<longleftrightarrow> (\<exists>m. out = Returns m \<and> has_entries m r c f)"

lemma new_gives: "unat r * unat c < 2 ^ 64 \<Longrightarrow> gives (matrix_new r c v) r c (\<lambda>i j. v)"
  using position_bound [of _ "unat r" _ "unat c"] by (simp add: gives_def new_spec has_entries_def mx_ok_def entry_def)

lemma add_gives:
  assumes "mx_ok a" "mx_ok b" "mx_rows a = mx_rows b" "mx_cols a = mx_cols b"
  shows "gives (mx_add a b) (mx_rows a) (mx_cols a) (\<lambda>i j. entry a i j + entry b i j)"
  using zip_spec [OF assms, of "(+)" 0] assms by (auto simp: gives_def mx_add_def new_spec mx_ok_def)

lemma subtract_gives:
  assumes "mx_ok a" "mx_ok b" "mx_rows a = mx_rows b" "mx_cols a = mx_cols b"
  shows "gives (mx_subtract a b) (mx_rows a) (mx_cols a) (\<lambda>i j. entry a i j - entry b i j)"
  using zip_spec [OF assms, of "(-)" 0] assms by (auto simp: gives_def mx_subtract_def new_spec mx_ok_def)

text \<open>What the operations of Matrix compute, for any element type: the constructor throws length_error exactly
  when the number of elements does not fit into size_t; the accessor returns the entry, or throws out_of_range exactly
  outside the matrix; sum, difference and product have the entries that the algebra gives them, summed from left to
  right, or throw invalid_argument exactly when the dimensions do not fit, and the product length_error exactly when
  its size overflows; transpose always succeeds.\<close>

theorem matrix_operations:
  fixes a b :: "'a::{plus, minus, times, zero} matrix"
  assumes "mx_ok a" "mx_ok b"
  shows "(if unat r * unat c < 2 ^ 64 then gives (matrix_new r c v) r c (\<lambda>i j. v) else matrix_new r c v = Throws LengthError)
    \<and> mx_at a r c = (if r < mx_rows a \<and> c < mx_cols a then Returns (entry a (unat r) (unat c)) else Throws OutOfRange)
    \<and> (if mx_rows a = mx_rows b \<and> mx_cols a = mx_cols b
        then gives (mx_add a b) (mx_rows a) (mx_cols a) (\<lambda>i j. entry a i j + entry b i j)
          \<and> gives (mx_subtract a b) (mx_rows a) (mx_cols a) (\<lambda>i j. entry a i j - entry b i j)
        else mx_add a b = Throws InvalidArgument \<and> mx_subtract a b = Throws InvalidArgument)
    \<and> (if mx_cols a \<noteq> mx_rows b then mx_multiply a b = Throws InvalidArgument
        else if unat (mx_rows a) * unat (mx_cols b) < 2 ^ 64
          then gives (mx_multiply a b) (mx_rows a) (mx_cols b)
            (\<lambda>i j. foldl (\<lambda>s k. s + entry a i k * entry b k j) 0 [0..<unat (mx_cols a)])
          else mx_multiply a b = Throws LengthError)
    \<and> gives (mx_transpose a) (mx_cols a) (mx_rows a) (\<lambda>i j. entry a j i)"
proof (intro conjI)
  show "if unat r * unat c < 2 ^ 64 then gives (matrix_new r c v) r c (\<lambda>i j. v) else matrix_new r c v = Throws LengthError"
    using new_gives [of r c v] by (simp add: new_spec)
  show "mx_at a r c = (if r < mx_rows a \<and> c < mx_cols a then Returns (entry a (unat r) (unat c)) else Throws OutOfRange)"
    using at_entry [OF assms(1), of "unat r" "unat c"] by (auto simp: mx_at_def not_le word_less_nat_alt)
  show "gives (mx_transpose a) (mx_cols a) (mx_rows a) (\<lambda>i j. entry a j i)"
    using transpose_spec [OF assms(1)] by (simp add: gives_def)
  show "if mx_rows a = mx_rows b \<and> mx_cols a = mx_cols b
    then gives (mx_add a b) (mx_rows a) (mx_cols a) (\<lambda>i j. entry a i j + entry b i j)
      \<and> gives (mx_subtract a b) (mx_rows a) (mx_cols a) (\<lambda>i j. entry a i j - entry b i j)
    else mx_add a b = Throws InvalidArgument \<and> mx_subtract a b = Throws InvalidArgument"
    using add_gives [OF assms] subtract_gives [OF assms] by (auto simp: mx_add_def mx_subtract_def)
  show "if mx_cols a \<noteq> mx_rows b then mx_multiply a b = Throws InvalidArgument
    else if unat (mx_rows a) * unat (mx_cols b) < 2 ^ 64
      then gives (mx_multiply a b) (mx_rows a) (mx_cols b)
        (\<lambda>i j. foldl (\<lambda>s k. s + entry a i k * entry b k j) 0 [0..<unat (mx_cols a)])
      else mx_multiply a b = Throws LengthError"
    using multiply_spec [OF assms] by (simp add: mx_multiply_def new_spec gives_def dot_def [abs_def])
qed

definition sample_a :: "int matrix" where
  "sample_a = \<lparr>mx_data = [1, 2, 3, 4, 5, 6], mx_rows = 2, mx_cols = 3\<rparr>"

definition sample_b :: "int matrix" where
  "sample_b = \<lparr>mx_data = [7, 8, 9, 10, 11, 12], mx_rows = 3, mx_cols = 2\<rparr>"

lemma samples_ok: "mx_ok sample_a" "mx_ok sample_b"
  by (simp_all add: sample_a_def sample_b_def mx_ok_def)

theorem matrix_operations_witness:
  "mx_add sample_a sample_b = Throws InvalidArgument \<and> gives (mx_transpose sample_a) 3 2 (\<lambda>i j. entry sample_a j i)
    \<and> mx_multiply sample_a sample_b = Returns \<lparr>mx_data = [58, 64, 139, 154], mx_rows = 2, mx_cols = 2\<rparr>
    \<and> foldl (\<lambda>s k. s + entry sample_a 1 k * entry sample_b k 0) 0 [0..<3] = 139"
proof -
  have dims: "mx_rows sample_a = 2" "mx_cols sample_a = 3" "mx_rows sample_b = 3" "mx_cols sample_b = 2"
    by (simp_all add: sample_a_def sample_b_def)
  have "mx_multiply sample_a sample_b = Returns \<lparr>mx_data = [58, 64, 139, 154], mx_rows = 2, mx_cols = 2\<rparr>"
    "foldl (\<lambda>s k. s + entry sample_a 1 k * entry sample_b k 0) 0 [0..<3] = 139" by code_simp+
  moreover have "mx_add sample_a sample_b = Throws InvalidArgument \<and> gives (mx_transpose sample_a) 3 2 (\<lambda>i j. entry sample_a j i)"
    using matrix_operations [OF samples_ok, of 0 0 0] dims by auto
  ultimately show ?thesis by blast
qed

section \<open>No use of a matrix leaves its storage\<close>

text \<open>The matrices a program can make with the constructor, assignments to entries and the operators.\<close>

inductive built :: "'a::{plus, minus, times, zero} matrix \<Rightarrow> bool" where
  built_new: "matrix_new r c v = Returns m \<Longrightarrow> built m"
| built_set: "built m \<Longrightarrow> mx_set m r c v = Returns m' \<Longrightarrow> built m'"
| built_add: "built a \<Longrightarrow> built b \<Longrightarrow> mx_add a b = Returns m \<Longrightarrow> built m"
| built_subtract: "built a \<Longrightarrow> built b \<Longrightarrow> mx_subtract a b = Returns m \<Longrightarrow> built m"
| built_multiply: "built a \<Longrightarrow> built b \<Longrightarrow> mx_multiply a b = Returns m \<Longrightarrow> built m"
| built_transpose: "built a \<Longrightarrow> mx_transpose a = Returns m \<Longrightarrow> built m"

definition stays_ok :: "'a matrix outcome \<Rightarrow> bool" where
  "stays_ok out \<longleftrightarrow> (case out of Returns m \<Rightarrow> mx_ok m | Throws e \<Rightarrow> True | Undefined \<Rightarrow> False)"

lemma gives_ok: "gives out r c f \<Longrightarrow> stays_ok out"
  by (auto simp: gives_def stays_ok_def has_entries_def)

lemma set_ok: "mx_ok m \<Longrightarrow> stays_ok (mx_set m r c v)"
  using set_entry [of m "unat r" "unat c" v]
  by (cases "r < mx_rows m \<and> c < mx_cols m") (auto simp: stays_ok_def mx_set_def word_less_nat_alt not_less word_le_nat_alt)

lemma operators_ok:
  assumes "mx_ok a" "mx_ok b"
  shows "stays_ok (mx_add a b)" "stays_ok (mx_subtract a b)" "stays_ok (mx_multiply a b)"
proof -
  show "stays_ok (mx_add a b)"
  proof (cases "mx_rows a = mx_rows b \<and> mx_cols a = mx_cols b")
    case True
    then show ?thesis using gives_ok add_gives [OF assms] by blast
  qed (auto simp: mx_add_def stays_ok_def)
  show "stays_ok (mx_subtract a b)"
  proof (cases "mx_rows a = mx_rows b \<and> mx_cols a = mx_cols b")
    case True
    then show ?thesis using gives_ok subtract_gives [OF assms] by blast
  qed (auto simp: mx_subtract_def stays_ok_def)
  show "stays_ok (mx_multiply a b)"
    using multiply_spec [OF assms] gives_ok [of "mx_multiply a b" "mx_rows a" "mx_cols b" "dot a b"]
    by (auto simp: mx_multiply_def new_spec stays_ok_def gives_def not_less split: if_splits)
qed

lemma new_ok: "stays_ok (matrix_new r c v)"
  by (simp add: new_spec stays_ok_def mx_ok_def)

lemma transpose_ok: "mx_ok a \<Longrightarrow> stays_ok (mx_transpose a)"
  using transpose_spec [of a] by (auto simp: stays_ok_def has_entries_def)

lemma built_ok: "built m \<Longrightarrow> mx_ok m"
proof (induction rule: built.induct)
  case (built_new r c v m)
  then show ?case using new_ok [of r c v] by (simp add: stays_ok_def)
next
  case (built_set m r c v m')
  then show ?case using set_ok [of m r c v] by (simp add: stays_ok_def)
next
  case (built_transpose a m)
  then show ?case using transpose_ok [of a] by (simp add: stays_ok_def)
qed (use operators_ok in \<open>fastforce simp: stays_ok_def\<close>)+

text \<open>C27. Matrices are safe to use: for every matrix made by the constructor, by writing entries
  and by the operators, the storage has rows times columns elements and that product does not wrap, and reading, assigning, adding, subtracting, multiplying and transposing
  such matrices never touches anything outside the storage.\<close>

theorem matrices_are_safe:
  assumes "built a" "built b"
  shows "length (mx_data a) = unat (mx_rows a) * unat (mx_cols a) \<and> unat (mx_rows a) * unat (mx_cols a) < 2 ^ 64
    \<and> mx_at a r c \<noteq> Undefined \<and> mx_set a r c v \<noteq> Undefined \<and> mx_add a b \<noteq> Undefined \<and> mx_subtract a b \<noteq> Undefined
    \<and> mx_multiply a b \<noteq> Undefined \<and> mx_transpose a \<noteq> Undefined"
proof -
  note ok = built_ok [OF assms(1)] built_ok [OF assms(2)]
  have "mx_at a r c \<noteq> Undefined" using at_entry [OF ok(1), of "unat r" "unat c"]
    by (cases "r < mx_rows a \<and> c < mx_cols a") (auto simp: mx_at_def word_less_nat_alt not_less word_le_nat_alt)
  then show ?thesis
    using ok(1) set_ok [OF ok(1), of r c v] operators_ok [OF ok] transpose_ok [OF ok(1)] by (auto simp: stays_ok_def mx_ok_def)
qed

theorem matrices_are_safe_witness: "mx_multiply \<lparr>mx_data = [2, 2 :: int], mx_rows = 1, mx_cols = 2\<rparr> \<lparr>mx_data = [3, 3], mx_rows = 2, mx_cols = 1\<rparr> \<noteq> Undefined"
proof -
  have "matrix_new 1 2 (2 :: int) = Returns \<lparr>mx_data = [2, 2], mx_rows = 1, mx_cols = 2\<rparr>"
    "matrix_new 2 1 (3 :: int) = Returns \<lparr>mx_data = [3, 3], mx_rows = 2, mx_cols = 1\<rparr>" by code_simp+
  then show ?thesis using matrices_are_safe built_new by blast
qed

end
