(* ===== verification/FpgaPipeline.thy ===== *)
theory FpgaPipeline
  imports Prelude
begin

text \<open>
  The simulated hardware pipeline \<open>include/FpgaPipeline.hpp\<close> and the benchmark \<open>src/hw_bench.cpp\<close> that
  compares it with a function call. The registers that the constructor leaves uninitialised hold whatever
  they are given here. Times and printing are left out.
\<close>

section \<open>The pipeline\<close>

record stage =
  inputReg :: u32
  outputReg :: u32
  valid :: bool

record pipeline =
  stage1_fetch :: stage
  stage2_decode :: stage
  stage3_execute :: stage
  clockCycles :: u64

definition pipeline_new :: "(nat \<Rightarrow> u32) \<Rightarrow> pipeline" where
  "pipeline_new junk =
     \<lparr>stage1_fetch = \<lparr>inputReg = junk 0, outputReg = junk 1, valid = False\<rparr>,
      stage2_decode = \<lparr>inputReg = junk 2, outputReg = junk 3, valid = False\<rparr>,
      stage3_execute = \<lparr>inputReg = junk 4, outputReg = junk 5, valid = False\<rparr>, clockCycles = 0\<rparr>"

definition tick :: "pipeline \<Rightarrow> pipeline" where
  "tick p =
     (let p = p\<lparr>clockCycles := clockCycles p + 1\<rparr>;
          p = (if valid (stage2_decode p)
               then let r = outputReg (stage2_decode p);
                        priceFilter = (r > 100)
                    in p\<lparr>stage3_execute := \<lparr>inputReg = r, outputReg = (if priceFilter then r else 0), valid = True\<rparr>\<rparr>
               else p)
      in if valid (stage1_fetch p)
         then let r = outputReg (stage1_fetch p)
              in p\<lparr>stage2_decode := \<lparr>inputReg = r, outputReg = r AND 0xFFFF, valid = True\<rparr>\<rparr>
         else p)"

definition pipe_input :: "u32 \<Rightarrow> pipeline \<Rightarrow> pipeline" where
  "pipe_input d p = p\<lparr>stage1_fetch := (stage1_fetch p)\<lparr>outputReg := d, valid := True\<rparr>\<rparr>"

definition pipe_output :: "pipeline \<Rightarrow> u32 option" where
  "pipe_output p = (if valid (stage3_execute p) then Some (outputReg (stage3_execute p)) else None)"

definition getCycles :: "pipeline \<Rightarrow> u64" where
  "getCycles p = clockCycles p"

section \<open>The benchmark\<close>

definition softwareProcess :: "u32 \<Rightarrow> u32" where
  "softwareProcess d = (let decoded = d AND 0xFFFF in if decoded > 100 then decoded else 0)"

text \<open>The loops over the counter values \<open>i\<close>, with the checksum of the one and the outputs of the other.\<close>

fun software_loop :: "nat list \<Rightarrow> u32 \<Rightarrow> u32" where
  "software_loop [] s = s"
| "software_loop (i # is) s = software_loop is (s + softwareProcess (of_nat i))"

definition benchmarkSoftware :: "nat \<Rightarrow> u32" where
  "benchmarkSoftware n = software_loop [0..<n] 0"

fun fpga_loop :: "nat list \<Rightarrow> pipeline \<Rightarrow> u32 option list \<times> pipeline" where
  "fpga_loop [] fpga = ([], fpga)"
| "fpga_loop (i # is) fpga =
     (let fpga = pipe_input (of_nat i) fpga;
          fpga = tick fpga; fpga = tick fpga; fpga = tick fpga;
          out = pipe_output fpga;
          (outs, fpga) = fpga_loop is fpga
      in (out # outs, fpga))"

definition benchmarkFpga :: "nat \<Rightarrow> (nat \<Rightarrow> u32) \<Rightarrow> u32 option list \<times> u64" where
  "benchmarkFpga n junk = (let (outs, fpga) = fpga_loop [0..<n] (pipeline_new junk) in (outs, getCycles fpga))"

section \<open>The pipeline as a delay\<close>

text \<open>What is done to a pipeline, and the values that lay on the bus at its ticks, the latest first.\<close>

datatype pipe_action = Input u32 | Tick

fun act_on :: "pipe_action \<Rightarrow> pipeline \<Rightarrow> pipeline" where
  "act_on (Input d) p = pipe_input d p"
| "act_on Tick p = tick p"

fun bus_history :: "pipe_action list \<Rightarrow> u32 option \<times> u32 option list \<Rightarrow> u32 option \<times> u32 option list" where
  "bus_history [] h = h"
| "bus_history (Input d # acts) (bus, seen) = bus_history acts (Some d, seen)"
| "bus_history (Tick # acts) (bus, seen) = bus_history acts (bus, bus # seen)"

definition delayed :: "u32 option list \<Rightarrow> u32 option" where
  "delayed seen = (case seen of _ # b # _ \<Rightarrow> map_option softwareProcess b | _ \<Rightarrow> None)"

definition pipe_state :: "u32 option \<Rightarrow> u32 option list \<Rightarrow> pipeline \<Rightarrow> bool" where
  "pipe_state bus seen p \<longleftrightarrow>
     valid (stage1_fetch p) = (bus \<noteq> None) \<and> (\<forall>d. bus = Some d \<longrightarrow> outputReg (stage1_fetch p) = d)
     \<and> valid (stage2_decode p) = (seen \<noteq> [] \<and> hd seen \<noteq> None)
     \<and> (\<forall>d. seen \<noteq> [] \<and> hd seen = Some d \<longrightarrow> outputReg (stage2_decode p) = d AND 0xFFFF)
     \<and> pipe_output p = delayed seen \<and> getCycles p = of_nat (length seen)
     \<and> (seen \<noteq> [] \<and> hd seen \<noteq> None \<longrightarrow> bus \<noteq> None) \<and> (seen \<noteq> [] \<and> hd seen = None \<longrightarrow> delayed seen = None)"

lemma new_state: "pipe_state None [] (pipeline_new junk)"
  by (simp add: pipe_state_def pipeline_new_def pipe_output_def delayed_def getCycles_def)

lemma input_state: "pipe_state bus seen p \<Longrightarrow> pipe_state (Some d) seen (pipe_input d p)"
  by (auto simp: pipe_state_def pipe_input_def pipe_output_def getCycles_def split: if_splits)

lemma tick_state: "pipe_state bus seen p \<Longrightarrow> pipe_state bus (bus # seen) (tick p)"
  by (cases seen; cases bus)
    (auto simp: pipe_state_def tick_def Let_def pipe_output_def getCycles_def delayed_def softwareProcess_def
      split: list.splits if_splits)

lemma run_state:
  "pipe_state bus seen p \<Longrightarrow> bus_history acts (bus, seen) = (bus', seen') \<Longrightarrow> pipe_state bus' seen' (fold act_on acts p)"
proof (induction acts arbitrary: bus seen p)
  case (Cons a acts)
  then show ?case by (cases a) (auto intro: Cons.IH input_state tick_state)
qed simp


lemma fpga_loop_outputs:
  "pipe_state bus seen p \<Longrightarrow> (\<exists>bus' seen'. pipe_state bus' seen' (snd (fpga_loop is p)) \<and> length seen' = length seen + 3 * length is)
    \<and> fst (fpga_loop is p) = map (\<lambda>i. Some (softwareProcess (of_nat i))) is"
proof (induction "is" arbitrary: bus seen p)
  case (Cons i js)
  let ?d = "of_nat i"
  let ?p = "tick (tick (tick (pipe_input ?d p)))"
  have "pipe_state (Some ?d) (Some ?d # Some ?d # Some ?d # seen) ?p"
    by (intro tick_state input_state) (rule Cons.prems)
  then have "pipe_output ?p = Some (softwareProcess ?d)" by (simp add: pipe_state_def delayed_def)
  moreover obtain bus' seen' where "pipe_state bus' seen' (snd (fpga_loop js ?p))" "length seen' = length seen + 3 * length (i # js)"
    "fst (fpga_loop js ?p) = map (\<lambda>i. Some (softwareProcess (of_nat i))) js"
    using Cons.IH [OF \<open>pipe_state _ _ ?p\<close>] by auto
  moreover have "snd (fpga_loop (i # js) p) = snd (fpga_loop js ?p)" "fst (fpga_loop (i # js) p) = pipe_output ?p # fst (fpga_loop js ?p)"
    by (simp_all add: Let_def split: prod.splits)
  ultimately show ?case by (metis list.simps(9))
qed auto

lemma software_loop_sum: "software_loop is s = s + sum_list (map (\<lambda>i. softwareProcess (of_nat i)) is)"
  by (induction "is" arbitrary: s) (simp_all add: add.assoc)

text \<open>C37. The pipeline computes softwareProcess with a latency of two clock edges: after any sequence of inputs and
  ticks the output is the software result for the value that lay on the bus one tick before the last one, and there is
  none before that. So the loop of the benchmark, which ticks three times for each value, outputs exactly what the
  software computes for each of them, in three cycles per value, and the software checksum is the sum of those
  outputs.\<close>

theorem pipeline_equals_software:
  "pipe_output (fold act_on acts (pipeline_new junk)) = delayed (snd (bus_history acts (None, [])))
   \<and> fst (benchmarkFpga n junk) = map (\<lambda>i. Some (softwareProcess (of_nat i))) [0..<n]
   \<and> snd (benchmarkFpga n junk) = of_nat (3 * n)
   \<and> benchmarkSoftware n = sum_list (map the (fst (benchmarkFpga n junk)))"
proof -
  obtain bus seen where h: "bus_history acts (None, []) = (bus, seen)" by (cases "bus_history acts (None, [])")
  have out: "fst (benchmarkFpga n junk) = map (\<lambda>i. Some (softwareProcess (of_nat i))) [0..<n]"
    "snd (benchmarkFpga n junk) = of_nat (3 * n)"
    using fpga_loop_outputs [OF new_state, of "[0..<n]" junk] by (auto simp: benchmarkFpga_def pipe_state_def split: prod.splits)
  have "benchmarkSoftware n = sum_list (map the (fst (benchmarkFpga n junk)))"
    unfolding out(1) benchmarkSoftware_def software_loop_sum by (simp add: comp_def)
  then show ?thesis using run_state [OF new_state h, of junk] out h by (simp add: pipe_state_def)
qed

end
