(* ===== verification/KernelBypass.thy ===== *)
theory KernelBypass
  imports SpscQueue
begin

text \<open>
  The simulated receive ring of a network card, \<open>include/KernelBypass.hpp\<close>, with the card and the CPU on two
  threads. As in \<open>SpscQueue\<close> the two methods run in their single accesses to memory, in program order, under
  release stores and acquire loads that may be stale; here every descriptor has an atomic flag that both
  threads store to, in turn.

  The card numbers the packets that the ring accepted and passes that number as the slot, as the code that
  uses the ring does.
\<close>

section \<open>The machine\<close>

text \<open>The stores to one flag, in their order of modification.\<close>

type_synonym flag_history = "(bool \<times> vclock) list"

definition load_flag :: "flag_history \<Rightarrow> nat \<Rightarrow> nat \<Rightarrow> vclock \<Rightarrow> bool \<times> nat \<times> vclock" where
  "load_flag hist j seen clk =
     (let j = max seen (min j (length hist - 1)) in (fst (hist ! j), j, join clk (snd (hist ! j))))"

record nic_ring =
  rx_data :: "nat \<Rightarrow> u32"
  rx_ready :: "nat \<Rightarrow> flag_history"
  rx_head :: nat
  nic_seen :: "nat \<Rightarrow> nat"
  nic_clock :: vclock
  nic_holds :: "(nat \<times> u32 \<times> bool) option"
  cpu_seen :: "nat \<Rightarrow> nat"
  cpu_clock :: vclock
  cpu_holds :: "u32 option option"
  rx_wrote :: "nat \<Rightarrow> nat"
  rx_read :: "nat \<Rightarrow> nat"
  rx_sent :: "u32 list"
  rx_got :: "u32 list"
  rx_race :: bool

text \<open>The descriptors are constructed before either thread starts: no data, not ready.\<close>

definition nic_start :: nic_ring where
  "nic_start = \<lparr>rx_data = (\<lambda>_. 0), rx_ready = (\<lambda>_. [(False, 0, 0)]), rx_head = 0,
     nic_seen = (\<lambda>_. 0), nic_clock = (1, 0), nic_holds = None, cpu_seen = (\<lambda>_. 0), cpu_clock = (0, 1), cpu_holds = None,
     rx_wrote = (\<lambda>_. 0), rx_read = (\<lambda>_. 0), rx_sent = [], rx_got = [], rx_race = False\<rparr>"

datatype nic_action = NicLoad u32 nat | NicWrite | NicStore | CpuLoad nat | CpuRead | CpuStore

text \<open>\<open>nicReceive\<close>: the load of the flag, which ends the call when it is set, the packet data, the store of the
  flag. A number in an action says how stale the load may be.\<close>

fun nic_step :: "nat \<Rightarrow> nic_action \<Rightarrow> nic_ring \<Rightarrow> nic_ring option" where
  "nic_step n (NicLoad packetData j) s =
     (if nic_holds s \<noteq> None then None
      else let slot = (of_nat (length (rx_sent s)) :: u64);
               d = unat slot mod n;
               (ready, j, clk) = load_flag (rx_ready s d) j (nic_seen s d) (nic_clock s)
           in Some (s\<lparr>nic_seen := (nic_seen s)(d := j), nic_clock := clk,
                      nic_holds := (if ready then None else Some (d, packetData, False))\<rparr>))"
| "nic_step n NicWrite s =
     (case nic_holds s of
        Some (d, packetData, False) \<Rightarrow>
          Some (s\<lparr>rx_data := (rx_data s)(d := packetData), rx_wrote := (rx_wrote s)(d := fst (nic_clock s)),
                  rx_race := rx_race s \<or> rx_read s d > snd (nic_clock s), nic_holds := Some (d, packetData, True)\<rparr>)
      | _ \<Rightarrow> None)"
| "nic_step n NicStore s =
     (case nic_holds s of
        Some (d, packetData, True) \<Rightarrow>
          Some (s\<lparr>rx_ready := (rx_ready s)(d := rx_ready s d @ [(True, nic_clock s)]),
                  nic_seen := (nic_seen s)(d := length (rx_ready s d)),
                  nic_clock := (Suc (fst (nic_clock s)), snd (nic_clock s)),
                  nic_holds := None, rx_sent := rx_sent s @ [packetData]\<rparr>)
      | _ \<Rightarrow> None)"
| "nic_step n (CpuLoad j) s =
     (if cpu_holds s \<noteq> None then None
      else let d = rx_head s;
               (ready, j, clk) = load_flag (rx_ready s d) j (cpu_seen s d) (cpu_clock s)
           in Some (s\<lparr>cpu_seen := (cpu_seen s)(d := j), cpu_clock := clk, cpu_holds := (if \<not> ready then None else Some None)\<rparr>))"
| "nic_step n CpuRead s =
     (case cpu_holds s of
        Some None \<Rightarrow>
          (let d = rx_head s
           in Some (s\<lparr>rx_read := (rx_read s)(d := snd (cpu_clock s)),
                      rx_race := rx_race s \<or> rx_wrote s d > fst (cpu_clock s), cpu_holds := Some (Some (rx_data s d))\<rparr>))
      | _ \<Rightarrow> None)"
| "nic_step n CpuStore s =
     (case cpu_holds s of
        Some (Some outData) \<Rightarrow>
          (let d = rx_head s
           in Some (s\<lparr>rx_ready := (rx_ready s)(d := rx_ready s d @ [(False, cpu_clock s)]),
                      cpu_seen := (cpu_seen s)(d := length (rx_ready s d)),
                      cpu_clock := (fst (cpu_clock s), Suc (snd (cpu_clock s))),
                      rx_head := (rx_head s + 1) mod n, cpu_holds := None, rx_got := rx_got s @ [outData]\<rparr>))
      | _ \<Rightarrow> None)"

inductive nic_reachable :: "nat \<Rightarrow> nic_ring \<Rightarrow> bool" for n where
  nic_init: "nic_reachable n nic_start"
| nic_next: "nic_reachable n s \<Longrightarrow> nic_step n a s = Some s' \<Longrightarrow> nic_reachable n s'"

section \<open>How often a descriptor was handed over\<close>

text \<open>How many numbers below \<open>k\<close> fall on descriptor \<open>i\<close>.\<close>

definition turns :: "nat \<Rightarrow> nat \<Rightarrow> nat \<Rightarrow> nat" where
  "turns n k i = (k + n - 1 - i) div n"

lemma turns_Suc: "i < n \<Longrightarrow> turns n (Suc k) i = turns n k i + (if k mod n = i then 1 else 0)"
proof -
  assume i: "i < n"
  then have s: "Suc k + n - 1 - i = Suc (k + n - 1 - i)" by linarith
  have "Suc (k + n - 1 - i) mod n = 0 \<longleftrightarrow> k mod n = i"
  proof -
    have "Suc (k + n - 1 - i) = k + (n - i)" using i by linarith
    moreover have "(k + (n - i)) mod n = 0 \<longleftrightarrow> k mod n = i"
    proof
      assume "(k + (n - i)) mod n = 0"
      then have "(k + (n - i) + i) mod n = i" using i by (metis add.left_neutral mod_add_left_eq mod_less)
      then show "k mod n = i" using i by simp
    next
      assume "k mod n = i"
      then have "(k + (n - i)) mod n = (i + (n - i)) mod n" by (metis mod_add_left_eq)
      then show "(k + (n - i)) mod n = 0" using i by simp
    qed
    ultimately show ?thesis by simp
  qed
  then show ?thesis unfolding turns_def s by (simp add: div_Suc)
qed

lemma turns_0 [simp]: "i < n \<Longrightarrow> turns n 0 i = 0"
  by (simp add: turns_def)

lemma turns_lap: "i < n \<Longrightarrow> turns n (k + n) i = Suc (turns n k i)"
proof -
  assume i: "i < n"
  then have e: "k + n + n - 1 - i = (k + n - 1 - i) + n" by linarith
  show ?thesis unfolding turns_def e using i by (subst div_add_self2) simp_all
qed

lemma turns_mono: "k \<le> l \<Longrightarrow> turns n k i \<le> turns n l i"
  by (simp add: turns_def div_le_mono)

lemma turns_window: "i < n \<Longrightarrow> k \<le> l \<Longrightarrow> l \<le> k + n \<Longrightarrow> turns n k i \<le> turns n l i \<and> turns n l i \<le> Suc (turns n k i)"
  using turns_mono [of k l n i] turns_mono [of l "k + n" n i] turns_lap [of i n k] by simp

text \<open>The descriptor at the front is full exactly when something is left, the one at the back exactly when the
  ring is full.\<close>

lemma turns_front: "0 < n \<Longrightarrow> k \<le> l \<Longrightarrow> turns n k (k mod n) < turns n l (k mod n) \<longleftrightarrow> k < l"
proof -
  assume a: "0 < n" "k \<le> l"
  then have i: "k mod n < n" by simp
  then have "turns n k (k mod n) < turns n (Suc k) (k mod n)" by (simp add: turns_Suc)
  then have "k < l \<Longrightarrow> turns n k (k mod n) < turns n l (k mod n)" using turns_mono [of "Suc k" l n "k mod n"] by linarith
  moreover have "\<not> k < l \<Longrightarrow> k = l" using a(2) by simp
  ultimately show ?thesis by auto
qed

lemma turns_back: "0 < n \<Longrightarrow> k \<le> l \<Longrightarrow> l \<le> k + n \<Longrightarrow> turns n l (l mod n) = turns n k (l mod n) \<longleftrightarrow> l < k + n"
proof -
  assume a: "0 < n" "k \<le> l" "l \<le> k + n"
  then have i: "l mod n < n" by simp
  have "turns n (k + n) (l mod n) = Suc (turns n k (l mod n))" by (rule turns_lap [OF i])
  moreover have "l < k + n \<Longrightarrow> Suc (turns n l (l mod n)) \<le> turns n (k + n) (l mod n)"
    using turns_mono [of "Suc l" "k + n" n "l mod n"] i by (simp add: turns_Suc)
  moreover have "turns n k (l mod n) \<le> turns n l (l mod n)" by (rule turns_mono [OF a(2)])
  moreover have "\<not> l < k + n \<Longrightarrow> l = k + n" using a(3) by simp
  ultimately show ?thesis by (metis Suc_le_mono le_antisym n_not_Suc_n)
qed


section \<open>The invariant\<close>

definition flag_now :: "nic_ring \<Rightarrow> nat \<Rightarrow> bool" where
  "flag_now s i = fst (last (rx_ready s i))"

definition nic_order :: "nat \<Rightarrow> nic_ring \<Rightarrow> bool" where
  "nic_order n s \<longleftrightarrow> length (rx_got s) \<le> length (rx_sent s) \<and> length (rx_sent s) \<le> length (rx_got s) + n
     \<and> rx_got s = take (length (rx_got s)) (rx_sent s) \<and> rx_head s = length (rx_got s) mod n
     \<and> (\<forall>k. length (rx_got s) \<le> k \<longrightarrow> k < length (rx_sent s) \<longrightarrow> rx_data s (k mod n) = rx_sent s ! k)"

definition nic_flags :: "nat \<Rightarrow> nic_ring \<Rightarrow> bool" where
  "nic_flags n s \<longleftrightarrow> (\<forall>i<n. length (rx_ready s i) = Suc (turns n (length (rx_sent s)) i + turns n (length (rx_got s)) i)
     \<and> (\<forall>m<length (rx_ready s i). fst (rx_ready s i ! m) = odd m)
     \<and> 2 * turns n (length (rx_sent s)) i \<le> Suc (nic_seen s i) \<and> nic_seen s i < length (rx_ready s i)
     \<and> 2 * turns n (length (rx_got s)) i \<le> cpu_seen s i \<and> cpu_seen s i < length (rx_ready s i))"

definition nic_clocks :: "nat \<Rightarrow> nic_ring \<Rightarrow> bool" where
  "nic_clocks n s \<longleftrightarrow> (\<forall>i<n. rx_wrote s i \<le> fst (nic_clock s) \<and> rx_read s i \<le> snd (cpu_clock s)
     \<and> (if flag_now s i then rx_wrote s i \<le> fst (snd (last (rx_ready s i))) else rx_read s i \<le> snd (snd (last (rx_ready s i)))))"

definition nic_hands :: "nat \<Rightarrow> nic_ring \<Rightarrow> bool" where
  "nic_hands n s \<longleftrightarrow>
     (\<forall>d x w. nic_holds s = Some (d, x, w) \<longrightarrow> d = length (rx_sent s) mod n \<and> length (rx_sent s) < length (rx_got s) + n
        \<and> \<not> flag_now s d \<and> rx_read s d \<le> snd (nic_clock s) \<and> (w \<longrightarrow> rx_data s d = x))
     \<and> (\<forall>r. cpu_holds s = Some r \<longrightarrow> length (rx_got s) < length (rx_sent s) \<and> flag_now s (rx_head s)
        \<and> rx_wrote s (rx_head s) \<le> fst (cpu_clock s) \<and> (\<forall>x. r = Some x \<longrightarrow> x = rx_sent s ! length (rx_got s)))"

definition nic_inv :: "nat \<Rightarrow> nic_ring \<Rightarrow> bool" where
  "nic_inv n s \<longleftrightarrow> nic_order n s \<and> nic_flags n s \<and> nic_clocks n s \<and> nic_hands n s \<and> \<not> rx_race s"

lemmas nic_inv_defs = nic_inv_def nic_order_def nic_flags_def nic_clocks_def nic_hands_def

lemma start_ok: "0 < n \<Longrightarrow> nic_inv n nic_start"
  by (simp add: nic_inv_defs nic_start_def flag_now_def)

lemma flag_count:
  assumes "nic_flags n s" "nic_order n s" "i < n"
  shows "flag_now s i \<longleftrightarrow> turns n (length (rx_got s)) i < turns n (length (rx_sent s)) i"
    "rx_ready s i \<noteq> []" "last (rx_ready s i) = rx_ready s i ! (turns n (length (rx_sent s)) i + turns n (length (rx_got s)) i)"
proof -
  let ?W = "turns n (length (rx_sent s)) i" and ?G = "turns n (length (rx_got s)) i"
  have len: "length (rx_ready s i) = Suc (?W + ?G)" using assms by (simp add: nic_flags_def)
  then show ne: "rx_ready s i \<noteq> []" by auto
  show l: "last (rx_ready s i) = rx_ready s i ! (?W + ?G)" using last_conv_nth [OF ne] len by simp
  have "?G \<le> ?W \<and> ?W \<le> Suc ?G" using turns_window [OF assms(3)] assms(2) by (simp add: nic_order_def)
  then have "?W = ?G \<or> ?W = Suc ?G" by linarith
  moreover have "flag_now s i = odd (?W + ?G)" using assms(1,3) len by (simp add: flag_now_def l nic_flags_def)
  ultimately show "flag_now s i \<longleftrightarrow> ?G < ?W" by auto
qed

text \<open>A thread that reads the flag in its favour reads the newest store: it cannot read one that is older than its
  own last store, and after that there is at most one.\<close>

lemma nic_reads_newest:
  assumes "nic_inv n s" "d < n" "load_flag (rx_ready s d) j (nic_seen s d) clk = (False, m, clk')"
  shows "m = turns n (length (rx_sent s)) d + turns n (length (rx_got s)) d \<and> \<not> flag_now s d
    \<and> clk' = join clk (snd (last (rx_ready s d)))"
proof -
  let ?W = "turns n (length (rx_sent s)) d" and ?G = "turns n (length (rx_got s)) d"
  have f: "nic_flags n s" "nic_order n s" using assms(1) by (simp_all add: nic_inv_def)
  have len: "length (rx_ready s d) = Suc (?W + ?G)" "nic_seen s d < length (rx_ready s d)" "2 * ?W \<le> Suc (nic_seen s d)"
    using f(1) assms(2) unfolding nic_flags_def by blast+
  have m: "m = max (nic_seen s d) (min j (length (rx_ready s d) - 1))" "fst (rx_ready s d ! m) = False" "clk' = join clk (snd (rx_ready s d ! m))"
    using assms(3) by (auto simp: load_flag_def Let_def)
  then have ml: "m < length (rx_ready s d)" "2 * ?W \<le> Suc m" using len by auto
  then have "even m" using f(1) assms(2) m(2) by (auto simp: nic_flags_def)
  moreover have "?G \<le> ?W" using turns_mono f(2) by (simp add: nic_order_def)
  ultimately have "m = 2 * ?W \<and> ?G = ?W" using ml len(1) by presburger
  then show ?thesis using m(3) flag_count [OF f assms(2)] by (auto simp: mult_2)
qed

lemma cpu_reads_newest:
  assumes "nic_inv n s" "d < n" "load_flag (rx_ready s d) j (cpu_seen s d) clk = (True, m, clk')"
  shows "m = turns n (length (rx_sent s)) d + turns n (length (rx_got s)) d \<and> flag_now s d
    \<and> clk' = join clk (snd (last (rx_ready s d)))"
proof -
  let ?W = "turns n (length (rx_sent s)) d" and ?G = "turns n (length (rx_got s)) d"
  have f: "nic_flags n s" "nic_order n s" using assms(1) by (simp_all add: nic_inv_def)
  have len: "length (rx_ready s d) = Suc (?W + ?G)" "cpu_seen s d < length (rx_ready s d)" "2 * ?G \<le> cpu_seen s d"
    using f(1) assms(2) unfolding nic_flags_def by blast+
  have m: "m = max (cpu_seen s d) (min j (length (rx_ready s d) - 1))" "fst (rx_ready s d ! m) = True" "clk' = join clk (snd (rx_ready s d ! m))"
    using assms(3) by (auto simp: load_flag_def Let_def)
  then have ml: "m < length (rx_ready s d)" "2 * ?G \<le> m" using len by auto
  then have "odd m" using f(1) assms(2) m(2) by (auto simp: nic_flags_def)
  moreover have "?W \<le> Suc ?G" using turns_window [OF assms(2)] f(2) by (simp add: nic_order_def)
  ultimately have "m = Suc (2 * ?G) \<and> ?W = Suc ?G" using ml len(1) by presburger
  then show ?thesis using m(3) flag_count [OF f assms(2)] by (auto simp: mult_2)
qed

lemma load_flag_range:
  "seen < length hist \<Longrightarrow> load_flag hist j seen clk = (r, m, clk') \<Longrightarrow> seen \<le> m \<and> m < length hist \<and> fst clk \<le> fst clk' \<and> snd clk \<le> snd clk'"
  by (auto simp: load_flag_def Let_def)


section \<open>Every step keeps it\<close>

lemma nic_load_ok:
  assumes inv: "nic_inv n s" and n: "0 < n" "n dvd 2 ^ 64" and st: "nic_step n (NicLoad x j) s = Some s'"
  shows "nic_inv n s'"
proof -
  let ?W = "length (rx_sent s)"
  define d where "d = ?W mod n"
  have "unat (of_nat ?W :: u64) mod n = d" using n(2) by (simp add: d_def unat_of_nat take_bit_eq_mod mod_mod_cancel)
  then obtain r m clk where ld: "load_flag (rx_ready s d) j (nic_seen s d) (nic_clock s) = (r, m, clk)"
    and s': "s' = s\<lparr>nic_seen := (nic_seen s)(d := m), nic_clock := clk, nic_holds := (if r then None else Some (d, x, False))\<rparr>"
    using st by (auto simp: Let_def split: if_splits prod.splits)
  have d: "d < n" using n(1) by (simp add: d_def)
  have "nic_seen s d < length (rx_ready s d)" using inv d unfolding nic_inv_def nic_flags_def by blast
  note rng = load_flag_range [OF this ld]
  have "nic_flags n s'" using inv rng by (auto simp: nic_inv_def nic_flags_def s')
  moreover have "nic_clocks n s'"
    using inv rng by (auto simp: nic_inv_def nic_clocks_def flag_now_def s' intro: order_trans split: if_splits)
  moreover have "nic_hands n s'"
  proof (cases r)
    case True
    then show ?thesis using inv by (simp add: nic_inv_def nic_hands_def flag_now_def s')
  next
    case False
    then have "load_flag (rx_ready s d) j (nic_seen s d) (nic_clock s) = (False, m, clk)" using ld by simp
    note new = nic_reads_newest [OF inv d this]
    have f: "nic_flags n s" "nic_order n s" using inv by (simp_all add: nic_inv_def)
    have o: "length (rx_got s) \<le> ?W" "?W \<le> length (rx_got s) + n" using f(2) by (simp_all add: nic_order_def)
    have "\<not> turns n (length (rx_got s)) d < turns n ?W d" using new flag_count(1) [OF f d] by simp
    then have "turns n ?W d = turns n (length (rx_got s)) d" using turns_mono [OF o(1)] by (simp add: le_antisym)
    then have "?W < length (rx_got s) + n" using turns_back [OF n(1) o] by (simp add: d_def)
    moreover have "rx_read s d \<le> snd clk" using inv d new by (auto simp: nic_inv_def nic_clocks_def)
    ultimately show ?thesis using inv False new by (auto simp: nic_inv_def nic_hands_def flag_now_def s' d_def)
  qed
  ultimately show ?thesis using inv by (simp add: nic_inv_def nic_order_def s')
qed

lemma cpu_load_ok:
  assumes inv: "nic_inv n s" and n: "0 < n" and st: "nic_step n (CpuLoad j) s = Some s'"
  shows "nic_inv n s'"
proof -
  let ?d = "rx_head s" and ?G = "length (rx_got s)"
  obtain r m clk where ld: "load_flag (rx_ready s ?d) j (cpu_seen s ?d) (cpu_clock s) = (r, m, clk)"
    and s': "s' = s\<lparr>cpu_seen := (cpu_seen s)(?d := m), cpu_clock := clk, cpu_holds := (if \<not> r then None else Some None)\<rparr>"
    using st by (auto simp: Let_def split: if_splits prod.splits)
  have hd: "?d = ?G mod n" "?d < n" using inv n by (simp_all add: nic_inv_def nic_order_def)
  have "cpu_seen s ?d < length (rx_ready s ?d)" using inv hd(2) unfolding nic_inv_def nic_flags_def by blast
  note rng = load_flag_range [OF this ld]
  have "nic_flags n s'" using inv rng by (auto simp: nic_inv_def nic_flags_def s')
  moreover have "nic_clocks n s'"
    using inv rng by (auto simp: nic_inv_def nic_clocks_def flag_now_def s' intro: order_trans split: if_splits)
  moreover have "nic_hands n s'"
  proof (cases r)
    case False
    then show ?thesis using inv by (simp add: nic_inv_def nic_hands_def flag_now_def s')
  next
    case True
    then have "load_flag (rx_ready s ?d) j (cpu_seen s ?d) (cpu_clock s) = (True, m, clk)" using ld by simp
    note new = cpu_reads_newest [OF inv hd(2) this]
    have f: "nic_flags n s" "nic_order n s" using inv by (simp_all add: nic_inv_def)
    have "?G \<le> length (rx_sent s)" using f(2) by (simp add: nic_order_def)
    then have "?G < length (rx_sent s)" using turns_front [OF n] new flag_count(1) [OF f hd(2)] hd(1) by metis
    moreover have "rx_wrote s ?d \<le> fst clk" using inv hd(2) new by (auto simp: nic_inv_def nic_clocks_def)
    ultimately show ?thesis using inv True new by (auto simp: nic_inv_def nic_hands_def flag_now_def s')
  qed
  ultimately show ?thesis using inv by (simp add: nic_inv_def nic_order_def s')
qed

lemma nic_write_ok:
  assumes inv: "nic_inv n s" and n: "0 < n" and st: "nic_step n NicWrite s = Some s'"
  shows "nic_inv n s'"
proof -
  obtain d x where h: "nic_holds s = Some (d, x, False)"
    and s': "s' = s\<lparr>rx_data := (rx_data s)(d := x), rx_wrote := (rx_wrote s)(d := fst (nic_clock s)),
                  rx_race := rx_race s \<or> rx_read s d > snd (nic_clock s), nic_holds := Some (d, x, True)\<rparr>"
    using st by (auto split: option.splits prod.splits bool.splits)
  have d: "d = length (rx_sent s) mod n" "length (rx_sent s) < length (rx_got s) + n" "\<not> flag_now s d" "rx_read s d \<le> snd (nic_clock s)"
    using inv h unfolding nic_inv_def nic_hands_def by blast+
  have "k mod n \<noteq> d" if "length (rx_got s) \<le> k" "k < length (rx_sent s)" for k
    using mod_distinct [OF that(2), of n] that d(1,2) by simp
  then have "nic_order n s'" using inv by (simp add: nic_inv_def nic_order_def s')
  moreover have "nic_clocks n s'" using inv d(3) by (simp add: nic_inv_def nic_clocks_def flag_now_def s')
  moreover have "nic_hands n s'" using inv d by (auto simp: nic_inv_def nic_hands_def flag_now_def s')
  moreover have "nic_flags n s'" using inv by (auto simp: nic_inv_def nic_flags_def s')
  moreover have "\<not> rx_race s'" using inv d(4) by (simp add: nic_inv_def s')
  ultimately show ?thesis by (simp add: nic_inv_def)
qed

lemma cpu_read_ok:
  assumes inv: "nic_inv n s" and n: "0 < n" and st: "nic_step n CpuRead s = Some s'"
  shows "nic_inv n s'"
proof -
  let ?d = "rx_head s" and ?G = "length (rx_got s)"
  have h: "cpu_holds s = Some None"
    and s': "s' = s\<lparr>rx_read := (rx_read s)(?d := snd (cpu_clock s)),
                      rx_race := rx_race s \<or> rx_wrote s ?d > fst (cpu_clock s), cpu_holds := Some (Some (rx_data s ?d))\<rparr>"
    using st by (auto simp: Let_def split: option.splits)
  have c: "?G < length (rx_sent s)" "flag_now s ?d" "rx_wrote s ?d \<le> fst (cpu_clock s)"
    using inv h unfolding nic_inv_def nic_hands_def by blast+
  have x: "rx_data s ?d = rx_sent s ! ?G" using inv c(1) by (simp add: nic_inv_def nic_order_def)
  have "nic_clocks n s'" using inv c(2) by (simp add: nic_inv_def nic_clocks_def flag_now_def s')
  moreover have "nic_hands n s'" using inv c x by (auto simp: nic_inv_def nic_hands_def flag_now_def s')
  moreover have "nic_flags n s'" "nic_order n s'" using inv by (auto simp: nic_inv_def nic_flags_def nic_order_def s')
  moreover have "\<not> rx_race s'" using inv c(3) by (simp add: nic_inv_def s')
  ultimately show ?thesis by (simp add: nic_inv_def)
qed


lemma nic_store_ok:
  assumes inv: "nic_inv n s" and n: "0 < n" and st: "nic_step n NicStore s = Some s'"
  shows "nic_inv n s'"
proof -
  obtain d x where h: "nic_holds s = Some (d, x, True)"
    and s': "s' = s\<lparr>rx_ready := (rx_ready s)(d := rx_ready s d @ [(True, nic_clock s)]), nic_seen := (nic_seen s)(d := length (rx_ready s d)),
                  nic_clock := (Suc (fst (nic_clock s)), snd (nic_clock s)), nic_holds := None, rx_sent := rx_sent s @ [x]\<rparr>"
    using st by (auto split: option.splits prod.splits bool.splits)
  have d: "d = length (rx_sent s) mod n" "length (rx_sent s) < length (rx_got s) + n" "\<not> flag_now s d" "rx_data s d = x"
    using inv h unfolding nic_inv_def nic_hands_def by blast+
  have dn: "d < n" using d(1) n by simp
  have f: "nic_flags n s" "nic_order n s" using inv by (simp_all add: nic_inv_def)
  have o: "length (rx_got s) \<le> length (rx_sent s)" "rx_got s = take (length (rx_got s)) (rx_sent s)" using f(2) by (simp_all add: nic_order_def)
  let ?W = "turns n (length (rx_sent s)) d" and ?G = "turns n (length (rx_got s)) d"
  have eq: "?W = ?G" using flag_count(1) [OF f dn] d(3) turns_mono [OF o(1), of n d] by simp
  have t: "turns n (Suc (length (rx_sent s))) i = (if i = d then Suc ?W else turns n (length (rx_sent s)) i)" if "i < n" for i
    using turns_Suc [OF that] d(1) by simp
  have len: "length (rx_ready s d) = Suc (2 * ?W)" using f(1) dn eq by (simp add: nic_flags_def)
  have "nic_order n s'" using f(2) d(1,2,4) o
    by (auto simp: nic_order_def s' nth_append less_Suc_eq)
  moreover have "nic_flags n s'"
    using f(1) eq len by (auto simp: nic_flags_def s' t nth_append less_Suc_eq)
  moreover have "nic_clocks n s'" using inv dn by (auto simp: nic_inv_def nic_clocks_def flag_now_def s' le_Suc_eq)
  moreover have "nic_hands n s'" using inv o(1) by (auto simp: nic_inv_def nic_hands_def flag_now_def s' nth_append)
  ultimately show ?thesis using inv by (simp add: nic_inv_def s')
qed

lemma cpu_store_ok:
  assumes inv: "nic_inv n s" and n: "0 < n" and st: "nic_step n CpuStore s = Some s'"
  shows "nic_inv n s'"
proof -
  let ?d = "rx_head s"
  obtain x where h: "cpu_holds s = Some (Some x)"
    and s': "s' = s\<lparr>rx_ready := (rx_ready s)(?d := rx_ready s ?d @ [(False, cpu_clock s)]), cpu_seen := (cpu_seen s)(?d := length (rx_ready s ?d)),
                      cpu_clock := (fst (cpu_clock s), Suc (snd (cpu_clock s))),
                      rx_head := (rx_head s + 1) mod n, cpu_holds := None, rx_got := rx_got s @ [x]\<rparr>"
    using st by (auto simp: Let_def split: option.splits)
  have c: "length (rx_got s) < length (rx_sent s)" "flag_now s ?d" "x = rx_sent s ! length (rx_got s)"
    using inv h unfolding nic_inv_def nic_hands_def by blast+
  have f: "nic_flags n s" "nic_order n s" using inv by (simp_all add: nic_inv_def)
  have hd: "?d = length (rx_got s) mod n" "?d < n" using f(2) n by (simp_all add: nic_order_def)
  have o: "length (rx_got s) \<le> length (rx_sent s)" "length (rx_sent s) \<le> length (rx_got s) + n" "rx_got s = take (length (rx_got s)) (rx_sent s)"
    using f(2) by (simp_all add: nic_order_def)
  let ?W = "turns n (length (rx_sent s)) ?d" and ?G = "turns n (length (rx_got s)) ?d"
  have eq: "?W = Suc ?G" using flag_count(1) [OF f hd(2)] c(2) turns_window [OF hd(2) o(1,2)] by simp
  have t: "turns n (Suc (length (rx_got s))) i = (if i = ?d then Suc ?G else turns n (length (rx_got s)) i)" if "i < n" for i
    using turns_Suc [OF that] hd(1) by simp
  have len: "length (rx_ready s ?d) = Suc (Suc (2 * ?G))" using f(1) hd(2) eq by (simp add: nic_flags_def)
  have got: "rx_got s @ [x] = take (Suc (length (rx_got s))) (rx_sent s)"
    using o(3) c(1,3) by (metis take_Suc_conv_app_nth)
  have head: "(rx_head s + 1) mod n = Suc (length (rx_got s)) mod n" by (simp add: hd(1) mod_Suc_eq)
  have "nic_order n s'" using f(2) c(1) got head by (auto simp: nic_order_def s')
  moreover have "nic_flags n s'"
    using f(1) eq len by (auto simp: nic_flags_def s' t nth_append less_Suc_eq)
  moreover have "nic_clocks n s'" using inv hd(2) by (auto simp: nic_inv_def nic_clocks_def flag_now_def s' le_Suc_eq)
  moreover have "nic_hands n s'" using inv c(2) by (auto simp: nic_inv_def nic_hands_def flag_now_def s')
  ultimately show ?thesis using inv by (simp add: nic_inv_def s')
qed

lemma nic_reachable_ok: "nic_reachable n s \<Longrightarrow> 0 < n \<Longrightarrow> n dvd 2 ^ 64 \<Longrightarrow> nic_inv n s"
proof (induction rule: nic_reachable.induct)
  case nic_init
  then show ?case by (simp add: start_ok)
next
  case (nic_next s a s')
  then have "nic_inv n s" by blast
  then show ?case using nic_next(2,4,5)
    by (cases a) (metis nic_load_ok, metis nic_write_ok, metis nic_store_ok, metis cpu_load_ok, metis cpu_read_ok, metis cpu_store_ok)
qed

text \<open>C15. The receive ring is safe between two threads: however the card and the CPU interleave and however stale the
  flags they read are, no access to a descriptor races with another, at most as many packets as there are descriptors
  are under way, and what the CPU has polled is what the ring accepted, in order. A call that sees the newest flag
  refuses exactly when the ring is full, and a poll exactly when it is empty.\<close>

theorem nic_ring_safe:
  assumes "nic_reachable n s" "0 < n" "n dvd 2 ^ 64"
  shows "\<not> rx_race s \<and> rx_got s = take (length (rx_got s)) (rx_sent s) \<and> length (rx_sent s) \<le> length (rx_got s) + n
    \<and> (nic_holds s = None \<longrightarrow> length (rx_ready s (length (rx_sent s) mod n)) \<le> Suc j \<longrightarrow>
        (\<exists>s'. nic_step n (NicLoad x j) s = Some s' \<and> (nic_holds s' = None \<longleftrightarrow> length (rx_sent s) = length (rx_got s) + n)))
    \<and> (cpu_holds s = None \<longrightarrow> length (rx_ready s (rx_head s)) \<le> Suc j \<longrightarrow>
        (\<exists>s'. nic_step n (CpuLoad j) s = Some s' \<and> (cpu_holds s' = None \<longleftrightarrow> rx_got s = rx_sent s)))"
proof -
  have inv: "nic_inv n s" by (rule nic_reachable_ok [OF assms])
  have f: "nic_flags n s" "nic_order n s" using inv by (simp_all add: nic_inv_def)
  let ?W = "length (rx_sent s)" and ?G = "length (rx_got s)"
  have o: "?G \<le> ?W" "?W \<le> ?G + n" "rx_got s = take ?G (rx_sent s)" "rx_head s = ?G mod n" using f(2) by (simp_all add: nic_order_def)
  have newest: "fst (load_flag (rx_ready s i) j seen clk) = flag_now s i" if "i < n" "length (rx_ready s i) \<le> Suc j" "seen < length (rx_ready s i)" for i seen clk
    using that flag_count(2) [OF f that(1)] by (auto simp: load_flag_def Let_def flag_now_def last_conv_nth max_def)
  have full: "flag_now s (?W mod n) \<longleftrightarrow> ?W = ?G + n"
    using flag_count(1) [OF f, of "?W mod n"] turns_back [OF assms(2) o(1,2)] turns_mono [OF o(1), of n "?W mod n"] o(2) assms(2) by auto
  have empty: "flag_now s (?G mod n) \<longleftrightarrow> ?G < ?W"
    using flag_count(1) [OF f, of "?G mod n"] turns_front [OF assms(2) o(1)] assms(2) by simp
  have all: "rx_got s = rx_sent s \<longleftrightarrow> \<not> ?G < ?W" using o(1,3) by (metis le_antisym nat_less_le not_le take_all)
  have idx: "unat (of_nat ?W :: u64) mod n = ?W mod n" using assms(3) by (simp add: unat_of_nat take_bit_eq_mod mod_mod_cancel)
  have seen: "nic_seen s i < length (rx_ready s i)" "cpu_seen s i < length (rx_ready s i)" if "i < n" for i
    using f(1) that unfolding nic_flags_def by blast+
  have "nic_holds s = None \<Longrightarrow> length (rx_ready s (?W mod n)) \<le> Suc j \<Longrightarrow>
      \<exists>s'. nic_step n (NicLoad x j) s = Some s' \<and> (nic_holds s' = None \<longleftrightarrow> ?W = ?G + n)"
    using newest [of "?W mod n" "nic_seen s (?W mod n)" "nic_clock s"] seen(1) [of "?W mod n"] full assms(2)
    by (auto simp: idx Let_def split: prod.splits)
  moreover have "cpu_holds s = None \<Longrightarrow> length (rx_ready s (rx_head s)) \<le> Suc j \<Longrightarrow>
      \<exists>s'. nic_step n (CpuLoad j) s = Some s' \<and> (cpu_holds s' = None \<longleftrightarrow> rx_got s = rx_sent s)"
    using newest [of "?G mod n" "cpu_seen s (?G mod n)" "cpu_clock s"] seen(2) [of "?G mod n"] empty all o(4) assms(2)
    by (auto simp: Let_def split: prod.splits)
  ultimately show ?thesis using inv o by (simp add: nic_inv_def)
qed


fun nic_run :: "nat \<Rightarrow> nic_action list \<Rightarrow> nic_ring \<Rightarrow> nic_ring option" where
  "nic_run n [] s = Some s"
| "nic_run n (a # as) s = do { s \<leftarrow> nic_step n a s; nic_run n as s }"

lemma nic_run_reachable: "nic_reachable n s \<Longrightarrow> nic_run n as s = Some s' \<Longrightarrow> nic_reachable n s'"
  by (induction "as" arbitrary: s) (auto simp: bind_Some_iff intro: nic_next)

text \<open>A run in which the CPU first reads a stale flag.\<close>

theorem nic_ring_safe_witness:
  "\<exists>s. nic_run 8 [NicLoad 7 0, NicWrite, NicStore, NicLoad 9 0, CpuLoad 0, CpuLoad 1, CpuRead, NicWrite, NicStore, CpuStore] nic_start = Some s
    \<and> rx_got s = [7] \<and> rx_sent s = [7, 9] \<and> \<not> rx_race s \<and> (\<exists>s'. nic_step 8 (CpuLoad 1) s = Some s' \<and> cpu_holds s' \<noteq> None)"
proof -
  let ?acts = "[NicLoad 7 0, NicWrite, NicStore, NicLoad 9 0, CpuLoad 0, CpuLoad 1, CpuRead, NicWrite, NicStore, CpuStore]"
  have "map_option (\<lambda>s. (rx_got s, rx_sent s, cpu_holds s, length (rx_ready s (rx_head s)))) (nic_run 8 ?acts nic_start) = Some ([7], [7, 9], None, 2)"
    by code_simp
  then obtain s where s: "nic_run 8 ?acts nic_start = Some s" "rx_got s = [7]" "rx_sent s = [7, 9]" "cpu_holds s = None"
    "length (rx_ready s (rx_head s)) = 2" by auto
  have "(8 :: nat) dvd 2 ^ 64" by (simp add: dvd_def)
  from nic_ring_safe [OF nic_run_reachable [OF nic_init s(1)] _ this, of 1 0] s show ?thesis by fastforce
qed

end
