(* ===== verification/Listeners.thy ===== *)
theory Listeners
  imports ItchBook
begin

text \<open>
  The top-of-book listeners of the benchmarks, \<open>bench/Listeners.hpp\<close>: the counter that the builder calls
  directly, and the handlers behind a virtual interface.

  A builder treats its listener as it is told to and never looks into it: the main lemma of this theory
  says that to replace the listener of a builder by a function of its state commutes with every handler.
\<close>

section \<open>The listeners\<close>

definition foldQuote :: "u64 \<Rightarrow> top_of_book \<Rightarrow> u64" where
  "foldQuote checksum t =
     checksum * 31 + (push_bit 32 (ucast (t_bidPrice t)) OR ucast (t_askPrice t)) + t_bidShares t + t_askShares t"

record quote_counter =
  qc_updates :: u64
  qc_checksum :: u64

definition counter_new :: quote_counter where
  "counter_new = \<lparr>qc_updates = 0, qc_checksum = 0\<rparr>"

definition counter_onTop :: "top_of_book \<Rightarrow> quote_counter \<Rightarrow> quote_counter" where
  "counter_onTop t c = \<lparr>qc_updates = qc_updates c + 1, qc_checksum = foldQuote (qc_checksum c) t\<rparr>"

text \<open>The two implementations of \<open>TopOfBookHandler\<close> with its fields, and the call that is dispatched on them.\<close>

datatype handler_class = CountingHandler | IgnoringHandler

record top_handler =
  th_class :: handler_class
  th_updates :: u64
  th_checksum :: u64

definition handler_new :: "handler_class \<Rightarrow> top_handler" where
  "handler_new c = \<lparr>th_class = c, th_updates = 0, th_checksum = 0\<rparr>"

definition handler_onTop :: "top_of_book \<Rightarrow> top_handler \<Rightarrow> top_handler" where
  "handler_onTop t h =
     (case th_class h of
        CountingHandler \<Rightarrow> h\<lparr>th_updates := th_updates h + 1, th_checksum := foldQuote (th_checksum h) t\<rparr>
      | IgnoringHandler \<Rightarrow> h\<lparr>th_updates := th_updates h + 1\<rparr>)"

text \<open>\<open>VirtualListener\<close> forwards to the handler it points to; the replay always gives it one, so its state here
  is that handler.\<close>

definition virtual_onTop :: "top_of_book \<Rightarrow> top_handler \<Rightarrow> top_handler" where
  "virtual_onTop t h = handler_onTop t h"

section \<open>Replacing the listener\<close>

definition map_core_listener :: "('l \<Rightarrow> 'm) \<Rightarrow> 'l builder_core \<Rightarrow> 'm builder_core" where
  "map_core_listener f k = \<lparr>symbols = symbols k, lastPrice = lastPrice k, tradingState = tradingState k,
     crossedByLocate = crossedByLocate k, lastTradingAction = lastTradingAction k, crossedWhileTrading = crossedWhileTrading k,
     stats = stats k, marketOpen = marketOpen k, listener = f (listener k)\<rparr>"

definition map_listener :: "('l \<Rightarrow> 'm) \<Rightarrow> 'l builder \<Rightarrow> 'm builder" where
  "map_listener f s = \<lparr>books = books s, order_pool = order_pool s, index = index s, core = map_core_listener f (core s)\<rparr>"

named_theorems ml \<open>replacing the listener\<close>

lemma core_listener_parts [ml]:
  "symbols (map_core_listener f k) = symbols k" "lastPrice (map_core_listener f k) = lastPrice k"
  "tradingState (map_core_listener f k) = tradingState k" "stats (map_core_listener f k) = stats k"
  "marketOpen (map_core_listener f k) = marketOpen k" "listener (map_core_listener f k) = f (listener k)"
  by (simp_all add: map_core_listener_def)

lemma map_listener_parts [ml]:
  "books (map_listener f s) = books s" "order_pool (map_listener f s) = order_pool s" "index (map_listener f s) = index s"
  "core (map_listener f s) = map_core_listener f (core s)"
  "(map_listener f s)\<lparr>books := b\<rparr> = map_listener f (s\<lparr>books := b\<rparr>)"
  "(map_listener f s)\<lparr>order_pool := p\<rparr> = map_listener f (s\<lparr>order_pool := p\<rparr>)"
  "(map_listener f s)\<lparr>index := ix\<rparr> = map_listener f (s\<lparr>index := ix\<rparr>)"
  "set_mem m (map_listener f s) = map_listener f (set_mem m s)"
  by (simp_all add: map_listener_def set_mem_def)

text \<open>Changes of the core that do not touch the listener.\<close>

definition listener_free :: "('l \<Rightarrow> 'm) \<Rightarrow> ('m builder_core \<Rightarrow> 'm builder_core) \<Rightarrow> ('l builder_core \<Rightarrow> 'l builder_core) \<Rightarrow> bool" where
  "listener_free f g' g \<longleftrightarrow> (\<forall>k. g' (map_core_listener f k) = map_core_listener f (g k))"

lemma listener_free_intros:
  "listener_free f (count_stat h) (count_stat h)" "listener_free f (recordDepth d) (recordDepth d)"
  "listener_free f countLive countLive" "listener_free f (noteCrossed l ts) (noteCrossed l ts)"
  "listener_free f (\<lambda>k. k\<lparr>lastPrice := (lastPrice k)(l := p)\<rparr>) (\<lambda>k. k\<lparr>lastPrice := (lastPrice k)(l := p)\<rparr>)"
  "listener_free f (core_onTrade l m) (core_onTrade l m)" "listener_free f (core_onStockDirectory l dir) (core_onStockDirectory l dir)"
  "listener_free f (core_onSystemEvent e) (core_onSystemEvent e)" "listener_free f (core_onTradingAction l ts a) (core_onTradingAction l ts a)"
  by (simp_all add: listener_free_def map_core_listener_def count_stat_def recordDepth_def countLive_def noteCrossed_def
      core_onTrade_def core_onStockDirectory_def core_onSystemEvent_def core_onTradingAction_def Let_def)

lemma listener_free_comp: "listener_free f g' g \<Longrightarrow> listener_free f h' h \<Longrightarrow> listener_free f (g' \<circ> h') (g \<circ> h)"
  by (simp add: listener_free_def)

lemma with_core_map: "listener_free f g' g \<Longrightarrow> with_core g' (map_listener f s) = map_listener f (with_core g s)"
  by (simp add: with_core_def map_listener_def listener_free_def)

lemmas with_core_ml [ml] = listener_free_intros [THEN with_core_map]
  with_core_map [OF listener_free_comp [OF listener_free_intros(3) listener_free_intros(2)]]

lemma map_bind: "map_option F (Option.bind m g) = Option.bind m (\<lambda>x. map_option F (g x))"
  by (cases m) simp_all

text \<open>Binds of the same first step agree when their continuations do.\<close>

lemmas bind_agree = Option.bind_cong [OF refl]

lemma lookup_ml: "lookup r (map_listener f s) = map_option (map_prod id (map_listener f)) (lookup r s)"
  unfolding lookup_def ml map_bind by (rule bind_agree) (simp add: ml split: option.split)

lemma addOrder_ml: "addOrder l ts r sd n p (map_listener f s) = map_option (map_listener f) (addOrder l ts r sd n p s)"
  unfolding addOrder_def ml map_bind Let_def case_prod_beta
  by (intro bind_agree) (auto simp: ml map_bind intro!: bind_agree)

lemma removeOrder_ml: "removeOrder a (map_listener f s) = map_option (map_listener f) (removeOrder a s)"
  unfolding removeOrder_def ml map_bind Let_def case_prod_beta
  by (intro bind_agree) (auto simp: ml map_bind intro!: bind_agree)

lemma take_order_ml: "take_order a n (map_listener f s) = map_option (map_listener f) (take_order a n s)"
  unfolding take_order_def ml map_bind Let_def case_prod_beta
  by (intro bind_agree) (auto simp: ml map_bind removeOrder_ml intro!: bind_agree)

section \<open>Handlers that agree\<close>

text \<open>What a listener does, and when a function of its state turns one listener into another. No listener is one
  that does nothing.\<close>

definition told :: "'l on_top \<Rightarrow> top_of_book \<Rightarrow> 'l \<Rightarrow> 'l" where
  "told lsn = (case lsn of None \<Rightarrow> (\<lambda>_ l. l) | Some onTop \<Rightarrow> onTop)"

definition follows :: "('l \<Rightarrow> 'm) \<Rightarrow> 'm on_top \<Rightarrow> 'l on_top \<Rightarrow> bool" where
  "follows f lsn' lsn \<longleftrightarrow> (\<forall>t l. f (told lsn t l) = told lsn' t (f l))"

lemma changeBook_told:
  "changeBook lsn l ts change s = Option.bind (change s) (\<lambda>s2.
     Some (if top_moved (topOf l ts s) (topOf l ts s2) then with_core (tell (told lsn) (topOf l ts s2)) s2 else s2))"
proof (cases lsn)
  case None
  have "tell (\<lambda>_ l. l) t k = k" for t and k :: "'a builder_core" by (simp add: tell_def)
  then have "with_core (tell (told lsn) t) s = s" for t s by (simp add: None told_def with_core_def)
  then show ?thesis by (cases "change s") (simp_all add: None changeBook_def)
next
  case (Some onTop)
  show ?thesis unfolding Some changeBook_def told_def option.case Let_def ..
qed

lemma changeBook_ml:
  assumes "follows f lsn' lsn" "\<And>s. change' (map_listener f s) = map_option (map_listener f) (change s)"
  shows "changeBook lsn' l ts change' (map_listener f s) = map_option (map_listener f) (changeBook lsn l ts change s)"
proof -
  have "listener_free f (tell (told lsn') t) (tell (told lsn) t)" for t
    using assms(1) by (simp add: listener_free_def tell_def map_core_listener_def follows_def)
  note tell = with_core_map [OF this]
  have top: "topOf l ts (map_listener f s) = topOf l ts s" for s by (simp add: topOf_def ml)
  show ?thesis unfolding changeBook_told assms(2) top
    by (cases "change s") (auto simp: top tell)
qed

text \<open>Two handlers that agree through a function on their states agree on every message.\<close>

locale itch_simulation =
  fixes H :: "'h itch_handler"
    and H' :: "'g itch_handler"
    and F :: "'h \<Rightarrow> 'g"
  assumes handle_sim: "handle H' e (F h) = map_option F (handle H e h)"
begin

lemma dispatch_sim: "dispatch H' m (F h) = map_option (map_prod id F) (dispatch H m h)"
proof -
  note sim = handle_sim [of "EvAdd _ _ _", simplified] handle_sim [of "EvExecuted _ _ _", simplified]
    handle_sim [of "EvExecutedWithPrice _ _ _", simplified] handle_sim [of "EvCancel _ _ _", simplified]
    handle_sim [of "EvDelete _ _ _", simplified] handle_sim [of "EvReplace _ _ _", simplified]
    handle_sim [of "EvTrade _ _ _", simplified] handle_sim [of "EvStockDirectory _ _ _", simplified]
    handle_sim [of "EvSystemEvent _ _ _", simplified] handle_sim [of "EvTradingAction _ _ _", simplified]
  have switch: "dispatch_switch H' t l ts m (F h) = map_option F (dispatch_switch H t l ts m h)" for t l ts
    unfolding dispatch_switch_def by (simp add: sim map_bind)
  show ?thesis unfolding dispatch_def map_bind
    by (auto simp: switch map_bind bind_map_option comp_def intro!: bind_agree)
qed

lemma dispatch_all_sim: "dispatch_all H' ms (F h) = map_option F (dispatch_all H ms h)"
proof (induction ms arbitrary: h)
  case (Cons m ms)
  then show ?case by (cases "dispatch H m h") (auto simp: dispatch_sim)
qed simp

end

lemma lookup_then:
  assumes "\<And>p s. g' p (map_listener f s) = map_option (map_listener f) (g p s)"
  shows "Option.bind (lookup r (map_listener f s)) (\<lambda>(p, s). if p = None then Some s else g' p s)
    = map_option (map_listener f) (Option.bind (lookup r s) (\<lambda>(p, s). if p = None then Some s else g p s))"
  by (cases "lookup r s") (auto simp: lookup_ml assms)

lemma deref_then:
  assumes "\<And>x. g' x = map_option F (g x)"
  shows "Option.bind (deref m p) g' = map_option F (Option.bind (deref m p) g)"
  unfolding map_bind by (rule bind_agree) (rule assms)

lemma handler_ml:
  assumes "follows f lsn' lsn"
  shows "handle (builder_handler lsn') e (map_listener f s) = map_option (map_listener f) (handle (builder_handler lsn) e s)"
proof -
  note ch = changeBook_ml [OF assms]
  note add = ch [of "addOrder _ _ _ _ _ _" "addOrder _ _ _ _ _ _", OF addOrder_ml]
  note take = ch [of "take_order _ _" "take_order _ _", OF take_order_ml]
  note remove = ch [of "removeOrder _" "removeOrder _", OF removeOrder_ml]
  show ?thesis
  proof (cases e)
    case (EvAdd l ts d)
    show ?thesis
      unfolding EvAdd handle.simps builder_handler_def itch_handler.simps builder_onAdd_def ml Let_def by (rule add)
  next
    case (EvExecuted l ts d)
    show ?thesis
      unfolding EvExecuted handle.simps builder_handler_def itch_handler.simps builder_onExecuted_def ml Let_def
      by (rule lookup_then, unfold ml, rule deref_then, rule take)
  next
    case (EvExecutedWithPrice l ts d)
    show ?thesis
    proof (cases "oewp_printable d = CHR ''Y''")
      case True
      show ?thesis
        unfolding EvExecutedWithPrice handle.simps builder_handler_def itch_handler.simps builder_onExecutedWithPrice_def ml Let_def if_P [OF True]
        by (rule lookup_then, unfold ml, rule deref_then, rule take)
    next
      case False
      show ?thesis
        unfolding EvExecutedWithPrice handle.simps builder_handler_def itch_handler.simps builder_onExecutedWithPrice_def ml Let_def if_not_P [OF False]
        by (rule lookup_then, unfold ml, rule deref_then, rule take)
    qed
  next
    case (EvCancel l ts d)
    show ?thesis
      unfolding EvCancel handle.simps builder_handler_def itch_handler.simps builder_onCancel_def ml Let_def
      by (rule lookup_then, unfold ml, rule deref_then, rule take)
  next
    case (EvDelete l ts d)
    show ?thesis
      unfolding EvDelete handle.simps builder_handler_def itch_handler.simps builder_onDelete_def ml Let_def
      by (rule lookup_then, unfold ml, rule deref_then, rule remove)
  next
    case (EvReplace l ts d)
    have change: "changeBook lsn' lc ts (\<lambda>s. do { s \<leftarrow> removeOrder p s; addOrder lc ts r sd n q s }) (map_listener f s)
      = map_option (map_listener f) (changeBook lsn lc ts (\<lambda>s. do { s \<leftarrow> removeOrder p s; addOrder lc ts r sd n q s }) s)"
      for p lc r sd n q s
    proof (rule ch)
      show "(do { s \<leftarrow> removeOrder p (map_listener f s); addOrder lc ts r sd n q s }) =
        map_option (map_listener f) (do { s \<leftarrow> removeOrder p s; addOrder lc ts r sd n q s })" for s
        by (cases "removeOrder p s") (simp_all add: removeOrder_ml addOrder_ml)
    qed
    show ?thesis
      unfolding EvReplace handle.simps builder_handler_def itch_handler.simps builder_onReplace_def ml Let_def
      by (rule lookup_then, unfold ml, rule deref_then, rule change)
  qed (simp_all add: builder_handler_def ml)
qed

section \<open>The listeners of the benchmarks agree\<close>

definition as_counting :: "quote_counter \<Rightarrow> top_handler" where
  "as_counting c = \<lparr>th_class = CountingHandler, th_updates = qc_updates c, th_checksum = qc_checksum c\<rparr>"

definition as_ignoring :: "quote_counter \<Rightarrow> top_handler" where
  "as_ignoring c = \<lparr>th_class = IgnoringHandler, th_updates = qc_updates c, th_checksum = 0\<rparr>"

lemma follow_counting: "follows as_counting (Some virtual_onTop) (Some counter_onTop)"
  by (simp add: follows_def told_def as_counting_def virtual_onTop_def handler_onTop_def counter_onTop_def)

lemma follow_ignoring: "follows as_ignoring (Some virtual_onTop) (Some counter_onTop)"
  by (simp add: follows_def told_def as_ignoring_def virtual_onTop_def handler_onTop_def counter_onTop_def)

lemma follow_none: "follows (\<lambda>_. ()) None lsn"
  by (simp add: follows_def told_def)

interpretation counting: itch_simulation "builder_handler (Some counter_onTop)" "builder_handler (Some virtual_onTop)" "map_listener as_counting"
  by unfold_locales (rule handler_ml [OF follow_counting])

interpretation ignoring: itch_simulation "builder_handler (Some counter_onTop)" "builder_handler (Some virtual_onTop)" "map_listener as_ignoring"
  by unfold_locales (rule handler_ml [OF follow_ignoring])

interpretation silent: itch_simulation "builder_handler (Some counter_onTop)" "builder_handler None" "map_listener (\<lambda>_. ())"
  by unfold_locales (rule handler_ml [OF follow_none])

lemma builder_new_ml: "builder_new n (f l) = map_option (map_listener f) (builder_new n l)"
  by (cases "oi_new n :: ptr order_index option") (simp_all add: builder_new_def map_listener_def map_core_listener_def new_core_def)

end
