(* ===== verification/ItchReplay.thy ===== *)
theory ItchReplay
  imports Listeners GenItch JsonParser
begin

text \<open>
  The replay benchmark \<open>bench/itch_replay.cpp\<close>: its command line, the snapshots of the books at given times
  of day, the loop that feeds a file to the book builder, the consistency verdict and the results file. A replay
  whose listener records its notifications shows what each of the listeners of \<open>bench/Listeners.hpp\<close> ends with.

  The time-stamp counter, the file system and the quotients of \<open>double\<close>s are parameters. What is printed is
  left out, except the values of the snapshots.
\<close>

section \<open>The command line\<close>

definition argSymbols_list :: "string list \<Rightarrow> string" where
  "argSymbols_list argv = foldl (\<lambda>list a. if starts_with ''--symbols='' a then drop 10 a else list)
     ''AAPL,MSFT,AMZN,TSLA,SPY'' (drop 1 argv)"

text \<open>The loop that splits the list, from a place of it on.\<close>

function split_symbols :: "string \<Rightarrow> string list" where
  "split_symbols t =
     (let name = takeWhile (\<lambda>c. c \<noteq> CHR '','') t; rest = dropWhile (\<lambda>c. c \<noteq> CHR '','') t
      in (if name \<noteq> [] then [name] else []) @ (if rest = [] then [] else split_symbols (tl rest)))"
  by pat_completeness auto

termination split_symbols
proof (relation "measure length")
  fix name rest t :: string
  assume r: "rest = dropWhile (\<lambda>c. c \<noteq> CHR '','') t" "rest \<noteq> []"
  then have "length rest \<le> length t" by (simp add: length_dropWhile_le)
  moreover have "length (tl rest) < length rest" using r(2) by simp
  ultimately show "(tl rest, t) \<in> measure length" by simp
qed simp

declare split_symbols.simps [simp del]

definition argSymbols :: "string list \<Rightarrow> string list" where
  "argSymbols argv = split_symbols (argSymbols_list argv)"

fun argListener_loop :: "string list \<Rightarrow> string" where
  "argListener_loop [] = ''none''"
| "argListener_loop (a # as) = (if starts_with ''--listener='' a then drop 11 a else argListener_loop as)"

definition argListener :: "string list \<Rightarrow> string" where
  "argListener argv = argListener_loop (drop 1 argv)"

definition argPath :: "string list \<Rightarrow> string option" where
  "argPath argv = foldl (\<lambda>path a. if a = [] \<or> hd a \<noteq> CHR ''-'' \<or> a = ''-'' then Some a else path) None (drop 1 argv)"

section \<open>Snapshots\<close>

definition kNsPerHour :: u64 where
  "kNsPerHour = 3600000000000"

definition kNsPerMinute :: u64 where
  "kNsPerMinute = 60000000000"

definition two_digits :: "nat \<Rightarrow> string" where
  "two_digits n = (if n < 10 then CHR ''0'' # show_nat n else show_nat n)"

definition clock_text :: "u64 \<Rightarrow> string" where
  "clock_text ns = two_digits (unat (ns div kNsPerHour)) @ '':'' @ two_digits (unat (ns div kNsPerMinute mod 60)) @ '':''
     @ two_digits (unat (ns div 1000000000 mod 60))"

record snapshot =
  sn_clock :: string
  sn_symbol :: string
  sn_quote :: "((u32 \<times> u64) \<times> (u32 \<times> u64) \<times> u32 \<times> nat \<times> nat) option"

definition level_quote :: "price_level option \<Rightarrow> u32 \<times> u64" where
  "level_quote lv = (case lv of None \<Rightarrow> (0, 0) | Some x \<Rightarrow> (l_price x, l_shares x))"

definition take_snapshot :: "u64 \<Rightarrow> 'l builder \<Rightarrow> string list \<Rightarrow> snapshot list" where
  "take_snapshot atNs s names = map (\<lambda>symbol.
     let locate = locateOf symbol s in
     \<lparr>sn_clock = clock_text atNs, sn_symbol = symbol,
      sn_quote = (if locate < 0 then None
        else let book = books s (of_int locate)
             in Some (level_quote (bestBid book), level_quote (bestAsk book), lastPrice (core s) (of_int locate),
                      length (sideOf book Bid), length (sideOf book Ask)))\<rparr>) names"

definition snapshotTimes :: "u64 list" where
  "snapshotTimes = [9 * kNsPerHour + 30 * kNsPerMinute, 10 * kNsPerHour, 12 * kNsPerHour,
     15 * kNsPerHour + 59 * kNsPerMinute, 16 * kNsPerHour + kNsPerMinute]"

section \<open>Latencies\<close>

record latencies =
  lat_all :: histogram
  lat_add :: histogram
  lat_execute :: histogram
  lat_cancel :: histogram
  lat_remove :: histogram
  lat_replace :: histogram

definition latencies_new :: latencies where
  "latencies_new = \<lparr>lat_all = hist_new, lat_add = hist_new, lat_execute = hist_new, lat_cancel = hist_new,
     lat_remove = hist_new, lat_replace = hist_new\<rparr>"

datatype message_kind = KAdd | KExecute | KCancel | KRemove | KReplace

definition forType :: "char \<Rightarrow> message_kind option" where
  "forType type =
     (if type = CHR ''A'' \<or> type = CHR ''F'' then Some KAdd
      else if type = CHR ''E'' \<or> type = CHR ''C'' then Some KExecute
      else if type = CHR ''X'' then Some KCancel
      else if type = CHR ''D'' then Some KRemove
      else if type = CHR ''U'' then Some KReplace else None)"

definition record_kind :: "message_kind \<Rightarrow> u64 \<Rightarrow> latencies \<Rightarrow> latencies option" where
  "record_kind k v L = do {
     L \<leftarrow> (case k of
        KAdd \<Rightarrow> map_option (\<lambda>h. L\<lparr>lat_add := h\<rparr>) (hist_record v (lat_add L))
      | KExecute \<Rightarrow> map_option (\<lambda>h. L\<lparr>lat_execute := h\<rparr>) (hist_record v (lat_execute L))
      | KCancel \<Rightarrow> map_option (\<lambda>h. L\<lparr>lat_cancel := h\<rparr>) (hist_record v (lat_cancel L))
      | KRemove \<Rightarrow> map_option (\<lambda>h. L\<lparr>lat_remove := h\<rparr>) (hist_record v (lat_remove L))
      | KReplace \<Rightarrow> map_option (\<lambda>h. L\<lparr>lat_replace := h\<rparr>) (hist_record v (lat_replace L)));
     map_option (\<lambda>h. L\<lparr>lat_all := h\<rparr>) (hist_record v (lat_all L))
   }"

section \<open>The loop\<close>

record 'l replay_state =
  rp_builder :: "'l builder"
  rp_nextSnapshot :: nat
  rp_snapshots :: "snapshot list"
  rp_latencies :: latencies
  rp_bookTicks :: u64
  rp_bookMessages :: u64
  rp_reads :: nat

definition replay_start :: "'l builder \<Rightarrow> 'l replay_state" where
  "replay_start s = \<lparr>rp_builder = s, rp_nextSnapshot = 0, rp_snapshots = [], rp_latencies = latencies_new,
     rp_bookTicks = 0, rp_bookMessages = 0, rp_reads = 0\<rparr>"

definition due_snapshot :: "string list \<Rightarrow> bytes \<Rightarrow> 'l replay_state \<Rightarrow> 'l replay_state option" where
  "due_snapshot names m s =
     (if rp_nextSnapshot s < length snapshotTimes
      then do {
        ts \<leftarrow> be48 m 5;
        Some (if ts \<ge> snapshotTimes ! rp_nextSnapshot s
          then s\<lparr>rp_snapshots := rp_snapshots s @ take_snapshot (snapshotTimes ! rp_nextSnapshot s) (rp_builder s) names,
                 rp_nextSnapshot := rp_nextSnapshot s + 1\<rparr>
          else s)
      }
      else Some s)"

text \<open>\<open>tsc i\<close> is the \<open>i\<close>-th reading of the time-stamp counter.\<close>

definition replay_message :: "'l on_top \<Rightarrow> bool \<Rightarrow> (nat \<Rightarrow> u64) \<Rightarrow> string list \<Rightarrow> bytes \<Rightarrow> 'l replay_state \<Rightarrow> 'l replay_state option" where
  "replay_message lsn timeEach tsc names m s = do {
     s \<leftarrow> due_snapshot names m s;
     c \<leftarrow> byte_at m 0;
     (case (if timeEach then forType (char_of_byte c) else None) of
        Some h \<Rightarrow> do {
          let t0 = tsc (rp_reads s);
          (_, b) \<leftarrow> dispatch (builder_handler lsn) m (rp_builder s);
          let t1 = tsc (rp_reads s + 1);
          L \<leftarrow> record_kind h (t1 - t0) (rp_latencies s);
          Some (s\<lparr>rp_builder := b, rp_latencies := L, rp_bookTicks := rp_bookTicks s + (t1 - t0),
                  rp_bookMessages := rp_bookMessages s + 1, rp_reads := rp_reads s + 2\<rparr>)
        }
      | None \<Rightarrow> do {
          (_, b) \<leftarrow> dispatch (builder_handler lsn) m (rp_builder s);
          Some (s\<lparr>rp_builder := b\<rparr>)
        })
   }"

partial_function (option) replay_messages ::
    "'l on_top \<Rightarrow> bool \<Rightarrow> (nat \<Rightarrow> u64) \<Rightarrow> string list \<Rightarrow> itch_reader \<Rightarrow> 'l replay_state \<Rightarrow> (itch_reader \<times> 'l replay_state) option" where
  "replay_messages lsn timeEach tsc names r s = do {
     (m, r) \<leftarrow> next_message r;
     if m = [] then Some (r, s)
     else do {
       s \<leftarrow> replay_message lsn timeEach tsc names m s;
       replay_messages lsn timeEach tsc names r s
     }
   }"

text \<open>After the loop, the snapshots that no message was late enough for.\<close>

fun late_snapshots :: "string list \<Rightarrow> u64 list \<Rightarrow> 'l replay_state \<Rightarrow> 'l replay_state" where
  "late_snapshots names [] s = s"
| "late_snapshots names (t # ts) s = late_snapshots names ts
     (s\<lparr>rp_snapshots := rp_snapshots s @ take_snapshot t (rp_builder s) names, rp_nextSnapshot := rp_nextSnapshot s + 1\<rparr>)"

text \<open>The figures of the report: messages per second, and nanoseconds per message.\<close>

record 'd figures =
  fig_throughput :: "u64 \<Rightarrow> 'd"
  fig_mean :: "u64 \<Rightarrow> u64 \<Rightarrow> 'd"

definition replay_report ::
    "'d doubles \<Rightarrow> 'd figures \<Rightarrow> bool \<Rightarrow> 'd \<Rightarrow> itch_reader \<Rightarrow> 'l replay_state \<Rightarrow> 'd report \<Rightarrow> 'd report" where
  "replay_report D fig timeEach ticksPerNs r s rep =
     (let rep = add_metric ''itch_replay/throughput'' ''M msg/s'' (fig_throughput fig (ir_messages r)) Higher rep;
          rep = (if timeEach \<and> rp_bookMessages s > 0
                 then add_metric ''itch_replay/mean_per_update'' ''ns'' (fig_mean fig (rp_bookTicks s) (rp_bookMessages s)) Lower rep
                 else rep);
          L = rp_latencies s
      in if timeEach
         then let rep = addHistogram D ''itch_replay/all'' (lat_all L) ticksPerNs rep;
                  rep = addHistogram D ''itch_replay/add'' (lat_add L) ticksPerNs rep;
                  rep = addHistogram D ''itch_replay/execute'' (lat_execute L) ticksPerNs rep;
                  rep = addHistogram D ''itch_replay/cancel'' (lat_cancel L) ticksPerNs rep;
                  rep = addHistogram D ''itch_replay/delete'' (lat_remove L) ticksPerNs rep
              in addHistogram D ''itch_replay/replace'' (lat_replace L) ticksPerNs rep
         else rep)"

definition replay_ok :: "itch_reader \<Rightarrow> 'l builder \<Rightarrow> bool" where
  "replay_ok r s \<longleftrightarrow> ir_lengthMismatches r = 0 \<and> ir_unknownTypes r = 0 \<and> \<not> ir_truncated r
     \<and> unknownRefs (stats (core s)) = 0 \<and> overExecutions (stats (core s)) = 0 \<and> duplicateRefs (stats (core s)) = 0"

definition replay_file ::
    "'l on_top \<Rightarrow> 'd doubles \<Rightarrow> 'd figures \<Rightarrow> 'l builder \<Rightarrow> byte_file \<Rightarrow> bool \<Rightarrow> (nat \<Rightarrow> u64) \<Rightarrow> string list \<Rightarrow> 'd \<Rightarrow> 'd report
      \<Rightarrow> (nat \<times> 'd report \<times> 'l replay_state) option" where
  "replay_file lsn D fig builder f timeEach tsc names ticksPerNs rep = do {
     (r, s) \<leftarrow> replay_messages lsn timeEach tsc names (reader_new f (2 ^ 22)) (replay_start builder);
     let s = late_snapshots names (drop (rp_nextSnapshot s) snapshotTimes) s;
     Some (if replay_ok r (rp_builder s) then 0 else 1, replay_report D fig timeEach ticksPerNs r s rep, s)
   }"

section \<open>The program\<close>

definition known_listener :: "string \<Rightarrow> bool" where
  "known_listener l \<longleftrightarrow> l = ''none'' \<or> l = ''template'' \<or> l = ''virtual''"

text \<open>\<open>main\<close>: the exit code, and the results file if one is written. \<open>files\<close> opens a path (and \<open>-\<close>, the
  standard input); \<open>ignoring\<close> is the flag that chooses the handler behind the virtual interface.\<close>

definition itch_replay ::
    "'d doubles \<Rightarrow> 'd figures \<Rightarrow> machine \<Rightarrow> filesystem \<Rightarrow> (string \<Rightarrow> byte_file option) \<Rightarrow> bool \<Rightarrow> 'd \<Rightarrow> u64 \<Rightarrow> bool \<Rightarrow> (nat \<Rightarrow> u64)
      \<Rightarrow> string list \<Rightarrow> (nat \<times> (string \<times> string) option) option" where
  "itch_replay D fig M F files ignoring ticksPerNs overhead pinned tsc argv =
     (case argPath argv of
        None \<Rightarrow> Some (2, None)
      | Some path \<Rightarrow>
          if hasFlag argv ''--help'' then Some (0, None)
          else let timeEach = (\<not> hasFlag argv ''--no-latency''); names = argSymbols argv; lsn = argListener argv in
            if \<not> known_listener lsn then Some (2, None)
            else (case files path of
                None \<Rightarrow> Some (2, None)
              | Some f \<Rightarrow> do {
                  let rep = setPinned pinned (setTimer D ticksPerNs overhead (report_new D ''itch_replay'' argv));
                  (status, rep) \<leftarrow>
                    (if lsn = ''template'' then do {
                       b \<leftarrow> builder_new (2 ^ 22) counter_new;
                       (status, rep, _) \<leftarrow> replay_file (Some counter_onTop) D fig b f timeEach tsc names ticksPerNs rep;
                       Some (status, rep)
                     } else if lsn = ''virtual'' then do {
                       b \<leftarrow> builder_new (2 ^ 22) (handler_new (if ignoring then IgnoringHandler else CountingHandler));
                       (status, rep, _) \<leftarrow> replay_file (Some virtual_onTop) D fig b f timeEach tsc names ticksPerNs rep;
                       Some (status, rep)
                     } else do {
                       b \<leftarrow> builder_new (2 ^ 22) ();
                       (status, rep, _) \<leftarrow> replay_file None D fig b f timeEach tsc names ticksPerNs rep;
                       Some (status, rep)
                     });
                  let (ok, out) = write_report D M F rep;
                  Some (if \<not> ok \<and> status = 0 then 2 else status, out)
                }))"

section \<open>The loop over the messages of the file\<close>

fun replay_all ::
    "'l on_top \<Rightarrow> bool \<Rightarrow> (nat \<Rightarrow> u64) \<Rightarrow> string list \<Rightarrow> bytes list \<Rightarrow> 'l replay_state \<Rightarrow> 'l replay_state option" where
  "replay_all lsn timeEach tsc names [] s = Some s"
| "replay_all lsn timeEach tsc names (m # ms) s = do {
     s \<leftarrow> replay_message lsn timeEach tsc names m s;
     replay_all lsn timeEach tsc names ms s
   }"

lemma replay_messages_all:
  "read_all r = Some (ms, r') \<Longrightarrow>
    replay_messages lsn timeEach tsc names r s = map_option (Pair r') (replay_all lsn timeEach tsc names ms s)"
proof (induction ms arbitrary: r s)
  case Nil
  then have "next_message r = Some ([], r')"
    by (subst (asm) read_all.simps) (auto simp: bind_Some_iff split: if_splits)
  then show ?case by (subst replay_messages.simps) simp
next
  case (Cons m ms)
  from Cons.prems obtain r1 where r1: "next_message r = Some (m, r1)" "m \<noteq> []" "read_all r1 = Some (ms, r')"
    by (subst (asm) read_all.simps) (auto simp: bind_Some_iff split: if_splits)
  show ?case using r1(1,2) Cons.IH [OF r1(3)]
    by (subst replay_messages.simps) (cases "replay_message lsn timeEach tsc names m s", simp_all)
qed

lemma file_read:
  obtains r where "read_all (reader_new f bufferBytes) = Some (filter well_framed (fst (split_frames (fl_rest f))), r)"
    "ir_messages r = of_nat (length (fst (split_frames (fl_rest f))))"
    "ir_unknownTypes r = of_nat (length (filter unknown_frame (fst (split_frames (fl_rest f)))))"
    "ir_lengthMismatches r = of_nat (length (filter bad_length (fst (split_frames (fl_rest f)))))"
    "ir_truncated r = snd (split_frames (fl_rest f))"
proof -
  obtain ms t where ms: "split_frames (fl_rest f) = (ms, t)" by fastforce
  from read_all_correct [OF reader_new_ok(1), of f bufferBytes ms t] ms obtain r where
    "read_all (reader_new f bufferBytes) = Some (filter well_framed ms, r)"
    "counters r = set_truncated t (fold count_frame ms (0, 0, 0, 0, False))"
    by (auto simp: reader_new_ok)
  then show thesis by (intro that [of r]) (simp_all add: ms fold_count_frame counters_def)
qed

section \<open>The listener changes nothing else\<close>

definition map_replay :: "('l \<Rightarrow> 'm) \<Rightarrow> 'l replay_state \<Rightarrow> 'm replay_state" where
  "map_replay f s = \<lparr>rp_builder = map_listener f (rp_builder s), rp_nextSnapshot = rp_nextSnapshot s, rp_snapshots = rp_snapshots s,
     rp_latencies = rp_latencies s, rp_bookTicks = rp_bookTicks s, rp_bookMessages = rp_bookMessages s, rp_reads = rp_reads s\<rparr>"

lemma map_replay_parts [simp]:
  "rp_builder (map_replay f s) = map_listener f (rp_builder s)" "rp_nextSnapshot (map_replay f s) = rp_nextSnapshot s"
  "rp_snapshots (map_replay f s) = rp_snapshots s" "rp_latencies (map_replay f s) = rp_latencies s"
  "rp_bookTicks (map_replay f s) = rp_bookTicks s" "rp_bookMessages (map_replay f s) = rp_bookMessages s"
  "rp_reads (map_replay f s) = rp_reads s"
  by (simp_all add: map_replay_def)

lemma snapshot_ml: "take_snapshot t (map_listener f s) names = take_snapshot t s names"
  by (simp add: take_snapshot_def locateOf_def ml Let_def)

lemma due_ml: "due_snapshot names m (map_replay f s) = map_option (map_replay f) (due_snapshot names m s)"
proof (cases "be48 m 5")
  case (Some ts)
  then show ?thesis by (simp add: due_snapshot_def snapshot_ml map_replay_def)
qed (simp add: due_snapshot_def)

lemma simulation: "follows f lsn' lsn \<Longrightarrow> itch_simulation (builder_handler lsn) (builder_handler lsn') (map_listener f)"
  by unfold_locales (rule handler_ml)

lemma replay_message_ml:
  assumes "follows f lsn' lsn"
  shows "replay_message lsn' timeEach tsc names m (map_replay f s) = map_option (map_replay f) (replay_message lsn timeEach tsc names m s)"
proof (cases "due_snapshot names m s")
  case (Some s1)
  note sim = itch_simulation.dispatch_sim [OF simulation [OF assms]]
  show ?thesis
  proof (cases "byte_at m 0")
    case c: (Some c)
    show ?thesis
    proof (cases "if timeEach then forType (char_of_byte c) else None")
      case None
      show ?thesis unfolding replay_message_def due_ml Some c Option.bind.simps option.map None option.case
        by (cases "dispatch (builder_handler lsn) m (rp_builder s1)") (auto simp: sim map_replay_def)
    next
      case h: (Some h)
      show ?thesis unfolding replay_message_def due_ml Some c Option.bind.simps option.map h option.case
        by (cases "dispatch (builder_handler lsn) m (rp_builder s1)";
            cases "record_kind h (tsc (rp_reads s1 + 1) - tsc (rp_reads s1)) (rp_latencies s1)")
          (auto simp: sim Let_def map_replay_def)
    qed
  qed (simp add: replay_message_def due_ml Some)
qed (simp add: replay_message_def due_ml)

lemma replay_all_ml:
  assumes "follows f lsn' lsn"
  shows "replay_all lsn' timeEach tsc names ms (map_replay f s) = map_option (map_replay f) (replay_all lsn timeEach tsc names ms s)"
proof (induction ms arbitrary: s)
  case (Cons m ms)
  then show ?case by (cases "replay_message lsn timeEach tsc names m s") (simp_all add: replay_message_ml [OF assms])
qed simp

lemma map_replay_update:
  "(map_replay f s)\<lparr>rp_snapshots := x, rp_nextSnapshot := n\<rparr> = map_replay f (s\<lparr>rp_snapshots := x, rp_nextSnapshot := n\<rparr>)"
  by (simp add: map_replay_def)

lemma late_ml: "late_snapshots names ts (map_replay f s) = map_replay f (late_snapshots names ts s)"
proof (induction ts arbitrary: s)
  case (Cons t ts)
  show ?case unfolding late_snapshots.simps map_replay_parts snapshot_ml map_replay_update by (rule Cons.IH)
qed simp

lemma replay_ml:
  assumes "follows f lsn' lsn"
  shows "replay_file lsn' D fig (map_listener f b) file timeEach tsc names ticksPerNs rep
    = map_option (map_prod id (map_prod id (map_replay f))) (replay_file lsn D fig b file timeEach tsc names ticksPerNs rep)"
proof -
  obtain r where r: "read_all (reader_new file (2 ^ 22)) = Some (filter well_framed (fst (split_frames (fl_rest file))), r)"
    by (rule file_read)
  have start: "replay_start (map_listener f b) = map_replay f (replay_start b)" by (simp add: replay_start_def map_replay_def)
  have verdict: "replay_ok r (map_listener f s) = replay_ok r s" for r s by (simp add: replay_ok_def ml)
  have figures: "replay_report D fig timeEach ticksPerNs r (map_replay f s) rep = replay_report D fig timeEach ticksPerNs r s rep" for r s
    by (simp add: replay_report_def Let_def)
  show ?thesis unfolding replay_file_def start replay_messages_all [OF r] replay_all_ml [OF assms]
    by (cases "replay_all lsn timeEach tsc names (filter well_framed (fst (split_frames (fl_rest file)))) (replay_start b)")
      (simp_all add: Let_def late_ml verdict figures)
qed

section \<open>The verdict\<close>

definition latencies_ok :: "latencies \<Rightarrow> bool" where
  "latencies_ok L \<longleftrightarrow> list_all (\<lambda>h. length (lh_counts h) = kBucketCount)
     [lat_all L, lat_add L, lat_execute L, lat_cancel L, lat_remove L, lat_replace L]"

lemma hist_record_ok: "length (lh_counts h) = kBucketCount \<Longrightarrow> \<exists>h'. hist_record v h = Some h' \<and> length (lh_counts h') = kBucketCount"
  using indexOf_less [of v] by (simp add: hist_record_def)

lemma record_kind_ok: "latencies_ok L \<Longrightarrow> \<exists>L'. record_kind k v L = Some L' \<and> latencies_ok L'"
proof -
  assume "latencies_ok L"
  then have h: "\<forall>h\<in>set [lat_all L, lat_add L, lat_execute L, lat_cancel L, lat_remove L, lat_replace L]. length (lh_counts h) = kBucketCount"
    by (simp add: latencies_ok_def)
  then obtain a where a: "hist_record v (lat_all L) = Some a" "length (lh_counts a) = kBucketCount" using hist_record_ok by fastforce
  have "\<exists>h'. hist_record v h = Some h' \<and> length (lh_counts h') = kBucketCount"
    if "h \<in> set [lat_add L, lat_execute L, lat_cancel L, lat_remove L, lat_replace L]" for h
    using that h hist_record_ok by fastforce
  then show ?thesis using h a by (cases k) (fastforce simp: record_kind_def latencies_ok_def)+
qed

definition shot_keys :: "snapshot list \<Rightarrow> (string \<times> string) list" where
  "shot_keys sn = map (\<lambda>x. (sn_clock x, sn_symbol x)) sn"

definition keys_at :: "string list \<Rightarrow> u64 list \<Rightarrow> (string \<times> string) list" where
  "keys_at names ts = concat (map (\<lambda>t. map (Pair (clock_text t)) names) ts)"

lemma shot_keys_append: "shot_keys (sn @ take_snapshot t b names) = shot_keys sn @ map (Pair (clock_text t)) names"
  by (simp add: shot_keys_def take_snapshot_def Let_def)

definition replay_inv :: "string list \<Rightarrow> nat \<Rightarrow> 'l replay_state \<Rightarrow> bool" where
  "replay_inv names n s \<longleftrightarrow> builder_ok n (rp_builder s) \<and> latencies_ok (rp_latencies s) \<and> rp_nextSnapshot s \<le> length snapshotTimes
     \<and> shot_keys (rp_snapshots s) = keys_at names (take (rp_nextSnapshot s) snapshotTimes)"

lemma be48_framed: "well_framed m \<Longrightarrow> \<exists>ts. be48 m 5 = Some ts"
  using header_framed [of m] by (auto simp: decodeHeader_def bind_Some_iff)

lemma due_ok:
  assumes "replay_inv names n s" "well_framed m"
  shows "\<exists>s'. due_snapshot names m s = Some s' \<and> replay_inv names n s' \<and> rp_builder s' = rp_builder s"
proof -
  obtain ts where "be48 m 5 = Some ts" using be48_framed [OF assms(2)] by blast
  then show ?thesis
    using assms(1) by (auto simp: due_snapshot_def replay_inv_def shot_keys_append keys_at_def take_Suc_conv_app_nth)
qed

lemma replay_message_ok:
  assumes "replay_inv names (Suc n) s" "well_framed m"
  shows "\<exists>s' c. replay_message lsn timeEach tsc names m s = Some s' \<and> replay_inv names n s'
    \<and> dispatch (builder_handler lsn) m (rp_builder s) = Some (c, rp_builder s')"
proof -
  obtain s1 where s1: "due_snapshot names m s = Some s1" "replay_inv names (Suc n) s1" "rp_builder s1 = rp_builder s"
    using due_ok [OF assms] by blast
  have "builder_ok (Suc n) (rp_builder s1)" using s1(2) by (simp add: replay_inv_def)
  from bb.dispatch_ok [OF this, of lsn m] obtain c b where b: "dispatch (builder_handler lsn) m (rp_builder s1) = Some (c, b)" "builder_ok n b" by blast
  have "m \<noteq> []" using assms(2) by (simp add: well_framed_at)
  then obtain t where t: "byte_at m 0 = Some t" by (auto simp: byte_at_def)
  obtain L where L: "record_kind (the (forType (char_of_byte t))) (tsc (rp_reads s1 + 1) - tsc (rp_reads s1)) (rp_latencies s1) = Some L" "latencies_ok L"
    using record_kind_ok s1(2) by (fastforce simp: replay_inv_def)
  show ?thesis
  proof (cases "if timeEach then forType (char_of_byte t) else None")
    case None
    show ?thesis unfolding replay_message_def s1(1) t Option.bind.simps None option.case b(1)
      using s1(2) b s1(3) by (auto simp: replay_inv_def)
  next
    case (Some h)
    then have h: "the (forType (char_of_byte t)) = h" by (auto split: if_splits)
    show ?thesis unfolding replay_message_def s1(1) t Option.bind.simps Some option.case b(1) Let_def prod.case L(1) [unfolded h]
      using s1(2) b s1(3) L(2) by (auto simp: replay_inv_def)
  qed
qed

lemma replay_all_ok:
  "replay_inv names (length ms + n) s \<Longrightarrow> \<forall>m\<in>set ms. well_framed m \<Longrightarrow>
    \<exists>s'. replay_all lsn timeEach tsc names ms s = Some s' \<and> replay_inv names n s'
      \<and> dispatch_all (builder_handler lsn) ms (rp_builder s) = Some (rp_builder s')"
proof (induction ms arbitrary: s)
  case (Cons m ms)
  from replay_message_ok [of names "length ms + n" s m lsn timeEach tsc] Cons.prems obtain s1 c where
    "replay_message lsn timeEach tsc names m s = Some s1" "replay_inv names (length ms + n) s1"
    "dispatch (builder_handler lsn) m (rp_builder s) = Some (c, rp_builder s1)" by auto
  then show ?case using Cons.IH [of s1] Cons.prems(2) by auto
qed simp

lemma late_ok: "rp_builder (late_snapshots names ts s) = rp_builder s
    \<and> shot_keys (rp_snapshots (late_snapshots names ts s)) = shot_keys (rp_snapshots s) @ keys_at names ts"
  by (induction ts arbitrary: s) (simp_all add: keys_at_def shot_keys_append)

lemma zero_count: "length xs \<le> 2 ^ 32 \<Longrightarrow> (of_nat (length (filter P xs)) :: u64) = 0 \<longleftrightarrow> list_all (\<lambda>x. \<not> P x) xs"
proof -
  assume l: "length xs \<le> 2 ^ 32"
  have "length (filter P xs) \<le> 2 ^ 32" by (rule le_trans [OF length_filter_le l])
  also have "(2 :: nat) ^ 32 < 2 ^ 64" by simp
  finally have "length (filter P xs) < 2 ^ 64" .
  then have u: "unat (of_nat (length (filter P xs)) :: u64) = length (filter P xs)" by (rule unat_word64_of_nat)
  have "(of_nat (length (filter P xs)) :: u64) = 0 \<longleftrightarrow> length (filter P xs) = 0"
  proof
    assume "(of_nat (length (filter P xs)) :: u64) = 0"
    then show "length (filter P xs) = 0" using u by (simp only: unsigned_0)
  next
    assume "length (filter P xs) = 0"
    then show "(of_nat (length (filter P xs)) :: u64) = 0" by simp
  qed
  also have "\<dots> \<longleftrightarrow> list_all (\<lambda>x. \<not> P x) xs" by (simp add: list_all_iff filter_empty_conv)
  finally show ?thesis .
qed

lemma frame_split: "well_framed m \<longleftrightarrow> \<not> unknown_frame m \<and> \<not> bad_length m"
  by (auto simp: bad_length_def well_framed_at unknown_frame_def)

lemma replay_runs:
  assumes "length (fst (split_frames (fl_rest file))) \<le> 2 ^ 32" "builder_new (2 ^ 22) l = Some b"
  shows "\<exists>code rep' s. replay_file lsn D fig b file timeEach tsc names ticksPerNs rep = Some (code, rep', s)
    \<and> dispatch_all (builder_handler lsn) (filter well_framed (fst (split_frames (fl_rest file)))) b = Some (rp_builder s)
    \<and> map (\<lambda>x. (sn_clock x, sn_symbol x)) (rp_snapshots s) = concat (map (\<lambda>t. map (Pair (clock_text t)) names) snapshotTimes)
    \<and> (code = 0 \<longleftrightarrow> list_all well_framed (fst (split_frames (fl_rest file))) \<and> \<not> snd (split_frames (fl_rest file))
        \<and> faults (core (rp_builder s)) = (0, 0, 0))"
proof -
  let ?ms = "fst (split_frames (fl_rest file))"
  let ?good = "filter well_framed ?ms"
  obtain r where r: "read_all (reader_new file (2 ^ 22)) = Some (?good, r)" "ir_unknownTypes r = of_nat (length (filter unknown_frame ?ms))"
    "ir_lengthMismatches r = of_nat (length (filter bad_length ?ms))" "ir_truncated r = snd (split_frames (fl_rest file))"
    by (rule file_read)
  have "length ?good \<le> 2 ^ 32" using assms(1) length_filter_le [of well_framed ?ms] by linarith
  then have "builder_ok (length ?good + 0) b"
    using new_builder_rep [of "2 ^ 22" l] assms(2) by (auto simp: builder_ok_def)
  then have "replay_inv names (length ?good + 0) (replay_start b)"
    by (simp add: replay_inv_def replay_start_def latencies_ok_def latencies_new_def hist_new_def shot_keys_def keys_at_def)
  from replay_all_ok [OF this, of lsn timeEach tsc] obtain s where s: "replay_all lsn timeEach tsc names ?good (replay_start b) = Some s"
    "replay_inv names 0 s" "dispatch_all (builder_handler lsn) ?good b = Some (rp_builder s)"
    by (auto simp: replay_start_def)
  let ?s = "late_snapshots names (drop (rp_nextSnapshot s) snapshotTimes) s"
  note late = late_ok [of names "drop (rp_nextSnapshot s) snapshotTimes" s]
  have run: "replay_file lsn D fig b file timeEach tsc names ticksPerNs rep
      = Some (if replay_ok r (rp_builder ?s) then 0 else 1, replay_report D fig timeEach ticksPerNs r ?s rep, ?s)"
    unfolding replay_file_def replay_messages_all [OF r(1)] s(1) by (simp add: Let_def)
  have "keys_at names (take k ts) @ keys_at names (drop k ts) = keys_at names ts" for k ts
    unfolding keys_at_def by (metis append_take_drop_id concat_append map_append)
  then have keys: "shot_keys (rp_snapshots ?s) = keys_at names snapshotTimes" using late s(2) by (simp add: replay_inv_def)
  have "list_all well_framed ?ms \<longleftrightarrow> list_all (\<lambda>m. \<not> unknown_frame m) ?ms \<and> list_all (\<lambda>m. \<not> bad_length m) ?ms"
    using frame_split unfolding list_all_iff by blast
  then have "replay_ok r (rp_builder ?s) \<longleftrightarrow> list_all well_framed ?ms \<and> \<not> snd (split_frames (fl_rest file)) \<and> faults (core (rp_builder ?s)) = (0, 0, 0)"
    using zero_count [OF assms(1)] r(2,3,4) by (auto simp: replay_ok_def faults_def)
  moreover have "dispatch_all (builder_handler lsn) ?good b = Some (rp_builder ?s)" using late s(3) by simp
  ultimately show ?thesis
    using run keys unfolding shot_keys_def keys_at_def
    by (intro exI [of _ "if replay_ok r (rp_builder ?s) then 0 else 1 :: nat"] exI [of _ "replay_report D fig timeEach ticksPerNs r ?s rep"]
        exI [of _ ?s] conjI) simp_all
qed




section \<open>What the listeners hear\<close>

text \<open>A replay with a new builder; and what the listeners have become after the notifications \<open>log\<close>.\<close>

definition replay_new ::
    "'l on_top \<Rightarrow> 'l \<Rightarrow> 'd doubles \<Rightarrow> 'd figures \<Rightarrow> byte_file \<Rightarrow> bool \<Rightarrow> (nat \<Rightarrow> u64) \<Rightarrow> string list \<Rightarrow> 'd \<Rightarrow> 'd report
      \<Rightarrow> (nat \<times> 'd report \<times> 'l replay_state) option" where
  "replay_new lsn l D fig file timeEach tsc names ticksPerNs rep = do {
     b \<leftarrow> builder_new (2 ^ 22) l;
     replay_file lsn D fig b file timeEach tsc names ticksPerNs rep
   }"

definition counter_after :: "top_of_book list \<Rightarrow> quote_counter" where
  "counter_after log = \<lparr>qc_updates = of_nat (length log), qc_checksum = foldl foldQuote 0 log\<rparr>"

definition handler_after :: "handler_class \<Rightarrow> top_of_book list \<Rightarrow> top_handler" where
  "handler_after c log = \<lparr>th_class = c, th_updates = of_nat (length log),
     th_checksum = (case c of CountingHandler \<Rightarrow> foldl foldQuote 0 log | IgnoringHandler \<Rightarrow> 0)\<rparr>"

lemma listeners_follow_log:
  "follows counter_after (Some counter_onTop) top_recorder" "counter_after [] = counter_new"
  "follows (handler_after c) (Some virtual_onTop) top_recorder" "handler_after c [] = handler_new c"
proof -
  show "follows counter_after (Some counter_onTop) top_recorder" "counter_after [] = counter_new"
    by (simp_all add: follows_def Listeners.told_def top_recorder_def counter_after_def counter_onTop_def counter_new_def)
  show "follows (handler_after c) (Some virtual_onTop) top_recorder" "handler_after c [] = handler_new c"
    by (cases c; simp add: follows_def Listeners.told_def top_recorder_def handler_after_def virtual_onTop_def
        handler_onTop_def handler_new_def)+
qed

lemma replay_follows:
  assumes "follows f lsn top_recorder" "f [] = l"
    and "replay_new top_recorder [] D fig file timeEach tsc names ticksPerNs rep = Some (code, rep', s)"
  shows "replay_new lsn l D fig file timeEach tsc names ticksPerNs rep
    = Some (code, rep', map_replay (\<lambda>_. f (listener (core (rp_builder s)))) s)"
proof -
  have "map_replay (\<lambda>_. f (listener (core (rp_builder s)))) s = map_replay f s"
    by (simp add: map_replay_def map_listener_def map_core_listener_def)
  moreover have "builder_new (2 ^ 22) l = map_option (map_listener f) (builder_new (2 ^ 22) [])"
    using builder_new_ml [of "2 ^ 22" f "[]"] assms(2) by simp
  ultimately show ?thesis
    using assms(3) by (auto simp: replay_new_def bind_Some_iff replay_ml [OF assms(1)])
qed

text \<open>C23. Every listener hears the same replay and none changes it. Replay a file of up to \<open>2^32\<close> messages with a
  listener that records its notifications, and call the record \<open>log\<close>. With the same readings of the clock, the
  replay with \<open>QuoteCounter\<close> called directly, with \<open>CountingHandler\<close> or \<open>IgnoringHandler\<close> behind the virtual interface
  and with no listener gives the same exit code, report, snapshots, books and statistics. The counter and the
  counting handler end with the number of notifications, modulo \<open>2^64\<close>, and the checksum folded over \<open>log\<close> in order;
  the ignoring handler ends with the same number and the checksum 0.\<close>

theorem replay_listeners_agree:
  assumes "length (fst (split_frames (fl_rest file))) \<le> 2 ^ 32"
  shows "\<exists>code rep' s log. replay_new top_recorder [] D fig file timeEach tsc names ticksPerNs rep = Some (code, rep', s)
    \<and> log = listener (core (rp_builder s))
    \<and> replay_new (Some counter_onTop) counter_new D fig file timeEach tsc names ticksPerNs rep = Some (code, rep',
        map_replay (\<lambda>_. \<lparr>qc_updates = of_nat (length log), qc_checksum = foldl foldQuote 0 log\<rparr>) s)
    \<and> replay_new (Some virtual_onTop) (handler_new CountingHandler) D fig file timeEach tsc names ticksPerNs rep = Some (code, rep',
        map_replay (\<lambda>_. \<lparr>th_class = CountingHandler, th_updates = of_nat (length log), th_checksum = foldl foldQuote 0 log\<rparr>) s)
    \<and> replay_new (Some virtual_onTop) (handler_new IgnoringHandler) D fig file timeEach tsc names ticksPerNs rep = Some (code, rep',
        map_replay (\<lambda>_. \<lparr>th_class = IgnoringHandler, th_updates = of_nat (length log), th_checksum = 0\<rparr>) s)
    \<and> replay_new None () D fig file timeEach tsc names ticksPerNs rep = Some (code, rep', map_replay (\<lambda>_. ()) s)"
proof -
  obtain b where b: "builder_new (2 ^ 22) ([] :: top_of_book list) = Some b" using new_builder_rep [of "2 ^ 22" "[]"] by auto
  from replay_runs [OF assms b, of top_recorder D fig timeEach tsc names ticksPerNs rep] obtain code rep' s where
    run: "replay_new top_recorder [] D fig file timeEach tsc names ticksPerNs rep = Some (code, rep', s)"
    using b by (auto simp: replay_new_def)
  note counter = replay_follows [OF listeners_follow_log(1,2) run]
    and handler = replay_follows [OF listeners_follow_log(3,4) run]
    and silent = replay_follows [OF follow_none [of top_recorder] refl run]
  show ?thesis
    using run counter handler [of CountingHandler] handler [of IgnoringHandler] silent
    by (intro exI [of _ code] exI [of _ rep'] exI [of _ s] exI [of _ "listener (core (rp_builder s))"])
      (simp add: counter_after_def handler_after_def)
qed

lemma replay_listeners_agree_witness:
  "\<exists>code rep' s log. replay_new top_recorder [] sample_doubles \<lparr>fig_throughput = \<lambda>_. None, fig_mean = \<lambda>_ _. None\<rparr>
      \<lparr>fl_rest = frames (map message_of demo_events), fl_caps = [3]\<rparr> True (\<lambda>i. of_nat i) [''ABC''] None sample_report = Some (code, rep', s)
    \<and> log = listener (core (rp_builder s))
    \<and> replay_new (Some virtual_onTop) (handler_new IgnoringHandler) sample_doubles \<lparr>fig_throughput = \<lambda>_. None, fig_mean = \<lambda>_ _. None\<rparr>
        \<lparr>fl_rest = frames (map message_of demo_events), fl_caps = [3]\<rparr> True (\<lambda>i. of_nat i) [''ABC''] None sample_report = Some (code, rep',
        map_replay (\<lambda>_. \<lparr>th_class = IgnoringHandler, th_updates = of_nat (length log), th_checksum = 0\<rparr>) s)"
proof -
  let ?f = "\<lparr>fl_rest = frames (map message_of demo_events), fl_caps = [3]\<rparr>"
  have "list_all encodable demo_events" by (simp add: demo_events_def fits48_def)
  moreover have "length (message_of e) < 65536" if "encodable e" for e
    using message_of_length [OF that] messageLength_64 [of e] by simp
  ultimately have "\<forall>m\<in>set (map message_of demo_events). length m < 65536" by (simp add: list_all_iff)
  from split_frames_frames [OF this] have "fst (split_frames (fl_rest ?f)) = map message_of demo_events"
    by (simp only: byte_file.select_convs fst_conv)
  then have "length (fst (split_frames (fl_rest ?f))) \<le> 2 ^ 32" by (simp add: demo_events_def)
  from replay_listeners_agree [OF this, of sample_doubles "\<lparr>fig_throughput = \<lambda>_. None, fig_mean = \<lambda>_ _. None\<rparr>" True
      "\<lambda>i. of_nat i" "[''ABC'']" None sample_report] show ?thesis by blast
qed

end
