(* ===== verification/RingHarness.thy ===== *)
theory RingHarness
  imports RingQueues LatencyHistogram
begin

text \<open>
  Two threads that send messages through a queue and time them: \<open>bench/RingHarness.hpp\<close>. \<open>producer_step\<close> and
  \<open>consumer_step\<close> are the steps of the two lambdas of \<open>runRing\<close> between two accesses to the queue, on the
  machine of \<open>SpscQueue\<close>; \<open>harness_reachable\<close> interleaves them in any way, with loads of any staleness and
  any readings of the clock. Busy work and priorities are delays, and a thread may pause between any two
  steps. \<open>spsc_live\<close> adds to the laws of a queue what a waiting thread relies on; from it follow that
  nothing arrives out of order and that two threads which see the newest indices always finish.
\<close>

section \<open>The harness\<close>

record ring_message =
  rm_seq :: u64
  rm_intendedTsc :: u64
  rm_sentTsc :: u64

record run_config =
  rc_producerCore :: int
  rc_consumerCore :: int
  rc_messages :: u64
  rc_warmup :: u64
  rc_intervalTicks :: u64
  rc_producerWorkTicks :: u64
  rc_consumerWorkTicks :: u64
  rc_highPriority :: bool
  rc_recordLatency :: bool

definition config_new :: run_config where
  "config_new = \<lparr>rc_producerCore = 2, rc_consumerCore = 3, rc_messages = 1000000, rc_warmup = 50000, rc_intervalTicks = 0,
     rc_producerWorkTicks = 0, rc_consumerWorkTicks = 0, rc_highPriority = False, rc_recordLatency = True\<rparr>"

record run_result =
  rr_sendToReceive :: histogram
  rr_intendedToReceive :: histogram
  rr_firstReceiveTsc :: u64
  rr_lastReceiveTsc :: u64
  rr_outOfOrder :: u64
  rr_negativeDeltas :: u64
  rr_producerPinned :: bool
  rr_consumerPinned :: bool

definition result_new :: run_result where
  "result_new = \<lparr>rr_sendToReceive = hist_new, rr_intendedToReceive = hist_new, rr_firstReceiveTsc = 0, rr_lastReceiveTsc = 0,
     rr_outOfOrder = 0, rr_negativeDeltas = 0, rr_producerPinned = False, rr_consumerPinned = False\<rparr>"

text \<open>\<open>elapsed\<close>: the difference, and the counter of differences below zero.\<close>

definition elapsed :: "u64 \<Rightarrow> u64 \<Rightarrow> u64 \<Rightarrow> u64 \<times> u64" where
  "elapsed sent to negativeDeltas = (if to \<ge> sent then (to - sent, negativeDeltas) else (0, negativeDeltas + 1))"

text \<open>What a run is given: the queue, the configuration, the ticks of the first millisecond, and whether the
  system pins the two threads.\<close>

record ('p, 'c) ring_run =
  su_ops :: "('p, 'c) ring_ops"
  su_config :: run_config
  su_lead :: u64
  su_pinsProducer :: bool
  su_pinsConsumer :: bool

definition ring_total :: "run_config \<Rightarrow> u64" where
  "ring_total cfg = rc_warmup cfg + rc_messages cfg"

definition paced :: "run_config \<Rightarrow> bool" where
  "paced cfg \<longleftrightarrow> rc_intervalTicks cfg > 0"

text \<open>Where the threads are.\<close>

datatype producer_at = P_start | P_wait | P_pace | P_claim | P_fill | P_publish | P_flush | P_done

datatype consumer_at = C_start | C_peek | C_read | C_check | C_consume | C_done

record ('p, 'c) harness =
  ha_queue :: "('p, 'c, ring_message) spsc"
  ha_ready :: bool
  ha_pat :: producer_at
  ha_pi :: u64
  ha_start :: u64
  ha_cat :: consumer_at
  ha_ci :: u64
  ha_result :: run_result

definition harness_new :: "('p, 'c) ring_run \<Rightarrow> (nat \<Rightarrow> ring_message) \<Rightarrow> ('p, 'c) harness" where
  "harness_new S mem = \<lparr>ha_queue = spsc_start (su_ops S) mem, ha_ready = False, ha_pat = P_start, ha_pi = 0, ha_start = 0,
     ha_cat = C_start, ha_ci = 0, ha_result = result_new\<rparr>"

definition intended :: "run_config \<Rightarrow> u64 \<Rightarrow> u64 \<Rightarrow> u64" where
  "intended cfg start i = start + i * rc_intervalTicks cfg"

text \<open>What the producer writes into the slot. Without stamps the other two fields keep what they held.\<close>

definition fill :: "run_config \<Rightarrow> u64 \<Rightarrow> u64 \<Rightarrow> u64 \<Rightarrow> ring_message \<Rightarrow> ring_message" where
  "fill cfg i due now msg =
     (let msg = msg\<lparr>rm_seq := i\<rparr>
      in if rc_recordLatency cfg then msg\<lparr>rm_intendedTsc := due, rm_sentTsc := now\<rparr> else msg)"

definition producer_step :: "('p, 'c) ring_run \<Rightarrow> nat \<Rightarrow> u64 \<Rightarrow> ('p, 'c) harness \<Rightarrow> ('p, 'c) harness option" where
  "producer_step S j now h =
     (let cfg = su_config S in
      case ha_pat h of
        P_start \<Rightarrow> Some (h\<lparr>ha_result := (ha_result h)\<lparr>rr_producerPinned := su_pinsProducer S\<rparr>, ha_pat := P_wait\<rparr>)
      | P_wait \<Rightarrow> Some (if ha_ready h then h\<lparr>ha_start := now + su_lead S, ha_pat := P_pace\<rparr> else h)
      | P_pace \<Rightarrow>
          Some (if ha_pi h < ring_total cfg
                then (if paced cfg \<and> now < intended cfg (ha_start h) (ha_pi h) then h else h\<lparr>ha_pat := P_claim\<rparr>)
                else h\<lparr>ha_pat := P_flush\<rparr>)
      | P_claim \<Rightarrow> do {
          q \<leftarrow> perform (su_ops S) (Claim j) (ha_queue h);
          Some (h\<lparr>ha_queue := q, ha_pat := if ss_claimed q = None then P_claim else P_fill\<rparr>)
        }
      | P_fill \<Rightarrow> do {
          i \<leftarrow> ss_claimed (ha_queue h);
          q \<leftarrow> perform (su_ops S) (WriteSlot (fill cfg (ha_pi h) (intended cfg (ha_start h) (ha_pi h)) now (ss_slots (ha_queue h) i))) (ha_queue h);
          Some (h\<lparr>ha_queue := q, ha_pat := P_publish\<rparr>)
        }
      | P_publish \<Rightarrow> do {
          q \<leftarrow> perform (su_ops S) Publish (ha_queue h);
          Some (h\<lparr>ha_queue := q, ha_pi := ha_pi h + 1, ha_pat := P_pace\<rparr>)
        }
      | P_flush \<Rightarrow> do {
          q \<leftarrow> perform (su_ops S) Flush (ha_queue h);
          Some (h\<lparr>ha_queue := q, ha_pat := P_done\<rparr>)
        }
      | P_done \<Rightarrow> Some h)"

text \<open>The stamps of a message that was received at \<open>now\<close>.\<close>

definition stamp :: "run_config \<Rightarrow> u64 \<Rightarrow> u64 \<Rightarrow> ring_message \<Rightarrow> run_result \<Rightarrow> run_result option" where
  "stamp cfg i now msg r =
     (if rc_recordLatency cfg \<and> i \<ge> rc_warmup cfg
      then do {
        let (d, negative) = elapsed (rm_sentTsc msg) now (rr_negativeDeltas r);
        s \<leftarrow> hist_record d (rr_sendToReceive r);
        let r = r\<lparr>rr_sendToReceive := s, rr_negativeDeltas := negative\<rparr>;
        if paced cfg
        then do {
          let (d, negative) = elapsed (rm_intendedTsc msg) now (rr_negativeDeltas r);
          s \<leftarrow> hist_record d (rr_intendedToReceive r);
          Some (r\<lparr>rr_intendedToReceive := s, rr_negativeDeltas := negative\<rparr>)
        }
        else Some r
      }
      else Some r)"

definition check :: "run_config \<Rightarrow> u64 \<Rightarrow> u64 \<Rightarrow> ring_message \<Rightarrow> run_result \<Rightarrow> run_result" where
  "check cfg i now msg r =
     (let r = (if rm_seq msg \<noteq> i then r\<lparr>rr_outOfOrder := rr_outOfOrder r + 1\<rparr> else r)
      in if i = rc_warmup cfg then r\<lparr>rr_firstReceiveTsc := now\<rparr> else r)"

definition consumer_step :: "('p, 'c) ring_run \<Rightarrow> nat \<Rightarrow> u64 \<Rightarrow> ('p, 'c) harness \<Rightarrow> ('p, 'c) harness option" where
  "consumer_step S j now h =
     (let cfg = su_config S in
      case ha_cat h of
        C_start \<Rightarrow>
          Some (h\<lparr>ha_result := (ha_result h)\<lparr>rr_consumerPinned := su_pinsConsumer S\<rparr>, ha_ready := True, ha_cat := C_peek\<rparr>)
      | C_peek \<Rightarrow>
          (if ha_ci h < ring_total cfg
           then do {
             q \<leftarrow> perform (su_ops S) (Peek j) (ha_queue h);
             Some (h\<lparr>ha_queue := q, ha_cat := if ss_peeked q = None then C_peek else C_read\<rparr>)
           }
           else Some (h\<lparr>ha_result := (ha_result h)\<lparr>rr_lastReceiveTsc := now\<rparr>, ha_cat := C_done\<rparr>))
      | C_read \<Rightarrow> do {
          q \<leftarrow> perform (su_ops S) ReadSlot (ha_queue h);
          msg \<leftarrow> ss_seen q;
          r \<leftarrow> stamp cfg (ha_ci h) now msg (ha_result h);
          Some (h\<lparr>ha_queue := q, ha_result := r, ha_cat := C_check\<rparr>)
        }
      | C_check \<Rightarrow> do {
          msg \<leftarrow> ss_seen (ha_queue h);
          Some (h\<lparr>ha_result := check cfg (ha_ci h) now msg (ha_result h), ha_cat := C_consume\<rparr>)
        }
      | C_consume \<Rightarrow> do {
          q \<leftarrow> perform (su_ops S) Consume (ha_queue h);
          Some (h\<lparr>ha_queue := q, ha_ci := ha_ci h + 1, ha_cat := C_peek\<rparr>)
        }
      | C_done \<Rightarrow> Some h)"

text \<open>Any interleaving. \<open>t\<close> is the last reading of the clock; \<open>sync\<close> says that no reading is before an earlier one,
  on whichever core.\<close>

inductive harness_reachable :: "('p, 'c) ring_run \<Rightarrow> bool \<Rightarrow> u64 \<Rightarrow> ('p, 'c) harness \<Rightarrow> bool" for S sync where
  harness_start: "harness_reachable S sync t (harness_new S mem)"
| harness_produces: "harness_reachable S sync t h \<Longrightarrow> sync \<longrightarrow> t \<le> now \<Longrightarrow> producer_step S j now h = Some h' \<Longrightarrow>
    harness_reachable S sync now h'"
| harness_consumes: "harness_reachable S sync t h \<Longrightarrow> sync \<longrightarrow> t \<le> now \<Longrightarrow> consumer_step S j now h = Some h' \<Longrightarrow>
    harness_reachable S sync now h'"

text \<open>Both threads in turn, each with the newest index and the clock of the round.\<close>

fun harness_rounds :: "('p, 'c) ring_run \<Rightarrow> (nat \<Rightarrow> u64) \<Rightarrow> nat \<Rightarrow> nat \<Rightarrow> ('p, 'c) harness \<Rightarrow> ('p, 'c) harness option" where
  "harness_rounds S clock r 0 h = Some h"
| "harness_rounds S clock r (Suc k) h = do {
     h \<leftarrow> producer_step S (length (ss_tails (ha_queue h))) (clock r) h;
     h \<leftarrow> consumer_step S (length (ss_heads (ha_queue h))) (clock r) h;
     harness_rounds S clock (Suc r) k h
   }"

definition finished :: "('p, 'c) harness \<Rightarrow> bool" where
  "finished h \<longleftrightarrow> ha_pat h = P_done \<and> ha_cat h = C_done"

section \<open>What a waiting thread relies on\<close>

lemma store_head_keeps [simp]:
  "ss_sent (store_head out s) = ss_sent s" "ss_got (store_head out s) = ss_got s" "ss_slots (store_head out s) = ss_slots s"
  "ss_claimed (store_head out s) = ss_claimed s" "ss_peeked (store_head out s) = ss_peeked s"
  "ss_seen (store_head out s) = ss_seen s" "ss_tails (store_head out s) = ss_tails s"
  by (simp_all add: store_head_def split: option.splits prod.splits)

lemma store_tail_keeps [simp]:
  "ss_sent (store_tail v s) = ss_sent s" "ss_got (store_tail v s) = ss_got s" "ss_slots (store_tail v s) = ss_slots s"
  "ss_claimed (store_tail v s) = ss_claimed s" "ss_peeked (store_tail v s) = ss_peeked s"
  "ss_seen (store_tail v s) = ss_seen s" "ss_heads (store_tail v s) = ss_heads s"
  by (simp_all add: store_tail_def split: prod.splits)

lemma store_head_last: "fst (last (ss_heads (store_head (Some x) s))) = x"
  by (simp add: store_head_def split: prod.splits)

context spsc_ring
begin

text \<open>An item in hand is the next of those that were sent.\<close>

lemma in_hand:
  assumes "reachable ops s"
  shows "ss_peeked s = Some i \<Longrightarrow> length (ss_got s) < length (ss_sent s)"
    "ss_seen s = Some x \<Longrightarrow> length (ss_got s) < length (ss_sent s) \<and> x = ss_sent s ! length (ss_got s)"
proof -
  obtain hs ts where inv: "spsc_inv n relP relC hs ts s" using reachable_inv [OF assms] by blast
  then have ix: "index_inv relP relC hs ts s" by (simp add: spsc_inv_def)
  show "ss_peeked s = Some i \<Longrightarrow> length (ss_got s) < length (ss_sent s)"
    using inv count_order(3,4) [OF ix] by (fastforce simp: spsc_inv_def hand_inv_def)
  show "ss_seen s = Some x \<Longrightarrow> length (ss_got s) < length (ss_sent s) \<and> x = ss_sent s ! length (ss_got s)"
    using inv by (simp add: spsc_inv_def hand_inv_def)
qed

end

text \<open>A queue whose waiting threads get on: what it holds back never fills it, and \<open>flush\<close> holds nothing back.\<close>

locale spsc_live = spsc_ring +
  assumes lag: "relP p w h k \<Longrightarrow> w < h + n"
    and flushes: "relP p w h k \<Longrightarrow> op_flush ops p = (p1, None) \<Longrightarrow> h = w"
    and fits: "n < 2 ^ 64"
begin

lemma newest_head:
  assumes "reachable ops s"
  obtains h where "fst (last (ss_heads s)) = of_nat h" "length (ss_got s) \<le> h" "h \<le> length (ss_sent s)" "length (ss_sent s) < h + n"
proof -
  obtain hs ts where "spsc_inv n relP relC hs ts s" using reachable_inv [OF assms] by blast
  then have ix: "index_inv relP relC hs ts s" by (simp add: spsc_inv_def)
  then have "last (map fst (ss_heads s)) = of_nat (last hs)" "ss_heads s \<noteq> []" by (auto simp: index_inv_def last_map)
  then have "fst (last (ss_heads s)) = of_nat (last hs)" by (simp add: last_map)
  moreover have "length (ss_sent s) < last hs + n" using ix lag by (auto simp: index_inv_def)
  ultimately show thesis using count_order(2-4) [OF ix] by (intro that [of "last hs"]) linarith+
qed

text \<open>A thread that sees the newest index waits in vain only for the other thread.\<close>

lemma peek_waits:
  assumes r: "reachable ops s" and s': "perform ops (Peek (length (ss_heads s))) s = Some s'" and none: "ss_peeked s' = None"
  shows "length (ss_sent s) < length (ss_got s) + n"
    "fst (last (ss_heads s)) = of_nat (length (ss_sent s)) \<Longrightarrow> length (ss_sent s) = length (ss_got s)"
proof -
  obtain h where h: "fst (last (ss_heads s)) = of_nat h" "length (ss_got s) \<le> h" "h \<le> length (ss_sent s)"
    "length (ss_sent s) < h + n" by (rule newest_head [OF r])
  have eq: "of_nat (length (ss_got s)) = (of_nat h :: u64)" using peek_fails(2) [OF r s'] none h(1) by simp
  have near: "length (ss_sent s) - length (ss_got s) < 2 ^ 64" using in_order(2) [OF r] fits by linarith
  have "length (ss_got s) = h" using same_index [of "length (ss_got s)" h] eq h(2,3) near by simp
  then show "length (ss_sent s) < length (ss_got s) + n" using h(4) by simp
  assume "fst (last (ss_heads s)) = of_nat (length (ss_sent s))"
  then have "of_nat (length (ss_got s)) = (of_nat (length (ss_sent s)) :: u64)" using eq h(1) by simp
  with same_index [of "length (ss_got s)" "length (ss_sent s)"] show "length (ss_sent s) = length (ss_got s)" using h(2,3) near by simp
qed

lemma claim_waits:
  assumes "reachable ops s" "perform ops (Claim (length (ss_tails s))) s = Some s'" "ss_claimed s' = None"
  shows "length (ss_sent s) = length (ss_got s) + n"
  using claim_fails(2) [OF assms(1,2)] assms(3) by simp

lemma flush_publishes:
  assumes r: "reachable ops s" and s': "perform ops Flush s = Some s'"
  shows "fst (last (ss_heads s')) = of_nat (length (ss_sent s'))"
proof -
  obtain h k where h: "fst (last (ss_heads s)) = of_nat h" "relP (ss_producer s) (length (ss_sent s)) h k"
    by (rule head_count [OF r])
  obtain p out where op: "op_flush ops (ss_producer s) = (p, out)" and st: "s' = store_head out (s\<lparr>ss_producer := p\<rparr>)"
    using s' by (auto split: prod.splits)
  show ?thesis
  proof (cases out)
    case None
    then show ?thesis using flushes [OF h(2)] op h(1) st by (simp add: store_head_def)
  next
    case (Some x)
    then have "x = of_nat (length (ss_sent s))" using flush [OF h(2) op] by simp
    then show ?thesis using Some st by (simp add: store_head_last)
  qed
qed

end

sublocale spsc_prompt < live: spsc_live
  using prompt flush slots small by unfold_locales (fastforce split: option.splits)+

context spsc_prompt
begin

lemma is_live: "spsc_live ops n relP relC"
  by unfold_locales

end

lemma v2_live:
  assumes "valid_size Size" "valid_batch Size batch"
  shows "spsc_live (v2_ops Size batch) (unat Size) (v2_relP Size batch) (v2_relC Size)"
proof (rule spsc_live.intro [OF v2_spsc [OF assms]], unfold_locales)
  show "v2_relP Size batch p w h k \<Longrightarrow> w < h + unat Size" for p w h k
    using assms(2) by (auto simp: v2_relP_def valid_batch_def word_le_nat_alt)
  show "v2_relP Size batch p w h k \<Longrightarrow> op_flush (v2_ops Size batch) p = (p1, None) \<Longrightarrow> h = w" for p w h k p1
    by (simp add: v2_ops_def v2_flush_def)
  show "unat Size < 2 ^ 64" using unat_u64_less [of Size] by simp
qed

interpretation live2: spsc_live "v2_ops 1024 64" "unat (1024 :: u64)" "v2_relP 1024 64" "v2_relC 1024"
  by (rule v2_live [OF valid_1024]) (simp add: valid_batch_def word_le_nat_alt)

section \<open>The invariant of a run\<close>

definition on_time :: "bool \<Rightarrow> run_config \<Rightarrow> u64 \<Rightarrow> ring_message \<Rightarrow> bool" where
  "on_time sync cfg t m \<longleftrightarrow> (sync \<and> rc_recordLatency cfg \<longrightarrow> rm_sentTsc m \<le> t \<and> (paced cfg \<longrightarrow> rm_intendedTsc m \<le> t))"

definition due :: "bool \<Rightarrow> run_config \<Rightarrow> u64 \<Rightarrow> u64 \<Rightarrow> u64 \<Rightarrow> bool" where
  "due sync cfg t start i \<longleftrightarrow> (sync \<and> paced cfg \<longrightarrow> intended cfg start i \<le> t)"

definition message_count :: "('p, 'c) ring_run \<Rightarrow> nat" where
  "message_count S = unat (ring_total (su_config S))"

definition numbered :: "nat \<Rightarrow> u64 \<Rightarrow> ring_message list \<Rightarrow> bool" where
  "numbered n i sent \<longleftrightarrow> map rm_seq sent = map of_nat [0..<length sent] \<and> i = of_nat (length sent) \<and> length sent \<le> n"

definition producer_inv ::
    "('p, 'c) ring_run \<Rightarrow> bool \<Rightarrow> u64 \<Rightarrow> producer_at \<Rightarrow> u64 \<Rightarrow> u64 \<Rightarrow> ('p, 'c, ring_message) spsc \<Rightarrow> bool" where
  "producer_inv S sync t at start i q \<longleftrightarrow>
     numbered (message_count S) i (ss_sent q) \<and> list_all (on_time sync (su_config S) t) (ss_sent q)
     \<and> (at \<in> {P_start, P_wait} \<longrightarrow> ss_sent q = [])
     \<and> (at \<in> {P_claim, P_fill, P_publish} \<longrightarrow> length (ss_sent q) < message_count S)
     \<and> (at \<in> {P_claim, P_fill} \<longrightarrow> due sync (su_config S) t start i)
     \<and> (at \<in> {P_fill, P_publish} \<longrightarrow> ss_claimed q \<noteq> None)
     \<and> (at = P_publish \<longrightarrow> (\<forall>s. ss_claimed q = Some s \<longrightarrow> rm_seq (ss_slots q s) = i \<and> on_time sync (su_config S) t (ss_slots q s)))
     \<and> (at \<in> {P_flush, P_done} \<longrightarrow> length (ss_sent q) = message_count S)
     \<and> (at = P_done \<longrightarrow> fst (last (ss_heads q)) = of_nat (message_count S))"

text \<open>How many messages have been timed.\<close>

definition timed :: "run_config \<Rightarrow> nat \<Rightarrow> u64" where
  "timed cfg t = of_nat (t - unat (rc_warmup cfg))"

definition result_inv :: "bool \<Rightarrow> run_config \<Rightarrow> nat \<Rightarrow> run_result \<Rightarrow> bool" where
  "result_inv sync cfg k r \<longleftrightarrow>
     rr_outOfOrder r = 0 \<and> (sync \<longrightarrow> rr_negativeDeltas r = 0)
     \<and> length (lh_counts (rr_sendToReceive r)) = kBucketCount \<and> length (lh_counts (rr_intendedToReceive r)) = kBucketCount
     \<and> lh_count (rr_sendToReceive r) = (if rc_recordLatency cfg then timed cfg k else 0)
     \<and> lh_count (rr_intendedToReceive r) = (if rc_recordLatency cfg \<and> paced cfg then timed cfg k else 0)"

definition consumer_inv ::
    "('p, 'c) ring_run \<Rightarrow> bool \<Rightarrow> consumer_at \<Rightarrow> u64 \<Rightarrow> bool \<Rightarrow> run_result \<Rightarrow> ('p, 'c, ring_message) spsc \<Rightarrow> bool" where
  "consumer_inv S sync at i ready r q \<longleftrightarrow>
     (let t = length (ss_got q) in
      ss_got q = map Some (take t (ss_sent q)) \<and> i = of_nat t \<and> (ready \<longleftrightarrow> at \<noteq> C_start)
      \<and> result_inv sync (su_config S) (if at \<in> {C_check, C_consume} then Suc t else t) r
      \<and> (at \<in> {C_read, C_check, C_consume} \<longrightarrow> ss_peeked q \<noteq> None)
      \<and> (at \<in> {C_check, C_consume} \<longrightarrow> ss_seen q \<noteq> None)
      \<and> (at = C_done \<longrightarrow> t = message_count S))"

definition harness_inv :: "('p, 'c) ring_run \<Rightarrow> bool \<Rightarrow> u64 \<Rightarrow> ('p, 'c) harness \<Rightarrow> bool" where
  "harness_inv S sync t h \<longleftrightarrow> reachable (su_ops S) (ha_queue h)
     \<and> producer_inv S sync t (ha_pat h) (ha_start h) (ha_pi h) (ha_queue h)
     \<and> consumer_inv S sync (ha_cat h) (ha_ci h) (ha_ready h) (ha_result h) (ha_queue h)"

lemma message_count_less: "message_count S < 2 ^ 64"
  using unat_u64_less by (simp add: message_count_def)

lemma index_less: "w \<le> message_count S \<Longrightarrow> (of_nat w :: u64) < ring_total (su_config S) \<longleftrightarrow> w < message_count S"
  using message_count_less [of S] by (simp add: word_less_nat_alt message_count_def)

lemma on_time_later: "on_time sync cfg t m \<Longrightarrow> sync \<longrightarrow> t \<le> now \<Longrightarrow> on_time sync cfg now m"
  by (auto simp: on_time_def)

lemma producer_inv_later:
  assumes "producer_inv S sync t at start i q" "sync \<longrightarrow> t \<le> now"
  shows "producer_inv S sync now at start i q"
proof -
  have 1: "list_all (on_time sync (su_config S) now) (ss_sent q)" if "list_all (on_time sync (su_config S) t) (ss_sent q)"
    using that on_time_later [OF _ assms(2)] by (simp add: list_all_iff)
  have 2: "due sync (su_config S) now start i" if "due sync (su_config S) t start i"
    using that assms(2) by (auto simp: due_def)
  show ?thesis using assms(1) 1 2 on_time_later [OF _ assms(2), of "su_config S"] by (cases at) (auto simp: producer_inv_def)
qed

text \<open>What of the queue a thread's part depends on.\<close>

lemma producer_inv_queue:
  assumes "producer_inv S sync t at start i q" "ss_sent q' = ss_sent q" "ss_slots q' = ss_slots q" "ss_claimed q' = ss_claimed q"
    "ss_heads q' = ss_heads q"
  shows "producer_inv S sync t at start i q'"
  using assms(1) unfolding producer_inv_def assms(2-5) .

lemma consumer_inv_queue:
  assumes "consumer_inv S sync at i ready r q" "ss_sent q' = ss_sent q @ xs" "ss_got q' = ss_got q" "ss_peeked q' = ss_peeked q"
    "ss_seen q' = ss_seen q" "length (ss_got q) \<le> length (ss_sent q)"
  shows "consumer_inv S sync at i ready r q'"
proof -
  have "take (length (ss_got q)) (ss_sent q @ xs) = take (length (ss_got q)) (ss_sent q)" using assms(6) by simp
  then show ?thesis using assms(1) unfolding consumer_inv_def Let_def assms(2-5) by simp
qed

lemma result_inv_pinned [simp]:
  "result_inv sync cfg k (r\<lparr>rr_producerPinned := b\<rparr>) = result_inv sync cfg k r"
  "result_inv sync cfg k (r\<lparr>rr_consumerPinned := b\<rparr>) = result_inv sync cfg k r"
  "result_inv sync cfg k (r\<lparr>rr_lastReceiveTsc := x\<rparr>) = result_inv sync cfg k r"
  by (simp_all add: result_inv_def)

lemma elapsed_sync: "m \<le> now \<Longrightarrow> elapsed m now k = (now - m, k)"
  by (simp add: elapsed_def)

lemma record_counts:
  assumes "length (lh_counts h) = kBucketCount"
  shows "\<exists>h'. hist_record v h = Some h' \<and> length (lh_counts h') = kBucketCount \<and> lh_count h' = lh_count h + 1"
  using assms indexOf_less [of v] by (simp add: hist_record_def)

lemma timed_Suc:
  assumes "i = of_nat t" "t < 2 ^ 64"
  shows "rc_warmup cfg \<le> i \<Longrightarrow> timed cfg (Suc t) = timed cfg t + 1" "\<not> rc_warmup cfg \<le> i \<Longrightarrow> timed cfg (Suc t) = timed cfg t"
  using assms by (simp_all add: word_le_nat_alt timed_def Suc_diff_le)

lemma stamp_inv:
  assumes inv: "result_inv sync cfg t r" and t: "i = of_nat t" "t < 2 ^ 64" and m: "on_time sync cfg now m"
  shows "\<exists>r'. stamp cfg i now m r = Some r' \<and> result_inv sync cfg (Suc t) r'"
proof (cases "rc_recordLatency cfg \<and> i \<ge> rc_warmup cfg")
  case False
  then show ?thesis using inv timed_Suc(2) [OF t] by (auto simp: stamp_def result_inv_def)
next
  case True
  obtain d k where d: "elapsed (rm_sentTsc m) now (rr_negativeDeltas r) = (d, k)" by (cases "elapsed (rm_sentTsc m) now (rr_negativeDeltas r)")
  obtain d' k' where d': "elapsed (rm_intendedTsc m) now k = (d', k')" by (cases "elapsed (rm_intendedTsc m) now k")
  obtain s where s: "hist_record d (rr_sendToReceive r) = Some s" "length (lh_counts s) = kBucketCount"
    "lh_count s = lh_count (rr_sendToReceive r) + 1" using record_counts inv by (metis result_inv_def)
  obtain s' where s': "hist_record d' (rr_intendedToReceive r) = Some s'" "length (lh_counts s') = kBucketCount"
    "lh_count s' = lh_count (rr_intendedToReceive r) + 1" using record_counts inv by (metis result_inv_def)
  have "sync \<Longrightarrow> k = rr_negativeDeltas r" "sync \<Longrightarrow> paced cfg \<Longrightarrow> k' = k"
    using m True d d' by (auto simp: on_time_def elapsed_sync)
  then show ?thesis using inv True d d' s s' timed_Suc(1) [OF t, of cfg]
    by (simp add: stamp_def result_inv_def)
qed

lemma check_inv: "result_inv sync cfg k r \<Longrightarrow> rm_seq m = i \<Longrightarrow> result_inv sync cfg k (check cfg i now m r)"
  by (simp add: check_def result_inv_def)

lemma fill_seq [simp]: "rm_seq (fill cfg i d now m) = i"
  by (simp add: fill_def Let_def)

lemma fill_on_time: "(sync \<and> paced cfg \<longrightarrow> d \<le> now) \<Longrightarrow> on_time sync cfg now (fill cfg i d now m)"
  by (auto simp: fill_def on_time_def Let_def)

lemma consumer_inv_pinned [simp]:
  "consumer_inv S sync at i ready (r\<lparr>rr_producerPinned := b\<rparr>) q = consumer_inv S sync at i ready r q"
  by (simp add: consumer_inv_def)

text \<open>The effect of an access on what the harness sees.\<close>

lemma claim_effect: "\<exists>q'. perform ops (Claim j) q = Some q' \<and> ss_sent q' = ss_sent q \<and> ss_got q' = ss_got q \<and> ss_slots q' = ss_slots q
    \<and> ss_peeked q' = ss_peeked q \<and> ss_seen q' = ss_seen q \<and> ss_heads q' = ss_heads q"
  by (simp split: prod.splits)

lemma peek_effect: "\<exists>q'. perform ops (Peek j) q = Some q' \<and> ss_sent q' = ss_sent q \<and> ss_got q' = ss_got q \<and> ss_slots q' = ss_slots q
    \<and> ss_claimed q' = ss_claimed q \<and> ss_seen q' = ss_seen q \<and> ss_heads q' = ss_heads q"
  by (simp split: prod.splits)

lemma publish_effect: "ss_claimed q = Some i \<Longrightarrow> \<exists>q'. perform ops Publish q = Some q' \<and> ss_sent q' = ss_sent q @ [ss_slots q i] \<and> ss_got q' = ss_got q
    \<and> ss_slots q' = ss_slots q \<and> ss_peeked q' = ss_peeked q \<and> ss_seen q' = ss_seen q"
  by (simp split: prod.splits)

lemma flush_effect: "\<exists>q'. perform ops Flush q = Some q' \<and> ss_sent q' = ss_sent q \<and> ss_got q' = ss_got q \<and> ss_slots q' = ss_slots q
    \<and> ss_peeked q' = ss_peeked q \<and> ss_seen q' = ss_seen q"
  by (simp split: prod.splits)

lemma consume_effect: "ss_peeked q = Some i \<Longrightarrow> \<exists>q'. perform ops Consume q = Some q' \<and> ss_sent q' = ss_sent q \<and> ss_got q' = ss_got q @ [ss_seen q]
    \<and> ss_slots q' = ss_slots q \<and> ss_claimed q' = ss_claimed q \<and> ss_heads q' = ss_heads q"
  by (simp split: prod.splits)

context spsc_live
begin

lemma producer_step_inv:
  assumes S: "su_ops S = ops" and inv: "harness_inv S sync t h" and now: "sync \<longrightarrow> t \<le> now"
  shows "\<exists>h'. producer_step S j now h = Some h' \<and> harness_inv S sync now h'"
proof -
  let ?q = "ha_queue h" and ?cfg = "su_config S"
  have P: "producer_inv S sync now (ha_pat h) (ha_start h) (ha_pi h) ?q"
    by (rule producer_inv_later [OF _ now]) (use inv in \<open>simp add: harness_inv_def\<close>)
  have R: "reachable ops ?q" and C: "consumer_inv S sync (ha_cat h) (ha_ci h) (ha_ready h) (ha_result h) ?q"
    using inv S by (auto simp: harness_inv_def)
  note got = in_order(1) [OF R]
  have num: "numbered (message_count S) (ha_pi h) (ss_sent ?q)" using P by (simp add: producer_inv_def)
  note defs = producer_step_def harness_inv_def S
  show ?thesis
  proof (cases "ha_pat h")
    case P_start
    then show ?thesis using R P C by (auto simp: defs producer_inv_def)
  next
    case P_wait
    then show ?thesis using R P C by (cases "ha_ready h") (auto simp: defs producer_inv_def)
  next
    case P_pace
    have "(ha_pi h < ring_total ?cfg) = (length (ss_sent ?q) < message_count S)"
      using num index_less [of "length (ss_sent ?q)" S] by (simp add: numbered_def)
    moreover have "\<not> length (ss_sent ?q) < message_count S \<Longrightarrow> length (ss_sent ?q) = message_count S" using num by (simp add: numbered_def)
    moreover have "\<not> (paced ?cfg \<and> now < intended ?cfg (ha_start h) (ha_pi h)) \<Longrightarrow> due sync ?cfg now (ha_start h) (ha_pi h)"
      by (auto simp: due_def not_less)
    ultimately show ?thesis using R P C P_pace
      by (cases "length (ss_sent ?q) < message_count S"; cases "paced ?cfg \<and> now < intended ?cfg (ha_start h) (ha_pi h)")
        (simp_all add: defs producer_inv_def Let_def)
  next
    case P_claim
    obtain q' where q': "perform ops (Claim j) ?q = Some q'" "ss_sent q' = ss_sent ?q" "ss_got q' = ss_got ?q"
      "ss_slots q' = ss_slots ?q" "ss_peeked q' = ss_peeked ?q" "ss_seen q' = ss_seen ?q"
      "ss_heads q' = ss_heads ?q" using claim_effect by blast
    have "consumer_inv S sync (ha_cat h) (ha_ci h) (ha_ready h) (ha_result h) q'"
      by (rule consumer_inv_queue [OF C, of _ "[]"]) (simp_all add: q' got)
    then show ?thesis using P P_claim reach_step [OF R q'(1)] q' by (simp del: perform.simps add: defs producer_inv_def)
  next
    case P_fill
    then obtain i where i: "ss_claimed ?q = Some i" using P by (auto simp: producer_inv_def)
    let ?m = "fill ?cfg (ha_pi h) (intended ?cfg (ha_start h) (ha_pi h)) now (ss_slots ?q i)"
    obtain q' where q': "perform ops (WriteSlot ?m) ?q = Some q'" using i by simp
    then have q'': "ss_sent q' = ss_sent ?q" "ss_got q' = ss_got ?q" "ss_slots q' i = ?m" "ss_claimed q' = Some i" "ss_peeked q' = ss_peeked ?q"
      "ss_seen q' = ss_seen ?q" using i by auto
    have "on_time sync ?cfg now ?m" using P P_fill by (intro fill_on_time) (simp add: producer_inv_def due_def)
    moreover have "consumer_inv S sync (ha_cat h) (ha_ci h) (ha_ready h) (ha_result h) q'"
      by (rule consumer_inv_queue [OF C, of _ "[]"]) (simp_all add: q'' got)
    ultimately show ?thesis using P P_fill i reach_step [OF R q'] q' q''
      by (simp del: perform.simps add: defs producer_inv_def)
  next
    case P_publish
    then obtain i where i: "ss_claimed ?q = Some i" "rm_seq (ss_slots ?q i) = ha_pi h" "on_time sync ?cfg now (ss_slots ?q i)"
      "length (ss_sent ?q) < message_count S" using P by (auto simp: producer_inv_def)
    obtain q' where q': "perform ops Publish ?q = Some q'" "ss_sent q' = ss_sent ?q @ [ss_slots ?q i]"
      "ss_got q' = ss_got ?q" "ss_peeked q' = ss_peeked ?q" "ss_seen q' = ss_seen ?q"
      using publish_effect [OF i(1)] by blast
    have "consumer_inv S sync (ha_cat h) (ha_ci h) (ha_ready h) (ha_result h) q'"
      by (rule consumer_inv_queue [OF C q'(2-5) got])
    moreover have "numbered (message_count S) (ha_pi h + 1) (ss_sent q')" using num i(2,4) q'(2) by (simp add: numbered_def add.commute)
    ultimately show ?thesis using P P_publish i(3) reach_step [OF R q'(1)] q'(1,2)
      by (simp del: perform.simps add: defs producer_inv_def)
  next
    case P_flush
    obtain q' where q': "perform ops Flush ?q = Some q'" "ss_sent q' = ss_sent ?q" "ss_got q' = ss_got ?q"
      "ss_peeked q' = ss_peeked ?q" "ss_seen q' = ss_seen ?q" using flush_effect by blast
    have "consumer_inv S sync (ha_cat h) (ha_ci h) (ha_ready h) (ha_result h) q'"
      by (rule consumer_inv_queue [OF C, of _ "[]"]) (simp_all add: q' got)
    then show ?thesis using P P_flush reach_step [OF R q'(1)] flush_publishes [OF R q'(1)] q'(1,2)
      by (simp del: perform.simps add: defs producer_inv_def)
  next
    case P_done
    then show ?thesis using R P C by (simp add: defs)
  qed
qed

lemma consumer_step_inv:
  assumes S: "su_ops S = ops" and inv: "harness_inv S sync t h" and now: "sync \<longrightarrow> t \<le> now"
  shows "\<exists>h'. consumer_step S j now h = Some h' \<and> harness_inv S sync now h'"
proof -
  let ?q = "ha_queue h" and ?cfg = "su_config S" and ?t = "length (ss_got (ha_queue h))"
  have P: "producer_inv S sync now (ha_pat h) (ha_start h) (ha_pi h) ?q"
    by (rule producer_inv_later [OF _ now]) (use inv in \<open>simp add: harness_inv_def\<close>)
  have R: "reachable ops ?q" and C: "consumer_inv S sync (ha_cat h) (ha_ci h) (ha_ready h) (ha_result h) ?q"
    using inv S by (auto simp: harness_inv_def)
  have num: "numbered (message_count S) (ha_pi h) (ss_sent ?q)" using P by (simp add: producer_inv_def)
  then have sent: "length (ss_sent ?q) \<le> message_count S" "?t \<le> length (ss_sent ?q)" using in_order(1) [OF R] by (simp_all add: numbered_def)
  have ci: "ha_ci h = of_nat ?t" using C by (simp add: consumer_inv_def Let_def)
  have hand: "rm_seq m = ha_ci h" "on_time sync ?cfg now m"
    if "ss_seen q = Some m" "reachable ops q" "ss_sent q = ss_sent ?q" "ss_got q = ss_got ?q" for q m
  proof -
    have m: "?t < length (ss_sent ?q)" "m = ss_sent ?q ! ?t" using in_hand(2) [OF that(2,1)] that(3,4) by simp_all
    then have "rm_seq m = map rm_seq (ss_sent ?q) ! ?t" by simp
    also have "\<dots> = of_nat ?t" using m(1) num by (simp add: numbered_def)
    finally show "rm_seq m = ha_ci h" using ci by simp
    show "on_time sync ?cfg now m" using P m by (auto simp: producer_inv_def list_all_iff)
  qed
  note defs = consumer_step_def harness_inv_def S
  show ?thesis
  proof (cases "ha_cat h")
    case C_start
    then show ?thesis using R P C by (simp add: defs consumer_inv_def Let_def)
  next
    case C_peek
    show ?thesis
    proof (cases "ha_ci h < ring_total ?cfg")
      case True
      obtain q' where q': "perform ops (Peek j) ?q = Some q'" "ss_sent q' = ss_sent ?q" "ss_got q' = ss_got ?q" "ss_slots q' = ss_slots ?q"
        "ss_claimed q' = ss_claimed ?q" "ss_heads q' = ss_heads ?q" using peek_effect by blast
      then show ?thesis using C C_peek True reach_step [OF R q'(1)] producer_inv_queue [OF P q'(2,4,5,6)]
        by (simp del: perform.simps add: defs consumer_inv_def Let_def)
    next
      case False
      then have "?t = message_count S" using sent ci index_less [of ?t S] by simp
      then show ?thesis using R P C C_peek False by (simp add: defs consumer_inv_def Let_def)
    qed
  next
    case C_read
    then obtain i where i: "ss_peeked ?q = Some i" using C by (auto simp: consumer_inv_def Let_def)
    obtain q' where q': "perform ops ReadSlot ?q = Some q'" using i by simp
    then have q'': "ss_sent q' = ss_sent ?q" "ss_got q' = ss_got ?q" "ss_slots q' = ss_slots ?q" "ss_claimed q' = ss_claimed ?q"
      "ss_heads q' = ss_heads ?q" "ss_peeked q' = Some i" "ss_seen q' = Some (ss_slots ?q i)" using i by auto
    note r' = reach_step [OF R q']
    note m = hand [OF q''(7) r' q''(1,2)]
    have "result_inv sync ?cfg ?t (ha_result h)" using C C_read by (simp add: consumer_inv_def Let_def)
    from stamp_inv [OF this ci _ m(2)] sent message_count_less [of S] obtain r where
      "stamp ?cfg (ha_ci h) now (ss_slots ?q i) (ha_result h) = Some r" "result_inv sync ?cfg (Suc ?t) r" by auto
    then show ?thesis using C C_read q' q'' r' producer_inv_queue [OF P q''(1,3,4,5)]
      by (simp del: perform.simps add: defs consumer_inv_def Let_def)
  next
    case C_check
    then obtain m where m: "ss_seen ?q = Some m" using C by (auto simp: consumer_inv_def Let_def)
    have "result_inv sync ?cfg (Suc ?t) (ha_result h)" using C C_check by (simp add: consumer_inv_def Let_def)
    from check_inv [OF this hand(1) [OF m R]]
    have "result_inv sync ?cfg (Suc ?t) (check ?cfg (ha_ci h) now m (ha_result h))" by simp
    then show ?thesis using R P C C_check m by (simp add: defs consumer_inv_def Let_def)
  next
    case C_consume
    then obtain i m where i: "ss_peeked ?q = Some i" "ss_seen ?q = Some m" using C by (auto simp: consumer_inv_def Let_def)
    obtain q' where q': "perform ops Consume ?q = Some q'" "ss_sent q' = ss_sent ?q" "ss_got q' = ss_got ?q @ [ss_seen ?q]"
      "ss_slots q' = ss_slots ?q" "ss_claimed q' = ss_claimed ?q" "ss_heads q' = ss_heads ?q" using consume_effect [OF i(1)] by blast
    have "?t < length (ss_sent ?q)" "m = ss_sent ?q ! ?t" using in_hand(2) [OF R i(2)] by simp_all
    then show ?thesis using C C_consume i q' reach_step [OF R q'(1)] producer_inv_queue [OF P q'(2,4,5,6)]
      by (simp del: perform.simps add: defs consumer_inv_def Let_def take_Suc_conv_app_nth add.commute)
  next
    case C_done
    then show ?thesis using R P C by (simp add: defs)
  qed
qed

lemma harness_start_inv:
  assumes "su_ops S = ops"
  shows "harness_inv S sync t (harness_new S mem)"
  using assms reach_start [of ops mem]
  by (simp add: harness_inv_def harness_new_def producer_inv_def numbered_def consumer_inv_def spsc_start_def result_inv_def
      result_new_def hist_new_def timed_def Let_def)

lemma harness_reachable_inv:
  assumes "harness_reachable S sync t h" "su_ops S = ops"
  shows "harness_inv S sync t h"
  using assms
proof (induction rule: harness_reachable.induct)
  case (harness_start t mem)
  then show ?case by (rule harness_start_inv)
next
  case (harness_produces t h now j h')
  then show ?case using producer_step_inv by (metis option.inject)
next
  case (harness_consumes t h now j h')
  then show ?case using consumer_step_inv by (metis option.inject)
qed

end

section \<open>Both threads finish\<close>

text \<open>The steps that are left.\<close>

definition producer_work :: "nat \<Rightarrow> producer_at \<Rightarrow> nat \<Rightarrow> nat" where
  "producer_work n at w = (case at of P_start \<Rightarrow> 4 * (n - w) + 4 | P_wait \<Rightarrow> 4 * (n - w) + 3 | P_pace \<Rightarrow> 4 * (n - w) + 2
     | P_claim \<Rightarrow> 4 * (n - w) + 1 | P_fill \<Rightarrow> 4 * (n - w) | P_publish \<Rightarrow> 4 * (n - w) - 1 | P_flush \<Rightarrow> 1 | P_done \<Rightarrow> 0)"

definition consumer_work :: "nat \<Rightarrow> consumer_at \<Rightarrow> nat \<Rightarrow> nat" where
  "consumer_work n at t = (case at of C_start \<Rightarrow> 4 * (n - t) + 2 | C_peek \<Rightarrow> 4 * (n - t) + 1 | C_read \<Rightarrow> 4 * (n - t)
     | C_check \<Rightarrow> 4 * (n - t) - 1 | C_consume \<Rightarrow> 4 * (n - t) - 2 | C_done \<Rightarrow> 0)"

definition work :: "('p, 'c) ring_run \<Rightarrow> ('p, 'c) harness \<Rightarrow> nat" where
  "work S h = producer_work (message_count S) (ha_pat h) (length (ss_sent (ha_queue h)))
     + consumer_work (message_count S) (ha_cat h) (length (ss_got (ha_queue h)))"

text \<open>Where the producer waits: for the consumer to be ready, for its time, or for a free slot.\<close>

definition producer_waits :: "('p, 'c) ring_run \<Rightarrow> u64 \<Rightarrow> ('p, 'c) harness \<Rightarrow> ('p, 'c) harness \<Rightarrow> bool" where
  "producer_waits S now h h' \<longleftrightarrow> ha_pat h' = ha_pat h \<and> ha_start h' = ha_start h \<and> ha_pi h' = ha_pi h \<and>
     (ha_pat h = P_done \<or> ha_pat h = P_wait \<and> \<not> ha_ready h
      \<or> ha_pat h = P_pace \<and> ha_pi h < ring_total (su_config S) \<and> paced (su_config S) \<and> now < intended (su_config S) (ha_start h) (ha_pi h)
      \<or> ha_pat h = P_claim \<and> ss_claimed (ha_queue h') = None)"

lemma producer_step_work:
  assumes "producer_step S j now h = Some h'" "harness_inv S sync t h"
  shows "ha_cat h' = ha_cat h \<and> ha_ready h' = ha_ready h \<and> ss_got (ha_queue h') = ss_got (ha_queue h)"
    "producer_work (message_count S) (ha_pat h') (length (ss_sent (ha_queue h'))) < producer_work (message_count S) (ha_pat h) (length (ss_sent (ha_queue h)))
      \<or> producer_waits S now h h' \<and> ss_sent (ha_queue h') = ss_sent (ha_queue h)"
proof -
  let ?q = "ha_queue h"
  have P: "producer_inv S sync t (ha_pat h) (ha_start h) (ha_pi h) ?q" using assms(2) by (simp add: harness_inv_def)
  note defs = producer_step_def producer_work_def producer_waits_def Let_def
  have "(ha_cat h' = ha_cat h \<and> ha_ready h' = ha_ready h \<and> ss_got (ha_queue h') = ss_got ?q)
    \<and> (producer_work (message_count S) (ha_pat h') (length (ss_sent (ha_queue h'))) < producer_work (message_count S) (ha_pat h) (length (ss_sent ?q))
      \<or> producer_waits S now h h' \<and> ss_sent (ha_queue h') = ss_sent ?q)"
  proof (cases "ha_pat h")
    case P_publish
    then have "length (ss_sent ?q) < message_count S" using P by (simp add: producer_inv_def)
    then show ?thesis using assms(1) P_publish by (auto simp: defs bind_Some_iff split: option.splits prod.splits)
  next
    case P_fill
    then have "length (ss_sent ?q) < message_count S" using P by (simp add: producer_inv_def)
    then show ?thesis using assms(1) P_fill by (auto simp: defs bind_Some_iff split: option.splits)
  next
    case P_claim
    obtain q' where q': "perform (su_ops S) (Claim j) ?q = Some q'" "ss_sent q' = ss_sent ?q" "ss_got q' = ss_got ?q"
      using claim_effect by blast
    then show ?thesis using assms(1) P_claim by (cases "ss_claimed q'") (auto simp del: perform.simps simp: defs)
  qed (use assms(1) in \<open>auto simp: defs bind_Some_iff split: if_splits prod.splits\<close>)
  then show "ha_cat h' = ha_cat h \<and> ha_ready h' = ha_ready h \<and> ss_got (ha_queue h') = ss_got (ha_queue h)"
    "producer_work (message_count S) (ha_pat h') (length (ss_sent (ha_queue h'))) < producer_work (message_count S) (ha_pat h) (length (ss_sent (ha_queue h)))
      \<or> producer_waits S now h h' \<and> ss_sent (ha_queue h') = ss_sent (ha_queue h)" by blast+
qed

lemma consumer_step_work:
  assumes "consumer_step S j now h = Some h'" "harness_inv S sync t h" "length (ss_got (ha_queue h)) \<le> message_count S"
    "ha_cat h \<in> {C_read, C_check, C_consume} \<Longrightarrow> length (ss_got (ha_queue h)) < message_count S"
  shows "ha_pat h' = ha_pat h \<and> ha_start h' = ha_start h \<and> ha_pi h' = ha_pi h \<and> ss_sent (ha_queue h') = ss_sent (ha_queue h)"
    "consumer_work (message_count S) (ha_cat h') (length (ss_got (ha_queue h'))) < consumer_work (message_count S) (ha_cat h) (length (ss_got (ha_queue h)))
      \<or> ha_cat h' = ha_cat h \<and> ss_got (ha_queue h') = ss_got (ha_queue h)
        \<and> (ha_cat h = C_done \<or> ha_cat h = C_peek \<and> ha_ci h < ring_total (su_config S)
             \<and> perform (su_ops S) (Peek j) (ha_queue h) = Some (ha_queue h') \<and> ss_peeked (ha_queue h') = None)"
proof -
  note defs = consumer_step_def consumer_work_def Let_def
  have "(ha_pat h' = ha_pat h \<and> ha_start h' = ha_start h \<and> ha_pi h' = ha_pi h \<and> ss_sent (ha_queue h') = ss_sent (ha_queue h))
    \<and> (consumer_work (message_count S) (ha_cat h') (length (ss_got (ha_queue h'))) < consumer_work (message_count S) (ha_cat h) (length (ss_got (ha_queue h)))
      \<or> ha_cat h' = ha_cat h \<and> ss_got (ha_queue h') = ss_got (ha_queue h)
        \<and> (ha_cat h = C_done \<or> ha_cat h = C_peek \<and> ha_ci h < ring_total (su_config S)
             \<and> perform (su_ops S) (Peek j) (ha_queue h) = Some (ha_queue h') \<and> ss_peeked (ha_queue h') = None))"
  proof (cases "ha_cat h")
    case C_read
    then show ?thesis using assms(1,4) by (auto simp: defs bind_Some_iff split: option.splits)
  next
    case C_check
    then show ?thesis using assms(1,4) by (auto simp: defs bind_Some_iff)
  next
    case C_consume
    then show ?thesis using assms(1,4) by (auto simp: defs bind_Some_iff split: option.splits prod.splits)
  next
    case C_peek
    obtain q' where q': "perform (su_ops S) (Peek j) (ha_queue h) = Some q'" "ss_sent q' = ss_sent (ha_queue h)"
      "ss_got q' = ss_got (ha_queue h)" using peek_effect by blast
    then show ?thesis using assms(1) C_peek
      by (cases "ha_ci h < ring_total (su_config S)"; cases "ss_peeked q'") (auto simp del: perform.simps simp: defs)
  qed (use assms(1) in \<open>auto simp: defs bind_Some_iff split: if_splits prod.splits\<close>)
  then show "ha_pat h' = ha_pat h \<and> ha_start h' = ha_start h \<and> ha_pi h' = ha_pi h \<and> ss_sent (ha_queue h') = ss_sent (ha_queue h)"
    "consumer_work (message_count S) (ha_cat h') (length (ss_got (ha_queue h'))) < consumer_work (message_count S) (ha_cat h) (length (ss_got (ha_queue h)))
      \<or> ha_cat h' = ha_cat h \<and> ss_got (ha_queue h') = ss_got (ha_queue h)
        \<and> (ha_cat h = C_done \<or> ha_cat h = C_peek \<and> ha_ci h < ring_total (su_config S)
             \<and> perform (su_ops S) (Peek j) (ha_queue h) = Some (ha_queue h') \<and> ss_peeked (ha_queue h') = None)" by blast+
qed

lemma harness_rounds_add:
  "harness_rounds S clock r (j + k) h = do { h \<leftarrow> harness_rounds S clock r j h; harness_rounds S clock (r + j) k h }"
  by (induction j arbitrary: r h) (auto simp: bind_eq_Some_conv split: Option.bind_splits)

context spsc_live
begin

lemma harness_bounds:
  assumes "su_ops S = ops" "harness_inv S sync t h"
  shows "length (ss_got (ha_queue h)) \<le> message_count S"
    "ha_cat h \<in> {C_read, C_check, C_consume} \<Longrightarrow> length (ss_got (ha_queue h)) < message_count S"
    "ha_ci h = of_nat (length (ss_got (ha_queue h)))"
proof -
  have R: "reachable ops (ha_queue h)" using assms by (simp add: harness_inv_def)
  have sent: "length (ss_sent (ha_queue h)) \<le> message_count S" using assms(2) by (simp add: harness_inv_def producer_inv_def numbered_def)
  then show "length (ss_got (ha_queue h)) \<le> message_count S" using in_order(1) [OF R] by simp
  show "ha_ci h = of_nat (length (ss_got (ha_queue h)))" using assms(2) by (simp add: harness_inv_def consumer_inv_def Let_def)
  assume "ha_cat h \<in> {C_read, C_check, C_consume}"
  then have "ss_peeked (ha_queue h) \<noteq> None" using assms(2) by (auto simp: harness_inv_def consumer_inv_def Let_def)
  then show "length (ss_got (ha_queue h)) < message_count S" using in_hand(1) [OF R] sent by fastforce
qed

lemma any_clock: "harness_inv S False t h \<Longrightarrow> harness_inv S False t' h"
  using producer_inv_later [of S False t _ _ _ _ t'] by (simp add: harness_inv_def)

text \<open>A round in which nothing is done is one in which the producer waits for its time.\<close>

lemma round_work:
  assumes S: "su_ops S = ops" and inv: "harness_inv S False t h" and unfinished: "\<not> finished h"
  shows "\<exists>h'. harness_rounds S clock r 1 h = Some h' \<and> harness_inv S False t h'
    \<and> (work S h' < work S h
       \<or> work S h' = work S h \<and> ha_pat h = P_pace \<and> ha_pat h' = P_pace \<and> ha_start h' = ha_start h \<and> ha_pi h' = ha_pi h
         \<and> ha_pi h < ring_total (su_config S) \<and> paced (su_config S) \<and> clock r < intended (su_config S) (ha_start h) (ha_pi h))"
proof -
  let ?q = "ha_queue h" and ?n = "message_count S"
  obtain h1 where h1: "producer_step S (length (ss_tails ?q)) (clock r) h = Some h1" "harness_inv S False t h1"
    using producer_step_inv [OF S inv] any_clock by (metis (full_types))
  let ?q1 = "ha_queue h1"
  obtain h2 where h2: "consumer_step S (length (ss_heads ?q1)) (clock r) h1 = Some h2" "harness_inv S False t h2"
    using consumer_step_inv [OF S h1(2)] any_clock by (metis (full_types))
  have run: "harness_rounds S clock r 1 h = Some h2" using h1(1) h2(1) by simp
  have R: "reachable ops ?q" and R1: "reachable ops ?q1" using inv h1(2) S by (simp_all add: harness_inv_def)
  note p = producer_step_work [OF h1(1) inv]
  note c = consumer_step_work [OF h2(1) h1(2) harness_bounds(1,2) [OF S h1(2)]]
  show ?thesis
  proof (cases "producer_waits S (clock r) h h1 \<and> ss_sent ?q1 = ss_sent ?q")
    case False
    then have "work S h2 < work S h" using p c by (auto simp: work_def)
    then show ?thesis using run h2(2) by blast
  next
    case waits: True
    show ?thesis
    proof (cases "consumer_work ?n (ha_cat h2) (length (ss_got (ha_queue h2))) < consumer_work ?n (ha_cat h1) (length (ss_got ?q1))")
      case True
      then have "work S h2 < work S h" using p(1) c(1) waits by (simp add: work_def producer_waits_def)
      then show ?thesis using run h2(2) by blast
    next
      case False
      then have stuck: "ha_cat h2 = ha_cat h1" "ss_got (ha_queue h2) = ss_got ?q1"
        "ha_cat h1 = C_done \<or> ha_cat h1 = C_peek \<and> length (ss_got ?q1) < ?n
           \<and> perform ops (Peek (length (ss_heads ?q1))) ?q1 = Some (ha_queue h2) \<and> ss_peeked (ha_queue h2) = None"
        using c(2) S harness_bounds [OF S h1(2)] index_less [of "length (ss_got ?q1)" S] by auto
      note empty = peek_waits [OF R1, of "ha_queue h2"]
      have sent: "length (ss_sent ?q1) \<le> ?n" using h1(2) by (simp add: harness_inv_def producer_inv_def numbered_def)
      have "ha_pat h \<noteq> P_done"
      proof
        assume d: "ha_pat h = P_done"
        then have "ha_cat h1 \<noteq> C_done" using unfinished p(1) by (simp add: finished_def)
        moreover have "fst (last (ss_heads ?q1)) = of_nat (length (ss_sent ?q1))" "length (ss_sent ?q1) = ?n"
          using h1(2) waits d by (simp_all add: harness_inv_def producer_inv_def producer_waits_def)
        ultimately show False using stuck(3) empty(2) by auto
      qed
      moreover have "\<not> (ha_pat h = P_wait \<and> \<not> ha_ready h)"
        using stuck(3) p(1) inv by (auto simp: harness_inv_def consumer_inv_def Let_def)
      moreover have "\<not> (ha_pat h = P_claim \<and> ss_claimed ?q1 = None)"
      proof
        assume a: "ha_pat h = P_claim \<and> ss_claimed ?q1 = None"
        then have "perform ops (Claim (length (ss_tails ?q))) ?q = Some ?q1"
          using h1(1) S by (auto simp del: perform.simps simp: producer_step_def bind_Some_iff Let_def)
        from claim_waits [OF R this] a have full: "length (ss_sent ?q1) = length (ss_got ?q1) + n" using waits p(1) by simp
        show False
        proof (cases "ha_cat h1 = C_done")
          case True
          then have "length (ss_got ?q1) = ?n" using h1(2) by (simp add: harness_inv_def consumer_inv_def Let_def)
          then show False using full sent slots by simp
        next
          case False
          then show False using stuck(3) empty(1) full by auto
        qed
      qed
      moreover have "work S h2 = work S h" using stuck(1,2) c(1) waits p(1) by (simp add: work_def producer_waits_def)
      ultimately show ?thesis using run h2(2) waits c(1) by (intro exI [of _ h2]) (auto simp: producer_waits_def)
    qed
  qed
qed

end

text \<open>The clock passes every time at which a message is due after \<open>start\<close>.\<close>

definition clock_passes :: "('p, 'c) ring_run \<Rightarrow> (nat \<Rightarrow> u64) \<Rightarrow> u64 \<Rightarrow> bool" where
  "clock_passes S clock start \<longleftrightarrow>
     (paced (su_config S) \<longrightarrow> (\<forall>i<ring_total (su_config S). \<exists>r0. \<forall>r\<ge>r0. intended (su_config S) start i \<le> clock r))"

text \<open>The times at which the producer may have begun.\<close>

definition starts :: "('p, 'c) ring_run \<Rightarrow> (nat \<Rightarrow> u64) \<Rightarrow> ('p, 'c) harness \<Rightarrow> u64 set" where
  "starts S clock h = insert (ha_start h) (range (\<lambda>r. clock r + su_lead S))"

lemma step_start:
  "producer_step S j now h = Some h' \<Longrightarrow> ha_start h' = ha_start h \<or> ha_start h' = now + su_lead S"
  "consumer_step S j now h = Some h' \<Longrightarrow> ha_start h' = ha_start h"
  by (auto simp del: perform.simps simp: producer_step_def consumer_step_def Let_def bind_Some_iff
      split: producer_at.splits consumer_at.splits if_splits)

lemma rounds_starts: "harness_rounds S clock r k h = Some h' \<Longrightarrow> starts S clock h' \<subseteq> starts S clock h"
proof (induction k arbitrary: r h)
  case (Suc k)
  obtain h1 where h1: "producer_step S (length (ss_tails (ha_queue h))) (clock r) h = Some h1"
    using Suc.prems by (auto simp: bind_Some_iff)
  obtain h2 where h2: "consumer_step S (length (ss_heads (ha_queue h1))) (clock r) h1 = Some h2" "harness_rounds S clock (Suc r) k h2 = Some h'"
    using Suc.prems h1 by (auto simp: bind_Some_iff)
  have "starts S clock h2 \<subseteq> starts S clock h" using step_start(1) [OF h1] step_start(2) [OF h2(1)] by (auto simp: starts_def)
  then show ?case using Suc.IH [OF h2(2)] by blast
qed simp

lemma rounds_reachable:
  "harness_reachable S False t h \<Longrightarrow> harness_rounds S clock r k h = Some h' \<Longrightarrow> \<exists>t'. harness_reachable S False t' h'"
proof (induction k arbitrary: r h t)
  case (Suc k)
  obtain h1 where h1: "producer_step S (length (ss_tails (ha_queue h))) (clock r) h = Some h1"
    using Suc.prems by (auto simp: bind_Some_iff)
  obtain h2 where h2: "consumer_step S (length (ss_heads (ha_queue h1))) (clock r) h1 = Some h2" "harness_rounds S clock (Suc r) k h2 = Some h'"
    using Suc.prems h1 by (auto simp: bind_Some_iff)
  have "harness_reachable S False (clock r) h2"
    using harness_consumes [OF harness_produces [OF Suc.prems(1) _ h1] _ h2(1)] by simp
  then show ?case using Suc.IH h2(2) by blast
qed auto

text \<open>Rounds on one clock that runs forward.\<close>

lemma rounds_synced:
  "harness_reachable S True t h \<Longrightarrow> t \<le> clock r \<Longrightarrow> \<forall>r. clock r \<le> clock (Suc r) \<Longrightarrow> harness_rounds S clock r k h = Some h'
    \<Longrightarrow> \<exists>t'. harness_reachable S True t' h'"
proof (induction k arbitrary: r h t)
  case (Suc k)
  obtain h1 where h1: "producer_step S (length (ss_tails (ha_queue h))) (clock r) h = Some h1"
    using Suc.prems by (auto simp: bind_Some_iff)
  obtain h2 where h2: "consumer_step S (length (ss_heads (ha_queue h1))) (clock r) h1 = Some h2" "harness_rounds S clock (Suc r) k h2 = Some h'"
    using Suc.prems h1 by (auto simp: bind_Some_iff)
  have "harness_reachable S True (clock r) h2"
    using harness_consumes [OF harness_produces [OF Suc.prems(1) _ h1] _ h2(1)] Suc.prems(2) by simp
  then show ?case using Suc.IH [OF _ _ Suc.prems(3) h2(2)] Suc.prems(3) by blast
qed auto

lemma reachable_unsynced: "harness_reachable S sync t h \<Longrightarrow> harness_reachable S False t h"
  by (induction rule: harness_reachable.induct) (auto intro: harness_reachable.intros)

context spsc_live
begin

lemma some_progress:
  assumes S: "su_ops S = ops" and inv: "harness_inv S False t h" and unfinished: "\<not> finished h"
    and clock: "clock_passes S clock (ha_start h)"
  shows "\<exists>k h'. harness_rounds S clock r k h = Some h' \<and> harness_inv S False t h' \<and> work S h' < work S h"
proof -
  obtain r0 where r0: "paced (su_config S) \<and> ha_pi h < ring_total (su_config S)
      \<longrightarrow> (\<forall>r\<ge>r0. intended (su_config S) (ha_start h) (ha_pi h) \<le> clock r)"
    using clock by (auto simp: clock_passes_def)
  have "\<exists>k h'. harness_rounds S clock r k g = Some h' \<and> harness_inv S False t h' \<and> work S h' < work S h"
    if "harness_inv S False t g" "\<not> finished g" "work S g = work S h" "ha_start g = ha_start h" "ha_pi g = ha_pi h" for g
    using that
  proof (induction "r0 - r" arbitrary: r g)
    case (0 r g)
    from round_work [OF S 0(2,3), of clock r] r0 0 show ?case by (metis diff_is_0_eq linorder_not_le)
  next
    case (Suc d r g)
    from round_work [OF S Suc(3,4), of clock r] obtain g' where g': "harness_rounds S clock r 1 g = Some g'" "harness_inv S False t g'"
      "work S g' < work S g \<or> work S g' = work S g \<and> ha_pat g' = P_pace \<and> ha_start g' = ha_start g \<and> ha_pi g' = ha_pi g"
      by blast
    show ?case
    proof (cases "work S g' < work S g")
      case True
      then show ?thesis using g' Suc(5) by metis
    next
      case False
      then have same: "work S g' = work S h" "\<not> finished g'" "ha_start g' = ha_start h" "ha_pi g' = ha_pi h"
        using g'(3) Suc(5-7) by (auto simp: finished_def)
      have "d = r0 - Suc r" using Suc(2) by simp
      from Suc(1) [OF this g'(2) same(2,1,3,4)] obtain k h' where k: "harness_rounds S clock (Suc r) k g' = Some h'"
        "harness_inv S False t h'" "work S h' < work S h" by blast
      then have "harness_rounds S clock r (1 + k) g = Some h'" using g'(1) by (simp only: harness_rounds_add) simp
      then show ?thesis using k by blast
    qed
  qed
  then show ?thesis using inv unfinished by blast
qed

lemma both_finish:
  assumes "su_ops S = ops" "harness_inv S False t h" "\<forall>start\<in>starts S clock h. clock_passes S clock start"
  shows "\<exists>k h'. harness_rounds S clock r k h = Some h' \<and> harness_inv S False t h' \<and> finished h'"
  using assms(2,3)
proof (induction "work S h" arbitrary: h r rule: less_induct)
  case less
  show ?case
  proof (cases "finished h")
    case True
    then show ?thesis using less(2) by (intro exI [of _ 0] exI [of _ h]) simp
  next
    case False
    have "clock_passes S clock (ha_start h)" using less(3) by (simp add: starts_def)
    from some_progress [OF assms(1) less(2) False this, of r] obtain k g where
      g: "harness_rounds S clock r k h = Some g" "harness_inv S False t g" "work S g < work S h" by blast
    have "\<forall>start\<in>starts S clock g. clock_passes S clock start" using rounds_starts [OF g(1)] less(3) by blast
    from less(1) [OF g(3,2) this, of "r + k"] obtain k' h' where
      "harness_rounds S clock (r + k) k' g = Some h'" "harness_inv S False t h'" "finished h'" by blast
    moreover from this(1) have "harness_rounds S clock r (k + k') h = Some h'" using g(1) by (simp add: harness_rounds_add)
    ultimately show ?thesis by blast
  qed
qed

end

section \<open>What a run reports\<close>

text \<open>A run of which the harness can report nothing wrong: no race, the messages sent are numbered from 0 on and
  received in that order, no difference of two stamps was below zero if the clocks agree, and a consumer that is
  done has timed every message after the warm-up.\<close>

definition harness_sound :: "('p, 'c) ring_run \<Rightarrow> bool \<Rightarrow> ('p, 'c) harness \<Rightarrow> bool" where
  "harness_sound S sync h \<longleftrightarrow>
     (let cfg = su_config S; q = ha_queue h; r = ha_result h in
      \<not> ss_race q \<and> map rm_seq (ss_sent q) = map of_nat [0..<length (ss_sent q)]
      \<and> ss_got q = map Some (take (length (ss_got q)) (ss_sent q))
      \<and> rr_outOfOrder r = 0 \<and> (sync \<longrightarrow> rr_negativeDeltas r = 0)
      \<and> (ha_cat h = C_done \<longrightarrow> length (ss_got q) = unat (ring_total cfg)
           \<and> lh_count (rr_sendToReceive r) = (if rc_recordLatency cfg then of_nat (unat (ring_total cfg) - unat (rc_warmup cfg)) else 0)
           \<and> lh_count (rr_intendedToReceive r)
             = (if rc_recordLatency cfg \<and> paced cfg then of_nat (unat (ring_total cfg) - unat (rc_warmup cfg)) else 0)))"

lemma harness_inv_sound:
  assumes "spsc_live ops n relP relC" "su_ops S = ops" "harness_inv S sync t h"
  shows "harness_sound S sync h"
proof -
  have R: "reachable ops (ha_queue h)" using assms(2,3) by (simp add: harness_inv_def)
  have "\<not> ss_race (ha_queue h)" using spsc_ring.no_race [OF spsc_live.axioms(1) [OF assms(1)] R] .
  then show ?thesis using assms(3)
    by (auto simp: harness_sound_def harness_inv_def producer_inv_def numbered_def consumer_inv_def result_inv_def timed_def message_count_def Let_def)
qed

lemma harness_reaches_sound:
  assumes "spsc_live ops n relP relC" "su_ops S = ops" "harness_reachable S sync t h"
  shows "harness_sound S sync h"
  using harness_inv_sound [OF assms(1,2)] spsc_live.harness_reachable_inv [OF assms(1,3,2)] by blast

lemma harness_ends:
  assumes "spsc_live ops n relP relC" "su_ops S = ops" "harness_reachable S sync t h"
    "\<forall>start\<in>starts S clock h. clock_passes S clock start"
  shows "\<exists>k h'. harness_rounds S clock r k h = Some h' \<and> finished h' \<and> length (ss_sent (ha_queue h')) = unat (ring_total (su_config S))
    \<and> ss_got (ha_queue h') = map Some (ss_sent (ha_queue h')) \<and> harness_sound S False h'"
proof -
  have "harness_inv S False t h" by (rule spsc_live.harness_reachable_inv [OF assms(1) reachable_unsynced [OF assms(3)] assms(2)])
  from spsc_live.both_finish [OF assms(1,2) this assms(4), of r] obtain k h' where
    h': "harness_rounds S clock r k h = Some h'" "harness_inv S False t h'" "finished h'" by blast
  have "length (ss_sent (ha_queue h')) = unat (ring_total (su_config S))"
    using h'(2,3) by (auto simp: harness_inv_def producer_inv_def finished_def message_count_def)
  moreover have sound: "harness_sound S False h'" by (rule harness_inv_sound [OF assms(1,2) h'(2)])
  moreover have "ss_got (ha_queue h') = map Some (take (length (ss_got (ha_queue h'))) (ss_sent (ha_queue h')))"
    "length (ss_got (ha_queue h')) = length (ss_sent (ha_queue h'))"
    using sound calculation(1) h'(3) unfolding harness_sound_def Let_def finished_def by (blast, metis)
  then have "ss_got (ha_queue h') = map Some (ss_sent (ha_queue h'))" by (metis order_refl take_all)
  ultimately show ?thesis using h'(1,3) by blast
qed

lemmas prompt_live = spsc_prompt.is_live

text \<open>C7. Nothing arrives out of order. Whatever the interleaving, the staleness of the loads and the readings of the
  clock, the harness around \<open>RingBuffer\<close> counts no message out of order and none missing; the consumer that is done has
  received all of them and timed those after the warm-up; and if no core's clock is behind what another has read, no
  difference of stamps is negative, whether messages are paced or not. The same holds around every variant of the
  design study.\<close>

theorem harness_in_order:
  assumes "valid_size Size" "valid_batch Size batch"
  shows "(su_ops S = ring_ops Size \<and> harness_reachable S sync t h \<longrightarrow> harness_sound S sync h)
    \<and> (su_ops S0 = v0_ops Size \<and> harness_reachable S0 sync t0 h0 \<longrightarrow> harness_sound S0 sync h0)
    \<and> (su_ops S1 = v1_ops Size \<and> harness_reachable S1 sync t1 h1 \<longrightarrow> harness_sound S1 sync h1)
    \<and> (su_ops S2 = v2_ops Size batch \<and> harness_reachable S2 sync t2 h2 \<longrightarrow> harness_sound S2 sync h2)"
  using harness_reaches_sound [OF prompt_live [OF ring_buffer_spsc [OF assms(1)]]]
    harness_reaches_sound [OF prompt_live [OF v0_spsc [OF assms(1)]]]
    harness_reaches_sound [OF prompt_live [OF v1_spsc [OF assms(1)]]] harness_reaches_sound [OF v2_live [OF assms]]
  by blast

text \<open>C12. Nobody waits for ever. From every state that the two threads of the harness can be in, over \<open>RingBuffer\<close> or the
  batching variant, they finish with every message received in order, if from there on each takes steps that see the
  other's newest index and the clock passes the times at which messages are due.\<close>

theorem harness_finishes:
  assumes "valid_size Size" "valid_batch Size batch" "su_ops S = v2_ops Size batch" "harness_reachable S sync t h"
    "\<forall>start\<in>starts S clock h. clock_passes S clock start"
    and "su_ops S' = ring_ops Size" "harness_reachable S' sync t' h'" "\<forall>start\<in>starts S' clock h'. clock_passes S' clock start"
  shows "(\<exists>k g. harness_rounds S clock r k h = Some g \<and> finished g \<and> length (ss_sent (ha_queue g)) = unat (ring_total (su_config S))
      \<and> ss_got (ha_queue g) = map Some (ss_sent (ha_queue g)) \<and> harness_sound S False g)
    \<and> (\<exists>k g. harness_rounds S' clock r k h' = Some g \<and> finished g \<and> length (ss_sent (ha_queue g)) = unat (ring_total (su_config S'))
      \<and> ss_got (ha_queue g) = map Some (ss_sent (ha_queue g)) \<and> harness_sound S' False g)"
  using harness_ends [OF v2_live [OF assms(1,2)] assms(3-5)]
    harness_ends [OF prompt_live [OF ring_buffer_spsc [OF assms(1)]] assms(6-8)] by blast

text \<open>A run of three messages in a queue of two slots, the last with the highest clock.\<close>

definition sample_config :: run_config where
  "sample_config = config_new\<lparr>rc_messages := 2, rc_warmup := 1, rc_intervalTicks := 10\<rparr>"

definition sample_run :: "('p, 'c) ring_ops \<Rightarrow> ('p, 'c) ring_run" where
  "sample_run ops = \<lparr>su_ops = ops, su_config = sample_config, su_lead = 100, su_pinsProducer = True, su_pinsConsumer = True\<rparr>"

definition sample_memory :: "nat \<Rightarrow> ring_message" where
  "sample_memory _ = \<lparr>rm_seq = 0, rm_intendedTsc = 0, rm_sentTsc = 0\<rparr>"

lemma sample_clock: "clock_passes S (\<lambda>_. - 1) start"
  by (auto simp: clock_passes_def)

lemma sample_total: "unat (ring_total (su_config (sample_run ops))) = 3"
  by (simp add: sample_run_def sample_config_def ring_total_def)

lemma sample_start: "harness_reachable (sample_run ops) True 0 (harness_new (sample_run ops) sample_memory)" "su_ops (sample_run ops) = ops"
  by (rule harness_start) (simp add: sample_run_def)

lemma harness_finishes_witness:
  "\<exists>k g. harness_rounds (sample_run (v2_ops 2 2)) (\<lambda>_. - 1) 0 k (harness_new (sample_run (v2_ops 2 2)) sample_memory) = Some g
    \<and> finished g \<and> length (ss_sent (ha_queue g)) = 3 \<and> harness_sound (sample_run (v2_ops 2 2)) False g"
proof -
  have c: "\<forall>start\<in>starts S (\<lambda>_. - 1) h. clock_passes S (\<lambda>_. - 1) start" for S :: "('p, 'c) ring_run" and h
    using sample_clock by blast
  from harness_finishes [OF sample_valid sample_start(2,1) c sample_start(2,1) c, of 0] show ?thesis
    unfolding sample_total by blast
qed

lemma harness_in_order_witness:
  "\<exists>h. ha_cat h = C_done \<and> ss_got (ha_queue h) \<noteq> [] \<and> harness_sound (sample_run (ring_ops 2)) False h"
proof -
  have "\<forall>start\<in>starts (sample_run (ring_ops 2)) (\<lambda>_. - 1) (harness_new (sample_run (ring_ops 2)) sample_memory).
      clock_passes (sample_run (ring_ops 2)) (\<lambda>_. - 1) start" using sample_clock by blast
  from harness_ends [OF prompt_live [OF ring_buffer_spsc [OF sample_valid(1)]] sample_start(2,1) this, of 0] obtain k g where
    g: "harness_rounds (sample_run (ring_ops 2)) (\<lambda>_. - 1) 0 k (harness_new (sample_run (ring_ops 2)) sample_memory) = Some g"
    "finished g" "length (ss_sent (ha_queue g)) = 3" "ss_got (ha_queue g) = map Some (ss_sent (ha_queue g))"
    by (auto simp: sample_total)
  from rounds_reachable [OF reachable_unsynced [OF sample_start(1)] g(1)] obtain t where
    "harness_reachable (sample_run (ring_ops 2)) False t g" by blast
  with harness_in_order [OF sample_valid, of "sample_run (ring_ops 2)" False t g] sample_start(2)
  have "harness_sound (sample_run (ring_ops 2)) False g" by blast
  then show ?thesis using g(2-4) by (intro exI [of _ g]) (auto simp: finished_def)
qed

end
