(* ===== verification/RingStudy.thy ===== *)
theory RingStudy
  imports RingHarness JsonReport
begin

text \<open>
  The two programs that report on the queues: \<open>bench/ring_latency.cpp\<close> and \<open>bench/ring_study.cpp\<close>. What a call of
  \<open>runRing\<close> returns is an argument, a function of the configuration; \<open>run_returns\<close> says of it that it is the
  result of some run of the harness to its end. Doubles are parameters, tables that are only printed are left
  out. \<open>ring_latency_verdict\<close> and \<open>ring_study_verdict\<close>: on clocks that agree neither program warns, and the exit code tells
  whether the results were written.
\<close>

section \<open>The configuration\<close>

text \<open>What the programs compute with doubles: ticks of a number of nanoseconds, the time per message, and messages
  per microsecond.\<close>

record 'd rates =
  ticks_of :: "int \<Rightarrow> 'd \<Rightarrow> u64"
  per_message :: "u64 \<Rightarrow> 'd \<Rightarrow> u64 \<Rightarrow> 'd"
  throughput :: "'d \<Rightarrow> 'd"

definition latency_config :: "'d rates \<Rightarrow> 'd \<Rightarrow> string list \<Rightarrow> run_config" where
  "latency_config Q ticksPerNs argv =
     config_new\<lparr>rc_producerCore := to_int32 (argInt argv ''producer'' 2), rc_consumerCore := to_int32 (argInt argv ''consumer'' 3),
       rc_messages := to_u64 (argInt argv ''messages'' 1000000), rc_warmup := to_u64 (argInt argv ''warmup'' 50000),
       rc_intervalTicks := ticks_of Q (uint (to_u64 (argInt argv ''interval-ns'' 1000))) ticksPerNs,
       rc_highPriority := hasFlag argv ''--high-priority''\<rparr>"

section \<open>One-way latency\<close>

definition latency_report :: "'d doubles \<Rightarrow> 'd \<Rightarrow> u64 \<Rightarrow> bool \<Rightarrow> run_result \<Rightarrow> 'd report \<Rightarrow> 'd report" where
  "latency_report D ticksPerNs overhead is_paced r rep =
     (let rep = setTimer D ticksPerNs overhead rep;
          rep = setPinned (rr_producerPinned r \<and> rr_consumerPinned r) rep;
          rep = addHistogram D ''ring_latency/send_to_receive'' (rr_sendToReceive r) ticksPerNs rep
      in if is_paced then addHistogram D ''ring_latency/intended_to_receive'' (rr_intendedToReceive r) ticksPerNs rep else rep)"

definition latency_status :: "bool \<Rightarrow> run_result \<Rightarrow> nat" where
  "latency_status written r = (if rr_outOfOrder r \<noteq> 0 \<or> rr_negativeDeltas r \<noteq> 0 then 1 else if written then 0 else 2)"

definition ring_latency ::
    "'d doubles \<Rightarrow> 'd rates \<Rightarrow> machine \<Rightarrow> filesystem \<Rightarrow> 'd \<Rightarrow> u64 \<Rightarrow> (run_config \<Rightarrow> run_result) \<Rightarrow> string list
      \<Rightarrow> nat \<times> (string \<times> string) option" where
  "ring_latency D Q M F ticksPerNs overhead run argv =
     (if hasFlag argv ''--help'' then (0, None)
      else let rep = report_new D ''ring_latency'' argv;
               cfg = latency_config Q ticksPerNs argv;
               r = run cfg;
               (written, out) = write_report D M F (latency_report D ticksPerNs overhead (paced cfg) r rep)
           in (latency_status written r, out))"

section \<open>The design study\<close>

record 'd study_config =
  st_base :: run_config
  st_burstMessages :: u64
  st_reps :: int
  st_pacedMessages :: u64
  st_intervalTicks :: u64
  st_ticksPerNs :: 'd

text \<open>The queues of the study, and the names of their metrics.\<close>

datatype variant = FetchAdd | Store | Cached bool nat | Ships

definition study_variants :: "(variant \<times> string) list" where
  "study_variants = [(FetchAdd, ''v0_fetch_add''), (Store, ''v1_store''), (Cached True 1, ''v2_cached''), (Ships, ''ringbuffer_hpp''),
     (Cached False 1, ''v2_false_sharing''), (Cached True 4, ''v2_batch4''), (Cached True 16, ''v2_batch16''), (Cached True 64, ''v2_batch64'')]"

definition burst_config :: "'d study_config \<Rightarrow> run_config" where
  "burst_config s = (st_base s)\<lparr>rc_messages := st_burstMessages s, rc_warmup := st_burstMessages s div 10, rc_intervalTicks := 0,
     rc_recordLatency := False\<rparr>"

definition paced_config :: "'d study_config \<Rightarrow> run_config" where
  "paced_config s = (st_base s)\<lparr>rc_messages := st_pacedMessages s, rc_warmup := st_pacedMessages s div 10,
     rc_intervalTicks := st_intervalTicks s, rc_recordLatency := True\<rparr>"

text \<open>The globals, and the report.\<close>

record 'd study_state =
  g_failed :: bool
  g_allPinned :: bool
  g_report :: "'d report"

fun study_bursts :: "'d rates \<Rightarrow> 'd study_config \<Rightarrow> run_result list \<Rightarrow> 'd list \<Rightarrow> 'd study_state \<Rightarrow> 'd list \<times> 'd study_state" where
  "study_bursts Q s [] ns g = (ns, g)"
| "study_bursts Q s (r # rs) ns g =
     (let g = (if rr_outOfOrder r \<noteq> 0 then g\<lparr>g_failed := True\<rparr> else g);
          g = (if \<not> rr_producerPinned r \<or> \<not> rr_consumerPinned r then g\<lparr>g_allPinned := False\<rparr> else g)
      in study_bursts Q s rs
           (ns @ [per_message Q (rr_lastReceiveTsc r - rr_firstReceiveTsc r) (st_ticksPerNs s) (st_burstMessages s)]) g)"

text \<open>The median of no runs at all would be read outside the vector.\<close>

definition study ::
    "'d :: linorder doubles \<Rightarrow> 'd rates \<Rightarrow> (nat \<Rightarrow> run_config \<Rightarrow> run_result) \<Rightarrow> string \<Rightarrow> 'd study_config \<Rightarrow> 'd study_state
      \<Rightarrow> 'd study_state option" where
  "study D Q run slug s g =
     (let (ns, g) = study_bursts Q s (map (\<lambda>rep. run rep (burst_config s)) [0..<nat (st_reps s)]) [] g;
          ns = sort ns
      in if ns = [] then None
         else let median = ns ! (length ns div 2);
                  p = run (length ns) (paced_config s);
                  g = (if rr_outOfOrder p \<noteq> 0 \<or> rr_negativeDeltas p \<noteq> 0 then g\<lparr>g_failed := True\<rparr> else g);
                  g = (if \<not> rr_producerPinned p \<or> \<not> rr_consumerPinned p then g\<lparr>g_allPinned := False\<rparr> else g);
                  prefix = ''ring_study/'' @ slug;
                  rep = add_metric (prefix @ ''/burst/ns_per_msg'') ''ns'' median Lower (g_report g);
                  rep = add_metric (prefix @ ''/burst/throughput'') ''M msg/s'' (throughput Q median) Higher rep
              in Some (g\<lparr>g_report := addHistogram D (prefix @ ''/paced'') (rr_sendToReceive p) (st_ticksPerNs s) rep\<rparr>))"

fun study_all ::
    "'d :: linorder doubles \<Rightarrow> 'd rates \<Rightarrow> (variant \<Rightarrow> nat \<Rightarrow> run_config \<Rightarrow> run_result) \<Rightarrow> 'd study_config \<Rightarrow> (variant \<times> string) list
      \<Rightarrow> 'd study_state \<Rightarrow> 'd study_state option" where
  "study_all D Q run s [] g = Some g"
| "study_all D Q run s ((v, slug) # vs) g = do { g \<leftarrow> study D Q (run v) slug s g; study_all D Q run s vs g }"

definition main_config :: "'d rates \<Rightarrow> 'd \<Rightarrow> string list \<Rightarrow> 'd study_config" where
  "main_config Q ticksPerNs argv =
     \<lparr>st_base = config_new\<lparr>rc_producerCore := to_int32 (argInt argv ''producer'' 2), rc_consumerCore := to_int32 (argInt argv ''consumer'' 3),
        rc_highPriority := hasFlag argv ''--high-priority'',
        rc_producerWorkTicks := ticks_of Q (argInt argv ''producer-work-ns'' 0) ticksPerNs,
        rc_consumerWorkTicks := ticks_of Q (argInt argv ''consumer-work-ns'' 0) ticksPerNs\<rparr>,
      st_burstMessages = to_u64 (argInt argv ''burst'' 10000000),
      st_reps = to_int32 (max 1 (argInt argv ''reps'' 5)),
      st_pacedMessages = to_u64 (argInt argv ''paced'' 500000),
      st_intervalTicks = ticks_of Q (uint (to_u64 (argInt argv ''interval-ns'' 1000))) ticksPerNs,
      st_ticksPerNs = ticksPerNs\<rparr>"

definition ring_study ::
    "'d :: linorder doubles \<Rightarrow> 'd rates \<Rightarrow> machine \<Rightarrow> filesystem \<Rightarrow> 'd \<Rightarrow> u64 \<Rightarrow> (variant \<Rightarrow> nat \<Rightarrow> run_config \<Rightarrow> run_result) \<Rightarrow> string list
      \<Rightarrow> (nat \<times> (string \<times> string) option) option" where
  "ring_study D Q M F ticksPerNs overhead run argv =
     (if hasFlag argv ''--help'' then Some (0, None)
      else do {
        let rep = setTimer D ticksPerNs overhead (report_new D ''ring_study'' argv);
        let s = main_config Q ticksPerNs argv;
        g \<leftarrow> study_all D Q run s study_variants \<lparr>g_failed = False, g_allPinned = True, g_report = rep\<rparr>;
        let (written, out) = write_report D M F (setPinned (g_allPinned g) (g_report g));
        Some (if g_failed g then 1 else if written then 0 else 2, out)
      })"

section \<open>What the programs say\<close>

text \<open>A result of a run of the harness to its end, by threads whose clocks agree.\<close>

definition run_returns :: "('p, 'c) ring_ops \<Rightarrow> run_config \<Rightarrow> run_result \<Rightarrow> bool" where
  "run_returns ops cfg r \<longleftrightarrow>
     (\<exists>S t h. su_ops S = ops \<and> su_config S = cfg \<and> harness_reachable S True t h \<and> finished h \<and> ha_result h = r)"

fun variant_returns :: "variant \<Rightarrow> run_config \<Rightarrow> run_result \<Rightarrow> bool" where
  "variant_returns FetchAdd cfg r = run_returns (v0_ops 1024) cfg r"
| "variant_returns Store cfg r = run_returns (v1_ops 1024) cfg r"
| "variant_returns (Cached lines batch) cfg r = run_returns (v2_ops 1024 (of_nat batch)) cfg r"
| "variant_returns Ships cfg r = run_returns (ring_ops 1024) cfg r"

text \<open>How many messages are timed.\<close>

definition measured :: "run_config \<Rightarrow> u64" where
  "measured cfg = of_nat (unat (ring_total cfg) - unat (rc_warmup cfg))"

definition result_sound :: "run_config \<Rightarrow> run_result \<Rightarrow> bool" where
  "result_sound cfg r \<longleftrightarrow> rr_outOfOrder r = 0 \<and> rr_negativeDeltas r = 0
     \<and> lh_count (rr_sendToReceive r) = (if rc_recordLatency cfg then measured cfg else 0)
     \<and> lh_count (rr_intendedToReceive r) = (if rc_recordLatency cfg \<and> paced cfg then measured cfg else 0)"

lemma run_returns_sound:
  assumes "spsc_live ops n relP relC" "run_returns ops cfg r"
  shows "result_sound cfg r"
proof -
  obtain S t h where h: "su_ops S = ops" "su_config S = cfg" "harness_reachable S True t h" "finished h" "ha_result h = r"
    using assms(2) by (auto simp: run_returns_def)
  have "harness_sound S True h" by (rule harness_reaches_sound [OF assms(1) h(1,3)])
  then show ?thesis using h(2,4,5) by (auto simp: harness_sound_def finished_def result_sound_def measured_def Let_def)
qed

lemma batches_valid: "b \<in> {1, 4, 16, 64} \<Longrightarrow> valid_batch 1024 (of_nat b)"
  by (auto simp: valid_batch_def word_le_nat_alt)

lemmas live_1024 = prompt_live [OF v0_spsc [OF valid_1024]] prompt_live [OF v1_spsc [OF valid_1024]]
  prompt_live [OF ring_buffer_spsc [OF valid_1024]] v2_live [OF valid_1024 batches_valid]

lemma variant_returns_sound:
  assumes "(v, slug) \<in> set study_variants" "variant_returns v cfg r"
  shows "result_sound cfg r"
  using assms run_returns_sound [OF live_1024(1)] run_returns_sound [OF live_1024(2)] run_returns_sound [OF live_1024(3)]
    run_returns_sound [OF live_1024(4) [of 1]] run_returns_sound [OF live_1024(4) [of 4]] run_returns_sound [OF live_1024(4) [of 16]]
    run_returns_sound [OF live_1024(4) [of 64]]
  by (auto simp: study_variants_def)

lemma run_exists:
  assumes "spsc_live ops n relP relC"
  shows "\<exists>r. run_returns ops cfg r"
proof -
  let ?S = "\<lparr>su_ops = ops, su_config = cfg, su_lead = 0, su_pinsProducer = True, su_pinsConsumer = True\<rparr>"
  have start: "harness_reachable ?S True 0 (harness_new ?S sample_memory)" by (rule harness_start)
  have clock: "\<forall>start\<in>starts ?S (\<lambda>_. - 1) (harness_new ?S sample_memory). clock_passes ?S (\<lambda>_. - 1) start"
    using sample_clock by blast
  obtain k h where h: "harness_rounds ?S (\<lambda>_. - 1) 0 k (harness_new ?S sample_memory) = Some h" "finished h"
    using harness_ends [OF assms _ start clock, of 0] by auto
  from rounds_synced [OF start _ _ h(1)] obtain t where "harness_reachable ?S True t h" by auto
  then have "run_returns ops cfg (ha_result h)"
    unfolding run_returns_def using h(2) by (intro exI [of _ ?S] exI [of _ t] exI [of _ h]) simp
  then show ?thesis by blast
qed

lemma variant_exists: "(v, slug) \<in> set study_variants \<Longrightarrow> \<exists>r. variant_returns v cfg r"
  using run_exists [OF live_1024(1)] run_exists [OF live_1024(2)] run_exists [OF live_1024(3)]
    run_exists [OF live_1024(4) [of 1]] run_exists [OF live_1024(4) [of 4]] run_exists [OF live_1024(4) [of 16]]
    run_exists [OF live_1024(4) [of 64]]
  by (auto simp: study_variants_def)

lemma addHistogram_metrics:
  "length (jr_metrics (addHistogram D p h x rep)) = length (jr_metrics rep) + (if lh_count h = 0 then 0 else 7)"
  by (simp add: addHistogram_def add_metric_def Let_def)

lemma study_bursts_sound:
  "\<forall>r\<in>set rs. rr_outOfOrder r = 0 \<Longrightarrow> study_bursts Q s rs ns g = (ns', g') \<Longrightarrow>
    g_failed g' = g_failed g \<and> length ns' = length ns + length rs \<and> g_report g' = g_report g"
proof (induction rs arbitrary: ns g)
  case (Cons r rs)
  from Cons.IH [OF _ Cons.prems(2) [simplified study_bursts.simps Let_def]] Cons.prems(1) show ?case by (simp split: if_splits)
qed simp

lemma study_sound:
  assumes "\<forall>i cfg. result_sound cfg (run i cfg)" "1 \<le> st_reps s"
  shows "\<exists>g'. study D Q run slug s g = Some g' \<and> g_failed g' = g_failed g
    \<and> length (jr_metrics (g_report g')) = length (jr_metrics (g_report g)) + 2 + (if measured (paced_config s) = 0 then 0 else 7)"
proof -
  let ?rs = "map (\<lambda>rep. run rep (burst_config s)) [0..<nat (st_reps s)]"
  obtain ns g1 where b: "study_bursts Q s ?rs [] g = (ns, g1)" by (cases "study_bursts Q s ?rs [] g")
  have "\<forall>r\<in>set ?rs. rr_outOfOrder r = 0" using assms(1) by (auto simp: result_sound_def)
  from study_bursts_sound [OF this b] have g1: "g_failed g1 = g_failed g" "length ns = nat (st_reps s)" "g_report g1 = g_report g"
    by simp_all
  have ne: "sort ns \<noteq> []" using g1(2) assms(2) by (metis length_sort list.size(3) not_one_le_zero nat_0_iff not_le zero_less_one_class.zero_less_one order_less_le_trans)
  let ?p = "run (length ns) (paced_config s)"
  have p: "rr_outOfOrder ?p = 0" "rr_negativeDeltas ?p = 0" "lh_count (rr_sendToReceive ?p) = measured (paced_config s)"
    using assms(1) by (simp_all add: result_sound_def paced_config_def)
  then show ?thesis using b g1 ne
    by (auto simp: study_def Let_def addHistogram_metrics add_metric_def)
qed

lemma study_all_sound:
  assumes "\<forall>(v, slug)\<in>set vs. \<forall>i cfg. result_sound cfg (run v i cfg)" "1 \<le> st_reps s"
  shows "\<exists>g'. study_all D Q run s vs g = Some g' \<and> g_failed g' = g_failed g
    \<and> length (jr_metrics (g_report g')) = length (jr_metrics (g_report g)) + length vs * (2 + (if measured (paced_config s) = 0 then 0 else 7))"
  using assms(1)
proof (induction vs arbitrary: g)
  case (Cons x vs)
  obtain v slug where x: "x = (v, slug)" by (cases x)
  have "\<forall>i cfg. result_sound cfg (run v i cfg)" using Cons.prems x by auto
  from study_sound [OF this assms(2), of D Q slug g] obtain g1 where
    g1: "study D Q (run v) slug s g = Some g1" "g_failed g1 = g_failed g"
    "length (jr_metrics (g_report g1)) = length (jr_metrics (g_report g)) + 2 + (if measured (paced_config s) = 0 then 0 else 7)" by blast
  moreover obtain g2 where "study_all D Q run s vs g1 = Some g2" "g_failed g2 = g_failed g1"
    "length (jr_metrics (g_report g2)) = length (jr_metrics (g_report g1)) + length vs * (2 + (if measured (paced_config s) = 0 then 0 else 7))"
    using Cons.IH [of g1] Cons.prems by auto
  ultimately show ?case using x by simp
qed simp

text \<open>What \<open>ring_latency\<close> says. If the run of its two threads came to its end and no core's clock was behind what
  another had read, it warns of nothing: it exits with 0 if the results were written or no file was asked for and
  with 2 otherwise, and what it writes are the percentiles of the one-way latency, and those from the intended time
  exactly when messages are paced.\<close>

theorem ring_latency_verdict:
  assumes "\<not> hasFlag argv ''--help''"
    and "run_returns (ring_ops 1024) (latency_config Q ticksPerNs argv) (run (latency_config Q ticksPerNs argv))"
  shows "let cfg = latency_config Q ticksPerNs argv;
             rep = latency_report D ticksPerNs overhead (paced cfg) (run cfg) (report_new D ''ring_latency'' argv)
         in ring_latency D Q M F ticksPerNs overhead run argv
              = (if fst (write_report D M F rep) then 0 else 2, snd (write_report D M F rep))
            \<and> length (jr_metrics rep) = (if measured cfg = 0 then 0 else if paced cfg then 14 else 7)"
proof -
  let ?cfg = "latency_config Q ticksPerNs argv"
  have r: "result_sound ?cfg (run ?cfg)" by (rule run_returns_sound [OF live_1024(3) assms(2)])
  have "rc_recordLatency ?cfg" by (simp add: latency_config_def config_new_def)
  then have "length (jr_metrics (latency_report D ticksPerNs overhead (paced ?cfg) (run ?cfg) (report_new D ''ring_latency'' argv)))
      = (if measured ?cfg = 0 then 0 else if paced ?cfg then 14 else 7)"
    using r by (simp del: length_0_conv add: latency_report_def Let_def addHistogram_metrics setTimer_def setPinned_def report_new_def result_sound_def)
  then show ?thesis using assms(1) r
    by (simp add: ring_latency_def Let_def latency_status_def result_sound_def split_def)
qed

text \<open>The conversion to \<open>int\<close> comes after the guard that keeps the number of repetitions positive; with none left, the
  median is read from an empty vector.\<close>

lemma ring_study_no_reps:
  assumes "\<not> hasFlag argv ''--help''" "st_reps (main_config Q ticksPerNs argv) < 1"
  shows "ring_study D Q M F ticksPerNs overhead run argv = None"
  using assms by (simp add: ring_study_def study_variants_def study_def Let_def)

lemma reps_wrap: "argInt argv ''reps'' 5 = 2 ^ 32 \<Longrightarrow> st_reps (main_config Q ticksPerNs argv) = 0"
  unfolding main_config_def study_config.simps by (simp add: to_int32_def)

lemma reps_kept: "1 \<le> argInt argv ''reps'' 5 \<Longrightarrow> argInt argv ''reps'' 5 < 2 ^ 31 \<Longrightarrow>
    st_reps (main_config Q ticksPerNs argv) = argInt argv ''reps'' 5"
  unfolding main_config_def study_config.simps
  by (simp add: to_int32_def signed_take_bit_int_eq_self sint_sbintrunc')

text \<open>C34. What \<open>ring_study\<close> says. If every run of every variant came to its end on clocks that agree, then with 1 to
  \<open>2^31 - 1\<close> repetitions the study measures all eight variants, warns of nothing, and exits with 0 if its results were
  written and with 2 if not; each variant has its two throughput figures and, unless there is nothing to time, its
  percentiles. With \<open>2^32\<close> repetitions, which \<open>int\<close> turns into 0, it reads the median of an empty vector.\<close>

theorem ring_study_verdict:
  assumes "\<not> hasFlag argv ''--help''"
    and "\<forall>(v, slug)\<in>set study_variants. \<forall>i cfg. variant_returns v cfg (run v i cfg)"
  shows "(1 \<le> argInt argv ''reps'' 5 \<and> argInt argv ''reps'' 5 < 2 ^ 31 \<longrightarrow>
      (\<exists>rep. ring_study D Q M F ticksPerNs overhead run argv
          = Some (if fst (write_report D M F rep) then 0 else 2, snd (write_report D M F rep))
        \<and> length (jr_metrics rep) = 8 * (2 + (if measured (paced_config (main_config Q ticksPerNs argv)) = 0 then 0 else 7))))
    \<and> (argInt argv ''reps'' 5 = 2 ^ 32 \<longrightarrow> ring_study D Q M F ticksPerNs overhead run argv = None)"
proof (intro conjI impI)
  assume "1 \<le> argInt argv ''reps'' 5 \<and> argInt argv ''reps'' 5 < 2 ^ 31"
  then have reps: "1 \<le> st_reps (main_config Q ticksPerNs argv)" using reps_kept [of argv Q ticksPerNs] by simp
  let ?g = "\<lparr>g_failed = False, g_allPinned = True, g_report = setTimer D ticksPerNs overhead (report_new D ''ring_study'' argv)\<rparr>"
  have "\<forall>(v, slug)\<in>set study_variants. \<forall>i cfg. result_sound cfg (run v i cfg)"
    using assms(2) variant_returns_sound by blast
  from study_all_sound [OF this reps, of D Q ?g] obtain g where
    g: "study_all D Q run (main_config Q ticksPerNs argv) study_variants ?g = Some g" "\<not> g_failed g"
    "length (jr_metrics (g_report g)) = 8 * (2 + (if measured (paced_config (main_config Q ticksPerNs argv)) = 0 then 0 else 7))"
    by (auto simp: study_variants_def setTimer_def report_new_def)
  show "\<exists>rep. ring_study D Q M F ticksPerNs overhead run argv
          = Some (if fst (write_report D M F rep) then 0 else 2, snd (write_report D M F rep))
        \<and> length (jr_metrics rep) = 8 * (2 + (if measured (paced_config (main_config Q ticksPerNs argv)) = 0 then 0 else 7))"
    using assms(1) g
    by (intro exI [of _ "setPinned (g_allPinned g) (g_report g)"]) (simp add: ring_study_def Let_def split_def setPinned_def)
next
  assume "argInt argv ''reps'' 5 = 2 ^ 32"
  then show "ring_study D Q M F ticksPerNs overhead run argv = None"
    using ring_study_no_reps [OF assms(1), of Q ticksPerNs] reps_wrap [of argv Q ticksPerNs] by simp
qed

definition sample_rates :: "int rates" where
  "sample_rates = \<lparr>ticks_of = (\<lambda>ns t. word_of_int (ns * t)), per_message = (\<lambda>ticks t n. uint ticks), throughput = (\<lambda>m. 1000 - m)\<rparr>"

definition plain_doubles :: "int doubles" where
  "plain_doubles = \<lparr>isfinite = (\<lambda>_. True), text_of = show_int, ticks_ns = (\<lambda>t _. uint t), above_zero = (\<lambda>v. 0 < v),
     rank_of = (\<lambda>_ n. n), literal = (\<lambda>a _. int a)\<rparr>"

definition plain_machine :: machine where
  "plain_machine = \<lparr>mc_cpu = [], mc_cpus = 8, mc_os = Linux, mc_compiler = OtherCompiler, mc_build = [], mc_time = 0\<rparr>"

definition plain_files :: filesystem where
  "plain_files = \<lparr>fs_opens = \<lambda>_. True, fs_writes = length, fs_closes = True\<rparr>"

lemma sample_reps: "argInt [''ring_study''] ''reps'' 5 = 5"
  by (simp add: argInt_def)

lemma ring_latency_verdict_witness:
  "\<exists>run. fst (ring_latency plain_doubles sample_rates plain_machine plain_files 1 0 run [''ring_latency'']) \<in> {0, 2}"
proof -
  obtain r where "run_returns (ring_ops 1024) (latency_config sample_rates 1 [''ring_latency'']) r"
    using run_exists [OF live_1024(3)] by blast
  then show ?thesis
    using ring_latency_verdict [of "[''ring_latency'']" sample_rates 1 "\<lambda>_. r" plain_doubles 0 plain_machine plain_files]
    by (intro exI [of _ "\<lambda>_. r"]) (simp add: hasFlag_def Let_def)
qed

lemma variants_exist: "\<exists>run. \<forall>(v, slug)\<in>set study_variants. \<forall>i cfg. variant_returns v cfg (run v (i :: nat) cfg)"
proof -
  have "\<forall>v cfg. \<exists>r. (\<exists>slug. (v, slug) \<in> set study_variants) \<longrightarrow> variant_returns v cfg r" using variant_exists by blast
  then obtain run where "\<forall>v cfg. (\<exists>slug. (v, slug) \<in> set study_variants) \<longrightarrow> variant_returns v cfg (run v cfg)" by metis
  then show ?thesis by (intro exI [of _ "\<lambda>v i cfg. run v cfg"]) blast
qed

lemma ring_study_verdict_witness:
  "\<exists>run code out. ring_study plain_doubles sample_rates plain_machine plain_files 1 0 run [''ring_study''] = Some (code, out) \<and> code \<in> {0, 2}"
proof -
  obtain run where run: "\<forall>(v, slug)\<in>set study_variants. \<forall>i cfg. variant_returns v cfg (run v (i :: nat) cfg)"
    using variants_exist by blast
  have "\<not> hasFlag [''ring_study''] ''--help''" by (simp add: hasFlag_def)
  from ring_study_verdict [OF this run, of plain_doubles sample_rates plain_machine plain_files 1 0]
  show ?thesis by (intro exI [of _ run]) (auto simp: sample_reps)
qed

end
