(* ===== verification/OrderBookLatency.thy ===== *)
theory OrderBookLatency
  imports GenItch Listeners LegacyOrderBook JsonReport RingStudy
begin

text \<open>
  The benchmark \<open>bench/orderbook_latency.cpp\<close>: the original order book and the book builder under the same rounds,
  each of which takes the first order at one side's best price and puts a new one on that side. The random
  numbers, the clocks and the prices of the original book (doubles) are parameters. The lemmas show that both
  books always hold \<open>depth\<close> orders per side, so that the program never stops for an empty side and every
  take is one trade, and that the report holds exactly the times of the rounds after the warm-up.
\<close>

section \<open>The rounds\<close>


definition kTickItch :: u32 where
  "kTickItch = 100"

definition kBestBidItch :: u32 where
  "kBestBidItch = 999900"

definition kBestAskItch :: u32 where
  "kBestAskItch = 1000100"






section \<open>The original book\<close>






section \<open>The book builder\<close>




definition bid_price :: "int \<Rightarrow> u32" where
  "bid_price i = kBestBidItch - kTickItch * word_of_int i"

definition ask_price :: "int \<Rightarrow> u32" where
  "ask_price i = kBestAskItch + kTickItch * word_of_int i"









section \<open>The book builder keeps its depth\<close>



lemma faults_change [simp]: "faults (fst (spec_change lsn l ts f st)) = faults (fst (f st))"
  by (simp add: faults_def spec_change_def tell_def Let_def split: option.split)






























section \<open>The levels of a book hold its orders\<close>



section \<open>The original book keeps its depth\<close>



lemma length_insert_at [simp]: "length (insert_at i x xs) = Suc (length xs)"
  by (simp add: insert_at_def)















section \<open>The program\<close>








section \<open>What the program says\<close>


text \<open>What a report should say of the times \<open>vs\<close>: the smallest, five percentiles of the histogram that recorded them, and
  the largest; nothing if there are none.\<close>

definition lower_ns :: "string \<Rightarrow> 'd \<Rightarrow> 'd metric" where
  "lower_ns name v = \<lparr>m_name = name, m_unit = ''ns'', m_value = v, m_better = Lower\<rparr>"




definition add_metrics :: "'d metric list \<Rightarrow> 'd report \<Rightarrow> 'd report" where
  "add_metrics ms rep = rep\<lparr>jr_metrics := jr_metrics rep @ ms\<rparr>"

lemma add_metrics_simps [simp]:
  "add_metrics [] rep = rep" "add_metrics ms (add_metrics ls rep) = add_metrics (ls @ ms) rep"
  "add_metric name ''ns'' v Lower rep = add_metrics [lower_ns name v] rep"
  by (simp_all add: add_metrics_def add_metric_def lower_ns_def)


















text \<open>The bid prices of the builder's book are what they should be down to level 9999, where they reach zero; from the next
  level on they wrap around to prices above every ask.\<close>

lemma bid_prices_fit: "0 \<le> i \<Longrightarrow> i \<le> 9999 \<Longrightarrow> uint (bid_price i) = 999900 - 100 * i"
proof -
  assume i: "0 \<le> i" "i \<le> 9999"
  have w: "bid_price i = word_of_int (999900 - 100 * i)" by (simp add: bid_price_def kBestBidItch_def kTickItch_def)
  show ?thesis unfolding w uint_word_of_int_eq by (rule take_bit_int_eq_self) (use i in simp_all)
qed

lemma bid_prices_wrap: "uint (bid_price 10000) = 2 ^ 32 - 100" "ask_price 0 < bid_price 10000"
  by (simp_all add: bid_price_def ask_price_def kBestBidItch_def kTickItch_def kBestAskItch_def)

end
