(* ===== verification/FeedMain.thy ===== *)
theory FeedMain
  imports FeedNetwork CommandLine LatencyHistogram
begin

text \<open>
  The rest of \<open>main\<close> of \<open>src/mold_recv.cpp\<close>: its options, the two latencies it takes of each packet, and the books it
  reports. \<open>FeedReceiver\<close> has the receiver without them; the theorem says that they change nothing in it, so that
  all that \<open>FeedNetwork\<close> shows of the receiver holds for the program, and that one time is taken of each
  packet that was well formed.
\<close>

section \<open>Options\<close>

fun recv_argString_loop :: "string list \<Rightarrow> string \<Rightarrow> string \<Rightarrow> string" where
  "recv_argString_loop [] p fallback = fallback"
| "recv_argString_loop (a # as) p fallback = (if starts_with p a then drop (length p) a else recv_argString_loop as p fallback)"

definition recv_argString :: "string list \<Rightarrow> string \<Rightarrow> string \<Rightarrow> string" where
  "recv_argString argv name fallback = recv_argString_loop (drop 1 argv) (arg_prefix name) fallback"

record recv_options =
  ro_iface :: string
  ro_groupA :: string
  ro_portA :: u16
  ro_groupB :: string
  ro_portB :: u16
  ro_core :: int
  ro_idle :: int
  ro_symbols :: string
  ro_rcvbuf :: int
  ro_gapWait :: int

text \<open>Times are in nanoseconds. \<open>port_of\<close> is the conversion of a \<open>long long\<close> to \<open>uint16_t\<close>.\<close>

definition port_of :: "int \<Rightarrow> u16" where
  "port_of i = word_of_int i"

definition recv_options_of :: "string list \<Rightarrow> recv_options" where
  "recv_options_of argv =
     (let portA = port_of (argInt argv ''port'' 26400)
      in \<lparr>ro_iface = recv_argString argv ''iface'' ''0.0.0.0'', ro_groupA = recv_argString argv ''group'' ''239.192.0.1'',
          ro_portA = portA, ro_groupB = recv_argString argv ''group-b'' [], ro_portB = port_of (argInt argv ''port-b'' (uint portA)),
          ro_core = to_int32 (argInt argv ''core'' (- 1)), ro_idle = argInt argv ''idle-ms'' 3000 * 1000000,
          ro_symbols = recv_argString argv ''symbols'' ''GOOGL'', ro_rcvbuf = to_int32 (argInt argv ''rcvbuf'' (8 * 2 ^ 20)),
          ro_gapWait = argInt argv ''gap-wait-us'' 1000 * 1000\<rparr>)"

text \<open>The sockets that are opened: group, port, interface and buffer size.\<close>

definition sockets_of :: "recv_options \<Rightarrow> (string \<times> u16 \<times> string \<times> int) list" where
  "sockets_of w = (ro_groupA w, ro_portA w, ro_iface w, ro_rcvbuf w)
     # (if ro_groupB w \<noteq> [] then [(ro_groupB w, ro_portB w, ro_iface w, ro_rcvbuf w)] else [])"

section \<open>Latencies\<close>

text \<open>A datagram with the kernel's time stamp, the time it was read, and the ticks that its processing takes.\<close>

record arrival =
  av_bytes :: bytes
  av_kernelNs :: int
  av_readNs :: int
  av_ticks :: u64

record recv_latencies =
  la_process :: histogram
  la_kernelToApp :: histogram

definition recv_latencies_new :: recv_latencies where
  "recv_latencies_new = \<lparr>la_process = hist_new, la_kernelToApp = hist_new\<rparr>"

definition timed_datagram :: "arrival \<Rightarrow> receiver \<times> recv_latencies \<Rightarrow> (receiver \<times> recv_latencies) option" where
  "timed_datagram a st = do {
     let (v, l) = st;
     let v = v\<lparr>rv_datagrams := rv_datagrams v + 1\<rparr>;
     (e, packet) \<leftarrow> decode (av_bytes a) no_packet;
     if e \<noteq> NoError then Some (v\<lparr>rv_malformed := (rv_malformed v)(e := rv_malformed v e + 1)\<rparr>, l)
     else do {
       (q, h) \<leftarrow> onPacket packet toBooks (rv_sequencer v) (rv_books v);
       p \<leftarrow> hist_record (av_ticks a) (la_process l);
       k \<leftarrow> (if av_kernelNs a > 0 \<and> av_readNs a \<ge> av_kernelNs a
             then hist_record (word_of_int (av_readNs a - av_kernelNs a)) (la_kernelToApp l) else Some (la_kernelToApp l));
       Some (v\<lparr>rv_sequencer := q, rv_books := h\<rparr>, \<lparr>la_process = p, la_kernelToApp = k\<rparr>)
     }
   }"

fun timed_sockets :: "arrival list \<Rightarrow> receiver \<times> recv_latencies \<Rightarrow> (receiver \<times> recv_latencies) option" where
  "timed_sockets [] st = Some st"
| "timed_sockets (a # as) st = do { st \<leftarrow> timed_datagram a st; timed_sockets as st }"

definition timed_turn :: "int \<Rightarrow> int \<Rightarrow> int \<times> arrival list \<Rightarrow> receiver \<times> recv_latencies \<Rightarrow> (bool \<times> receiver \<times> recv_latencies) option" where
  "timed_turn gapWait idle turn st = do {
     let (now, as) = turn;
     (v, l) \<leftarrow> timed_sockets as st;
     let got = (as \<noteq> []);
     v \<leftarrow> gap_timer gapWait now got v;
     if got
     then Some (False, v\<lparr>rv_lastArrival := now,
            rv_firstArrival := (if rv_firstArrival v = None then Some now else rv_firstArrival v)\<rparr>, l)
     else Some (rv_firstArrival v \<noteq> None \<and> now - rv_lastArrival v > idle, v, l)
   }"

fun timed_loop :: "int \<Rightarrow> int \<Rightarrow> (int \<times> arrival list) list \<Rightarrow> receiver \<times> recv_latencies \<Rightarrow> (bool \<times> receiver \<times> recv_latencies) option" where
  "timed_loop gapWait idle [] st = Some (sq_ended (rv_sequencer (fst st)), st)"
| "timed_loop gapWait idle (t # ts) st =
     (if sq_ended (rv_sequencer (fst st)) then Some (True, st)
      else do {
        (stop, st) \<leftarrow> timed_turn gapWait idle t st;
        if stop then Some (True, st) else timed_loop gapWait idle ts st
      })"

section \<open>The program\<close>

text \<open>The names in \<open>--symbols\<close>. Unlike \<open>bench/itch_replay.cpp\<close>, empty names before the last comma are kept.\<close>

function recv_symbols :: "string \<Rightarrow> string list" where
  "recv_symbols t =
     (if t = [] then []
      else takeWhile (\<lambda>c. c \<noteq> CHR '','') t # recv_symbols (tl (dropWhile (\<lambda>c. c \<noteq> CHR '','') t)))"
  by pat_completeness auto

termination recv_symbols
proof (relation "measure length")
  fix t :: string
  assume "t \<noteq> []"
  then have "0 < length t" by simp
  moreover have "length (dropWhile (\<lambda>c. c \<noteq> CHR '','') t) \<le> length t" by (rule length_dropWhile_le)
  ultimately have "length (dropWhile (\<lambda>c. c \<noteq> CHR '','') t) - 1 < length t" by linarith
  then show "(tl (dropWhile (\<lambda>c. c \<noteq> CHR '','') t), t) \<in> measure length" by (simp only: in_measure length_tl)
qed (rule wf_measure)

declare recv_symbols.simps [simp del]

text \<open>The line of a symbol that the directory names: its best bid and ask, as shares and price.\<close>

definition level_text :: "price_level option \<Rightarrow> (u64 \<times> u32) option" where
  "level_text = map_option (\<lambda>l. (l_shares l, l_price l))"

definition symbol_line :: "'l builder \<Rightarrow> string \<Rightarrow> (string \<times> (u64 \<times> u32) option \<times> (u64 \<times> u32) option) option" where
  "symbol_line b symbol =
     (let locate = locateOf symbol b
      in if locate < 0 then None
         else let book = books b (word_of_int locate)
              in Some (symbol, level_text (bestBid book), level_text (bestAsk book)))"

record recv_report =
  rp_receiver :: receiver
  rp_latencies :: recv_latencies
  rp_lines :: "(string \<times> (u64 \<times> u32) option \<times> (u64 \<times> u32) option) list"

text \<open>The exit code and what is reported. \<open>opens\<close> says whether all the sockets could be opened; if not, the exception
  ends the program. \<open>Some None\<close> while the loop still runs.\<close>

definition mold_recv_main ::
    "((string \<times> u16 \<times> string \<times> int) list \<Rightarrow> bool) \<Rightarrow> int \<Rightarrow> (int \<times> arrival list) list \<Rightarrow> string list
      \<Rightarrow> (nat \<times> recv_report option) option option" where
  "mold_recv_main opens start turns argv =
     (if length argv > 1 \<and> argv ! 1 = ''--help'' then Some (Some (0, None))
      else let w = recv_options_of argv
           in if \<not> opens (sockets_of w) then Some (Some (1, None))
              else do {
                v \<leftarrow> receiver_new start;
                (left, v, l) \<leftarrow> timed_loop (ro_gapWait w) (ro_idle w) turns (v, recv_latencies_new);
                if \<not> left then Some None
                else do {
                  v \<leftarrow> close_gaps v;
                  Some (Some (if clean v then 0 else 1,
                    Some \<lparr>rp_receiver = v, rp_latencies = l,
                      rp_lines = List.map_filter (symbol_line (fst (rv_books v))) (recv_symbols (ro_symbols w))\<rparr>))
                }
              })"


section \<open>Measuring changes nothing\<close>

definition plain_turns :: "(int \<times> arrival list) list \<Rightarrow> (int \<times> bytes list) list" where
  "plain_turns = map (map_prod id (map av_bytes))"

text \<open>One time of each well-formed datagram so far, and histograms of the right size.\<close>

definition timed_all :: "receiver \<times> recv_latencies \<Rightarrow> bool" where
  "timed_all st \<longleftrightarrow> (let (v, l) = st in
     length (lh_counts (la_process l)) = kBucketCount \<and> length (lh_counts (la_kernelToApp l)) = kBucketCount
     \<and> rv_datagrams v = lh_count (la_process l) + malformed_total v)"

lemma record_fits: "length (lh_counts h) = kBucketCount \<Longrightarrow>
    \<exists>h'. hist_record x h = Some h' \<and> length (lh_counts h') = kBucketCount \<and> lh_count h' = lh_count h + 1"
  using indexOf_less [of x] by (simp add: hist_record_def)

lemma malformed_more: "malformed_total (v\<lparr>rv_datagrams := n, rv_malformed := (rv_malformed v)(e := rv_malformed v e + 1)\<rparr>)
    = malformed_total v + 1"
  by (cases e) (simp_all add: malformed_total_def)

lemma malformed_rest [simp]: "malformed_total (v\<lparr>rv_datagrams := n\<rparr>) = malformed_total v"
  "malformed_total (v\<lparr>rv_sequencer := q\<rparr>) = malformed_total v" "malformed_total (v\<lparr>rv_books := h\<rparr>) = malformed_total v"
  "malformed_total (v\<lparr>rv_gapSince := g\<rparr>) = malformed_total v" "malformed_total (v\<lparr>rv_lastArrival := t\<rparr>) = malformed_total v"
  "malformed_total (v\<lparr>rv_firstArrival := f\<rparr>) = malformed_total v"
  by (simp_all add: malformed_total_def)

text \<open>A timed step is a step of the receiver, and keeps \<open>timed_all\<close>.\<close>

definition follows_plain :: "(receiver \<times> recv_latencies) option \<Rightarrow> receiver option \<Rightarrow> bool" where
  "follows_plain st v \<longleftrightarrow> map_option fst st = v \<and> (\<forall>x. st = Some x \<longrightarrow> timed_all x)"

lemma datagram_follows:
  assumes "timed_all (v, l)"
  shows "follows_plain (timed_datagram a (v, l)) (recv_datagram (av_bytes a) v)"
proof (cases "decode (av_bytes a) no_packet")
  case None
  then show ?thesis by (simp add: follows_plain_def timed_datagram_def recv_datagram_def)
next
  case (Some r)
  obtain e p where r: "r = (e, p)" by (cases r)
  show ?thesis
  proof (cases "e = NoError")
    case False
    then show ?thesis using assms Some r
      by (simp add: follows_plain_def timed_datagram_def recv_datagram_def timed_all_def malformed_more)
  next
    case True
    let ?v = "v\<lparr>rv_datagrams := rv_datagrams v + 1\<rparr>"
    show ?thesis
    proof (cases "onPacket p toBooks (rv_sequencer v) (rv_books v)")
      case None
      then show ?thesis using Some r True by (simp add: follows_plain_def timed_datagram_def recv_datagram_def)
    next
      case (Some o1)
      obtain q h where o1: "o1 = (q, h)" by (cases o1)
      have l: "length (lh_counts (la_process l)) = kBucketCount" "length (lh_counts (la_kernelToApp l)) = kBucketCount"
        "rv_datagrams v = lh_count (la_process l) + malformed_total v"
        using assms by (simp_all add: timed_all_def)
      obtain hp where hp: "hist_record (av_ticks a) (la_process l) = Some hp" "length (lh_counts hp) = kBucketCount"
        "lh_count hp = lh_count (la_process l) + 1" using record_fits [OF l(1)] by blast
      obtain hk where hk: "(if av_kernelNs a > 0 \<and> av_readNs a \<ge> av_kernelNs a
          then hist_record (word_of_int (av_readNs a - av_kernelNs a)) (la_kernelToApp l) else Some (la_kernelToApp l)) = Some hk"
        "length (lh_counts hk) = kBucketCount" using record_fits [OF l(2)] l(2) by (metis (full_types))
      show ?thesis using Some o1 r True hp hk l \<open>decode (av_bytes a) no_packet = Some r\<close>
        by (simp add: follows_plain_def timed_datagram_def recv_datagram_def timed_all_def)
    qed
  qed
qed

lemma sockets_follow: "timed_all st \<Longrightarrow> follows_plain (timed_sockets as st) (recv_sockets (map av_bytes as) (fst st))"
proof (induction as arbitrary: st)
  case (Cons a as)
  obtain v l where st: "st = (v, l)" by (cases st)
  have d: "follows_plain (timed_datagram a st) (recv_datagram (av_bytes a) v)" using datagram_follows Cons.prems st by simp
  show ?case
  proof (cases "timed_datagram a st")
    case None
    then show ?thesis using d st by (auto simp: follows_plain_def)
  next
    case (Some st')
    then have "recv_datagram (av_bytes a) v = Some (fst st')" "timed_all st'" using d by (auto simp: follows_plain_def)
    then show ?thesis using Cons.IH [of st'] Some st by simp
  qed
qed (simp add: follows_plain_def)

lemma giveUp_counts: "recv_giveUp v = Some v' \<Longrightarrow> rv_datagrams v' = rv_datagrams v \<and> malformed_total v' = malformed_total v"
  by (auto simp: recv_giveUp_def bind_Some_iff)

lemma timer_counts: "gap_timer w now got v = Some v' \<Longrightarrow> rv_datagrams v' = rv_datagrams v \<and> malformed_total v' = malformed_total v"
  by (auto simp: gap_timer_def bind_Some_iff giveUp_counts split: if_splits option.splits)

lemma turn_follows:
  assumes "timed_all st"
  shows "map_option (map_prod id fst) (timed_turn w i (now, as) st) = recv_turn w i (now, map av_bytes as) (fst st)
    \<and> (\<forall>stop st'. timed_turn w i (now, as) st = Some (stop, st') \<longrightarrow> timed_all st')"
proof -
  note s = sockets_follow [OF assms, of as]
  show ?thesis
  proof (cases "timed_sockets as st")
    case None
    then show ?thesis using s by (simp add: timed_turn_def recv_turn_def follows_plain_def)
  next
    case (Some st1)
    obtain v l where st1: "st1 = (v, l)" by (cases st1)
    have v: "recv_sockets (map av_bytes as) (fst st) = Some v" "timed_all (v, l)" using s Some st1 by (auto simp: follows_plain_def)
    show ?thesis
    proof (cases "gap_timer w now (as \<noteq> []) v")
      case None
      then show ?thesis using Some st1 v by (simp add: timed_turn_def recv_turn_def)
    next
      case (Some v2)
      then show ?thesis using \<open>timed_sockets as st = Some st1\<close> st1 v timer_counts [OF Some]
        by (auto simp: timed_turn_def recv_turn_def timed_all_def)
    qed
  qed
qed

lemma loop_follows:
  "timed_all st \<Longrightarrow> map_option (map_prod id fst) (timed_loop w i ts st) = recv_loop w i (plain_turns ts) (fst st)
    \<and> (\<forall>b st'. timed_loop w i ts st = Some (b, st') \<longrightarrow> timed_all st')"
proof (induction ts arbitrary: st)
  case (Cons t ts)
  obtain now as where t: "t = (now, as)" by (cases t)
  note f = turn_follows [OF Cons.prems, of w i now as]
  show ?case
  proof (cases "sq_ended (rv_sequencer (fst st))")
    case True
    then show ?thesis using Cons.prems by (auto simp: plain_turns_def)
  next
    case False
    show ?thesis
    proof (cases "timed_turn w i t st")
      case None
      then show ?thesis using False f t by (simp add: plain_turns_def)
    next
      case (Some r)
      obtain stop st1 where r: "r = (stop, st1)" by (cases r)
      have "timed_turn w i (now, as) st = Some (stop, st1)" using Some t r by simp
      with f have "recv_turn w i (now, map av_bytes as) (fst st) = Some (stop, fst st1)" "timed_all st1" by (cases st1; auto)+
      then show ?thesis using False Some r t Cons.IH [of st1] by (cases stop) (auto simp: plain_turns_def)
    qed
  qed
qed (auto simp: plain_turns_def)

lemma close_counts:
  assumes "close_gaps v = Some v'"
  shows "rv_datagrams v' = rv_datagrams v \<and> malformed_total v' = malformed_total v"
proof (rule close_gaps.raw_induct [where P = "\<lambda>v v'. rv_datagrams v' = rv_datagrams v \<and> malformed_total v' = malformed_total v",
      OF _ assms])
  fix f v v'
  assume "\<And>v y. f v = Some y \<Longrightarrow> rv_datagrams y = rv_datagrams v \<and> malformed_total y = malformed_total v"
    and "(if gapOpen (rv_sequencer v) then do { v \<leftarrow> recv_giveUp v; f v } else Some v) = Some v'"
  then show "rv_datagrams v' = rv_datagrams v \<and> malformed_total v' = malformed_total v"
    by (auto simp: bind_Some_iff giveUp_counts split: if_splits)
qed

lemma timed_new: "receiver_new start = Some v \<Longrightarrow> timed_all (v, recv_latencies_new)"
  by (auto simp: receiver_new_def bind_Some_iff timed_all_def recv_latencies_new_def hist_new_def malformed_total_def)

text \<open>C30. What \<open>mold_recv\<close> measures and prints changes nothing in what it does. Once its sockets are open, the program is
  defined, ends and exits exactly as the receiver of \<open>FeedReceiver\<close> with the options' waits does on the same
  datagrams; and when it reports, one processing time was taken of each datagram that was not counted as malformed.\<close>

theorem main_is_receiver:
  assumes "\<not> (length argv > 1 \<and> argv ! 1 = ''--help'')" "opens (sockets_of (recv_options_of argv))"
  shows "map_option (map_option (\<lambda>(code, r). (code, map_option rp_receiver r))) (mold_recv_main opens start turns argv)
      = map_option (map_option (\<lambda>(code, v). (code, Some v)))
          (mold_recv (ro_gapWait (recv_options_of argv)) (ro_idle (recv_options_of argv)) start (plain_turns turns))
    \<and> (\<forall>code r. mold_recv_main opens start turns argv = Some (Some (code, Some r)) \<longrightarrow>
         lh_count (la_process (rp_latencies r)) = rv_datagrams (rp_receiver r) - malformed_total (rp_receiver r))"
proof (cases "receiver_new start")
  case None
  then show ?thesis using assms by (simp add: mold_recv_main_def mold_recv_def Let_def)
next
  case (Some v)
  let ?w = "ro_gapWait (recv_options_of argv)" and ?i = "ro_idle (recv_options_of argv)"
  note f = loop_follows [OF timed_new [OF Some], of ?w ?i turns]
  show ?thesis
  proof (cases "timed_loop ?w ?i turns (v, recv_latencies_new)")
    case None
    then show ?thesis using assms Some f by (simp add: mold_recv_main_def mold_recv_def Let_def)
  next
    case (Some r)
    obtain left v1 l where r: "r = (left, v1, l)" by (cases r)
    have p: "recv_loop ?w ?i (plain_turns turns) v = Some (left, v1)" "timed_all (v1, l)" using f Some r by auto
    show ?thesis
    proof (cases "left \<and> close_gaps v1 \<noteq> None")
      case False
      then show ?thesis using assms \<open>receiver_new start = Some v\<close> Some r p by (auto simp: mold_recv_main_def mold_recv_def Let_def)
    next
      case True
      then obtain v2 where v2: "left" "close_gaps v1 = Some v2" by auto
      then have "rv_datagrams v2 = lh_count (la_process l) + malformed_total v2"
        using close_counts [OF v2(2)] p(2) by (simp add: timed_all_def)
      then show ?thesis using assms \<open>receiver_new start = Some v\<close> Some r p v2
        by (simp add: mold_recv_main_def mold_recv_def Let_def)
    qed
  qed
qed

text \<open>A session of one datagram that is too short, and then nothing until the wait is over.\<close>

lemma main_is_receiver_witness:
  "\<exists>r. mold_recv_main (\<lambda>_. True) 0
      [(5, [\<lparr>av_bytes = [], av_kernelNs = 0, av_readNs = 3, av_ticks = 7\<rparr>]), (4000000000, [])] [''mold_recv''] = Some (Some (1, Some r))
    \<and> lh_count (la_process (rp_latencies r)) = rv_datagrams (rp_receiver r) - malformed_total (rp_receiver r)"
proof -
  let ?turns = "[(5, [\<lparr>av_bytes = [], av_kernelNs = 0, av_readNs = 3, av_ticks = 7\<rparr>]), (4000000000, [])]"
  have h: "\<not> (length [''mold_recv''] > 1 \<and> [''mold_recv''] ! 1 = ''--help'')" "(\<lambda>_. True) (sockets_of (recv_options_of [''mold_recv'']))" by simp_all
  have n: "(2::nat) ^ 16 \<le> 2 ^ 61" by simp
  obtain b where b: "builder_new (2 ^ 16) () = Some b" using new_builder_rep [OF n, of "()"] by blast
  have w: "ro_gapWait (recv_options_of [''mold_recv'']) = 1000000" "ro_idle (recv_options_of [''mold_recv'']) = 3000000000"
    by (simp_all add: recv_options_of_def argInt_def Let_def)
  have "\<exists>v. mold_recv 1000000 3000000000 0 (plain_turns ?turns) = Some (Some (1, v))"
    using b by (simp add: mold_recv_def receiver_new_def plain_turns_def recv_turn_def recv_datagram_def decode_def gap_timer_def
        kHeaderBytes_def gapOpen_def sequencer_new_def close_gaps.simps clean_def)
  with main_is_receiver [OF h, of 0 ?turns] show ?thesis unfolding w by auto
qed

section \<open>The symbols\<close>

definition comma_names :: "string list \<Rightarrow> string" where
  "comma_names ns = concat (map (\<lambda>n. n @ '','') ns)"

text \<open>Names without commas, each followed by a comma, come back as they are, empty ones too; and the comma after a last
  name that is not empty makes no difference.\<close>

lemma recv_symbols_Cons: "CHR '','' \<notin> set n \<Longrightarrow> recv_symbols (n @ CHR '','' # t) = n # recv_symbols t"
proof -
  assume n: "CHR '','' \<notin> set n"
  then have "takeWhile (\<lambda>c. c \<noteq> CHR '','') (n @ CHR '','' # t) = n" "dropWhile (\<lambda>c. c \<noteq> CHR '','') (n @ CHR '','' # t) = CHR '','' # t"
    by (induction n) auto
  then show ?thesis by (subst recv_symbols.simps) simp
qed

lemma recv_symbols_last: "CHR '','' \<notin> set n \<Longrightarrow> n \<noteq> [] \<Longrightarrow> recv_symbols n = [n]"
proof -
  assume n: "CHR '','' \<notin> set n" "n \<noteq> []"
  then have w: "takeWhile (\<lambda>c. c \<noteq> CHR '','') n = n" "dropWhile (\<lambda>c. c \<noteq> CHR '','') n = []"
    by (auto simp: takeWhile_eq_all_conv dropWhile_eq_Nil_conv)
  have "recv_symbols n = takeWhile (\<lambda>c. c \<noteq> CHR '','') n # recv_symbols (tl (dropWhile (\<lambda>c. c \<noteq> CHR '','') n))"
    by (subst recv_symbols.simps) (simp add: n(2))
  then show ?thesis unfolding w by (simp add: recv_symbols.simps [of "[]"])
qed

lemma recv_symbols_names: "\<forall>n\<in>set ns. CHR '','' \<notin> set n \<Longrightarrow> recv_symbols (comma_names ns @ t) = ns @ recv_symbols t"
  by (induction ns) (simp_all add: comma_names_def recv_symbols_Cons)

text \<open>An empty name is that of the first instrument without a directory entry: its line is printed too.\<close>

lemma empty_name_line:
  assumes "symbols (core b) 0 = []"
  shows "locateOf [] b = 0" "symbol_line b [] \<noteq> None"
proof -
  have "[0..<kMaxLocates] = 0 # [1..<kMaxLocates]" by (subst upt_conv_Cons) (simp_all add: kMaxLocates_def)
  then show "locateOf [] b = 0" using assms by (simp add: locateOf_def)
  then show "symbol_line b [] \<noteq> None" by (simp add: symbol_line_def Let_def)
qed

text \<open>The best levels of a builder that represents the live orders \<open>B\<close> are printed as the last levels of the two
  sides of \<open>B\<close>.\<close>

lemma symbol_line_spec:
  assumes "builder_rep b L" "0 \<le> locateOf name b"
  shows "symbol_line b name = Some (name,
    map_option (\<lambda>(p, n, v). (v, p)) (vec_back (book_levels (orders b L) (word_of_int (locateOf name b)) Bid)),
    map_option (\<lambda>(p, n, v). (v, p)) (vec_back (book_levels (orders b L) (word_of_int (locateOf name b)) Ask)))"
proof -
  let ?l = "word_of_int (locateOf name b) :: u16"
  have "vec_back (book_levels (orders b L) ?l Bid) = map_option level_view (bestBid (books b ?l))"
    "vec_back (book_levels (orders b L) ?l Ask) = map_option level_view (bestAsk (books b ?l))"
    using rep_levels [OF assms(1), of ?l Bid, symmetric] rep_levels [OF assms(1), of ?l Ask, symmetric]
    by (simp_all add: vec_back_map bestBid_def bestAsk_def)
  then show ?thesis using assms(2)
    by (simp add: symbol_line_def Let_def level_text_def option.map_comp comp_def level_view_def)
qed

end
